(* ===== verification/Compat_Prelude.thy ===== *)
theory Compat_Prelude
  imports Main "HOL-Library.Word" "HOL-Library.Monad_Syntax" "HOL-Library.Multiset"
    "HOL-Library.Signed_Division"
begin

text \<open>
  Shared vocabulary of the development: the reading of C executions as values of
  type option, pointers, characters and C strings, int-indexed arrays, and the
  generic lemmas the component theories use.

  Conventions.
  \<^item> An operation of the source that can have undefined behaviour (a null
    dereference, an access outside an array, a division by zero) returns
    \<open>'a option\<close>; \<open>None\<close> means that the C execution is undefined at that
    point, \<open>Some x\<close> that it is defined and yields \<open>x\<close>.
  \<^item> \<open>ptr\<close> is a typed C pointer to a structure: null or the address of an
    object.
  \<^item> A C string is the list of its characters without the terminating NUL;
    \<open>cur\<close> reads the character a string pointer designates (the terminator at
    the end).
\<close>

unbundle bit_operations_syntax

named_theorems c_string "C string helpers and their evaluation"
named_theorems c_array "int-indexed array access"

section \<open>Pointers\<close>

datatype ptr = Null | Ref nat

lemma ptr_not_Null: "(p \<noteq> Null) = (\<exists>a. p = Ref a)"
  by (cases p) auto

fun addr_set :: "ptr \<Rightarrow> nat set" where
  "addr_set Null = {}"
| "addr_set (Ref a) = {a}"

text \<open>The pointer to the first element of a sequence, null if there is none.\<close>

definition first_ptr :: "nat list \<Rightarrow> ptr" where
  "first_ptr xs = (case xs of [] \<Rightarrow> Null | x # _ \<Rightarrow> Ref x)"

lemma first_ptr_simps [simp]: "first_ptr [] = Null" "first_ptr (x # xs) = Ref x"
  by (simp_all add: first_ptr_def)

lemma first_ptr_append: "xs \<noteq> [] \<Longrightarrow> first_ptr (xs @ ys) = first_ptr xs"
  by (cases xs) auto

section \<open>Characters and C strings\<close>

abbreviation NUL :: char where "NUL \<equiv> CHR 0x00"

fun cur :: "string \<Rightarrow> char" where
  "cur [] = NUL"
| "cur (c # cs) = c"

fun strchr :: "string \<Rightarrow> char \<Rightarrow> string option" where
  "strchr [] c = (if c = NUL then Some [] else None)"
| "strchr (x # xs) c = (if x = c then Some (x # xs) else strchr xs c)"

definition strncmp_eq :: "string \<Rightarrow> string \<Rightarrow> nat \<Rightarrow> bool" where
  "strncmp_eq a b n \<longleftrightarrow> take n a = take n b"

text \<open>The conversion of a \<open>char\<close> to \<open>int\<close>; whether \<open>char\<close> is signed is a
  property of the platform.\<close>

definition int_of_char :: "bool \<Rightarrow> char \<Rightarrow> int" where
  "int_of_char sgnd c =
     (let n = int (of_char c :: nat) in if sgnd \<and> n \<ge> 128 then n - 256 else n)"

definition c_string_ok :: "string \<Rightarrow> bool" where
  "c_string_ok s \<longleftrightarrow> NUL \<notin> set s"

lemma cur_eq_NUL [c_string]: "c_string_ok s \<Longrightarrow> cur s = NUL \<longleftrightarrow> s = []"
  by (cases s) (auto simp: c_string_ok_def)

lemma strchr_Some_suffix:
  "strchr s c = Some t \<Longrightarrow> \<exists>pre. s = pre @ t \<and> c \<notin> set pre \<and> cur t = c"
proof (induction s arbitrary: t)
  case Nil
  then show ?case by (auto split: if_splits)
next
  case (Cons x xs)
  show ?case
  proof (cases "x = c")
    case True
    with Cons.prems show ?thesis by auto
  next
    case False
    with Cons obtain pre where "xs = pre @ t" "c \<notin> set pre" "cur t = c" by auto
    with False have "x # xs = (x # pre) @ t \<and> c \<notin> set (x # pre) \<and> cur t = c" by auto
    then show ?thesis by blast
  qed
qed

lemma strchr_None: "strchr s c = None \<longleftrightarrow> c \<noteq> NUL \<and> c \<notin> set s"
  by (induction s) auto

section \<open>Arrays indexed by C ints\<close>

definition in_range :: "'a list \<Rightarrow> int \<Rightarrow> bool" where
  "in_range xs i \<longleftrightarrow> 0 \<le> i \<and> i < int (length xs)"

definition aget :: "'a list \<Rightarrow> int \<Rightarrow> 'a option" where
  "aget xs i = (if in_range xs i then Some (xs ! nat i) else None)"

definition aset :: "'a list \<Rightarrow> int \<Rightarrow> 'a \<Rightarrow> 'a list option" where
  "aset xs i v = (if in_range xs i then Some (xs[nat i := v]) else None)"

lemma in_range_of_nat [simp, c_array]: "in_range xs (int i) \<longleftrightarrow> i < length xs"
  by (simp add: in_range_def)

lemma aget_Some [c_array]: "in_range xs i \<Longrightarrow> aget xs i = Some (xs ! nat i)"
  by (simp add: aget_def)

lemma aset_Some [c_array]: "in_range xs i \<Longrightarrow> aset xs i v = Some (xs[nat i := v])"
  by (simp add: aset_def)

lemma aset_length: "aset xs i v = Some ys \<Longrightarrow> length ys = length xs"
  by (auto simp: aset_def split: if_splits)

end
