(* ===== verification/Permute_Args.thy ===== *)
theory Permute_Args
  imports Compat_Prelude
begin

text \<open>
  The block exchange of \<^verbatim>\<open>src/crypto/compat/getopt_long.c\<close>: \<open>gcd\<close> and
  \<open>permute_args\<close>, which swaps the block of skipped non-options with the block of
  options behind it by following the cycles of the rotation. The lemmas show that
  the Euclidean loop computes the greatest common divisor and that following the
  cycles is the exchange of the two blocks.
\<close>

section \<open>Model\<close>

text \<open>\<open>gcd\<close>: the remainder by zero is undefined behaviour (\<open>None\<close>); C's
  \<open>%\<close> truncates (\<open>smod\<close>).\<close>

function gcd_c :: "int \<Rightarrow> int \<Rightarrow> int option" where
  "gcd_c a b =
     (if b = 0 then None
      else (let c = a smod b in if c \<noteq> 0 then gcd_c b c else Some b))"
  by pat_completeness auto
termination
proof (relation "measure (\<lambda>(a, b). nat \<bar>b\<bar>)")
  show "wf (measure (\<lambda>(a :: int, b). nat \<bar>b\<bar>))" by simp
next
  fix a b c :: int
  assume "b \<noteq> 0" and c: "c = a smod b" and "c \<noteq> 0"
  have "\<bar>a smod b\<bar> < \<bar>b\<bar>"
    using smod_int_range [where a = a and b = b] \<open>b \<noteq> 0\<close> by (auto simp: abs_less_iff)
  then show "((b, c), (a, b)) \<in> measure (\<lambda>(a, b). nat \<bar>b\<bar>)"
    using c by simp
qed

declare gcd_c.simps [simp del]

text \<open>The inner loop of \<open>permute_args\<close>, run \<open>j\<close> more times.\<close>

fun permute_cycle :: "int \<Rightarrow> int \<Rightarrow> int \<Rightarrow> int \<Rightarrow> nat \<Rightarrow> int \<Rightarrow> 'a list \<Rightarrow> 'a list option" where
  "permute_cycle nnonopts nopts panonopt_end cstart 0 pos nargv = Some nargv"
| "permute_cycle nnonopts nopts panonopt_end cstart (Suc j) pos nargv =
     (let pos = (if pos \<ge> panonopt_end then pos - nnonopts else pos + nopts) in
      do {
        swap \<leftarrow> aget nargv pos;
        start \<leftarrow> aget nargv cstart;
        nargv \<leftarrow> aset nargv pos start;
        nargv \<leftarrow> aset nargv cstart swap;
        permute_cycle nnonopts nopts panonopt_end cstart j pos nargv
      })"

text \<open>The outer loop, \<open>k\<close> cycles still to do, the next one with index \<open>i\<close>.\<close>

fun permute_cycles :: "int \<Rightarrow> int \<Rightarrow> int \<Rightarrow> nat \<Rightarrow> nat \<Rightarrow> int \<Rightarrow> 'a list \<Rightarrow> 'a list option" where
  "permute_cycles nnonopts nopts panonopt_end cyclelen 0 i nargv = Some nargv"
| "permute_cycles nnonopts nopts panonopt_end cyclelen (Suc k) i nargv =
     (let cstart = panonopt_end + i in
      do {
        nargv \<leftarrow> permute_cycle nnonopts nopts panonopt_end cstart cyclelen cstart nargv;
        permute_cycles nnonopts nopts panonopt_end cyclelen k (i + 1) nargv
      })"

definition permute_args :: "int \<Rightarrow> int \<Rightarrow> int \<Rightarrow> 'a list \<Rightarrow> 'a list option" where
  "permute_args panonopt_start panonopt_end opt_end nargv =
     (let nnonopts = panonopt_end - panonopt_start;
          nopts = opt_end - panonopt_end in
      do {
        ncycle \<leftarrow> gcd_c nnonopts nopts;
        let cyclelen = (opt_end - panonopt_start) sdiv ncycle;
        permute_cycles nnonopts nopts panonopt_end (nat cyclelen) (nat ncycle) 0 nargv
      })"

section \<open>The Euclidean loop\<close>

lemma gcd_c_correct: "0 \<le> a \<Longrightarrow> 0 < b \<Longrightarrow> gcd_c a b = Some (gcd a b)"
proof (induction a b rule: gcd_c.induct)
  case (1 a b)
  have smod: "a smod b = a mod b"
    using "1.prems" by (simp add: smod_mod_positive)
  show ?case
  proof (cases "a mod b = 0")
    case True
    then have "b dvd a" by (simp add: dvd_eq_mod_eq_0)
    then have "gcd a b = b" using "1.prems" by (simp add: gcd_proj2_iff)
    with True smod "1.prems" show ?thesis by (simp add: gcd_c.simps [of a b])
  next
    case False
    have "0 < a mod b" using False "1.prems" by (simp add: order.not_eq_order_implies_strict)
    then have "gcd_c b (a smod b) = Some (gcd b (a mod b))"
      using "1.IH" [OF _ refl] "1.prems" False smod by simp
    moreover have "gcd b (a mod b) = gcd a b"
      by (metis gcd.commute gcd_red_int)
    ultimately show ?thesis
      using False smod "1.prems" by (simp add: gcd_c.simps [of a b])
  qed
qed

section \<open>The cycles of a rotation\<close>

text \<open>Relative to the start of the window of length \<open>n + m\<close>, the position the cycle
  through \<open>c\<close> reaches after \<open>k\<close> steps of length \<open>m\<close>.\<close>

definition rot_pos :: "nat \<Rightarrow> nat \<Rightarrow> nat \<Rightarrow> nat \<Rightarrow> nat" where
  "rot_pos n m c k = (c + k * m) mod (n + m)"

lemma rot_pos_less: "0 < m \<Longrightarrow> rot_pos n m c k < n + m"
  by (simp add: rot_pos_def)

lemma rot_pos_0: "c < n + m \<Longrightarrow> rot_pos n m c 0 = c"
  by (simp add: rot_pos_def)

lemma rot_pos_Suc:
  assumes "0 < m"
  shows "rot_pos n m c (Suc k) =
    (if n \<le> rot_pos n m c k then rot_pos n m c k - n else rot_pos n m c k + m)"
proof -
  let ?p = "rot_pos n m c k"
  have lt: "?p < n + m" using assms by (rule rot_pos_less)
  have "rot_pos n m c (Suc k) = (?p + m) mod (n + m)"
    by (simp add: rot_pos_def mod_add_left_eq add.assoc add.commute [of m])
  also have "\<dots> = (if n \<le> ?p then ?p - n else ?p + m)"
  proof (cases "n \<le> ?p")
    case True
    then have "?p + m = (?p - n) + (n + m)" by simp
    then have "(?p + m) mod (n + m) = (?p - n) mod (n + m)"
      by (metis mod_add_self2)
    with True lt show ?thesis by simp
  next
    case False
    then show ?thesis by simp
  qed
  finally show ?thesis .
qed

lemma rot_pos_back:
  assumes "0 < m"
  shows "(rot_pos n m c (Suc k) + n) mod (n + m) = rot_pos n m c k"
proof -
  have "rot_pos n m c k + m + n = rot_pos n m c k + (n + m)" by simp
  then have "(rot_pos n m c k + m + n) mod (n + m) = rot_pos n m c k"
    using rot_pos_less [OF assms, of n c k] by (metis mod_add_self2 mod_less)
  then show ?thesis
    using rot_pos_less [OF assms, of n c k] by (auto simp: rot_pos_Suc [OF assms])
qed

lemma rot_pos_inj:
  assumes n: "0 < n" and m: "0 < m" and eq: "rot_pos n m c j = rot_pos n m c k"
    and jk: "j \<le> k" and k: "k < (n + m) div gcd n m"
  shows "j = k"
proof (rule ccontr)
  assume "j \<noteq> k"
  let ?g = "gcd n m"
  have g: "0 < ?g" using n by simp
  have "(c + j * m) mod (n + m) = (c + k * m) mod (n + m)"
    using eq by (simp add: rot_pos_def)
  then have "(n + m) dvd (c + k * m) - (c + j * m)"
    using jk by (metis add_le_mono le_refl mod_eq_dvd_iff_nat mult_le_mono1)
  then have dvd: "(n + m) dvd (k - j) * m"
    by (simp add: diff_mult_distrib)
  obtain n' m' where n': "n = ?g * n'" and m': "m = ?g * m'" and cop: "coprime n' m'"
    using gcd_coprime_exists [of n m] n by (metis gcd_nat.neutr_eq_iff less_numeral_extra(3) mult.commute)
  have sum: "n + m = ?g * (n' + m')" by (metis distrib_left m' n')
  have K: "(n + m) div ?g = n' + m'"
    using sum g by (metis nonzero_mult_div_cancel_left less_numeral_extra(3))
  have "?g * (n' + m') dvd ?g * ((k - j) * m')"
    using dvd sum m' by (metis mult.left_commute)
  then have "(n' + m') dvd (k - j) * m'" using n by (simp add: dvd_mult_cancel_left)
  moreover have "coprime (n' + m') m'" using cop by (simp add: coprime_iff_gcd_eq_1)
  ultimately have "(n' + m') dvd (k - j)" by (simp add: coprime_dvd_mult_left_iff)
  moreover have "0 < k - j" and "k - j < n' + m'" using jk \<open>j \<noteq> k\<close> k K by auto
  ultimately show False by (simp add: nat_dvd_not_less)
qed

lemma rot_pos_cycle_end:
  assumes "0 < n" and "c < n + m"
  shows "rot_pos n m c ((n + m) div gcd n m) = c"
proof -
  let ?g = "gcd n m"
  have "(n + m) div ?g * m = (n + m) * (m div ?g)"
    by (metis div_mult_swap dvd_add gcd_dvd1 gcd_dvd2 mult.commute)
  then show ?thesis using assms by (simp add: rot_pos_def)
qed

lemma rot_pos_class: "rot_pos n m c k mod gcd n m = c mod gcd n m"
proof -
  have "rot_pos n m c k mod gcd n m = (c + k * m) mod gcd n m"
    unfolding rot_pos_def by (rule mod_mod_cancel) simp
  also have "\<dots> = (c mod gcd n m + (k * m) mod gcd n m) mod gcd n m"
    by (simp only: mod_add_eq)
  also have "(k * m) mod gcd n m = 0" by (simp add: dvd_imp_mod_0)
  finally show ?thesis by (simp only: add_0_right mod_mod_trivial)
qed

text \<open>The cycle through \<open>c\<close> visits every position of its residue class.\<close>

lemma rot_pos_onto:
  assumes n: "0 < n" and m: "0 < m"
  shows "rot_pos n m c ` {..<(n + m) div gcd n m} = {r. r < n + m \<and> r mod gcd n m = c mod gcd n m}"
    (is "?P = ?C")
proof (rule card_subset_eq)
  let ?g = "gcd n m" and ?K = "(n + m) div gcd n m"
  have g: "0 < ?g" using n by simp
  show "finite ?C" by simp
  show "?P \<subseteq> ?C" using rot_pos_less [OF m] rot_pos_class by auto
  have "inj_on (rot_pos n m c) {..<?K}"
    by (rule linorder_inj_onI) (use rot_pos_inj [OF n m] in \<open>auto dest: less_imp_le\<close>)
  then have "card ?P = ?K" by (simp add: card_image)
  moreover have "?C = (\<lambda>q. c mod ?g + q * ?g) ` {..<?K}"
  proof (intro equalityI subsetI)
    fix r assume "r \<in> ?C"
    then have r: "r < n + m" "r mod ?g = c mod ?g" by auto
    have "r = c mod ?g + (r div ?g) * ?g" by (metis mod_div_mult_eq r(2))
    moreover have "r div ?g < ?K"
      by (rule less_mult_imp_div_less) (use r(1) in \<open>simp add: distrib_right\<close>)
    ultimately show "r \<in> (\<lambda>q. c mod ?g + q * ?g) ` {..<?K}" by blast
  next
    fix r assume "r \<in> (\<lambda>q. c mod ?g + q * ?g) ` {..<?K}"
    then obtain q where q: "q < ?K" and r: "r = c mod ?g + q * ?g" by auto
    have "r < Suc q * ?g" using g r by simp
    also have "Suc q * ?g \<le> ?K * ?g" using q by (intro mult_le_mono1) simp
    also have "?K * ?g = n + m" by (rule dvd_div_mult_self) simp
    finally show "r \<in> ?C" using r by simp
  qed
  moreover have "inj_on (\<lambda>q. c mod ?g + q * ?g) {..<?K}" using g by (auto intro: inj_onI)
  ultimately show "card ?P = card ?C" by (simp add: card_image)
qed

section \<open>Correctness of the cycle loops\<close>

text \<open>
  \<open>cycle_inv X s n m c k xs\<close>: after \<open>k\<close> swaps of the cycle through \<open>c\<close>, the
  vector \<open>xs\<close> holds at \<open>c\<close> the element the cycle will move next, at the visited
  positions the element \<open>n\<close> places further on, and is unchanged elsewhere.
\<close>

definition cycle_inv :: "'a list \<Rightarrow> nat \<Rightarrow> nat \<Rightarrow> nat \<Rightarrow> nat \<Rightarrow> nat \<Rightarrow> 'a list \<Rightarrow> bool" where
  "cycle_inv X s n m c k xs \<longleftrightarrow>
     length xs = length X
     \<and> (\<forall>q < length X. q < s \<or> s + n + m \<le> q \<longrightarrow> xs ! q = X ! q)
     \<and> (\<forall>r < n + m. xs ! (s + r) =
          (if r = c then X ! (s + rot_pos n m c k)
           else if r \<in> rot_pos n m c ` {1..k} then X ! (s + (r + n) mod (n + m))
           else X ! (s + r)))"

lemma permute_cycle_step:
  assumes pos: "p' < length xs" and c: "c < length xs"
    and p': "int p' = (if pos \<ge> e then pos - nn else pos + no)"
  shows "permute_cycle nn no e (int c) (Suc j) pos xs =
    permute_cycle nn no e (int c) j (int p') (xs[p' := xs ! c, c := xs ! p'])"
  using assms by (simp add: Let_def aget_def aset_def flip: p')

lemma cycle_inv_swap:
  assumes n: "0 < n" and m: "0 < m" and c: "c < n + m" and k: "Suc k < (n + m) div gcd n m"
    and len: "s + n + m \<le> length X" and inv: "cycle_inv X s n m c k xs"
  shows "cycle_inv X s n m c (Suc k)
    (xs[s + rot_pos n m c (Suc k) := xs ! (s + c), s + c := xs ! (s + rot_pos n m c (Suc k))])"
    (is "cycle_inv X s n m c (Suc k) ?ys")
proof -
  let ?p = "rot_pos n m c"
  have p: "?p (Suc k) < n + m" by (rule rot_pos_less [OF m])
  have pc: "?p (Suc k) \<noteq> c"
    using rot_pos_inj [OF n m, of c 0 "Suc k"] k rot_pos_0 [OF c] by auto
  have fresh: "?p (Suc k) \<notin> ?p ` {1..k}"
    using rot_pos_inj [OF n m, of c _ "Suc k"] k by fastforce
  have old: "xs ! (s + r) = (if r = c then X ! (s + ?p k)
      else if r \<in> ?p ` {1..k} then X ! (s + (r + n) mod (n + m)) else X ! (s + r))"
    if "r < n + m" for r
    using inv that by (simp add: cycle_inv_def)
  have l: "length xs = length X" using inv by (simp add: cycle_inv_def)
  have "?ys ! (s + r) = (if r = c then X ! (s + ?p (Suc k))
      else if r \<in> ?p ` {1..Suc k} then X ! (s + (r + n) mod (n + m)) else X ! (s + r))"
    if r: "r < n + m" for r
  proof -
    consider "r = c" | "r = ?p (Suc k)" "r \<noteq> c" | "r \<noteq> c" "r \<noteq> ?p (Suc k)" by blast
    then show ?thesis
    proof cases
      case 1
      then show ?thesis using old [OF p] pc fresh c l len by (simp add: nth_list_update)
    next
      case 2
      then show ?thesis
        using old [OF c] rot_pos_back [OF m, of n c k] p l len
        by (simp add: nth_list_update)
    next
      case 3
      then show ?thesis using old [OF r] by (auto simp: atLeastAtMostSuc_conv)
    qed
  qed
  moreover have "?ys ! q = X ! q" if "q < length X" "q < s \<or> s + n + m \<le> q" for q
    using inv that c p by (auto simp: cycle_inv_def nth_list_update)
  ultimately show ?thesis using l by (simp add: cycle_inv_def)
qed

lemma permute_cycle_correct:
  assumes n: "0 < n" and m: "0 < m" and c: "n \<le> c" "c < n + m"
    and len: "s + n + m \<le> length X"
    and k: "k < (n + m) div gcd n m" and inv: "cycle_inv X s n m c k xs"
  shows "\<exists>ys. permute_cycle (int n) (int m) (int (s + n)) (int (s + c))
      ((n + m) div gcd n m - k) (int (s + rot_pos n m c k)) xs = Some ys
    \<and> cycle_inv X s n m c ((n + m) div gcd n m - 1) ys"
  using k inv
proof (induction "(n + m) div gcd n m - Suc k" arbitrary: k xs)
  case 0
  let ?K = "(n + m) div gcd n m"
  have K: "?K = Suc k" using 0 by simp
  have l: "length xs = length X" using "0.prems" by (simp add: cycle_inv_def)
  have fin: "rot_pos n m c (Suc k) = c"
    using rot_pos_cycle_end [OF n c(2)] K by simp
  have "permute_cycle (int n) (int m) (int (s + n)) (int (s + c)) (Suc 0)
      (int (s + rot_pos n m c k)) xs =
    permute_cycle (int n) (int m) (int (s + n)) (int (s + c)) 0 (int (s + c))
      (xs[s + c := xs ! (s + c), s + c := xs ! (s + c)])"
    by (rule permute_cycle_step) (use rot_pos_Suc [OF m, of n c k] fin c l len in auto)
  then show ?case using K "0.prems" by simp
next
  case (Suc d)
  let ?K = "(n + m) div gcd n m" and ?p = "rot_pos n m c (Suc k)"
  have k: "Suc k < ?K" using Suc.hyps by simp
  have l: "length xs = length X" using Suc.prems by (simp add: cycle_inv_def)
  have p: "?p < n + m" by (rule rot_pos_less [OF m])
  have "permute_cycle (int n) (int m) (int (s + n)) (int (s + c)) (Suc (?K - Suc k))
      (int (s + rot_pos n m c k)) xs =
    permute_cycle (int n) (int m) (int (s + n)) (int (s + c)) (?K - Suc k) (int (s + ?p))
      (xs[s + ?p := xs ! (s + c), s + c := xs ! (s + ?p)])"
    by (rule permute_cycle_step) (use rot_pos_Suc [OF m, of n c k] p c l len in auto)
  moreover have "?K - k = Suc (?K - Suc k)" using k by simp
  ultimately show ?case
    using Suc.hyps(1) [OF _ k cycle_inv_swap [OF n m c(2) k len Suc.prems(2)]] Suc.hyps(2)
    by simp
qed

text \<open>\<open>cycles_inv X s n m i xs\<close>: the first \<open>i\<close> cycles, the residue classes below
  \<open>i\<close>, have been rotated.\<close>

definition cycles_inv :: "'a list \<Rightarrow> nat \<Rightarrow> nat \<Rightarrow> nat \<Rightarrow> nat \<Rightarrow> 'a list \<Rightarrow> bool" where
  "cycles_inv X s n m i xs \<longleftrightarrow>
     length xs = length X
     \<and> (\<forall>q < length X. q < s \<or> s + n + m \<le> q \<longrightarrow> xs ! q = X ! q)
     \<and> (\<forall>r < n + m. xs ! (s + r) =
          (if r mod gcd n m < i then X ! (s + (r + n) mod (n + m)) else X ! (s + r)))"

lemma cycles_inv_Suc:
  assumes n: "0 < n" and m: "0 < m" and i: "i < gcd n m"
    and len: "s + n + m \<le> length X"
    and inv: "cycles_inv X s n m i xs"
    and cyc: "cycle_inv xs s n m (n + i) ((n + m) div gcd n m - 1) ys"
  shows "cycles_inv X s n m (Suc i) ys"
proof -
  let ?g = "gcd n m" and ?K = "(n + m) div gcd n m" and ?p = "rot_pos n m (n + i)"
  have c: "n + i < n + m"
    using i m by (metis add_less_cancel_left gcd_le2_nat less_le_trans less_numeral_extra(3))
  have ci: "(n + i) mod ?g = i" using i by (metis gcd_dvd1 mod_add_self1 mod_less dvd_imp_mod_0 add.left_neutral mod_add_left_eq)
  have onto: "?p ` {..<?K} = {r. r < n + m \<and> r mod ?g = i}"
    using rot_pos_onto [OF n m, of "n + i"] ci by simp
  have K: "0 < ?K" using n by (simp add: div_greater_zero_iff gcd_le1_nat trans_le_add1)
  have split: "{..<?K} = insert 0 {1..?K - 1}" using K by auto
  have fin: "?p ?K = n + i" by (rule rot_pos_cycle_end [OF n c])
  have new: "ys ! (s + r) = (if r mod ?g = i then xs ! (s + (r + n) mod (n + m)) else xs ! (s + r))"
    if r: "r < n + m" for r
  proof (cases "r = n + i")
    case True
    have "?p (?K - 1) = (r + n) mod (n + m)"
      using rot_pos_back [OF m, of n "n + i" "?K - 1"] fin K True by simp
    then show ?thesis using cyc r True ci by (simp add: cycle_inv_def)
  next
    case False
    have "r \<in> ?p ` {1..?K - 1} \<longleftrightarrow> r mod ?g = i"
      using onto r False rot_pos_0 [OF c] unfolding split by auto
    then show ?thesis using cyc r False by (simp add: cycle_inv_def)
  qed
  have "(r + n) mod (n + m) mod ?g = r mod ?g" for r
  proof -
    have "(r + n) mod (n + m) mod ?g = (r + n) mod ?g" by (rule mod_mod_cancel) simp
    also have "\<dots> = (r mod ?g + n mod ?g) mod ?g" by (simp only: mod_add_eq)
    finally show ?thesis by (simp add: dvd_imp_mod_0)
  qed
  then have "ys ! (s + r) = (if r mod ?g < Suc i then X ! (s + (r + n) mod (n + m)) else X ! (s + r))"
    if "r < n + m" for r
    using inv new [OF that] that m by (auto simp: cycles_inv_def less_Suc_eq)
  then show ?thesis using inv cyc by (auto simp: cycles_inv_def cycle_inv_def)
qed

lemma permute_cycles_correct:
  assumes n: "0 < n" and m: "0 < m" and len: "s + n + m \<le> length X"
    and "i \<le> gcd n m" and "cycles_inv X s n m i xs"
  shows "\<exists>ys. permute_cycles (int n) (int m) (int (s + n)) ((n + m) div gcd n m)
      (gcd n m - i) (int i) xs = Some ys \<and> cycles_inv X s n m (gcd n m) ys"
  using assms(4,5)
proof (induction "gcd n m - i" arbitrary: i xs)
  case 0
  then show ?case by simp
next
  case (Suc d)
  let ?K = "(n + m) div gcd n m"
  have i: "i < gcd n m" using Suc.hyps(2) by simp
  have lx: "s + n + m \<le> length xs" using Suc.prems len by (simp add: cycles_inv_def)
  have c: "n + i < n + m"
    using i m by (metis add_less_cancel_left gcd_le2_nat less_le_trans less_numeral_extra(3))
  have K: "0 < ?K" using n by (simp add: div_greater_zero_iff gcd_le1_nat trans_le_add1)
  have "cycle_inv xs s n m (n + i) 0 xs"
    using c by (auto simp: cycle_inv_def rot_pos_0)
  then obtain ys where ys: "permute_cycle (int n) (int m) (int (s + n)) (int (s + (n + i))) ?K
      (int (s + (n + i))) xs = Some ys"
    and inv: "cycle_inv xs s n m (n + i) (?K - 1) ys"
    using permute_cycle_correct [OF n m _ c lx K] rot_pos_0 [OF c] by auto
  have "cycles_inv X s n m (Suc i) ys"
    by (rule cycles_inv_Suc [OF n m i len Suc.prems(2) inv])
  then obtain zs where "permute_cycles (int n) (int m) (int (s + n)) ?K (gcd n m - Suc i)
      (int (Suc i)) ys = Some zs" and zs: "cycles_inv X s n m (gcd n m) zs"
    using Suc.hyps(1) [of "Suc i" ys] Suc.hyps(2) i by fastforce
  moreover have "gcd n m - i = Suc (gcd n m - Suc i)" using i by simp
  moreover have "int (s + n) + int i = int (s + (n + i))" by simp
  ultimately have "permute_cycles (int n) (int m) (int (s + n)) ?K (gcd n m - i) (int i) xs = Some zs"
    using ys by (simp add: Let_def ac_simps)
  then show ?case using zs by blast
qed

lemma cycles_inv_rotate:
  assumes "cycles_inv (pre @ A @ B @ post) (length pre) (length A) (length B)
      (gcd (length A) (length B)) ys" and "A \<noteq> []"
  shows "ys = pre @ B @ A @ post"
proof (rule nth_equalityI)
  let ?n = "length A" and ?m = "length B" and ?X = "pre @ A @ B @ post"
  show "length ys = length (pre @ B @ A @ post)" using assms by (simp add: cycles_inv_def)
  fix q assume q: "q < length ys"
  have window: "ys ! (length pre + r) = (B @ A) ! r" if r: "r < ?n + ?m" for r
  proof -
    have "ys ! (length pre + r) = ?X ! (length pre + (r + ?n) mod (?n + ?m))"
      using assms r by (simp add: cycles_inv_def)
    also have "\<dots> = (A @ B @ post) ! ((r + ?n) mod (?n + ?m))" by simp
    also have "\<dots> = (A @ B) ! ((r + ?n) mod (?n + ?m))"
    proof -
      have "(r + ?n) mod (?n + ?m) < length (A @ B)"
        using mod_less_divisor [OF less_le_trans [OF le_less_trans [OF zero_le r] order_refl]]
        by simp
      then have "((A @ B) @ post) ! ((r + ?n) mod (?n + ?m)) = (A @ B) ! ((r + ?n) mod (?n + ?m))"
        by (rule nth_append_left)
      then show ?thesis by simp
    qed
    also have "\<dots> = rotate ?n (A @ B) ! r"
      using r by (simp add: nth_rotate add.commute)
    also have "rotate ?n (A @ B) = B @ A" by (simp add: rotate_append)
    finally show ?thesis .
  qed
  show "ys ! q = (pre @ B @ A @ post) ! q"
  proof (cases "q < length pre \<or> length pre + ?n + ?m \<le> q")
    case True
    then have "ys ! q = ?X ! q" using assms q by (auto simp: cycles_inv_def)
    also have "\<dots> = (pre @ B @ A @ post) ! q" using True by (auto simp: nth_append ac_simps)
    finally show ?thesis .
  next
    case False
    define r where "r = q - length pre"
    with False have q: "q = length pre + r" and r: "r < ?n + ?m" by auto
    have "(pre @ B @ A @ post) ! q = ((B @ A) @ post) ! r" using q by simp
    also have "\<dots> = (B @ A) ! r" by (rule nth_append_left) (use r in simp)
    finally show ?thesis using window [OF r] q by simp
  qed
qed

lemma permute_args_blocks:
  assumes "A \<noteq> []" and "B \<noteq> []"
    and "a = int (length pre)" "b = a + int (length A)" "c = b + int (length B)"
  shows "permute_args a b c (pre @ A @ B @ post) = Some (pre @ B @ A @ post)"
proof -
  let ?n = "length A" and ?m = "length B" and ?s = "length pre" and ?X = "pre @ A @ B @ post"
  have n: "0 < ?n" and m: "0 < ?m" using assms by auto
  have g: "gcd_c (int ?n) (int ?m) = Some (int (gcd ?n ?m))"
    using gcd_c_correct [of "int ?n" "int ?m"] m by (simp add: gcd_int_int_eq)
  have len: "nat ((int ?n + int ?m) sdiv int (gcd ?n ?m)) = (?n + ?m) div gcd ?n ?m"
  proof -
    have "(int ?n + int ?m) sdiv int (gcd ?n ?m) = int ((?n + ?m) div gcd ?n ?m)"
      using assms(1) by (cases A) (simp_all add: signed_divide_int_def zdiv_int sgn_if ac_simps)
    then show ?thesis by simp
  qed
  obtain ys where "permute_cycles (int ?n) (int ?m) (int (?s + ?n)) ((?n + ?m) div gcd ?n ?m)
      (gcd ?n ?m - 0) (int 0) ?X = Some ys"
    and "cycles_inv ?X ?s ?n ?m (gcd ?n ?m) ys"
    using permute_cycles_correct [OF n m, of ?s ?X 0 ?X] by (auto simp: cycles_inv_def)
  moreover from this(2) assms(1) have "ys = pre @ B @ A @ post" by (rule cycles_inv_rotate)
  ultimately show ?thesis
    using assms g len by (simp add: permute_args_def)
qed

text \<open>The vector cut at the three indices the callers pass.\<close>

lemma list_blocks:
  assumes "a \<le> b" "b \<le> c" "c \<le> length xs"
  shows "xs = take a xs @ take (b - a) (drop a xs) @ take (c - b) (drop b xs) @ drop c xs"
proof -
  have "take c xs = take a xs @ take (b - a) (drop a xs) @ take (c - b) (drop b xs)"
    using assms take_add [of a "c - a" xs] take_add [of "b - a" "c - b" "drop a xs"] by simp
  then show ?thesis by (metis append.assoc append_take_drop_id)
qed

definition exchange_blocks :: "nat \<Rightarrow> nat \<Rightarrow> nat \<Rightarrow> 'a list \<Rightarrow> 'a list" where
  "exchange_blocks a b c xs =
     take a xs @ take (c - b) (drop b xs) @ take (b - a) (drop a xs) @ drop c xs"

lemma permute_args_exchange:
  assumes "a < b" "b < c" "c \<le> length xs"
  shows "permute_args (int a) (int b) (int c) xs = Some (exchange_blocks a b c xs)"
proof -
  let ?pre = "take a xs" and ?A = "take (b - a) (drop a xs)" and ?B = "take (c - b) (drop b xs)"
  have "permute_args (int a) (int b) (int c) (?pre @ ?A @ ?B @ drop c xs) =
      Some (?pre @ ?B @ ?A @ drop c xs)"
    by (rule permute_args_blocks) (use assms in auto)
  then show ?thesis
    using list_blocks [of a b c xs] assms by (simp add: exchange_blocks_def)
qed

lemma mset_exchange_blocks:
  assumes "a \<le> b" "b \<le> c" "c \<le> length xs"
  shows "mset (exchange_blocks a b c xs) = mset xs"
proof -
  have "mset xs = mset (take a xs @ take (b - a) (drop a xs) @ take (c - b) (drop b xs) @ drop c xs)"
    using list_blocks [OF assms] by simp
  then show ?thesis by (simp add: exchange_blocks_def ac_simps)
qed

section \<open>Properties\<close>

text \<open>C4. \<open>permute_args\<close> exchanges the block of non-options with the block of options
  behind it, keeps the order inside each block and everything outside the two, and stays
  inside the vector, whatever the lengths of the blocks.\<close>

theorem permute_args_exchanges:
  assumes "A \<noteq> []" "B \<noteq> []"
  shows "permute_args (int (length pre)) (int (length pre + length A))
      (int (length pre + length A + length B)) (pre @ A @ B @ post) = Some (pre @ B @ A @ post)"
  by (rule permute_args_blocks [OF assms]) simp_all

theorem permute_args_exchanges_witness:
  "permute_args 1 3 6 [0, 1, 2, 3, 4, 5, 6 :: nat] = Some [0, 3, 4, 5, 1, 2, 6]"
  using permute_args_exchanges [of "[1, 2 :: nat]" "[3, 4, 5]" "[0]" "[6]"] by simp

text \<open>The Euclidean loop of \<open>gcd\<close> ends and computes the greatest common divisor of a
  non-negative and a positive number.\<close>

theorem gcd_c_computes_gcd:
  assumes "0 \<le> a" "0 < b"
  shows "gcd_c a b = Some (gcd a b)"
  using assms by (rule gcd_c_correct)

theorem gcd_c_computes_gcd_witness: "gcd_c 12 18 = Some (gcd 12 18)"
  using gcd_c_computes_gcd [of 12 18] by simp

end
