(* ===== verification/Getopt.thy ===== *)
theory Getopt
  imports Permute_Args
begin

text \<open>
  The option parser of \<^verbatim>\<open>src/crypto/compat/getopt_long.c\<close>:
  \<open>parse_long_options\<close>, \<open>getopt_internal\<close> and the three entry points.

  The static and global variables of the file are the fields of the record
  \<open>getopt_state\<close>, which also holds the argument vector (permuted in place by the
  code), the ints the \<open>flag\<close> members of long options point to, the int behind
  \<open>idx\<close> and the list of messages passed to \<open>warnx\<close>. A \<open>char *\<close> into an
  argument is a string object with the text from the pointer to the terminator
  (\<open>Str\<close>), so that the comparison \<open>place != nargv[optind]\<close> is the comparison of
  the two pointers; \<open>EMSG\<close> is the empty literal. The vector has \<open>nargc\<close> entries
  and the terminating null pointer, which \<open>argv_at\<close> returns for the index
  \<open>nargc\<close>; an access outside is undefined behaviour.
\<close>

section \<open>Data\<close>

datatype cstr = EMSG | Str nat string

fun chars :: "cstr \<Rightarrow> string" where
  "chars EMSG = []"
| "chars (Str a s) = s"

fun advance :: "cstr \<Rightarrow> cstr" where
  "advance EMSG = EMSG"
| "advance (Str a s) = Str a (tl s)"

definition no_argument :: int where [simp]: "no_argument = 0"
definition required_argument :: int where [simp]: "required_argument = 1"
definition optional_argument :: int where [simp]: "optional_argument = 2"

record long_option =
  lo_name :: string
  has_arg :: int
  flag :: "nat option"
  val :: int

datatype message =
    RecArgChar int      \<comment> \<open>option requires an argument -- \%c\<close>
  | RecArgString string \<comment> \<open>option requires an argument -- \%s\<close>
  | Ambig string        \<comment> \<open>ambiguous option -- \%.*s\<close>
  | NoArg string        \<comment> \<open>option doesn't take an argument -- \%.*s\<close>
  | IllOptChar int      \<comment> \<open>unknown option -- \%c\<close>
  | IllOptString string \<comment> \<open>unknown option -- \%s\<close>

record getopt_state =
  opterr :: int
  optind :: int
  optopt :: int
  optreset :: int
  optarg :: "cstr option"
  place :: cstr
  nonopt_start :: int
  nonopt_end :: int
  posixly_correct :: int
  nargv :: "cstr list"
  flag_mem :: "nat \<Rightarrow> int"
  idx_mem :: int
  warnings :: "message list"

text \<open>The values the variables are initialised with.\<close>

definition getopt_init :: "cstr list \<Rightarrow> getopt_state" where
  "getopt_init argv = \<lparr>opterr = 1, optind = 1, optopt = 63, optreset = 0, optarg = None,
     place = EMSG, nonopt_start = -1, nonopt_end = -1, posixly_correct = -1,
     nargv = argv, flag_mem = (\<lambda>_. 0), idx_mem = 0, warnings = []\<rparr>"

text \<open>What the platform contributes: the signedness of \<open>char\<close> and whether
  \<open>getenv("POSIXLY_CORRECT")\<close> is non-null.\<close>

record platform =
  char_signed :: bool
  posixly_env :: bool

type_synonym flags = "32 word"

definition FLAG_PERMUTE :: flags where [simp]: "FLAG_PERMUTE = 0x01"
definition FLAG_ALLARGS :: flags where [simp]: "FLAG_ALLARGS = 0x02"
definition FLAG_LONGONLY :: flags where [simp]: "FLAG_LONGONLY = 0x04"

definition has_flag :: "flags \<Rightarrow> flags \<Rightarrow> bool" where
  "has_flag flags f \<longleftrightarrow> flags AND f \<noteq> 0"

definition BADCH :: int where [simp]: "BADCH = 63"
definition INORDER :: int where [simp]: "INORDER = 1"

definition BADARG :: "string \<Rightarrow> int" where
  "BADARG options = (if cur options = CHR '':'' then 58 else 63)"

definition PRINT_ERROR :: "getopt_state \<Rightarrow> string \<Rightarrow> bool" where
  "PRINT_ERROR s options \<longleftrightarrow> opterr s \<noteq> 0 \<and> cur options \<noteq> CHR '':''"

definition warnx :: "string \<Rightarrow> message \<Rightarrow> getopt_state \<Rightarrow> getopt_state" where
  "warnx options m s =
     (if PRINT_ERROR s options then s\<lparr>warnings := warnings s @ [m]\<rparr> else s)"

text \<open>\<open>nargv[i]\<close>: \<open>Some None\<close> is the terminating null pointer.\<close>

definition argv_at :: "cstr list \<Rightarrow> int \<Rightarrow> cstr option option" where
  "argv_at argv i =
     (if i = int (length argv) then Some None else map_option Some (aget argv i))"

section \<open>Long options\<close>

text \<open>The search loop of \<open>parse_long_options\<close>: the result is \<open>match\<close> (\<open>-1\<close> for
  none), \<open>exact_match\<close> and \<open>second_partial_match\<close>.\<close>

fun match_long :: "string \<Rightarrow> nat \<Rightarrow> bool \<Rightarrow> flags \<Rightarrow> long_option list \<Rightarrow> long_option list
    \<Rightarrow> int \<Rightarrow> int \<Rightarrow> bool \<Rightarrow> int \<times> bool \<times> bool" where
  "match_long current len short_too flags all [] i match second = (match, False, second)"
| "match_long current len short_too flags all (o1 # rest) i match second =
     (if \<not> strncmp_eq current (lo_name o1) len
      then match_long current len short_too flags all rest (i + 1) match second
      else if length (lo_name o1) = len then (i, True, second)
      else if short_too \<and> len = 1
      then match_long current len short_too flags all rest (i + 1) match second
      else if match = -1
      then match_long current len short_too flags all rest (i + 1) i second
      else if has_flag flags FLAG_LONGONLY
        \<or> has_arg o1 \<noteq> has_arg (all ! nat match)
        \<or> flag o1 \<noteq> flag (all ! nat match)
        \<or> val o1 \<noteq> val (all ! nat match)
      then match_long current len short_too flags all rest (i + 1) match True
      else match_long current len short_too flags all rest (i + 1) match second)"

definition opt_of :: "long_option \<Rightarrow> int" where
  "opt_of lo = (if flag lo = None then val lo else 0)"

text \<open>The argument of the option found, with an equals sign in the word or taken from
  the next element of the vector.\<close>

definition long_argument :: "long_option \<Rightarrow> cstr option \<Rightarrow> getopt_state \<Rightarrow> getopt_state option" where
  "long_argument lo has_equal s =
     (if has_arg lo = required_argument \<or> has_arg lo = optional_argument
      then if has_equal \<noteq> None then Some (s\<lparr>optarg := has_equal\<rparr>)
           else if has_arg lo = required_argument
           then do {
             a \<leftarrow> argv_at (nargv s) (optind s);
             Some (s\<lparr>optarg := a, optind := optind s + 1\<rparr>)
           }
           else Some s
      else Some s)"

text \<open>The result for the option found at index \<open>match\<close>, its argument fetched.\<close>

definition long_result :: "string \<Rightarrow> bool \<Rightarrow> string \<Rightarrow> int \<Rightarrow> long_option \<Rightarrow> getopt_state
    \<Rightarrow> int \<times> getopt_state" where
  "long_result options idx current match lo s =
     (if has_arg lo = required_argument \<and> optarg s = None
      then (let s = (warnx options (RecArgString current) s)\<lparr>optopt := opt_of lo\<rparr>
            in (BADARG options, s\<lparr>optind := optind s - 1\<rparr>))
      else
        (let s = (if idx then s\<lparr>idx_mem := match\<rparr> else s) in
         case flag lo of
           Some f \<Rightarrow> (0, s\<lparr>flag_mem := (flag_mem s)(f := val lo)\<rparr>)
         | None \<Rightarrow> (val lo, s)))"

text \<open>\<open>parse_long_options\<close>. \<open>idx\<close> says whether the caller passed a non-null
  pointer.\<close>

definition parse_long_options :: "string \<Rightarrow> long_option list \<Rightarrow> bool \<Rightarrow> bool \<Rightarrow> flags
    \<Rightarrow> getopt_state \<Rightarrow> (int \<times> getopt_state) option" where
  "parse_long_options options long_options idx short_too flags s =
    (let current_argv = place s;
         current = chars current_argv;
         s = s\<lparr>optind := optind s + 1\<rparr>;
         equal = strchr current (CHR ''='');
         len = (case equal of Some t \<Rightarrow> length current - length t | None \<Rightarrow> length current);
         has_equal = map_option (\<lambda>t. case current_argv of EMSG \<Rightarrow> EMSG | Str a _ \<Rightarrow> Str a (tl t)) equal;
         (match, exact_match, second_partial_match) =
           match_long current len short_too flags long_options long_options 0 (-1) False
     in if \<not> exact_match \<and> second_partial_match
        then Some (BADCH, (warnx options (Ambig (take len current)) s)\<lparr>optopt := 0\<rparr>)
        else if match \<noteq> -1
        then
          (let lo = long_options ! nat match in
           if has_arg lo = no_argument \<and> has_equal \<noteq> None
           then Some (BADARG options,
             (warnx options (NoArg (take len current)) s)\<lparr>optopt := opt_of lo\<rparr>)
           else map_option (long_result options idx current match lo) (long_argument lo has_equal s))
        else if short_too then Some (-1, s\<lparr>optind := optind s - 1\<rparr>)
        else Some (BADCH, (warnx options (IllOptString current) s)\<lparr>optopt := 0\<rparr>))"

section \<open>Scanning\<close>

text \<open>The block under the label \<open>start:\<close> either returns or leaves an option
  argument in \<open>place\<close>.\<close>

datatype scan = Return int getopt_state | Proceed getopt_state

text \<open>An option argument is being processed letter by letter.\<close>

definition pending :: "getopt_state \<Rightarrow> bool" where
  "pending s \<longleftrightarrow> cur (chars (place s)) \<noteq> NUL"

text \<open>The test for a non-option: no leading dash, or a lone dash that is not an option
  letter.\<close>

definition is_nonoption :: "string \<Rightarrow> cstr \<Rightarrow> bool" where
  "is_nonoption options a \<longleftrightarrow> cur (chars a) \<noteq> CHR ''-''
     \<or> cur (tl (chars a)) = NUL \<and> strchr options (CHR ''-'') = None"

text \<open>\<open>permute_args(nonopt_start, nonopt_end, optind, nargv)\<close> on the state.\<close>

definition permute :: "getopt_state \<Rightarrow> getopt_state option" where
  "permute s = do {
     argv \<leftarrow> permute_args (nonopt_start s) (nonopt_end s) (optind s) (nargv s);
     Some (s\<lparr>nargv := argv\<rparr>)
   }"

definition end_of_args :: "getopt_state \<Rightarrow> (int \<times> getopt_state) option" where
  "end_of_args s =
    (let s = s\<lparr>place := EMSG\<rparr> in
     do {
       s \<leftarrow> (if nonopt_end s \<noteq> -1
             then do {
               s \<leftarrow> permute s;
               Some (s\<lparr>optind := optind s - (nonopt_end s - nonopt_start s)\<rparr>)
             }
             else if nonopt_start s \<noteq> -1 then Some (s\<lparr>optind := nonopt_start s\<rparr>)
             else Some s);
       Some (-1, s\<lparr>nonopt_start := -1, nonopt_end := -1\<rparr>)
     })"

definition skip_nonoption :: "getopt_state \<Rightarrow> getopt_state option" where
  "skip_nonoption s = do {
     s \<leftarrow> (if nonopt_start s = -1 then Some (s\<lparr>nonopt_start := optind s\<rparr>)
           else if nonopt_end s \<noteq> -1
           then do {
             s \<leftarrow> permute s;
             Some (s\<lparr>nonopt_start := optind s - (nonopt_end s - nonopt_start s),
                     nonopt_end := -1\<rparr>)
           }
           else Some s);
     Some (s\<lparr>optind := optind s + 1\<rparr>)
   }"

definition double_dash :: "getopt_state \<Rightarrow> (int \<times> getopt_state) option" where
  "double_dash s =
    (let s = s\<lparr>optind := optind s + 1, place := EMSG\<rparr> in
     do {
       s \<leftarrow> (if nonopt_end s \<noteq> -1
             then do {
               s \<leftarrow> permute s;
               Some (s\<lparr>optind := optind s - (nonopt_end s - nonopt_start s)\<rparr>)
             }
             else Some s);
       Some (-1, s\<lparr>nonopt_start := -1, nonopt_end := -1\<rparr>)
     })"

definition enter_option :: "cstr \<Rightarrow> getopt_state \<Rightarrow> scan option" where
  "enter_option a s =
    (let s = s\<lparr>place := a\<rparr>;
         s = (if nonopt_start s \<noteq> -1 \<and> nonopt_end s = -1
              then s\<lparr>nonopt_end := optind s\<rparr> else s)
     in if cur (tl (chars a)) \<noteq> NUL
        then
          (let s = s\<lparr>place := advance a\<rparr> in
           if cur (tl (chars a)) = CHR ''-'' \<and> cur (tl (tl (chars a))) = NUL
           then map_option (\<lambda>(r, s). Return r s) (double_dash s)
           else Some (Proceed s))
        else Some (Proceed s))"

lemma permute_optind: "permute s = Some s' \<Longrightarrow> optind s' = optind s"
  by (auto simp: permute_def bind_eq_Some_conv)

lemma skip_nonoption_optind: "skip_nonoption s = Some s' \<Longrightarrow> optind s' = optind s + 1"
  by (auto simp: skip_nonoption_def bind_eq_Some_conv dest: permute_optind split: if_splits)

function getopt_scan :: "int \<Rightarrow> string \<Rightarrow> flags \<Rightarrow> getopt_state \<Rightarrow> scan option" where
  "getopt_scan nargc options flags s =
    (if optreset s = 0 \<and> pending s then Some (Proceed s)
     else
       (let s = s\<lparr>optreset := 0\<rparr> in
        if optind s \<ge> nargc
        then map_option (\<lambda>(r, s). Return r s) (end_of_args s)
        else
          (case argv_at (nargv s) (optind s) of
             Some (Some a) \<Rightarrow>
               if is_nonoption options a
               then
                 (let s = s\<lparr>place := EMSG\<rparr> in
                  if has_flag flags FLAG_ALLARGS
                  then Some (Return INORDER (s\<lparr>optarg := Some a, optind := optind s + 1\<rparr>))
                  else if \<not> has_flag flags FLAG_PERMUTE
                  then Some (Return (-1) s)
                  else
                    (case skip_nonoption s of
                       None \<Rightarrow> None
                     | Some s \<Rightarrow> getopt_scan nargc options flags s))
               else enter_option a s
           | _ \<Rightarrow> None)))"
  by pat_completeness auto
termination
  by (relation "measure (\<lambda>(nargc, options, flags, s). nat (nargc - optind s))")
    (auto dest: skip_nonoption_optind)

declare getopt_scan.simps [simp del]

section \<open>Short options\<close>

text \<open>The GNU form \<open>-W long-option\<close>, \<open>place\<close> behind the letter.\<close>

definition dash_W :: "int \<Rightarrow> string \<Rightarrow> long_option list \<Rightarrow> bool \<Rightarrow> flags \<Rightarrow> int
    \<Rightarrow> getopt_state \<Rightarrow> (int \<times> getopt_state) option" where
  "dash_W nargc options long_options idx flags optchar s =
    (let parse = (\<lambda>s. do {
           (r, s) \<leftarrow> parse_long_options options long_options idx False flags s;
           Some (r, s\<lparr>place := EMSG\<rparr>)
         })
     in
     if cur (chars (place s)) \<noteq> NUL then parse s
     else
       (let s = s\<lparr>optind := optind s + 1\<rparr> in
        if optind s \<ge> nargc
        then
          (let s = s\<lparr>place := EMSG\<rparr>;
               s = warnx options (RecArgChar optchar) s
           in Some (BADARG options, s\<lparr>optopt := optchar\<rparr>))
        else
          (case argv_at (nargv s) (optind s) of
             Some (Some a) \<Rightarrow> parse (s\<lparr>place := a\<rparr>)
           | _ \<Rightarrow> None)))"

text \<open>The last part of \<open>getopt_internal\<close>, from the read of the option letter.\<close>

definition short_option :: "platform \<Rightarrow> int \<Rightarrow> string \<Rightarrow> long_option list option \<Rightarrow> bool \<Rightarrow> flags
    \<Rightarrow> getopt_state \<Rightarrow> (int \<times> getopt_state) option" where
  "short_option pf nargc options long_options idx flags s =
    (let c = cur (chars (place s));
         optchar = int_of_char (char_signed pf) c;
         s = s\<lparr>place := advance (place s)\<rparr>;
         oli = strchr options c
     in
     if c = CHR '':'' \<or> oli = None
     then
       (let s = (if cur (chars (place s)) = NUL then s\<lparr>optind := optind s + 1\<rparr> else s);
            s = warnx options (IllOptChar optchar) s
        in Some (BADCH, s\<lparr>optopt := optchar\<rparr>))
     else
       (let oli = the oli in
        if long_options \<noteq> None \<and> c = CHR ''W'' \<and> cur (tl oli) = CHR '';''
        then
          dash_W nargc options (the long_options) idx flags optchar s
        else if cur (tl oli) \<noteq> CHR '':''
        then Some (optchar,
               if cur (chars (place s)) = NUL then s\<lparr>optind := optind s + 1\<rparr> else s)
        else
          (let s = s\<lparr>optarg := None\<rparr> in
           if cur (chars (place s)) \<noteq> NUL
           then Some (optchar, s\<lparr>optarg := Some (place s), place := EMSG, optind := optind s + 1\<rparr>)
           else if cur (tl (tl oli)) \<noteq> CHR '':''
           then
             (let s = s\<lparr>optind := optind s + 1\<rparr> in
              if optind s \<ge> nargc
              then
                (let s = s\<lparr>place := EMSG\<rparr>;
                     s = warnx options (RecArgChar optchar) s
                 in Some (BADARG options, s\<lparr>optopt := optchar\<rparr>))
              else do {
                a \<leftarrow> argv_at (nargv s) (optind s);
                Some (optchar, s\<lparr>optarg := a, place := EMSG, optind := optind s + 1\<rparr>)
              })
           else Some (optchar, s\<lparr>place := EMSG, optind := optind s + 1\<rparr>))))"

section \<open>Entry points\<close>

text \<open>The long-option attempt in front of the short options.\<close>

definition option_argument :: "platform \<Rightarrow> int \<Rightarrow> string \<Rightarrow> long_option list option \<Rightarrow> bool \<Rightarrow> flags
    \<Rightarrow> getopt_state \<Rightarrow> (int \<times> getopt_state) option" where
  "option_argument pf nargc options long_options idx flags s =
    (case long_options of
       None \<Rightarrow> short_option pf nargc options long_options idx flags s
     | Some los \<Rightarrow>
         (case argv_at (nargv s) (optind s) of
            None \<Rightarrow> None
          | Some a \<Rightarrow>
            if Some (place s) \<noteq> a
               \<and> (cur (chars (place s)) = CHR ''-'' \<or> has_flag flags FLAG_LONGONLY)
            then
              (let c = cur (chars (place s));
                   short_too = (c \<noteq> CHR ''-'' \<and> c \<noteq> CHR '':'' \<and> strchr options c \<noteq> None);
                   s = (if c = CHR ''-'' then s\<lparr>place := advance (place s)\<rparr> else s)
               in do {
                 (optchar, s) \<leftarrow> parse_long_options options los idx short_too flags s;
                 if optchar \<noteq> -1 then Some (optchar, s\<lparr>place := EMSG\<rparr>)
                 else short_option pf nargc options long_options idx flags s
               })
            else short_option pf nargc options long_options idx flags s))"

definition getopt_internal :: "platform \<Rightarrow> int \<Rightarrow> string option \<Rightarrow> long_option list option \<Rightarrow> bool
    \<Rightarrow> flags \<Rightarrow> getopt_state \<Rightarrow> (int \<times> getopt_state) option" where
  "getopt_internal pf nargc options long_options idx flags s =
    (case options of
       None \<Rightarrow> Some (-1, s)
     | Some opts \<Rightarrow>
       (let s = (if optind s = 0 then s\<lparr>optind := 1, optreset := 1\<rparr> else s);
            s = (if posixly_correct s = -1 \<or> optreset s \<noteq> 0
                 then s\<lparr>posixly_correct := of_bool (posixly_env pf)\<rparr> else s);
            flags = (if cur opts = CHR ''-'' then flags OR FLAG_ALLARGS
                     else if posixly_correct s \<noteq> 0 \<or> cur opts = CHR ''+''
                     then flags AND NOT FLAG_PERMUTE else flags);
            opts = (if cur opts = CHR ''+'' \<or> cur opts = CHR ''-'' then tl opts else opts);
            s = s\<lparr>optarg := None\<rparr>;
            s = (if optreset s \<noteq> 0 then s\<lparr>nonopt_start := -1, nonopt_end := -1\<rparr> else s)
        in case getopt_scan nargc opts flags s of
             None \<Rightarrow> None
           | Some (Return r s) \<Rightarrow> Some (r, s)
           | Some (Proceed s) \<Rightarrow> option_argument pf nargc opts long_options idx flags s))"

definition getopt :: "platform \<Rightarrow> int \<Rightarrow> string option \<Rightarrow> getopt_state \<Rightarrow> (int \<times> getopt_state) option" where
  "getopt pf nargc options s = getopt_internal pf nargc options None False 0 s"

definition getopt_long :: "platform \<Rightarrow> int \<Rightarrow> string option \<Rightarrow> long_option list option \<Rightarrow> bool
    \<Rightarrow> getopt_state \<Rightarrow> (int \<times> getopt_state) option" where
  "getopt_long pf nargc options long_options idx s =
     getopt_internal pf nargc options long_options idx FLAG_PERMUTE s"

definition getopt_long_only :: "platform \<Rightarrow> int \<Rightarrow> string option \<Rightarrow> long_option list option \<Rightarrow> bool
    \<Rightarrow> getopt_state \<Rightarrow> (int \<times> getopt_state) option" where
  "getopt_long_only pf nargc options long_options idx s =
     getopt_internal pf nargc options long_options idx (FLAG_PERMUTE OR FLAG_LONGONLY) s"

section \<open>The state between calls\<close>

definition argv_ok :: "cstr list \<Rightarrow> bool" where
  "argv_ok argv \<longleftrightarrow> (\<forall>a \<in> set argv. \<exists>i t. a = Str i t \<and> c_string_ok t)"

text \<open>The recorded blocks before \<open>optind\<close> when no option argument is pending
  (\<open>idle_blocks\<close>) and while one is (\<open>mid_blocks\<close>).\<close>

definition idle_blocks :: "int \<Rightarrow> getopt_state \<Rightarrow> bool" where
  "idle_blocks nargc s \<longleftrightarrow>
     nonopt_start s = -1 \<and> nonopt_end s = -1
     \<or> 0 \<le> nonopt_start s \<and> nonopt_start s < optind s \<and> optind s \<le> nargc \<and> nonopt_end s = -1
     \<or> 0 \<le> nonopt_start s \<and> nonopt_start s < nonopt_end s \<and> nonopt_end s < optind s
       \<and> optind s \<le> nargc"

definition mid_blocks :: "int \<Rightarrow> getopt_state \<Rightarrow> bool" where
  "mid_blocks nargc s \<longleftrightarrow> optind s < nargc \<and>
     (nonopt_start s = -1 \<and> nonopt_end s = -1
      \<or> 0 \<le> nonopt_start s \<and> nonopt_start s < nonopt_end s \<and> nonopt_end s \<le> optind s)"

text \<open>What every call relies on and leaves behind. A caller that sets \<open>optreset\<close>, or
  \<open>optind\<close> to 0, starts afresh.\<close>

definition getopt_inv :: "int \<Rightarrow> getopt_state \<Rightarrow> bool" where
  "getopt_inv nargc s \<longleftrightarrow>
     nargc = int (length (nargv s)) \<and> argv_ok (nargv s) \<and> c_string_ok (chars (place s))
     \<and> 0 \<le> optind s
     \<and> (optreset s \<noteq> 0 \<or> optind s = 0
        \<or> (if pending s then mid_blocks nargc s else idle_blocks nargc s))"

text \<open>The effect of processing a pending option argument: the vector and the recorded
  blocks stay, and either the argument stays pending or \<open>optind\<close> has moved past it.\<close>

definition consumes :: "int \<Rightarrow> getopt_state \<Rightarrow> getopt_state \<Rightarrow> bool" where
  "consumes nargc s s' \<longleftrightarrow>
     nargv s' = nargv s \<and> nonopt_start s' = nonopt_start s \<and> nonopt_end s' = nonopt_end s
     \<and> optreset s' = optreset s \<and> c_string_ok (chars (place s'))
     \<and> (if pending s'
        then optind s' = optind s \<and> length (chars (place s')) < length (chars (place s))
        else optind s < optind s' \<and> optind s' \<le> nargc)"

lemma c_string_ok_tl: "c_string_ok s \<Longrightarrow> c_string_ok (tl s)"
  by (cases s) (auto simp: c_string_ok_def)

lemma chars_advance [simp]: "chars (advance p) = tl (chars p)"
  by (cases p) auto

lemma argv_at_less:
  assumes "argv_ok argv" "0 \<le> i" "i < int (length argv)"
  shows "\<exists>a t. argv_at argv i = Some (Some (Str a t)) \<and> c_string_ok t"
proof -
  from assms have r: "in_range argv i" by (simp add: in_range_def)
  then have "argv ! nat i \<in> set argv" by (auto simp: in_range_def)
  with assms r show ?thesis by (auto simp: argv_at_def aget_def argv_ok_def)
qed

lemma argv_at_le:
  assumes "0 \<le> i" "i \<le> int (length argv)"
  shows "\<exists>a. argv_at argv i = Some a"
  using assms by (auto simp: argv_at_def aget_def in_range_def)

lemma warnx_frame [simp]:
  "optind (warnx o' m s) = optind s" "nargv (warnx o' m s) = nargv s"
  "nonopt_start (warnx o' m s) = nonopt_start s" "nonopt_end (warnx o' m s) = nonopt_end s"
  "optreset (warnx o' m s) = optreset s" "place (warnx o' m s) = place s"
  "optarg (warnx o' m s) = optarg s" "flag_mem (warnx o' m s) = flag_mem s"
  "idx_mem (warnx o' m s) = idx_mem s"
  by (simp_all add: warnx_def)

section \<open>Long options stay in bounds\<close>

lemma match_long_index:
  assumes "-1 \<le> mt" "mt < n" "0 \<le> i" "i + int (length rest) \<le> n"
  shows "-1 \<le> fst (match_long cu len st fl all rest i mt sec)
    \<and> fst (match_long cu len st fl all rest i mt sec) < n"
  using assms by (induction rest arbitrary: i mt sec) auto

definition vals_ok :: "long_option list \<Rightarrow> bool" where
  "vals_ok los \<longleftrightarrow> (\<forall>lo \<in> set los. flag lo = None \<longrightarrow> val lo \<noteq> -1)"

text \<open>The frame of the long-option code, and how far it moves \<open>optind\<close>.\<close>

definition long_frame :: "getopt_state \<Rightarrow> getopt_state \<Rightarrow> bool" where
  "long_frame s s' \<longleftrightarrow>
     nargv s' = nargv s \<and> nonopt_start s' = nonopt_start s \<and> nonopt_end s' = nonopt_end s
     \<and> optreset s' = optreset s \<and> place s' = place s"

lemma long_argument_ok:
  assumes "0 \<le> optind s" "optind s \<le> int (length (nargv s))"
  shows "\<exists>s'. long_argument lo eq s = Some s' \<and> long_frame s s' \<and> optind s \<le> optind s'
    \<and> optind s' \<le> optind s + 1
    \<and> (optind s < optind s' \<longrightarrow> optarg s' = None \<or> optind s' \<le> int (length (nargv s)))
    \<and> (optind s < optind s' \<longrightarrow> has_arg lo = required_argument)"
proof -
  obtain a where a: "argv_at (nargv s) (optind s) = Some a"
    using argv_at_le assms by blast
  have "a \<noteq> None \<Longrightarrow> optind s < int (length (nargv s))"
    using a assms by (auto simp: argv_at_def aget_def in_range_def split: if_splits)
  then show ?thesis
    using a by (cases a) (auto simp: long_argument_def long_frame_def)
qed

lemma long_result_ok:
  assumes "long_result options idx current match lo s = (r, s')"
  shows "long_frame s s'"
    and "has_arg lo = required_argument \<and> optarg s = None \<Longrightarrow> optind s' = optind s - 1"
    and "\<not> (has_arg lo = required_argument \<and> optarg s = None) \<Longrightarrow> optind s' = optind s"
    and "(flag lo = None \<Longrightarrow> val lo \<noteq> -1) \<Longrightarrow> r \<noteq> -1"
  using assms
  by (auto simp: long_result_def long_frame_def Let_def BADARG_def split: if_splits option.splits)

lemma long_found_ok:
  assumes "0 \<le> optind s" "optind s \<le> int (length (nargv s))"
    and "flag lo = None \<Longrightarrow> val lo \<noteq> -1"
  shows "\<exists>r s'. map_option (long_result options idx current match lo) (long_argument lo eq s) =
      Some (r, s') \<and> long_frame s s' \<and> r \<noteq> -1
    \<and> optind s \<le> optind s' \<and> optind s' \<le> int (length (nargv s))"
proof -
  obtain s1 where s1: "long_argument lo eq s = Some s1" "long_frame s s1"
      "optind s \<le> optind s1" "optind s1 \<le> optind s + 1"
      "optind s < optind s1 \<longrightarrow> optarg s1 = None \<or> optind s1 \<le> int (length (nargv s))"
      "optind s < optind s1 \<longrightarrow> has_arg lo = required_argument"
    using long_argument_ok [OF assms(1,2)] by blast
  have req: "optind s < optind s1" if "has_arg lo = required_argument" "optarg s1 = None"
    using that s1(1) by (auto simp: long_argument_def bind_eq_Some_conv split: if_splits)
  obtain r s' where r: "long_result options idx current match lo s1 = (r, s')"
    by (cases "long_result options idx current match lo s1") auto
  note lr = long_result_ok [OF r]
  have "optind s \<le> optind s' \<and> optind s' \<le> int (length (nargv s))"
    using lr(2,3) s1 req assms(2) by (cases "has_arg lo = required_argument \<and> optarg s1 = None") auto
  then show ?thesis
    using lr(1) lr(4) [OF assms(3)] s1(1,2) r by (auto simp: long_frame_def)
qed

lemma parse_long_options_consumes:
  assumes "0 \<le> optind s" "optind s < int (length (nargv s))" "vals_ok los"
  shows "\<exists>r s'. parse_long_options options los idx short_too flags s = Some (r, s')
    \<and> long_frame s s'
    \<and> (if r = -1 then short_too \<and> optind s' = optind s
       else optind s < optind s' \<and> optind s' \<le> int (length (nargv s)))"
proof -
  let ?cu = "chars (place s)"
  define eq where "eq = strchr ?cu (CHR ''='')"
  define len where "len = (case eq of Some t \<Rightarrow> length ?cu - length t | None \<Rightarrow> length ?cu)"
  define he where "he = map_option (\<lambda>t. case place s of EMSG \<Rightarrow> EMSG | Str a _ \<Rightarrow> Str a (tl t)) eq"
  obtain mt ex sec where m: "match_long ?cu len short_too flags los los 0 (-1) False = (mt, ex, sec)"
    by (cases "match_long ?cu len short_too flags los los 0 (-1) False") auto
  have range: "-1 \<le> mt \<and> mt < int (length los)" if "los \<noteq> []"
    using match_long_index [of "-1" "int (length los)" 0 los ?cu len short_too flags los False] m that
    by (simp add: Suc_leI)
  have val: "val (los ! nat mt) \<noteq> -1" if "mt \<noteq> -1" "flag (los ! nat mt) = None"
  proof -
    have "los \<noteq> []" using that m by auto
    then have "los ! nat mt \<in> set los" using range that by (intro nth_mem) auto
    then show ?thesis using assms(3) that by (auto simp: vals_ok_def)
  qed
  let ?s1 = "s\<lparr>optind := optind s + 1\<rparr>"
  have found: "\<exists>r s'. map_option (long_result options idx ?cu mt (los ! nat mt))
        (long_argument (los ! nat mt) he ?s1) = Some (r, s') \<and> long_frame ?s1 s' \<and> r \<noteq> -1
      \<and> optind ?s1 \<le> optind s' \<and> optind s' \<le> int (length (nargv ?s1))" if "mt \<noteq> -1"
    by (rule long_found_ok) (use assms val that in auto)
  have unfolded: "parse_long_options options los idx short_too flags s =
     (if \<not> ex \<and> sec then Some (BADCH, (warnx options (Ambig (take len ?cu)) ?s1)\<lparr>optopt := 0\<rparr>)
      else if mt \<noteq> -1
      then (if has_arg (los ! nat mt) = no_argument \<and> he \<noteq> None
            then Some (BADARG options,
              (warnx options (NoArg (take len ?cu)) ?s1)\<lparr>optopt := opt_of (los ! nat mt)\<rparr>)
            else map_option (long_result options idx ?cu mt (los ! nat mt))
              (long_argument (los ! nat mt) he ?s1))
      else if short_too then Some (-1, ?s1\<lparr>optind := optind ?s1 - 1\<rparr>)
      else Some (BADCH, (warnx options (IllOptString ?cu) ?s1)\<lparr>optopt := 0\<rparr>))"
    by (auto simp: parse_long_options_def Let_def m simp flip: eq_def len_def he_def)
  show ?thesis
  proof (cases "(\<not> ex \<and> sec) \<or> mt = -1 \<or> has_arg (los ! nat mt) = no_argument \<and> he \<noteq> None")
    case True
    then show ?thesis using assms unfolding unfolded by (auto simp: long_frame_def BADARG_def)
  next
    case False
    then show ?thesis using found unfolding unfolded by (fastforce simp: long_frame_def)
  qed
qed

section \<open>Option arguments\<close>

text \<open>The state in which an option argument is processed.\<close>

definition option_pre :: "int \<Rightarrow> getopt_state \<Rightarrow> bool" where
  "option_pre nargc s \<longleftrightarrow>
     nargc = int (length (nargv s)) \<and> argv_ok (nargv s) \<and> c_string_ok (chars (place s))
     \<and> pending s \<and> 0 \<le> optind s \<and> optind s < nargc"

lemma consumes_advance:
  assumes "option_pre nargc s"
  shows "consumes nargc s ((if cur (tl (chars (place s))) = NUL
     then s\<lparr>place := advance (place s), optind := optind s + 1\<rparr> else s\<lparr>place := advance (place s)\<rparr>))"
  using assms
  by (cases "chars (place s)") (simp_all add: consumes_def option_pre_def pending_def c_string_ok_def)

lemma consumes_cong:
  assumes "consumes nargc s t" "nargv t' = nargv t" "nonopt_start t' = nonopt_start t"
    "nonopt_end t' = nonopt_end t" "optreset t' = optreset t" "place t' = place t"
    "optind t' = optind t"
  shows "consumes nargc s t'"
  using assms by (simp add: consumes_def pending_def)

lemma consumes_long:
  assumes "long_frame t t'" "nargv t = nargv s" "nonopt_start t = nonopt_start s"
    "nonopt_end t = nonopt_end s" "optreset t = optreset s"
    "optind s < optind t'" "optind t' \<le> nargc"
  shows "consumes nargc s (t'\<lparr>place := EMSG\<rparr>)"
  using assms by (simp add: consumes_def long_frame_def pending_def c_string_ok_def)

lemma consumes_done:
  assumes "optind s < i" "i \<le> nargc"
  shows "consumes nargc s (s\<lparr>optarg := a, place := EMSG, optind := i\<rparr>)"
    and "consumes nargc s (s\<lparr>place := EMSG, optind := i\<rparr>)"
    and "consumes nargc s (s\<lparr>optind := i, place := EMSG\<rparr>)"
  using assms by (simp_all add: consumes_def pending_def c_string_ok_def)

lemma parse_long_options_only:
  assumes "0 \<le> optind s" "optind s < int (length (nargv s))" "vals_ok los"
  shows "\<exists>r s'. parse_long_options options los idx False flags s = Some (r, s')
    \<and> long_frame s s' \<and> optind s < optind s' \<and> optind s' \<le> int (length (nargv s))"
  using parse_long_options_consumes [OF assms, of options idx False flags]
  by (auto split: if_splits)

lemma dash_W_ok:
  assumes pre: "option_pre nargc s" and los: "vals_ok los"
    and t: "t = s\<lparr>place := advance (place s)\<rparr>"
  shows "\<exists>r s'. dash_W nargc options los idx flags oc t = Some (r, s') \<and> consumes nargc s s'"
proof -
  note p = pre [unfolded option_pre_def]
  consider (inline) "cur (chars (place t)) \<noteq> NUL"
    | (missing) "cur (chars (place t)) = NUL" "optind s + 1 \<ge> nargc"
    | (next_arg) "cur (chars (place t)) = NUL" "optind s + 1 < nargc" by linarith
  then show ?thesis
  proof cases
    case inline
    obtain r t' where "parse_long_options options los idx False flags t = Some (r, t')"
        "long_frame t t'" "optind t < optind t'" "optind t' \<le> nargc"
      using parse_long_options_only [of t los options idx flags] los p t by auto
    then show ?thesis using inline t by (auto simp: dash_W_def intro!: consumes_long)
  next
    case missing
    then show ?thesis using p t
      by (auto simp: dash_W_def Let_def consumes_def pending_def c_string_ok_def)
  next
    case next_arg
    let ?u = "\<lambda>a. t\<lparr>optind := optind t + 1, place := a\<rparr>"
    obtain a where a: "argv_at (nargv t) (optind t + 1) = Some (Some a)"
      using argv_at_less [of "nargv t" "optind t + 1"] p t next_arg by auto
    obtain r t' where "parse_long_options options los idx False flags (?u a) = Some (r, t')"
        "long_frame (?u a) t'" "optind (?u a) < optind t'" "optind t' \<le> nargc"
      using parse_long_options_only [of "?u a" los options idx flags] los p t next_arg by auto
    then show ?thesis using next_arg t a by (auto simp: dash_W_def Let_def intro!: consumes_long)
  qed
qed

lemma short_option_consumes:
  assumes pre: "option_pre nargc s" and los: "\<And>los. long_options = Some los \<Longrightarrow> vals_ok los"
  shows "\<exists>r s'. short_option pf nargc options long_options idx flags s = Some (r, s')
    \<and> consumes nargc s s'"
proof -
  note p = pre [unfolded option_pre_def]
  let ?c = "cur (chars (place s))" and ?t = "s\<lparr>place := advance (place s)\<rparr>"
  consider (unknown) "?c = CHR '':'' \<or> strchr options ?c = None"
    | (dash_W) oli los' where "\<not> (?c = CHR '':'')" "strchr options ?c = Some oli"
        "long_options = Some los'" "?c = CHR ''W''" "cur (tl oli) = CHR '';''"
    | (plain) oli where "\<not> (?c = CHR '':'')" "strchr options ?c = Some oli"
        "\<not> (long_options \<noteq> None \<and> ?c = CHR ''W'' \<and> cur (tl oli) = CHR '';'')"
        "cur (tl oli) \<noteq> CHR '':''"
    | (takes_arg) oli where "\<not> (?c = CHR '':'')" "strchr options ?c = Some oli"
        "\<not> (long_options \<noteq> None \<and> ?c = CHR ''W'' \<and> cur (tl oli) = CHR '';'')"
        "cur (tl oli) = CHR '':''"
    by blast
  then show ?thesis
  proof cases
    case unknown
    then show ?thesis
      by (auto simp: short_option_def Let_def intro!: consumes_cong [OF consumes_advance [OF pre]])
  next
    case dash_W
    then show ?thesis
      using dash_W_ok [OF pre los [OF dash_W(3)] refl]
      by (simp add: short_option_def Let_def)
  next
    case plain
    then show ?thesis
      using consumes_advance [OF pre] by (auto simp: short_option_def Let_def)
  next
    case takes_arg
    obtain a where "optind s + 1 < nargc \<Longrightarrow> argv_at (nargv s) (optind s + 1) = Some a"
      using argv_at_less [of "nargv s" "optind s + 1"] p by (cases "optind s + 1 < nargc") auto
    then show ?thesis
      using takes_arg p
      by (auto simp: short_option_def Let_def consumes_def pending_def c_string_ok_def)
  qed
qed

lemma option_argument_long:
  fixes s :: getopt_state and options :: string
  defines "c \<equiv> cur (chars (place s))"
  assumes "argv_at (nargv s) (optind s) = Some a"
    and "st \<longleftrightarrow> c \<noteq> CHR ''-'' \<and> c \<noteq> CHR '':'' \<and> strchr options c \<noteq> None"
    and "t = (if c = CHR ''-'' then s\<lparr>place := advance (place s)\<rparr> else s)"
  shows "option_argument pf nargc options (Some los) idx flags s =
      (if Some (place s) \<noteq> a \<and> (c = CHR ''-'' \<or> has_flag flags FLAG_LONGONLY)
       then do {
         (optchar, s) \<leftarrow> parse_long_options options los idx st flags t;
         if optchar \<noteq> -1 then Some (optchar, s\<lparr>place := EMSG\<rparr>)
         else short_option pf nargc options (Some los) idx flags s
       }
       else short_option pf nargc options (Some los) idx flags s)"
  using assms by (simp add: option_argument_def Let_def cong: if_cong)

lemma option_argument_consumes:
  assumes pre: "option_pre nargc s" and los: "\<And>los. long_options = Some los \<Longrightarrow> vals_ok los"
  shows "\<exists>r s'. option_argument pf nargc options long_options idx flags s = Some (r, s')
    \<and> consumes nargc s s'"
proof (cases long_options)
  case None
  then show ?thesis
    using short_option_consumes [OF pre, of None] by (simp add: option_argument_def)
next
  case (Some los')
  note p = pre [unfolded option_pre_def]
  let ?c = "cur (chars (place s))"
  define st where "st \<longleftrightarrow> ?c \<noteq> CHR ''-'' \<and> ?c \<noteq> CHR '':'' \<and> strchr options ?c \<noteq> None"
  define t where "t = (if ?c = CHR ''-'' then s\<lparr>place := advance (place s)\<rparr> else s)"
  have t: "nargv t = nargv s" "optind t = optind s" "nonopt_start t = nonopt_start s"
    "nonopt_end t = nonopt_end s" "optreset t = optreset s" and st: "st \<Longrightarrow> t = s"
    by (simp_all add: t_def st_def)
  obtain a where a: "argv_at (nargv s) (optind s) = Some a"
    using argv_at_less p by blast
  have unf: "option_argument pf nargc options long_options idx flags s =
      (if Some (place s) \<noteq> a \<and> (?c = CHR ''-'' \<or> has_flag flags FLAG_LONGONLY)
       then do {
         (optchar, s) \<leftarrow> parse_long_options options los' idx st flags t;
         if optchar \<noteq> -1 then Some (optchar, s\<lparr>place := EMSG\<rparr>)
         else short_option pf nargc options long_options idx flags s
       }
       else short_option pf nargc options long_options idx flags s)"
    unfolding Some by (rule option_argument_long [OF a st_def t_def])
  obtain r t' where r: "parse_long_options options los' idx st flags t = Some (r, t')"
      "long_frame t t'"
      "if r = -1 then st \<and> optind t' = optind t
       else optind t < optind t' \<and> optind t' \<le> int (length (nargv t))"
    using parse_long_options_consumes [of t los' options idx st flags] p t los [OF Some] by auto
  have so: "\<exists>r s'. short_option pf nargc options long_options idx flags u = Some (r, s')
      \<and> consumes nargc s s'" if "long_frame s u" "optind u = optind s" for u
  proof -
    have "option_pre nargc u"
      using pre that by (simp add: option_pre_def long_frame_def pending_def)
    from short_option_consumes [OF this los] obtain r' u' where
      "short_option pf nargc options long_options idx flags u = Some (r', u')"
      "consumes nargc u u'" by blast
    then show ?thesis using that by (auto simp: consumes_def long_frame_def)
  qed
  show ?thesis
  proof (cases "r = -1")
    case True
    then have "long_frame s t'" "optind t' = optind s" using r st t by auto
    with so [of t'] so [of s] True r(1) show ?thesis by (auto simp: unf long_frame_def)
  next
    case False
    then have "consumes nargc s (t'\<lparr>place := EMSG\<rparr>)"
      using r(2,3) p t by (intro consumes_long [of t]) auto
    with so [of s] False r(1) show ?thesis by (auto simp: unf long_frame_def)
  qed
qed

section \<open>Scanning stays in bounds\<close>

lemma permute_ok:
  assumes "0 \<le> nonopt_start s" "nonopt_start s < nonopt_end s" "nonopt_end s < optind s"
    "optind s \<le> int (length (nargv s))"
  shows "permute s = Some (s\<lparr>nargv := exchange_blocks (nat (nonopt_start s)) (nat (nonopt_end s))
    (nat (optind s)) (nargv s)\<rparr>)"
  using assms permute_args_exchange [of "nat (nonopt_start s)" "nat (nonopt_end s)" "nat (optind s)" "nargv s"]
  by (simp add: permute_def)

text \<open>A permutation of a well-formed vector is well-formed and has the same length.\<close>

lemma argv_perm:
  assumes "mset argv' = mset argv"
  shows "argv_ok argv' = argv_ok argv" "length argv' = length argv"
  using mset_eq_setD [OF assms] mset_eq_length [OF assms] by (simp_all add: argv_ok_def)

lemma permute_perm:
  assumes "0 \<le> nonopt_start s" "nonopt_start s < nonopt_end s" "nonopt_end s < optind s"
    "optind s \<le> int (length (nargv s))"
  shows "\<exists>argv. permute s = Some (s\<lparr>nargv := argv\<rparr>) \<and> mset argv = mset (nargv s)"
proof (intro exI conjI)
  show "permute s = Some (s\<lparr>nargv := exchange_blocks (nat (nonopt_start s)) (nat (nonopt_end s))
      (nat (optind s)) (nargv s)\<rparr>)"
    by (rule permute_ok [OF assms])
  show "mset (exchange_blocks (nat (nonopt_start s)) (nat (nonopt_end s)) (nat (optind s)) (nargv s)) =
      mset (nargv s)"
    by (rule mset_exchange_blocks) (use assms in auto)
qed

lemma end_of_args_ok:
  assumes "idle_blocks nargc s" "nargc = int (length (nargv s))" "0 \<le> optind s"
  shows "\<exists>s'. end_of_args s = Some (-1, s') \<and> mset (nargv s') = mset (nargv s)
    \<and> nonopt_start s' = -1 \<and> nonopt_end s' = -1 \<and> place s' = EMSG \<and> 0 \<le> optind s'
    \<and> optreset s' = optreset s"
  using assms permute_perm [of "s\<lparr>place := EMSG\<rparr>"]
  by (auto simp: end_of_args_def idle_blocks_def Let_def)

lemma double_dash_ok:
  assumes "mid_blocks nargc s" "nargc = int (length (nargv s))" "0 \<le> optind s"
  shows "\<exists>s'. double_dash s = Some (-1, s') \<and> mset (nargv s') = mset (nargv s)
    \<and> nonopt_start s' = -1 \<and> nonopt_end s' = -1 \<and> place s' = EMSG \<and> 0 \<le> optind s'
    \<and> optreset s' = optreset s"
  using assms permute_perm [of "s\<lparr>optind := optind s + 1, place := EMSG\<rparr>"]
  by (auto simp: double_dash_def mid_blocks_def Let_def)

lemma skip_nonoption_ok:
  assumes "idle_blocks nargc s" "nargc = int (length (nargv s))" "0 \<le> optind s" "optind s < nargc"
  shows "\<exists>s'. skip_nonoption s = Some s' \<and> idle_blocks nargc s' \<and> mset (nargv s') = mset (nargv s)
    \<and> optreset s' = optreset s \<and> place s' = place s \<and> optind s' = optind s + 1"
  using assms permute_perm [of s]
  by (auto simp: skip_nonoption_def idle_blocks_def)

definition scan_post :: "int \<Rightarrow> cstr list \<Rightarrow> scan \<Rightarrow> bool" where
  "scan_post nargc argv out = (case out of
     Return r s' \<Rightarrow> getopt_inv nargc s' \<and> \<not> pending s' \<and> optreset s' = 0
       \<and> mset (nargv s') = mset argv
   | Proceed s' \<Rightarrow> option_pre nargc s' \<and> mid_blocks nargc s' \<and> optreset s' = 0
       \<and> mset (nargv s') = mset argv)"

lemma scan_post_perm: "mset argv' = mset argv \<Longrightarrow> scan_post nargc argv' out = scan_post nargc argv out"
  by (cases out) (simp_all add: scan_post_def)

text \<open>The cases of the block under \<open>start:\<close>.\<close>

lemma scan_pending:
  "optreset s = 0 \<Longrightarrow> pending s \<Longrightarrow> getopt_scan nargc options flags s = Some (Proceed s)"
  by (simp add: getopt_scan.simps [of nargc options flags s])

lemma scan_end:
  assumes "\<not> (optreset s = 0 \<and> pending s)" "optind s \<ge> nargc"
  shows "getopt_scan nargc options flags s =
    map_option (\<lambda>(r, s). Return r s) (end_of_args (s\<lparr>optreset := 0\<rparr>))"
  using assms by (subst getopt_scan.simps) auto

lemma scan_nonoption:
  assumes "\<not> (optreset s = 0 \<and> pending s)" "optind s < nargc"
    and "argv_at (nargv s) (optind s) = Some (Some a)" "is_nonoption options a"
  shows "getopt_scan nargc options flags s =
    (let s = s\<lparr>optreset := 0, place := EMSG\<rparr> in
     if has_flag flags FLAG_ALLARGS
     then Some (Return INORDER (s\<lparr>optarg := Some a, optind := optind s + 1\<rparr>))
     else if \<not> has_flag flags FLAG_PERMUTE then Some (Return (-1) s)
     else case skip_nonoption s of
       None \<Rightarrow> None | Some s \<Rightarrow> getopt_scan nargc options flags s)"
  using assms by (subst getopt_scan.simps) (auto simp: Let_def)

lemma scan_option:
  assumes "\<not> (optreset s = 0 \<and> pending s)" "optind s < nargc"
    and "argv_at (nargv s) (optind s) = Some (Some a)" "\<not> is_nonoption options a"
  shows "getopt_scan nargc options flags s = enter_option a (s\<lparr>optreset := 0\<rparr>)"
  using assms by (subst getopt_scan.simps) (auto simp: Let_def)

lemma getopt_inv_idle:
  assumes "idle_blocks nargc s'" "place s' = EMSG" "0 \<le> optind s'"
    and "mset (nargv s') = mset argv" "argv_ok argv" "nargc = int (length argv)"
  shows "getopt_inv nargc s' \<and> \<not> pending s'"
  using assms argv_perm [OF assms(4)]
  by (simp add: getopt_inv_def pending_def c_string_ok_def)

lemma enter_option_ok:
  assumes "idle_blocks nargc s" "nargc = int (length (nargv s))" "argv_ok (nargv s)"
    and "0 \<le> optind s" "optind s < nargc" "optreset s = 0"
    and "c_string_ok (chars a)" "cur (chars a) \<noteq> NUL"
  shows "\<exists>out. enter_option a s = Some out \<and> scan_post nargc (nargv s) out"
proof -
  define u where "u = (if nonopt_start s \<noteq> -1 \<and> nonopt_end s = -1
    then s\<lparr>place := a, nonopt_end := optind s\<rparr> else s\<lparr>place := a\<rparr>)"
  have u: "nargv u = nargv s" "optind u = optind s" "optreset u = 0" "place u = a"
    using assms(6) by (simp_all add: u_def)
  have mb: "mid_blocks nargc (u\<lparr>place := q\<rparr>)" for q
    using assms(1,5) by (auto simp: mid_blocks_def idle_blocks_def u_def)
  have go: "scan_post nargc (nargv s) (Proceed (u\<lparr>place := q\<rparr>))"
    if "c_string_ok (chars q)" "cur (chars q) \<noteq> NUL" for q
    using assms(2-6) mb [of q] that u by (simp add: scan_post_def option_pre_def pending_def)
  obtain s' where dd: "double_dash (u\<lparr>place := advance a\<rparr>) = Some (-1, s')"
      "mset (nargv s') = mset (nargv s)" "nonopt_start s' = -1" "nonopt_end s' = -1"
      "place s' = EMSG" "0 \<le> optind s'" "optreset s' = 0"
    using double_dash_ok [OF mb [of "advance a"]] assms u by auto
  have stop: "scan_post nargc (nargv s) (Return (-1) s')"
    using dd assms getopt_inv_idle [of nargc s' "nargv s"]
    by (simp add: scan_post_def idle_blocks_def)
  have unf: "enter_option a s =
      (if cur (tl (chars a)) \<noteq> NUL
       then if cur (tl (chars a)) = CHR ''-'' \<and> cur (tl (tl (chars a))) = NUL
            then map_option (\<lambda>(r, s). Return r s) (double_dash (u\<lparr>place := advance a\<rparr>))
            else Some (Proceed (u\<lparr>place := advance a\<rparr>))
       else Some (Proceed u))"
    by (simp add: enter_option_def Let_def u_def)
  have self: "u\<lparr>place := a\<rparr> = u" using u(4) by simp
  show ?thesis
    unfolding unf using go [of a] go [of "advance a"] dd(1) stop self assms(7,8)
      c_string_ok_tl [OF assms(7)] by auto
qed

lemma getopt_scan_ok:
  assumes "nargc = int (length (nargv s))" "argv_ok (nargv s)" "c_string_ok (chars (place s))"
    and "0 \<le> optind s"
    and "if optreset s = 0 \<and> pending s then mid_blocks nargc s else idle_blocks nargc s"
  shows "\<exists>out. getopt_scan nargc options flags s = Some out \<and> scan_post nargc (nargv s) out"
  using assms
proof (induction "nat (nargc - optind s)" arbitrary: s rule: less_induct)
  case less
  show ?case
  proof (cases "optreset s = 0 \<and> pending s")
    case True
    then show ?thesis
      using less.prems by (simp add: scan_pending scan_post_def option_pre_def mid_blocks_def)
  next
    case idle: False
    have ib: "idle_blocks nargc (s\<lparr>optreset := 0, place := q\<rparr>)" for q
      using less.prems(5) idle by (simp add: idle_blocks_def)
    have ib0: "idle_blocks nargc (s\<lparr>optreset := 0\<rparr>)" using ib [of "place s"] by simp
    show ?thesis
    proof (cases "optind s < nargc")
      case False
      then obtain s' where "end_of_args (s\<lparr>optreset := 0\<rparr>) = Some (-1, s')"
          "mset (nargv s') = mset (nargv s)" "nonopt_start s' = -1" "nonopt_end s' = -1"
          "place s' = EMSG" "0 \<le> optind s'" "optreset s' = 0"
        using end_of_args_ok [OF ib0] less.prems by auto
      then show ?thesis
        using scan_end [OF idle, of nargc] False getopt_inv_idle [of nargc s' "nargv s"] less.prems
        by (simp add: scan_post_def idle_blocks_def)
    next
      case more: True
      obtain i t where a: "argv_at (nargv s) (optind s) = Some (Some (Str i t))" "c_string_ok t"
        using argv_at_less [of "nargv s" "optind s"] less.prems more by auto
      show ?thesis
      proof (cases "is_nonoption options (Str i t)")
        case False
        then have "cur t \<noteq> NUL" by (auto simp: is_nonoption_def)
        with enter_option_ok [OF ib0, of "Str i t"] less.prems more a
          scan_option [OF idle more a(1) False]
        show ?thesis by simp
      next
        case nonopt: True
        let ?u = "s\<lparr>optreset := 0, place := EMSG\<rparr>"
        obtain s' where sk: "skip_nonoption ?u = Some s'" "idle_blocks nargc s'"
            "mset (nargv s') = mset (nargv s)" "optreset s' = 0" "place s' = EMSG"
            "optind s' = optind s + 1"
          using skip_nonoption_ok [OF ib [of EMSG]] less.prems more by auto
        note perm = argv_perm [OF sk(3)]
        have "\<exists>out. getopt_scan nargc options flags s' = Some out \<and> scan_post nargc (nargv s') out"
          by (rule less.hyps) (use sk perm less.prems more in \<open>auto simp: pending_def c_string_ok_def\<close>)
        then have skip: "\<exists>out. getopt_scan nargc options flags s' = Some out
            \<and> scan_post nargc (nargv s) out"
          using scan_post_perm [OF sk(3)] by simp
        have ret: "scan_post nargc (nargv s) (Return r (?u\<lparr>optarg := x, optind := j\<rparr>))"
          if j: "optind s \<le> j" "j \<le> nargc" for r x j
        proof -
          have "idle_blocks nargc (?u\<lparr>optarg := x, optind := j\<rparr>)"
            using ib [of EMSG] j unfolding idle_blocks_def by simp linarith
          then show ?thesis
            using getopt_inv_idle [of nargc "?u\<lparr>optarg := x, optind := j\<rparr>" "nargv s"] less.prems j
            by (simp add: scan_post_def)
        qed
        have "scan_post nargc (nargv s) (Return (-1) ?u)"
          using ret [of "optind s" "-1" "optarg s"] more by simp
        then show ?thesis
          using skip sk(1) ret [of "optind s + 1"] more
          unfolding scan_nonoption [OF idle more a(1) nonopt, of flags] by (simp add: Let_def)
      qed
    qed
  qed
qed

section \<open>Every call is defined and keeps the invariant\<close>

lemma getopt_inv_consumes:
  assumes "option_pre nargc s" "mid_blocks nargc s" "consumes nargc s s'"
  shows "getopt_inv nargc s'"
proof (cases "pending s'")
  case True
  then show ?thesis
    using assms by (simp add: getopt_inv_def option_pre_def mid_blocks_def consumes_def)
next
  case False
  then have "idle_blocks nargc s'"
    using assms unfolding consumes_def idle_blocks_def mid_blocks_def by auto
  then show ?thesis
    using False assms by (simp add: getopt_inv_def option_pre_def consumes_def)
qed

definition long_vals_ok :: "long_option list option \<Rightarrow> bool" where
  "long_vals_ok los \<longleftrightarrow> (case los of None \<Rightarrow> True | Some l \<Rightarrow> vals_ok l)"

lemma getopt_internal_ok:
  assumes inv: "getopt_inv nargc s" and los: "long_vals_ok long_options"
  shows "\<exists>r s'. getopt_internal pf nargc options long_options idx flags s = Some (r, s')
    \<and> getopt_inv nargc s' \<and> mset (nargv s') = mset (nargv s)"
proof (cases options)
  case None
  then show ?thesis using inv by (simp add: getopt_internal_def)
next
  case (Some opts)
  define s1 where "s1 = (if optind s = 0 then s\<lparr>optind := 1, optreset := 1\<rparr> else s)"
  define s2 where "s2 = (if posixly_correct s1 = -1 \<or> optreset s1 \<noteq> 0
    then s1\<lparr>posixly_correct := of_bool (posixly_env pf)\<rparr> else s1)"
  define fl where "fl = (if cur opts = CHR ''-'' then flags OR FLAG_ALLARGS
    else if posixly_correct s2 \<noteq> 0 \<or> cur opts = CHR ''+'' then flags AND NOT FLAG_PERMUTE else flags)"
  define o' where "o' = (if cur opts = CHR ''+'' \<or> cur opts = CHR ''-'' then tl opts else opts)"
  define s3 where "s3 = s2\<lparr>optarg := None\<rparr>"
  define s4 where "s4 = (if optreset s3 \<noteq> 0 then s3\<lparr>nonopt_start := -1, nonopt_end := -1\<rparr> else s3)"
  have unf: "getopt_internal pf nargc options long_options idx flags s =
      (case getopt_scan nargc o' fl s4 of
         None \<Rightarrow> None
       | Some (Return r s) \<Rightarrow> Some (r, s)
       | Some (Proceed s) \<Rightarrow> option_argument pf nargc o' long_options idx fl s)"
    unfolding getopt_internal_def Some Let_def option.case
    by (simp only: s1_def [symmetric] s2_def [symmetric] fl_def [symmetric] o'_def [symmetric]
        s3_def [symmetric] s4_def [symmetric])
  have frame: "nargv s4 = nargv s" "place s4 = place s"
    by (simp_all add: s1_def s2_def s3_def s4_def)
  have blocks: "if optreset s4 = 0 \<and> pending s4 then mid_blocks nargc s4 else idle_blocks nargc s4"
    using inv by (auto simp: s1_def s2_def s3_def s4_def getopt_inv_def pending_def idle_blocks_def
        mid_blocks_def)
  have "0 \<le> optind s4" using inv by (simp add: s1_def s2_def s3_def s4_def getopt_inv_def)
  then obtain out where out: "getopt_scan nargc o' fl s4 = Some out" "scan_post nargc (nargv s) out"
    using getopt_scan_ok [OF _ _ _ _ blocks, of o' fl] inv frame by (auto simp: getopt_inv_def)
  show ?thesis
  proof (cases out)
    case (Return r s')
    then show ?thesis using out by (simp add: unf scan_post_def)
  next
    case (Proceed t)
    then have t: "option_pre nargc t" "mid_blocks nargc t" "mset (nargv t) = mset (nargv s)"
      using out(2) by (simp_all add: scan_post_def)
    have "\<exists>r s'. option_argument pf nargc o' long_options idx fl t = Some (r, s') \<and> consumes nargc t s'"
      by (rule option_argument_consumes [OF t(1)]) (use los in \<open>simp add: long_vals_ok_def\<close>)
    then show ?thesis
      using t getopt_inv_consumes [OF t(1,2)] out(1) Proceed by (auto simp: unf consumes_def)
  qed
qed

section \<open>Resolution of long option names\<close>

text \<open>A name is a candidate for the word if the word abbreviates it; a one-letter word that
  is also a short option abbreviates nothing. Two candidates conflict unless they do the
  same thing.\<close>

definition candidate :: "string \<Rightarrow> nat \<Rightarrow> bool \<Rightarrow> long_option \<Rightarrow> bool" where
  "candidate current len short_too lo \<longleftrightarrow>
     take len (lo_name lo) = take len current \<and> \<not> (short_too \<and> len = 1)"

definition conflict :: "flags \<Rightarrow> long_option \<Rightarrow> long_option \<Rightarrow> bool" where
  "conflict flags lo lo' \<longleftrightarrow> has_flag flags FLAG_LONGONLY
     \<or> has_arg lo \<noteq> has_arg lo' \<or> flag lo \<noteq> flag lo' \<or> val lo \<noteq> val lo'"

definition first_candidate :: "string \<Rightarrow> nat \<Rightarrow> bool \<Rightarrow> flags \<Rightarrow> long_option list \<Rightarrow> int \<Rightarrow> bool \<Rightarrow> bool" where
  "first_candidate current len short_too flags los match second \<longleftrightarrow>
     (match = -1 \<and> \<not> second \<and> (\<forall>lo \<in> set los. \<not> candidate current len short_too lo))
     \<or> (\<exists>k < length los. match = int k \<and> candidate current len short_too (los ! k)
          \<and> (\<forall>j < k. \<not> candidate current len short_too (los ! j))
          \<and> (second \<longleftrightarrow> (\<exists>j. k < j \<and> j < length los \<and> candidate current len short_too (los ! j)
               \<and> conflict flags (los ! j) (los ! k))))"

lemma ex_later_append:
  assumes "k < length xs"
  shows "(\<exists>j. k < j \<and> j < length (xs @ [x]) \<and> P ((xs @ [x]) ! j)) \<longleftrightarrow>
    (\<exists>j. k < j \<and> j < length xs \<and> P (xs ! j)) \<or> P x"
proof
  assume "\<exists>j. k < j \<and> j < length (xs @ [x]) \<and> P ((xs @ [x]) ! j)"
  then obtain j where j: "k < j" "j < Suc (length xs)" "P ((xs @ [x]) ! j)" by auto
  then show "(\<exists>j. k < j \<and> j < length xs \<and> P (xs ! j)) \<or> P x"
    by (cases "j = length xs") (auto simp: nth_append less_Suc_eq)
next
  assume "(\<exists>j. k < j \<and> j < length xs \<and> P (xs ! j)) \<or> P x"
  then show "\<exists>j. k < j \<and> j < length (xs @ [x]) \<and> P ((xs @ [x]) ! j)"
  proof
    assume "P x"
    then show ?thesis using assms by (intro exI [of _ "length xs"]) simp
  qed (auto simp: nth_append intro: less_SucI)
qed

lemma first_candidate_none:
  assumes "first_candidate cu len st fl los m sec" "\<not> candidate cu len st lo"
  shows "first_candidate cu len st fl (los @ [lo]) m sec"
proof (cases "m = -1")
  case True
  then show ?thesis using assms by (auto simp: first_candidate_def)
next
  case False
  then obtain k where k: "k < length los" "m = int k" "candidate cu len st (los ! k)"
      "\<forall>j < k. \<not> candidate cu len st (los ! j)"
      "sec \<longleftrightarrow> (\<exists>j. k < j \<and> j < length los \<and> candidate cu len st (los ! j)
         \<and> conflict fl (los ! j) (los ! k))"
    using assms(1) by (auto simp: first_candidate_def)
  have "(\<exists>j. k < j \<and> j < length (los @ [lo]) \<and> candidate cu len st ((los @ [lo]) ! j)
      \<and> conflict fl ((los @ [lo]) ! j) ((los @ [lo]) ! k)) = sec"
    using ex_later_append [OF k(1), of lo "\<lambda>x. candidate cu len st x \<and> conflict fl x (los ! k)"]
      assms(2) k(1,5) by (simp add: nth_append [of los "[lo]" k])
  then show ?thesis
    using k(1-4) unfolding first_candidate_def
    by (intro disjI2 exI [of _ k]) (simp add: nth_append)
qed

lemma first_candidate_first:
  assumes "first_candidate cu len st fl los (-1) sec" "candidate cu len st lo"
  shows "first_candidate cu len st fl (los @ [lo]) (int (length los)) sec"
  using assms unfolding first_candidate_def by (auto simp: nth_append)

lemma first_candidate_later:
  assumes "first_candidate cu len st fl los m sec" "candidate cu len st lo" "m \<noteq> -1"
  shows "first_candidate cu len st fl (los @ [lo]) m (sec \<or> conflict fl lo (los ! nat m))"
proof -
  obtain k where k: "k < length los" "m = int k" "candidate cu len st (los ! k)"
      "\<forall>j < k. \<not> candidate cu len st (los ! j)"
      "sec \<longleftrightarrow> (\<exists>j. k < j \<and> j < length los \<and> candidate cu len st (los ! j)
         \<and> conflict fl (los ! j) (los ! k))"
    using assms(1,3) by (auto simp: first_candidate_def)
  have "(\<exists>j. k < j \<and> j < length (los @ [lo]) \<and> candidate cu len st ((los @ [lo]) ! j)
      \<and> conflict fl ((los @ [lo]) ! j) ((los @ [lo]) ! k)) = (sec \<or> conflict fl lo (los ! k))"
    using ex_later_append [OF k(1), of lo "\<lambda>x. candidate cu len st x \<and> conflict fl x (los ! k)"]
      assms(2) k(1,5) by (simp add: nth_append [of los "[lo]" k])
  then show ?thesis
    using k(1-4) unfolding first_candidate_def
    by (intro disjI2 exI [of _ k]) (simp add: nth_append)
qed

lemma exact_name:
  assumes "len \<le> length cu"
  shows "strncmp_eq cu n len \<and> length n = len \<longleftrightarrow> n = take len cu"
  using assms by (auto simp: strncmp_eq_def)

lemma match_long_spec:
  assumes "len \<le> length cu" "all = seen @ rest" "i = int (length seen)"
    and "first_candidate cu len st fl seen m sec" "\<forall>lo \<in> set seen. lo_name lo \<noteq> take len cu"
    and "match_long cu len st fl all rest i m sec = (m', ex', sec')"
  shows "if ex' then 0 \<le> m' \<and> nat m' < length all \<and> lo_name (all ! nat m') = take len cu
           \<and> (\<forall>j < nat m'. lo_name (all ! j) \<noteq> take len cu)
         else first_candidate cu len st fl all m' sec'
           \<and> (\<forall>lo \<in> set all. lo_name lo \<noteq> take len cu)"
  using assms
proof (induction rest arbitrary: seen i m sec)
  case Nil
  then show ?case by simp
next
  case (Cons lo rest)
  note ex = exact_name [OF Cons.prems(1), of "lo_name lo"]
  show ?case
  proof (cases "lo_name lo = take len cu")
    case True
    then have "m' = i" "ex'" using ex Cons.prems(6) by auto
    moreover have "\<forall>j < length seen. lo_name (all ! j) \<noteq> take len cu"
      using Cons.prems(2,5) by (simp add: nth_append)
    ultimately show ?thesis using True Cons.prems(2,3) by simp
  next
    case False
    have split: "all = (seen @ [lo]) @ rest" "i + 1 = int (length (seen @ [lo]))"
      "\<forall>x \<in> set (seen @ [lo]). lo_name x \<noteq> take len cu"
      using Cons.prems False by auto
    note IH = Cons.IH [OF Cons.prems(1) split(1,2) _ split(3)]
    have cand: "candidate cu len st lo \<longleftrightarrow> strncmp_eq cu (lo_name lo) len \<and> \<not> (st \<and> len = 1)"
      by (auto simp: candidate_def strncmp_eq_def)
    consider "\<not> candidate cu len st lo" | "candidate cu len st lo" "m = -1"
      | "candidate cu len st lo" "m \<noteq> -1" by blast
    then show ?thesis
    proof cases
      case 1
      then have "match_long cu len st fl all rest (i + 1) m sec = (m', ex', sec')"
        using Cons.prems(6) ex False cand by (auto split: if_splits)
      with IH [OF first_candidate_none [OF Cons.prems(4) 1]] show ?thesis .
    next
      case 2
      then have "match_long cu len st fl all rest (i + 1) i sec = (m', ex', sec')"
        using Cons.prems(6) ex False cand by (auto split: if_splits)
      moreover have "first_candidate cu len st fl (seen @ [lo]) i sec"
        using first_candidate_first Cons.prems(3,4) 2 by blast
      ultimately show ?thesis using IH by blast
    next
      case 3
      have "nat m < length seen" using Cons.prems(4) 3 by (auto simp: first_candidate_def)
      then have "all ! nat m = seen ! nat m" using Cons.prems(2) by (simp add: nth_append)
      then have "match_long cu len st fl all rest (i + 1) m
          (sec \<or> conflict fl lo (seen ! nat m)) = (m', ex', sec')"
        using Cons.prems(6) ex False cand 3 by (auto simp: conflict_def split: if_splits)
      with IH [OF first_candidate_later [OF Cons.prems(4) 3]] show ?thesis .
    qed
  qed
qed

section \<open>Plain \<open>getopt\<close>\<close>

lemma getopt_scan_no_permute:
  assumes "\<not> has_flag flags FLAG_PERMUTE" "nonopt_start s = -1" "nonopt_end s = -1"
    and "getopt_scan nargc options flags s = Some out"
    and "s' = (case out of Return r t \<Rightarrow> t | Proceed t \<Rightarrow> t)"
  shows "nargv s' = nargv s \<and> nonopt_start s' = -1 \<and> nonopt_end s' = -1"
  using assms
  by (auto simp: getopt_scan.simps [of nargc options flags s] end_of_args_def enter_option_def
      double_dash_def Let_def split: if_splits option.splits)

lemma getopt_no_permute:
  assumes inv: "getopt_inv nargc s" and no: "nonopt_start s = -1" "nonopt_end s = -1"
    and r: "getopt pf nargc options s = Some (r, s')"
  shows "nargv s' = nargv s \<and> nonopt_start s' = -1 \<and> nonopt_end s' = -1"
proof (cases options)
  case None
  then show ?thesis using r no by (simp add: getopt_def getopt_internal_def)
next
  case (Some opts)
  define fl :: flags where "fl = (if cur opts = CHR ''-'' then 2 else 0)"
  define o' where "o' = (if cur opts = CHR ''+'' \<or> cur opts = CHR ''-'' then tl opts else opts)"
  obtain s4 out where s4: "nargv s4 = nargv s" "nonopt_start s4 = -1" "nonopt_end s4 = -1"
      "0 \<le> optind s4" "place s4 = place s"
      "if optreset s4 = 0 \<and> pending s4 then mid_blocks nargc s4 else idle_blocks nargc s4"
    and out: "getopt_scan nargc o' fl s4 = Some out"
      "Some (r, s') = (case out of Return r s \<Rightarrow> Some (r, s)
         | Proceed s \<Rightarrow> option_argument pf nargc o' None False fl s)"
  proof -
    define s1 where "s1 = (if optind s = 0 then s\<lparr>optind := 1, optreset := 1\<rparr> else s)"
    define s2 where "s2 = (if posixly_correct s1 = -1 \<or> optreset s1 \<noteq> 0
      then s1\<lparr>posixly_correct := of_bool (posixly_env pf)\<rparr> else s1)"
    define s3 where "s3 = s2\<lparr>optarg := None\<rparr>"
    define s4 where "s4 = (if optreset s3 \<noteq> 0 then s3\<lparr>nonopt_start := -1, nonopt_end := -1\<rparr> else s3)"
    have f: "nargv s4 = nargv s" "place s4 = place s" "nonopt_start s4 = -1" "nonopt_end s4 = -1"
      using no by (simp_all add: s1_def s2_def s3_def s4_def)
    have b: "if optreset s4 = 0 \<and> pending s4 then mid_blocks nargc s4 else idle_blocks nargc s4"
      using inv by (auto simp: s1_def s2_def s3_def s4_def getopt_inv_def pending_def idle_blocks_def
          mid_blocks_def)
    have fl: "(if cur opts = CHR ''-'' then 0 OR FLAG_ALLARGS
        else if posixly_correct s2 \<noteq> 0 \<or> cur opts = CHR ''+'' then 0 AND NOT FLAG_PERMUTE else 0) = fl"
      by (simp add: fl_def)
    have "Some (r, s') = (case getopt_scan nargc o' fl s4 of None \<Rightarrow> None
         | Some (Return r s) \<Rightarrow> Some (r, s)
         | Some (Proceed s) \<Rightarrow> option_argument pf nargc o' None False fl s)"
      using r unfolding getopt_def getopt_internal_def Some Let_def option.case
      by (simp only: s1_def [symmetric] s2_def [symmetric] fl o'_def [symmetric]
          s3_def [symmetric] s4_def [symmetric])
    moreover have "0 \<le> optind s4"
      using inv by (simp add: s1_def s2_def s3_def s4_def getopt_inv_def)
    ultimately show ?thesis using that [of s4] f b by (auto split: option.splits)
  qed
  have nf: "\<not> has_flag fl FLAG_PERMUTE" by (simp add: fl_def has_flag_def)
  note sc = getopt_scan_no_permute [OF nf s4(2,3) out(1) refl]
  show ?thesis
  proof (cases out)
    case (Return r0 t)
    then show ?thesis using sc out(2) s4(1) by simp
  next
    case (Proceed t)
    have "scan_post nargc (nargv s4) out"
      using getopt_scan_ok [OF _ _ _ s4(4,6), of o' fl] inv s4 out(1) by (auto simp: getopt_inv_def)
    then have "option_pre nargc t" using Proceed by (simp add: scan_post_def)
    then obtain r1 s1 where "option_argument pf nargc o' None False fl t = Some (r1, s1)"
        "consumes nargc t s1"
      using option_argument_consumes [of nargc t None] by blast
    then show ?thesis using sc out(2) s4(1) Proceed by (simp add: consumes_def)
  qed
qed

section \<open>Properties\<close>

text \<open>C16. Whatever the option string, the long options and the flags, a call of
  \<open>getopt_internal\<close> between well-formed states is defined (it neither reads outside the
  vector nor dereferences its terminating null pointer), leaves a well-formed state for the
  next call and only permutes the vector. No long option may have the value -1.\<close>

theorem getopt_internal_safe:
  assumes "getopt_inv nargc s" "long_vals_ok long_options"
  shows "\<exists>r s'. getopt_internal pf nargc options long_options idx flags s = Some (r, s')
    \<and> getopt_inv nargc s' \<and> mset (nargv s') = mset (nargv s)"
  using assms by (rule getopt_internal_ok)

text \<open>The state in the middle of a run of \<open>prog x -ab y\<close>: one non-option skipped,
  the letter b of the cluster pending.\<close>

definition mid_run :: getopt_state where
  "mid_run = (getopt_init [Str 0 ''prog'', Str 1 ''x'', Str 2 ''-ab'', Str 3 ''y''])
     \<lparr>optind := 2, place := Str 2 ''b'', nonopt_start := 1, nonopt_end := 2\<rparr>"

lemma mid_run_inv: "getopt_inv 4 mid_run" "long_vals_ok (Some [])"
  by (simp_all add: mid_run_def getopt_init_def getopt_inv_def argv_ok_def c_string_ok_def
      pending_def mid_blocks_def long_vals_ok_def vals_ok_def)

theorem getopt_internal_safe_witness:
  "getopt_inv 4 mid_run \<and> long_vals_ok (Some [])
   \<and> (\<exists>r s'. getopt_internal \<lparr>char_signed = True, posixly_env = False\<rparr> 4 (Some ''ab:'') (Some []) True
        FLAG_PERMUTE mid_run = Some (r, s')
      \<and> getopt_inv 4 s' \<and> mset (nargv s') = mset (nargv mid_run))"
  using mid_run_inv getopt_internal_safe [OF mid_run_inv] by blast

text \<open>C21. The search of \<open>parse_long_options\<close>: if the word (up to the equals sign) is the
  name of a long option, the first such option is found, exactly; otherwise the first option
  it abbreviates is found, and the word is reported as ambiguous if and only if it abbreviates a
  later one that does something else (any later one, with \<open>FLAG_LONGONLY\<close>).\<close>

theorem long_option_resolution:
  assumes "len \<le> length current"
    and "match_long current len short_too flags los los 0 (-1) False = (match, exact_match, second)"
  shows "(exact_match \<longleftrightarrow> (\<exists>lo \<in> set los. lo_name lo = take len current))
    \<and> (if exact_match
       then 0 \<le> match \<and> nat match < length los \<and> lo_name (los ! nat match) = take len current
         \<and> (\<forall>j < nat match. lo_name (los ! j) \<noteq> take len current)
       else first_candidate current len short_too flags los match second)"
proof -
  have "first_candidate current len short_too flags [] (-1) False" by (simp add: first_candidate_def)
  then have "if exact_match then 0 \<le> match \<and> nat match < length los
        \<and> lo_name (los ! nat match) = take len current
        \<and> (\<forall>j < nat match. lo_name (los ! j) \<noteq> take len current)
      else first_candidate current len short_too flags los match second
        \<and> (\<forall>lo \<in> set los. lo_name lo \<noteq> take len current)"
    using match_long_spec [OF assms(1) _ _ _ _ assms(2), of "[]"] by simp
  then show ?thesis by (auto dest: nth_mem split: if_splits)
qed

definition demo_long :: "long_option list" where
  "demo_long = [\<lparr>lo_name = ''verbose'', has_arg = 0, flag = None, val = 1\<rparr>,
     \<lparr>lo_name = ''version'', has_arg = 0, flag = None, val = 2\<rparr>]"

lemma demo_long_match:
  "match_long ''ver'' 3 False 0 demo_long demo_long 0 (-1) False = (0, False, True)"
  by (simp add: demo_long_def strncmp_eq_def)

theorem long_option_resolution_witness:
  "match_long ''ver'' 3 False 0 demo_long demo_long 0 (-1) False = (0, False, True)
   \<and> first_candidate ''ver'' 3 False 0 demo_long 0 True"
  using long_option_resolution [OF _ demo_long_match] demo_long_match by simp

text \<open>\<open>getopt\<close> never reorders the vector, unlike \<open>getopt_long\<close>: as long as only
  \<open>getopt\<close> is called, no non-option is skipped.\<close>

theorem getopt_never_permutes:
  assumes "getopt_inv nargc s" "nonopt_start s = -1" "nonopt_end s = -1"
  shows "\<exists>r s'. getopt pf nargc options s = Some (r, s')
    \<and> nargv s' = nargv s \<and> nonopt_start s' = -1 \<and> nonopt_end s' = -1 \<and> getopt_inv nargc s'"
proof -
  obtain r s' where "getopt pf nargc options s = Some (r, s')" "getopt_inv nargc s'"
    using getopt_internal_ok [OF assms(1), of None pf options False 0]
    by (auto simp: getopt_def long_vals_ok_def)
  then show ?thesis using getopt_no_permute [OF assms] by blast
qed

theorem getopt_never_permutes_witness:
  "let s = getopt_init [Str 0 ''prog'', Str 1 ''x'', Str 2 ''-a''] in
   \<exists>r s'. getopt \<lparr>char_signed = True, posixly_env = False\<rparr> 3 (Some ''a'') s = Some (r, s')
     \<and> nargv s' = nargv s"
proof -
  let ?s = "getopt_init [Str 0 ''prog'', Str 1 ''x'', Str 2 ''-a'']"
  have "getopt_inv 3 ?s" "nonopt_start ?s = -1" "nonopt_end ?s = -1"
    by (simp_all add: getopt_init_def getopt_inv_def argv_ok_def c_string_ok_def pending_def
        idle_blocks_def)
  from getopt_never_permutes [OF this] show ?thesis unfolding Let_def by blast
qed

end
