(* ===== verification/Getopt_Run.thy ===== *)
theory Getopt_Run
  imports Getopt
begin

text \<open>
  What a program sees that calls \<open>getopt_long\<close> until it returns -1: the calls end,
  and they leave the argument vector partitioned, the options and their arguments in
  front, the skipped non-options behind them, both in their original order, with
  \<open>optind\<close> at the first element that is not an option.

  \<open>parts\<close> relates a state between two calls to the original vector \<open>A\<close>: the part
  before \<open>optind\<close> is cut into finished options \<open>P\<close>, skipped non-options \<open>N\<close> and the
  options \<open>Q\<close> behind them, and the original prefix is an interleaving of \<open>P @ Q\<close>
  and \<open>N\<close>.
\<close>

section \<open>Interleavings\<close>

lemma shuffles_append1: "zs \<in> shuffles xs ys \<Longrightarrow> zs @ ws \<in> shuffles (xs @ ws) ys"
proof (induction xs ys arbitrary: zs rule: shuffles.induct)
  case (1 ys)
  then show ?case
  proof (induction ys arbitrary: zs)
    case Nil
    then show ?case by simp
  next
    case (Cons y ys)
    then show ?case by (cases ws) auto
  qed
next
  case (2 xs)
  then show ?case by simp
next
  case (3 x xs y ys)
  then show ?case by auto
qed

lemma shuffles_append2: "zs \<in> shuffles xs ys \<Longrightarrow> zs @ ws \<in> shuffles xs (ys @ ws)"
  using shuffles_append1 [of zs ys xs ws] by (simp add: shuffles_commutes)

section \<open>The cut of the vector\<close>

definition parts :: "string \<Rightarrow> flags \<Rightarrow> cstr list \<Rightarrow> getopt_state \<Rightarrow> cstr list \<Rightarrow> cstr list
    \<Rightarrow> cstr list \<Rightarrow> bool" where
  "parts opts fl A s P N Q \<longleftrightarrow>
     0 \<le> optind s \<and> optind s \<le> int (length A)
     \<and> nargv s = P @ N @ Q @ drop (nat (optind s)) A
     \<and> take (nat (optind s)) A \<in> shuffles (P @ Q) N
     \<and> (\<forall>a \<in> set N. is_nonoption opts a)
     \<and> (N \<noteq> [] \<longrightarrow> has_flag fl FLAG_PERMUTE \<and> \<not> has_flag fl FLAG_ALLARGS)
     \<and> (if N = [] then Q = [] \<and> nonopt_start s = -1 \<and> nonopt_end s = -1
        else nonopt_start s = int (length P)
          \<and> (nonopt_end s = -1 \<and> Q = [] \<or> nonopt_end s = int (length P + length N)))"

text \<open>The vector when the calls are over: they stopped at the end, behind
  \<open>--\<close>, or, when non-options are not to be skipped, at the first of them.\<close>

definition finished :: "string \<Rightarrow> flags \<Rightarrow> cstr list \<Rightarrow> getopt_state \<Rightarrow> bool" where
  "finished opts fl A s \<longleftrightarrow>
     (\<exists>P N k. k \<le> length A \<and> nargv s = P @ N @ drop k A \<and> take k A \<in> shuffles P N
        \<and> (\<forall>a \<in> set N. is_nonoption opts a) \<and> optind s = int (length P)
        \<and> (k = length A
           \<or> P \<noteq> [] \<and> chars (last P) = ''--''
           \<or> N = [] \<and> is_nonoption opts (A ! k) \<and> \<not> has_flag fl FLAG_PERMUTE))"

lemma parts_range:
  assumes "parts opts fl A s P N Q"
  shows "0 \<le> optind s" "optind s \<le> int (length A)" "nat (optind s) \<le> length A"
    "nargv s = P @ N @ Q @ drop (nat (optind s)) A"
  using assms unfolding parts_def by auto

lemma parts_length:
  assumes "parts opts fl A s P N Q"
  shows "length P + length N + length Q = nat (optind s)"
proof -
  have "length (take (nat (optind s)) A) = length (P @ Q) + length N"
    using assms length_shuffles unfolding parts_def by blast
  then show ?thesis using parts_range(3) [OF assms] by simp
qed

lemma parts_optind:
  assumes "parts opts fl A s P N Q"
  shows "optind s = int (length P) + int (length N) + int (length Q)"
  using parts_length [OF assms] parts_range(1) [OF assms] by linarith

lemma parts_nargv_length:
  assumes "parts opts fl A s P N Q"
  shows "length (nargv s) = length A"
  using parts_length [OF assms] parts_range(3) [OF assms] by (simp add: parts_range(4) [OF assms])

lemma parts_cong:
  assumes "parts opts fl A s P N Q" "optind s' = optind s" "nargv s' = nargv s"
    "nonopt_start s' = nonopt_start s" "nonopt_end s' = nonopt_end s"
  shows "parts opts fl A s' P N Q"
  using assms(1) unfolding parts_def assms(2-5) .

lemma parts_at:
  assumes "parts opts fl A s P N Q" "optind s < int (length A)"
  shows "argv_at (nargv s) (optind s) = Some (Some (A ! nat (optind s)))"
    and "take (nat (optind s + 1)) A = take (nat (optind s)) A @ [A ! nat (optind s)]"
    and "drop (nat (optind s)) A = A ! nat (optind s) # drop (nat (optind s + 1)) A"
proof -
  have o: "0 \<le> optind s" using assms(1) by (simp add: parts_def)
  then have n: "nat (optind s) < length A" "nat (optind s + 1) = Suc (nat (optind s))"
    using assms(2) by auto
  then show tk: "take (nat (optind s + 1)) A = take (nat (optind s)) A @ [A ! nat (optind s)]"
    and dr: "drop (nat (optind s)) A = A ! nat (optind s) # drop (nat (optind s + 1)) A"
    by (simp_all add: take_Suc_conv_app_nth Cons_nth_drop_Suc)
  have "nargv s = (P @ N @ Q) @ drop (nat (optind s)) A" using assms(1) by (simp add: parts_def)
  moreover have "length (P @ N @ Q) = nat (optind s)" using parts_length [OF assms(1)] by simp
  ultimately have "nargv s ! nat (optind s) = A ! nat (optind s)"
    using n by (metis nth_append_length dr)
  then show "argv_at (nargv s) (optind s) = Some (Some (A ! nat (optind s)))"
    using assms o parts_nargv_length [OF assms(1)]
    by (simp add: argv_at_def aget_def in_range_def)
qed

lemma parts_permute:
  assumes "parts opts fl A s P N Q" "N \<noteq> []" "Q \<noteq> []" "nonopt_end s \<noteq> -1"
  shows "permute s = Some (s\<lparr>nargv := P @ Q @ N @ drop (nat (optind s)) A\<rparr>)"
proof -
  have "permute_args (nonopt_start s) (nonopt_end s) (optind s)
      (P @ N @ Q @ drop (nat (optind s)) A) = Some (P @ Q @ N @ drop (nat (optind s)) A)"
    by (rule permute_args_blocks [OF assms(2,3)])
      (use assms parts_optind [OF assms(1)] in \<open>auto simp: parts_def\<close>)
  then show ?thesis using assms(1) by (simp add: permute_def parts_def)
qed

text \<open>Between two calls the recorded option block is not empty.\<close>

lemma parts_idle:
  assumes "parts opts fl A s P N Q" "idle_blocks nargc s" "nonopt_end s \<noteq> -1"
  shows "N \<noteq> [] \<and> Q \<noteq> []"
  using assms parts_optind [OF assms(1)] by (auto simp: parts_def idle_blocks_def split: if_splits)

section \<open>The steps of the scan\<close>

lemma parts_end_vector:
  assumes p: "parts opts fl A s P N Q" and i: "idle_blocks nargc s"
    and e: "optind s = int (length A)" and s': "end_of_args s = Some (r, s')"
  shows "nargv s' = (P @ Q) @ N" "optind s' = int (length (P @ Q))"
proof -
  note d = p [unfolded parts_def] and o = parts_optind [OF p]
  have "nargv s' = (P @ Q) @ N \<and> optind s' = int (length (P @ Q))"
  proof (cases "nonopt_end s = -1")
    case True
    then show ?thesis using s' d o e by (auto simp: end_of_args_def split: if_splits)
  next
    case False
    have "parts opts fl A (s\<lparr>place := EMSG\<rparr>) P N Q" by (rule parts_cong [OF p]) simp_all
    then have "permute (s\<lparr>place := EMSG\<rparr>) =
        Some (s\<lparr>place := EMSG, nargv := P @ Q @ N @ drop (nat (optind s)) A\<rparr>)"
      using parts_permute [of opts fl A "s\<lparr>place := EMSG\<rparr>" P N Q] parts_idle [OF p i False] False
      by simp
    moreover have "nonopt_end s - nonopt_start s = int (length N)"
      using d False parts_idle [OF p i False] by (auto split: if_splits)
    ultimately show ?thesis using s' False o e by (auto simp: end_of_args_def)
  qed
  then show "nargv s' = (P @ Q) @ N" "optind s' = int (length (P @ Q))" by simp_all
qed

lemma parts_end:
  assumes "parts opts fl A s P N Q" "idle_blocks nargc s"
    "optind s = int (length A)" "end_of_args s = Some (r, s')"
  shows "finished opts fl A s'"
proof -
  have "take (length A) A \<in> shuffles (P @ Q) N" "\<forall>a \<in> set N. is_nonoption opts a"
    using assms(1,3) by (simp_all add: parts_def)
  then show ?thesis using parts_end_vector [OF assms] unfolding finished_def
    by (intro exI [of _ "P @ Q"] exI [of _ N] exI [of _ "length A"]) simp
qed

lemma parts_skip:
  assumes p: "parts opts fl A s P N Q" and i: "idle_blocks nargc s"
    and lt: "optind s < int (length A)" and a: "is_nonoption opts (A ! nat (optind s))"
    and fl: "has_flag fl FLAG_PERMUTE" "\<not> has_flag fl FLAG_ALLARGS"
    and s': "skip_nonoption s = Some s'"
  shows "parts opts fl A s' (P @ Q) (N @ [A ! nat (optind s)]) []"
proof -
  note d = p [unfolded parts_def] and o = parts_optind [OF p] and at = parts_at [OF p lt]
  have "nargv s' = (P @ Q) @ N @ drop (nat (optind s)) A \<and> optind s' = optind s + 1
    \<and> nonopt_start s' = int (length (P @ Q)) \<and> nonopt_end s' = -1"
  proof (cases "nonopt_end s = -1")
    case True
    then show ?thesis using s' d o by (auto simp: skip_nonoption_def split: if_splits)
  next
    case False
    have nq: "N \<noteq> []" "Q \<noteq> []" using parts_idle [OF p i False] by auto
    then have "nonopt_end s - nonopt_start s = int (length N)" "nonopt_start s \<noteq> -1"
      using d False by (auto split: if_splits)
    then show ?thesis
      using s' False o parts_permute [OF p nq False] by (auto simp: skip_nonoption_def)
  qed
  moreover have "take (nat (optind s + 1)) A \<in> shuffles (P @ Q) (N @ [A ! nat (optind s)])"
    unfolding at(2) by (rule shuffles_append2) (use d in blast)
  ultimately show ?thesis using d lt a fl at(3) by (auto simp: parts_def)
qed

text \<open>Moving \<open>optind\<close> past options appends them to the last block.\<close>

lemma parts_advance:
  assumes p: "parts opts fl A s P N Q" and m: "N = [] \<or> nonopt_end s \<noteq> -1"
    and j: "optind s \<le> optind s'" "optind s' \<le> int (length A)"
    and f: "nargv s' = nargv s" "nonopt_start s' = nonopt_start s" "nonopt_end s' = nonopt_end s"
  shows "\<exists>P' Q'. parts opts fl A s' P' N Q'
    \<and> P' @ Q' = P @ Q @ take (nat (optind s' - optind s)) (drop (nat (optind s)) A)"
proof -
  note d = p [unfolded parts_def]
  define ws where "ws = take (nat (optind s' - optind s)) (drop (nat (optind s)) A)"
  have n: "nat (optind s') = nat (optind s) + nat (optind s' - optind s)"
    using j d by (simp add: nat_diff_distrib')
  have tk: "take (nat (optind s')) A = take (nat (optind s)) A @ ws"
    unfolding n ws_def by (rule take_add)
  have dr: "drop (nat (optind s)) A = ws @ drop (nat (optind s')) A"
    unfolding n ws_def by (metis add.commute append_take_drop_id drop_drop)
  have sh: "take (nat (optind s')) A \<in> shuffles ((P @ Q) @ ws) N"
    unfolding tk by (rule shuffles_append1) (use d in blast)
  show ?thesis
  proof (cases "N = []")
    case True
    then have "parts opts fl A s' (P @ ws) N []"
      using d j f sh dr by (simp add: parts_def)
    then show ?thesis using True d by (intro exI [of _ "P @ ws"] exI [of _ "[]"]) (simp add: ws_def)
  next
    case False
    then have "parts opts fl A s' P N (Q @ ws)"
      using d j f sh dr m by (simp add: parts_def)
    then show ?thesis by (intro exI [of _ P] exI [of _ "Q @ ws"]) (simp add: ws_def)
  qed
qed


lemma parts_enter:
  assumes p: "parts opts fl A s P N Q"
    and u: "u = (if nonopt_start s \<noteq> -1 \<and> nonopt_end s = -1
      then s\<lparr>place := a, nonopt_end := optind s\<rparr> else s\<lparr>place := a\<rparr>)"
  shows "parts opts fl A u P N Q" and "N = [] \<or> nonopt_end u \<noteq> -1"
proof -
  show "N = [] \<or> nonopt_end u \<noteq> -1"
    using p parts_range(1) [OF p] u by (auto simp: parts_def split: if_splits)
  show "parts opts fl A u P N Q"
  proof (cases "nonopt_start s \<noteq> -1 \<and> nonopt_end s = -1")
    case True
    then have "N \<noteq> []" "Q = []" using p by (auto simp: parts_def split: if_splits)
    then show ?thesis using p u True parts_optind [OF p] by (simp add: parts_def)
  next
    case False
    then show ?thesis using u by (intro parts_cong [OF p]) auto
  qed
qed

lemma parts_double_dash_vector:
  assumes p: "parts opts fl A u P N Q" and m: "N = [] \<or> nonopt_end u \<noteq> -1"
    and lt: "optind u < int (length A)" and s': "double_dash u = Some (r, s')"
  shows "nargv s' = (P @ Q @ [A ! nat (optind u)]) @ N @ drop (nat (optind u + 1)) A"
    and "optind s' = int (length (P @ Q @ [A ! nat (optind u)]))"
    and "take (nat (optind u + 1)) A \<in> shuffles (P @ Q @ [A ! nat (optind u)]) N"
    and "\<forall>a \<in> set N. is_nonoption opts a"
proof -
  let ?v = "u\<lparr>optind := optind u + 1, place := EMSG\<rparr>" and ?a = "A ! nat (optind u)"
  have "take (nat (optind ?v - optind u)) (drop (nat (optind u)) A) = [?a]"
    using parts_at(3) [OF p lt] by simp
  then obtain P' Q' where v: "parts opts fl A ?v P' N Q'" and PQ: "P' @ Q' = P @ Q @ [?a]"
    using parts_advance [OF p m, of ?v] lt by auto
  note d = v [unfolded parts_def] and o = parts_optind [OF v]
  have "nargv s' = (P' @ Q') @ N @ drop (nat (optind ?v)) A \<and> optind s' = int (length (P' @ Q'))"
  proof (cases "N = []")
    case True
    then have "nonopt_end u = -1" "Q' = []" using d by auto
    then show ?thesis using s' d o True by (auto simp: double_dash_def)
  next
    case False
    have "length P' = length P" using p d False by (auto simp: parts_def split: if_splits)
    then have Q': "Q' \<noteq> []" using PQ by auto
    have ne: "nonopt_end ?v \<noteq> -1" "nonopt_end ?v - nonopt_start ?v = int (length N)"
      using m d False Q' by auto
    show ?thesis
      using s' ne o parts_permute [OF v False Q' ne(1)] by (auto simp: double_dash_def)
  qed
  then show "nargv s' = (P @ Q @ [?a]) @ N @ drop (nat (optind u + 1)) A"
    and "optind s' = int (length (P @ Q @ [?a]))"
    and "take (nat (optind u + 1)) A \<in> shuffles (P @ Q @ [?a]) N"
    and "\<forall>a \<in> set N. is_nonoption opts a"
    using d unfolding PQ by simp_all
qed

lemma parts_double_dash:
  assumes p: "parts opts fl A u P N Q" and m: "N = [] \<or> nonopt_end u \<noteq> -1"
    and lt: "optind u < int (length A)" and a: "chars (A ! nat (optind u)) = ''--''"
    and s': "double_dash u = Some (r, s')"
  shows "finished opts fl A s'"
  using parts_double_dash_vector [OF p m lt s'] a lt unfolding finished_def
  by (intro exI [of _ "P @ Q @ [A ! nat (optind u)]"] exI [of _ N] exI [of _ "nat (optind u + 1)"]) auto

section \<open>The work left\<close>

text \<open>One unit for every element of the vector that is still to be looked at and for every
  character of it.\<close>

definition cost :: "cstr list \<Rightarrow> nat" where
  "cost xs = sum_list (map (\<lambda>a. Suc (length (chars a))) xs)"

definition work :: "cstr list \<Rightarrow> getopt_state \<Rightarrow> nat" where
  "work A s = (if pending s
     then length (chars (place s)) + cost (drop (nat (optind s + 1)) A)
     else cost (drop (nat (optind s)) A))"

lemma cost_drop_mono: "i \<le> j \<Longrightarrow> cost (drop j A) \<le> cost (drop i A)"
proof -
  assume "i \<le> j"
  then have "cost (drop i A) = cost (take (j - i) (drop i A)) + cost (drop (j - i) (drop i A))"
    by (metis append_take_drop_id cost_def map_append sum_list.append)
  then show ?thesis using \<open>i \<le> j\<close> by simp
qed

lemma work_consumes:
  assumes "consumes nargc s s'" "pending s" "0 \<le> optind s"
  shows "work A s' < work A s"
proof (cases "pending s'")
  case True
  then show ?thesis using assms by (simp add: work_def consumes_def)
next
  case False
  then have "optind s < optind s'" using assms by (simp add: consumes_def)
  then have "cost (drop (nat (optind s')) A) \<le> cost (drop (nat (optind s + 1)) A)"
    by (intro cost_drop_mono) auto
  moreover have "1 \<le> length (chars (place s))"
    using assms(2) by (cases "chars (place s)") (auto simp: pending_def)
  ultimately show ?thesis using assms(2) False unfolding work_def by simp
qed

section \<open>One scan\<close>

definition scan_parts :: "string \<Rightarrow> flags \<Rightarrow> cstr list \<Rightarrow> getopt_state \<Rightarrow> scan \<Rightarrow> bool" where
  "scan_parts opts fl A s out \<longleftrightarrow> (case out of
     Return r s' \<Rightarrow>
       if r = -1 then finished opts fl A s'
       else (\<exists>P N Q. parts opts fl A s' P N Q) \<and> work A s' < work A s
         \<and> optind s \<le> optind s' \<and> posixly_correct s' = posixly_correct s
   | Proceed s' \<Rightarrow> (\<exists>P N Q. parts opts fl A s' P N Q \<and> (N = [] \<or> nonopt_end s' \<noteq> -1))
       \<and> work A s' \<le> work A s \<and> optind s \<le> optind s'
       \<and> posixly_correct s' = posixly_correct s)"

lemma scan_parts_trans:
  assumes "scan_parts opts fl A s' out" "work A s' \<le> work A s" "optind s \<le> optind s'"
    "posixly_correct s' = posixly_correct s"
  shows "scan_parts opts fl A s out"
  using assms by (auto simp: scan_parts_def split: scan.splits if_splits)

lemma enter_option_parts:
  assumes p: "parts opts fl A s P N Q" and lt: "optind s < int (length A)"
    and a: "a = A ! nat (optind s)" "cur (chars a) = CHR ''-''" "c_string_ok (chars a)"
    and np: "\<not> pending s"
    and out: "enter_option a s = Some out"
  shows "scan_parts opts fl A s out"
proof -
  define u where "u = (if nonopt_start s \<noteq> -1 \<and> nonopt_end s = -1
      then s\<lparr>place := a, nonopt_end := optind s\<rparr> else s\<lparr>place := a\<rparr>)"
  have u: "optind u = optind s" "posixly_correct u = posixly_correct s" "place u = a"
    by (simp_all add: u_def)
  note up = parts_enter [OF p u_def]
  have go: "scan_parts opts fl A s (Proceed (u\<lparr>place := q\<rparr>))"
    if q: "length (chars q) \<le> length (chars a)" "cur (chars q) \<noteq> NUL" for q
  proof -
    have "parts opts fl A (u\<lparr>place := q\<rparr>) P N Q" by (rule parts_cong [OF up(1)]) simp_all
    moreover have "work A (u\<lparr>place := q\<rparr>) \<le> work A s"
      using q np parts_at(3) [OF p lt] u a(1) by (simp add: work_def pending_def cost_def)
    ultimately show ?thesis using up(2) u by (auto simp: scan_parts_def)
  qed
  have self: "u\<lparr>place := a\<rparr> = u" using u(3) by simp
  have unf: "enter_option a s =
      (if cur (tl (chars a)) \<noteq> NUL
       then if cur (tl (chars a)) = CHR ''-'' \<and> cur (tl (tl (chars a))) = NUL
            then map_option (\<lambda>(r, s). Return r s) (double_dash (u\<lparr>place := advance a\<rparr>))
            else Some (Proceed (u\<lparr>place := advance a\<rparr>))
       else Some (Proceed u))"
    by (simp add: enter_option_def Let_def u_def)
  consider (dd) "cur (tl (chars a)) = CHR ''-''" "cur (tl (tl (chars a))) = NUL"
    | (long) "cur (tl (chars a)) \<noteq> NUL" "out = Proceed (u\<lparr>place := advance a\<rparr>)"
    | (dash) "out = Proceed u"
    using out unfolding unf by (auto split: if_splits)
  then show ?thesis
  proof cases
    case dd
    then have "chars a = ''--''"
      using a(2,3) by (cases "chars a"; cases "tl (chars a)"; cases "tl (tl (chars a))")
        (auto simp: c_string_ok_def)
    moreover obtain r s' where "double_dash (u\<lparr>place := advance a\<rparr>) = Some (r, s')" "out = Return r s'"
      using out dd unfolding unf by auto
    moreover have "r = -1" using calculation(2) by (auto simp: double_dash_def bind_eq_Some_conv Let_def)
    moreover have "parts opts fl A (u\<lparr>place := advance a\<rparr>) P N Q"
      by (rule parts_cong [OF up(1)]) simp_all
    ultimately show ?thesis
      using parts_double_dash [of opts fl A "u\<lparr>place := advance a\<rparr>" P N Q r s'] up(2) lt u a(1)
      by (simp add: scan_parts_def)
  next
    case long
    then show ?thesis using go [of "advance a"] by simp
  next
    case dash
    then show ?thesis using go [of a] self a(2) by simp
  qed
qed


lemma end_of_args_ret: "end_of_args s = Some (r, s') \<Longrightarrow> r = -1"
  by (auto simp: end_of_args_def bind_eq_Some_conv Let_def)

lemma permute_posixly: "permute s = Some s' \<Longrightarrow> posixly_correct s' = posixly_correct s"
  by (auto simp: permute_def bind_eq_Some_conv)

lemma skip_nonoption_posixly: "skip_nonoption s = Some s' \<Longrightarrow> posixly_correct s' = posixly_correct s"
  by (auto simp: skip_nonoption_def bind_eq_Some_conv split: if_splits dest: permute_posixly)

lemma work_idle: "\<not> pending s \<Longrightarrow> work A s = cost (drop (nat (optind s)) A)"
  by (simp add: work_def)

lemma work_skip:
  assumes "parts opts fl A s P N Q" "optind s < int (length A)" "\<not> pending s" "\<not> pending s'"
    "optind s' = optind s + 1"
  shows "work A s' < work A s"
  using parts_at(3) [OF assms(1,2)] assms(3-) by (simp add: work_idle cost_def)

lemma getopt_scan_parts:
  assumes "nargc = int (length A)" "argv_ok A" "optreset s = 0" "\<not> pending s"
    and "idle_blocks nargc s" "parts opts fl A s P N Q"
    and "getopt_scan nargc opts fl s = Some out"
  shows "scan_parts opts fl A s out"
  using assms
proof (induction "nat (nargc - optind s)" arbitrary: s P N Q rule: less_induct)
  case less
  note idle = less.prems(4) and p = less.prems(6) and out = less.prems(7)
  have nr: "\<not> (optreset s = 0 \<and> pending s)" using idle by simp
  have or: "s\<lparr>optreset := 0\<rparr> = s" using less.prems(3) by simp
  show ?case
  proof (cases "optind s < nargc")
    case False
    then obtain r s' where "end_of_args s = Some (r, s')" "out = Return r s'"
      using out scan_end [OF nr, of nargc opts fl] or by auto
    then show ?thesis
      using parts_end [OF p less.prems(5)] end_of_args_ret parts_range(2) [OF p] False less.prems(1)
      by (simp add: scan_parts_def)
  next
    case more: True
    define a where "a = A ! nat (optind s)"
    have lt: "optind s < int (length A)" using more less.prems(1) by simp
    note at = parts_at [OF p lt, folded a_def]
    have "a \<in> set A" using lt parts_range(1) [OF p] by (simp add: a_def)
    then have a: "c_string_ok (chars a)" using less.prems(2) by (auto simp: argv_ok_def)
    show ?thesis
    proof (cases "is_nonoption opts a")
      case False
      then have "enter_option a s = Some out" "cur (chars a) = CHR ''-''"
        using out scan_option [OF nr more at(1) False] or by (auto simp: is_nonoption_def)
      then show ?thesis using enter_option_parts [OF p lt a_def _ a idle] by blast
    next
      case nonopt: True
      let ?u = "s\<lparr>optreset := 0, place := EMSG\<rparr>"
      have u: "parts opts fl A ?u P N Q" "idle_blocks nargc ?u" "\<not> pending ?u"
          "work A ?u = work A s" "optind ?u = optind s"
        using p less.prems(5) idle
        by (auto intro: parts_cong simp: idle_blocks_def pending_def work_def)
      have un: "nargc = int (length (nargv ?u))" "0 \<le> optind ?u" "optind ?u < nargc"
        using more less.prems(1) parts_range(1) [OF p] parts_nargv_length [OF p] by simp_all
      consider (all) "has_flag fl FLAG_ALLARGS"
          "out = Return INORDER (?u\<lparr>optarg := Some a, optind := optind s + 1\<rparr>)"
        | (stop) "\<not> has_flag fl FLAG_ALLARGS" "\<not> has_flag fl FLAG_PERMUTE" "out = Return (-1) ?u"
        | (skip) s' where "\<not> has_flag fl FLAG_ALLARGS" "has_flag fl FLAG_PERMUTE"
          "skip_nonoption ?u = Some s'" "getopt_scan nargc opts fl s' = Some out"
        using out unfolding scan_nonoption [OF nr more at(1) nonopt, of fl] Let_def
        by (auto split: if_splits option.splits)
      then show ?thesis
      proof cases
        case all
        then have "N = []" using p by (auto simp: parts_def)
        let ?v = "?u\<lparr>optarg := Some a, optind := optind s + 1\<rparr>"
        have "\<exists>P' Q'. parts opts fl A ?v P' N Q' \<and>
            P' @ Q' = P @ Q @ take (nat (optind ?v - optind ?u)) (drop (nat (optind ?u)) A)"
          by (rule parts_advance [OF u(1)]) (use \<open>N = []\<close> lt in auto)
        moreover have "work A ?v < work A s"
          using work_skip [OF p lt idle, of ?v] by (simp add: pending_def)
        ultimately show ?thesis using all by (auto simp: scan_parts_def)
      next
        case stop
        then have "N = []" using p by (auto simp: parts_def)
        then have "nargv s = P @ [] @ drop (nat (optind s)) A" "take (nat (optind s)) A \<in> shuffles P []"
            "optind s = int (length P)" "Q = []"
          using p parts_optind [OF p] by (auto simp: parts_def)
        then have "finished opts fl A ?u"
          using nonopt stop parts_range(3) [OF p] unfolding finished_def a_def
          by (intro exI [of _ P] exI [of _ "[]"] exI [of _ "nat (optind s)"]) simp
        then show ?thesis using stop by (simp add: scan_parts_def)
      next
        case skip
        have p': "parts opts fl A s' (P @ Q) (N @ [a]) []"
          using parts_skip [OF u(1,2) _ _ skip(2,1,3)] lt nonopt by (simp add: a_def)
        obtain s'' where "skip_nonoption ?u = Some s''" "idle_blocks nargc s''" "optreset s'' = 0"
            "place s'' = EMSG" "optind s'' = optind s + 1"
          using skip_nonoption_ok [OF u(2) un] by auto
        then have s': "idle_blocks nargc s'" "optreset s' = 0" "\<not> pending s'"
            "optind s' = optind s + 1"
          using skip(3) by (auto simp: pending_def)
        have "scan_parts opts fl A s' out"
          by (rule less.hyps [OF _ less.prems(1,2) s'(2,3,1) p' skip(4)]) (use s'(4) more in simp)
        moreover have "work A s' < work A s"
          using work_skip [OF p lt idle s'(3)] s'(4) by simp
        ultimately show ?thesis
          using scan_parts_trans [of opts fl A s' out s] s'(4) skip_nonoption_posixly [OF skip(3)]
          by simp
      qed
    qed
  qed
qed


section \<open>What an option argument returns\<close>

lemma warnx_posixly [simp]: "posixly_correct (warnx o' m s) = posixly_correct s"
  by (simp add: warnx_def)

lemma parse_long_options_posixly:
  assumes "parse_long_options options los idx st flags s = Some (r, s')"
  shows "posixly_correct s' = posixly_correct s"
proof -
  have arg: "posixly_correct t' = posixly_correct t" if "long_argument lo eq t = Some t'" for lo eq t t'
    using that by (auto simp: long_argument_def bind_eq_Some_conv split: if_splits)
  have res: "posixly_correct t' = posixly_correct t"
    if "long_result options idx cu mt lo t = (r', t')" for cu mt lo t r' t'
    using that by (auto simp: long_result_def Let_def split: if_splits option.splits)
  show ?thesis
    using assms
    by (auto simp: parse_long_options_def Let_def dest!: arg res split: prod.splits if_splits)
qed

lemma dash_W_posixly:
  assumes "dash_W nargc options los idx flags oc s = Some (r, s')"
  shows "posixly_correct s' = posixly_correct s"
  using assms
  by (auto simp: dash_W_def Let_def bind_eq_Some_conv dest!: parse_long_options_posixly
      split: if_splits option.splits)

lemma short_option_posixly:
  assumes "short_option pf nargc options los idx flags s = Some (r, s')"
  shows "posixly_correct s' = posixly_correct s"
  using assms
  by (auto simp: short_option_def Let_def bind_eq_Some_conv dest!: dash_W_posixly split: if_splits)

lemma option_argument_posixly:
  assumes "option_argument pf nargc options los idx flags s = Some (r, s')"
  shows "posixly_correct s' = posixly_correct s"
  using assms
  by (auto simp: option_argument_def Let_def bind_eq_Some_conv
      dest!: parse_long_options_posixly short_option_posixly split: if_splits option.splits)

text \<open>No option is reported as -1: no long option has that value, and a signed
  \<open>char\<close> option letter is not 0xFF.\<close>

definition letters_ok :: "platform \<Rightarrow> string \<Rightarrow> bool" where
  "letters_ok pf opts \<longleftrightarrow> \<not> char_signed pf \<or> CHR 0xFF \<notin> set opts"

lemma int_of_char_neq:
  assumes "letters_ok pf opts" "strchr opts c \<noteq> None" "c \<noteq> NUL"
  shows "int_of_char (char_signed pf) c \<noteq> -1"
proof
  assume m: "int_of_char (char_signed pf) c = -1"
  then have "char_signed pf" "(of_char c :: nat) = 255"
    by (auto simp: int_of_char_def Let_def split: if_splits)
  moreover have "(of_char (CHR 0xFF) :: nat) = 255" by simp
  ultimately have "c = CHR 0xFF" by (metis of_char_eq_iff)
  moreover have "c \<in> set opts"
    using assms(2,3) by (auto simp: strchr_None)
  ultimately show False using assms(1) \<open>char_signed pf\<close> by (simp add: letters_ok_def)
qed


lemma dash_W_ret:
  assumes "dash_W nargc options los idx flags oc s = Some (r, s')" "vals_ok los"
    and "0 \<le> optind s" "optind s < int (length (nargv s))" "nargc = int (length (nargv s))"
  shows "r \<noteq> -1"
proof -
  have long: "r \<noteq> -1" if "parse_long_options options los idx False flags t = Some (r, t')"
    "0 \<le> optind t" "optind t < int (length (nargv t))" for t t'
    using parse_long_options_consumes [OF that(2,3) assms(2), of options idx False flags] that(1)
    by (auto split: if_splits)
  show ?thesis
  proof (cases "cur (chars (place s)) = NUL \<and> optind s + 1 \<ge> nargc")
    case True
    then show ?thesis using assms(1) by (auto simp: dash_W_def Let_def BADARG_def split: if_splits)
  next
    case False
    then obtain t t' where "parse_long_options options los idx False flags t = Some (r, t')"
        "0 \<le> optind t" "optind t < int (length (nargv t))"
      using assms by (auto simp: dash_W_def Let_def bind_eq_Some_conv split: if_splits option.splits)
    then show ?thesis by (rule long)
  qed
qed

lemma short_option_ret:
  assumes "short_option pf nargc options long_options idx flags s = Some (r, s')"
    and "\<And>los. long_options = Some los \<Longrightarrow> vals_ok los" "letters_ok pf options"
    and "option_pre nargc s"
  shows "r \<noteq> -1"
proof -
  note p = assms(4) [unfolded option_pre_def pending_def]
  let ?c = "cur (chars (place s))"
  consider (oc) "r = int_of_char (char_signed pf) ?c" "strchr options ?c \<noteq> None"
    | (bad) "r = BADCH \<or> r = BADARG options"
    | (dash_W) los where "long_options = Some los"
        "dash_W nargc options los idx flags (int_of_char (char_signed pf) ?c)
          (s\<lparr>place := advance (place s)\<rparr>) = Some (r, s')"
    using assms(1)
    by (cases "?c = CHR '':'' \<or> strchr options ?c = None")
      (auto simp: short_option_def Let_def bind_eq_Some_conv split: if_splits)
  then show ?thesis
  proof cases
    case oc
    then show ?thesis using int_of_char_neq [OF assms(3)] p by auto
  next
    case bad
    then show ?thesis by (auto simp: BADARG_def split: if_splits)
  next
    case dash_W
    then show ?thesis using dash_W_ret [OF dash_W(2) assms(2)] p by auto
  qed
qed

lemma option_argument_ret:
  assumes "option_argument pf nargc options long_options idx flags s = Some (r, s')"
    and los: "\<And>los. long_options = Some los \<Longrightarrow> vals_ok los" and "letters_ok pf options"
    and pre: "option_pre nargc s"
  shows "r \<noteq> -1"
proof -
  note p = pre [unfolded option_pre_def]
  consider (short) "short_option pf nargc options long_options idx flags s = Some (r, s')"
    | (long) "r \<noteq> -1"
    | (both) los t st u where "long_options = Some los" "optind t = optind s" "nargv t = nargv s"
        "st \<longrightarrow> t = s" "parse_long_options options los idx st flags t = Some (-1, u)"
        "short_option pf nargc options long_options idx flags u = Some (r, s')"
  proof (cases long_options)
    case None
    then show ?thesis using assms(1) that(1) by (simp add: option_argument_def)
  next
    case (Some los)
    let ?c = "cur (chars (place s))"
    define st where "st \<longleftrightarrow> ?c \<noteq> CHR ''-'' \<and> ?c \<noteq> CHR '':'' \<and> strchr options ?c \<noteq> None"
    define t where "t = (if ?c = CHR ''-'' then s\<lparr>place := advance (place s)\<rparr> else s)"
    have t: "optind t = optind s" "nargv t = nargv s" "st \<longrightarrow> t = s" by (auto simp: t_def st_def)
    obtain a where a: "argv_at (nargv s) (optind s) = Some a" using argv_at_less p by blast
    have "short_option pf nargc options long_options idx flags s = Some (r, s')
      \<or> (\<exists>q u. parse_long_options options los idx st flags t = Some (q, u)
        \<and> (q \<noteq> -1 \<and> r = q
           \<or> q = -1 \<and> short_option pf nargc options long_options idx flags u = Some (r, s')))"
      using assms(1) unfolding Some option_argument_long [OF a st_def t_def]
      by (auto simp: bind_eq_Some_conv split: if_splits)
    then show ?thesis using that t Some by blast
  qed
  then show ?thesis
  proof cases
    case short
    then show ?thesis using short_option_ret [OF _ los assms(3) pre] by blast
  next
    case long
    then show ?thesis .
  next
    case both
    have "0 \<le> optind t" "optind t < int (length (nargv t))" using both p by auto
    then have "st \<and> long_frame t u \<and> optind u = optind t"
      using parse_long_options_consumes [OF _ _ los [OF both(1)], of t options idx st flags] both(5)
      by (auto split: if_splits)
    then have "option_pre nargc u" using pre both(4) by (simp add: option_pre_def long_frame_def pending_def)
    then show ?thesis using short_option_ret [OF both(6) los assms(3)] by blast
  qed
qed

section \<open>One call\<close>

definition eff_flags :: "platform \<Rightarrow> flags \<Rightarrow> string \<Rightarrow> flags" where
  "eff_flags pf flags opts =
     (if cur opts = CHR ''-'' then flags OR FLAG_ALLARGS
      else if posixly_env pf \<or> cur opts = CHR ''+'' then flags AND NOT FLAG_PERMUTE else flags)"

definition eff_opts :: "string \<Rightarrow> string" where
  "eff_opts opts = (if cur opts = CHR ''+'' \<or> cur opts = CHR ''-'' then tl opts else opts)"

text \<open>The state between the calls of a run over the vector \<open>A\<close>.\<close>

definition run_inv :: "platform \<Rightarrow> string \<Rightarrow> flags \<Rightarrow> cstr list \<Rightarrow> getopt_state \<Rightarrow> bool" where
  "run_inv pf opts flags A s \<longleftrightarrow>
     getopt_inv (int (length A)) s \<and> argv_ok A \<and> optreset s = 0 \<and> 1 \<le> optind s
     \<and> posixly_correct s \<in> {-1, of_bool (posixly_env pf)}
     \<and> (\<exists>P N Q. parts (eff_opts opts) (eff_flags pf flags opts) A s P N Q)"

lemma getopt_internal_unfold:
  assumes "1 \<le> optind s" "optreset s = 0" "posixly_correct s \<in> {-1, of_bool (posixly_env pf)}"
  shows "getopt_internal pf nargc (Some opts) los idx flags s =
    (case getopt_scan nargc (eff_opts opts) (eff_flags pf flags opts)
        (s\<lparr>posixly_correct := of_bool (posixly_env pf), optarg := None\<rparr>) of
       None \<Rightarrow> None
     | Some (Return r s) \<Rightarrow> Some (r, s)
     | Some (Proceed s) \<Rightarrow>
         option_argument pf nargc (eff_opts opts) los idx (eff_flags pf flags opts) s)"
proof -
  let ?s2 = "s\<lparr>posixly_correct := of_bool (posixly_env pf)\<rparr>"
  have s1: "(if optind s = 0 then s\<lparr>optind := 1, optreset := 1\<rparr> else s) = s"
    using assms(1) by simp
  have s2: "(if posixly_correct s = -1 \<or> optreset s \<noteq> 0 then ?s2 else s) = ?s2"
    using assms(2,3) by auto
  have fl: "(if cur opts = CHR ''-'' then flags OR FLAG_ALLARGS
      else if posixly_correct ?s2 \<noteq> 0 \<or> cur opts = CHR ''+'' then flags AND NOT FLAG_PERMUTE
      else flags) = eff_flags pf flags opts"
    by (simp add: eff_flags_def)
  have s4: "(if optreset (?s2\<lparr>optarg := None\<rparr>) \<noteq> 0
      then ?s2\<lparr>optarg := None, nonopt_start := -1, nonopt_end := -1\<rparr>
      else ?s2\<lparr>optarg := None\<rparr>) = ?s2\<lparr>optarg := None\<rparr>"
    using assms(2) by simp
  show ?thesis
    unfolding getopt_internal_def Let_def option.case s1 s2 fl s4 eff_opts_def ..
qed

text \<open>A call keeps \<open>run_inv\<close> and reduces the work, or reports the end and leaves the
  vector partitioned.\<close>

lemma getopt_internal_run:
  assumes inv: "run_inv pf opts flags A s" and los: "long_vals_ok long_options"
    and let': "letters_ok pf (eff_opts opts)"
  shows "\<exists>r s'. getopt_internal pf (int (length A)) (Some opts) long_options idx flags s = Some (r, s')
    \<and> (if r = -1 then finished (eff_opts opts) (eff_flags pf flags opts) A s'
       else run_inv pf opts flags A s' \<and> work A s' < work A s)"
proof -
  let ?o = "eff_opts opts" and ?fl = "eff_flags pf flags opts" and ?n = "int (length A)"
  let ?s = "s\<lparr>posixly_correct := of_bool (posixly_env pf), optarg := None\<rparr>"
  note i = inv [unfolded run_inv_def]
  obtain P N Q where p0: "parts ?o ?fl A s P N Q" using i by blast
  then have p: "parts ?o ?fl A ?s P N Q" by (rule parts_cong) simp_all
  have gi: "getopt_inv ?n s" "argv_ok A" "optreset s = 0" "1 \<le> optind s" using i by blast+
  have w: "work A ?s = work A s" "pending ?s = pending s" by (simp_all add: work_def pending_def)
  have bl: "if optreset ?s = 0 \<and> pending ?s then mid_blocks ?n ?s else idle_blocks ?n ?s"
    using gi w(2) by (auto simp: getopt_inv_def mid_blocks_def idle_blocks_def)
  obtain out where out: "getopt_scan ?n ?o ?fl ?s = Some out" "scan_post ?n (nargv ?s) out"
    using getopt_scan_ok [OF _ _ _ _ bl, of ?o ?fl] gi(1) by (auto simp: getopt_inv_def)
  have sp: "scan_parts ?o ?fl A ?s out"
  proof (cases "pending s")
    case True
    then have o: "out = Proceed ?s"
      using out(1) gi(3) w(2) scan_pending [of ?s ?n ?o ?fl] by simp
    have "N = [] \<or> nonopt_end ?s \<noteq> -1"
      using bl True gi(3) w(2) p0 by (auto simp: mid_blocks_def parts_def split: if_splits)
    then have "\<exists>P N Q. parts ?o ?fl A ?s P N Q \<and> (N = [] \<or> nonopt_end ?s \<noteq> -1)"
      using p by blast
    then show ?thesis unfolding o scan_parts_def by simp
  next
    case False
    show ?thesis
      by (rule getopt_scan_parts [OF refl gi(2) _ _ _ p out(1)]) (use bl False gi(3) w in auto)
  qed
  obtain r s' where res: "getopt_internal pf ?n (Some opts) long_options idx flags s = Some (r, s')"
      "getopt_inv ?n s'"
    using getopt_internal_ok [OF gi(1) los] by blast
  have unf: "Some (r, s') = (case out of Return r s \<Rightarrow> Some (r, s)
      | Proceed s \<Rightarrow> option_argument pf ?n ?o long_options idx ?fl s)"
    using res(1) out(1) getopt_internal_unfold [of s pf ?n opts long_options idx flags] i by simp
  show ?thesis
  proof (cases out)
    case (Return r0 s0)
    then have "r = r0" "s' = s0" "optreset s' = 0"
      using unf out(2) by (auto simp: scan_post_def)
    then show ?thesis
      using sp Return res gi w by (auto simp: scan_parts_def run_inv_def)
  next
    case (Proceed t)
    then have t: "option_pre ?n t" "mid_blocks ?n t" "optreset t = 0"
      using out(2) by (simp_all add: scan_post_def)
    obtain P' N' Q' where p': "parts ?o ?fl A t P' N' Q'" "N' = [] \<or> nonopt_end t \<noteq> -1"
      and t': "work A t \<le> work A s" "optind s \<le> optind t"
        "posixly_correct t = of_bool (posixly_env pf)"
      using sp Proceed w by (auto simp: scan_parts_def)
    have oa: "option_argument pf ?n ?o long_options idx ?fl t = Some (r, s')"
      using unf Proceed by simp
    have los': "\<And>l. long_options = Some l \<Longrightarrow> vals_ok l" using los by (simp add: long_vals_ok_def)
    have c: "consumes ?n t s'"
    proof -
      obtain r0 s0 where "option_argument pf ?n ?o long_options idx ?fl t = Some (r0, s0)"
          "consumes ?n t s0"
        using option_argument_consumes [OF t(1) los'] by blast
      then show ?thesis using oa by simp
    qed
    then have "\<exists>P Q. parts ?o ?fl A s' P N' Q"
      using parts_advance [OF p', of s'] parts_range(2) [OF p'(1)] t(1)
      by (auto simp: consumes_def split: if_splits)
    moreover have "r \<noteq> -1" by (rule option_argument_ret [OF oa los' let' t(1)])
    moreover have "work A s' < work A t"
      using work_consumes [OF c] t(1) by (simp add: option_pre_def)
    moreover have "optind t \<le> optind s'" using c by (auto simp: consumes_def split: if_splits)
    ultimately show ?thesis
      using res t' t(3) c gi option_argument_posixly [OF oa]
      by (auto simp: run_inv_def consumes_def)
  qed
qed

section \<open>The loop of the caller\<close>

text \<open>\<open>while ((c = getopt_long(...)) != -1)\<close>, at most \<open>fuel\<close> calls; the result is the
  list of the values returned before -1 and the final state.\<close>

fun getopt_run :: "nat \<Rightarrow> platform \<Rightarrow> int \<Rightarrow> string option \<Rightarrow> long_option list option \<Rightarrow> bool
    \<Rightarrow> flags \<Rightarrow> getopt_state \<Rightarrow> (int list \<times> getopt_state) option" where
  "getopt_run 0 pf nargc options long_options idx flags s = None"
| "getopt_run (Suc fuel) pf nargc options long_options idx flags s =
     (case getopt_internal pf nargc options long_options idx flags s of
        None \<Rightarrow> None
      | Some (r, s) \<Rightarrow>
          if r = -1 then Some ([], s)
          else map_option (apfst (Cons r))
            (getopt_run fuel pf nargc options long_options idx flags s))"

lemma getopt_run_finished:
  assumes "run_inv pf opts flags A s" "long_vals_ok long_options" "letters_ok pf (eff_opts opts)"
    and "work A s < fuel"
  shows "\<exists>rs s'. getopt_run fuel pf (int (length A)) (Some opts) long_options idx flags s = Some (rs, s')
    \<and> finished (eff_opts opts) (eff_flags pf flags opts) A s'"
  using assms(1,4)
proof (induction fuel arbitrary: s)
  case 0
  then show ?case by simp
next
  case (Suc fuel)
  obtain r s' where r: "getopt_internal pf (int (length A)) (Some opts) long_options idx flags s = Some (r, s')"
      "if r = -1 then finished (eff_opts opts) (eff_flags pf flags opts) A s'
       else run_inv pf opts flags A s' \<and> work A s' < work A s"
    using getopt_internal_run [OF Suc.prems(1) assms(2,3)] by blast
  show ?case
  proof (cases "r = -1")
    case True
    then show ?thesis using r by simp
  next
    case False
    then have "run_inv pf opts flags A s'" "work A s' < fuel" using r(2) Suc.prems(2) by auto
    from Suc.IH [OF this] show ?thesis using r(1) False by auto
  qed
qed

lemma run_inv_init:
  assumes "argv_ok A" "A \<noteq> []"
  shows "run_inv pf opts flags A (getopt_init A)"
proof -
  have "parts (eff_opts opts) (eff_flags pf flags opts) A (getopt_init A) [hd A] [] []"
    using assms(2) by (cases A) (auto simp: parts_def getopt_init_def)
  then show ?thesis
    using assms(1)
    by (auto simp: run_inv_def getopt_inv_def idle_blocks_def pending_def getopt_init_def
        c_string_ok_def)
qed


section \<open>Properties\<close>

text \<open>The loop of a caller of \<open>getopt_internal\<close> over a fresh argument vector ends,
  after at most one call per argument and character, and every call in it is defined. It
  leaves the vector partitioned: the options, their arguments and the program name in
  front, in their original order, the skipped non-options behind them in their original
  order, \<open>optind\<close> the number of the former; what follows is untouched, and the loop
  stopped at the end of the vector, right behind \<open>--\<close>, or, without
  \<open>FLAG_PERMUTE\<close>, at the first non-option. The hypotheses say that the vector holds
  C strings, that no long option has the value -1 and that no option letter is -1 as an
  int.\<close>

theorem getopt_run_partitions:
  assumes "argv_ok A" "A \<noteq> []" "long_vals_ok long_options" "letters_ok pf (eff_opts opts)"
  shows "\<exists>rs s'. getopt_run (Suc (cost (drop 1 A))) pf (int (length A)) (Some opts) long_options
        idx flags (getopt_init A) = Some (rs, s')
    \<and> finished (eff_opts opts) (eff_flags pf flags opts) A s'"
proof -
  have "work A (getopt_init A) < Suc (cost (drop 1 A))"
    by (simp add: work_def pending_def getopt_init_def)
  from getopt_run_finished [OF run_inv_init [OF assms(1,2)] assms(3,4) this]
  show ?thesis .
qed

text \<open>The vector \<open>prog -a x -b y z\<close> with the option string \<open>ab:\<close>: the loop returns
  the letters a and b and moves \<open>x\<close> behind \<open>-b y\<close>.\<close>

definition demo_argv :: "cstr list" where
  "demo_argv = [Str 0 ''prog'', Str 1 ''-a'', Str 2 ''x'', Str 3 ''-b'', Str 4 ''y'', Str 5 ''z'']"

definition demo_platform :: platform where
  "demo_platform = \<lparr>char_signed = True, posixly_env = False\<rparr>"

lemma demo_ok:
  "argv_ok demo_argv" "demo_argv \<noteq> []" "long_vals_ok (Some [])"
  "letters_ok demo_platform (eff_opts ''ab:'')"
  by (simp_all add: demo_argv_def argv_ok_def c_string_ok_def long_vals_ok_def vals_ok_def
      letters_ok_def eff_opts_def)

theorem getopt_run_partitions_witness:
  "\<exists>rs s'. getopt_run (Suc (cost (drop 1 demo_argv))) demo_platform (int (length demo_argv))
        (Some ''ab:'') (Some []) True FLAG_PERMUTE (getopt_init demo_argv) = Some (rs, s')
    \<and> finished (eff_opts ''ab:'') (eff_flags demo_platform FLAG_PERMUTE ''ab:'') demo_argv s'"
  by (rule getopt_run_partitions [OF demo_ok])

end
