(* ===== verification/Getopt_Reference.thy ===== *)
theory Getopt_Reference
  imports Getopt_Run
begin

text \<open>
  What a caller of \<open>getopt_long\<close> is told, as a pass over the original words: \<open>ref_reports\<close> walks the
  list once, keeps no indices and moves nothing, and a call of \<open>getopt_internal\<close> on the vector that it
  permutes is one step of it. A report is the value a call returns and the \<open>optarg\<close> it leaves. \<open>ref_words\<close>
  names the vector in the end: what the pass took, what it skipped and what it did not reach.
\<close>

section \<open>The reference\<close>

text \<open>Between two reports: the letters of a word that are still to be read, with the word, or nothing;
  and the words behind.\<close>

type_synonym report = "int \<times> cstr option"

type_synonym cursor = "(cstr \<times> cstr) option \<times> cstr list"

text \<open>A long option \<open>p\<close>, without its dashes, in front of the words \<open>ws\<close>. \<open>None\<close>: it is to be read as
  short options.\<close>

definition ref_long :: "string \<Rightarrow> long_option list \<Rightarrow> bool \<Rightarrow> flags \<Rightarrow> cstr \<Rightarrow> cstr list
    \<Rightarrow> (report \<times> cstr list) option" where
  "ref_long opts los short_too fl p ws =
     (let name = chars p;
          equal = strchr name (CHR ''='');
          len = (case equal of Some t \<Rightarrow> length name - length t | None \<Rightarrow> length name);
          arg = map_option (\<lambda>t. case p of EMSG \<Rightarrow> EMSG | Str a _ \<Rightarrow> Str a (tl t)) equal
      in case match_long name len short_too fl los los 0 (-1) False of (found, exact, ambiguous) \<Rightarrow>
        if \<not> exact \<and> ambiguous then Some ((BADCH, None), ws)
        else if found = -1 then (if short_too then None else Some ((BADCH, None), ws))
        else let lo = los ! nat found in
          if has_arg lo = no_argument \<and> arg \<noteq> None then Some ((BADARG opts, None), ws)
          else if has_arg lo \<in> {required_argument, optional_argument} \<and> arg \<noteq> None
          then Some ((opt_of lo, arg), ws)
          else if has_arg lo = required_argument
          then (case ws of [] \<Rightarrow> Some ((BADARG opts, None), []) | w # ws \<Rightarrow> Some ((opt_of lo, Some w), ws))
          else Some ((opt_of lo, None), ws))"

text \<open>The option letter at \<open>p\<close> in the word \<open>w\<close>.\<close>

definition ref_short :: "platform \<Rightarrow> string \<Rightarrow> long_option list option \<Rightarrow> flags \<Rightarrow> cstr \<Rightarrow> cstr \<Rightarrow> cstr list
    \<Rightarrow> report \<times> cursor" where
  "ref_short pf opts los fl p w ws =
     (let c = cur (chars p);
          letter = int_of_char (char_signed pf) c;
          p = advance p;
          more = cur (chars p) \<noteq> NUL;
          next = (if more then Some (p, w) else None, ws)
      in case strchr opts c of
           None \<Rightarrow> ((BADCH, None), next)
         | Some spec \<Rightarrow>
           if c = CHR '':'' then ((BADCH, None), next)
           else if los \<noteq> None \<and> c = CHR ''W'' \<and> cur (tl spec) = CHR '';''
           then
             (case (if more then Some (p, ws) else case ws of [] \<Rightarrow> None | w # ws \<Rightarrow> Some (w, ws)) of
                None \<Rightarrow> ((BADARG opts, None), (None, []))
              | Some (q, ws) \<Rightarrow>
                  (case ref_long opts (the los) False fl q ws of
                     None \<Rightarrow> ((BADCH, None), (None, ws))
                   | Some (rep, ws) \<Rightarrow> (rep, (None, ws))))
           else if cur (tl spec) \<noteq> CHR '':'' then ((letter, None), next)
           else if more then ((letter, Some p), (None, ws))
           else if cur (tl (tl spec)) = CHR '':'' then ((letter, None), (None, ws))
           else (case ws of
               [] \<Rightarrow> ((BADARG opts, None), (None, []))
             | w # ws \<Rightarrow> ((letter, Some w), (None, ws))))"

definition ref_option :: "platform \<Rightarrow> string \<Rightarrow> long_option list option \<Rightarrow> flags \<Rightarrow> cstr \<Rightarrow> cstr \<Rightarrow> cstr list
    \<Rightarrow> report \<times> cursor" where
  "ref_option pf opts los fl p w ws =
     (let c = cur (chars p);
          short_too = (c \<noteq> CHR ''-'' \<and> c \<noteq> CHR '':'' \<and> strchr opts c \<noteq> None);
          long = (if los \<noteq> None \<and> p \<noteq> w \<and> (c = CHR ''-'' \<or> has_flag fl FLAG_LONGONLY)
            then ref_long opts (the los) short_too fl (if c = CHR ''-'' then advance p else p) ws else None)
      in case long of
           Some (rep, ws) \<Rightarrow> (rep, (None, ws))
         | None \<Rightarrow> ref_short pf opts los fl p w ws)"

text \<open>The next word: the end (\<open>None\<close>), a report, or an option.\<close>

fun ref_word :: "platform \<Rightarrow> string \<Rightarrow> long_option list option \<Rightarrow> flags \<Rightarrow> cstr list \<Rightarrow> (report \<times> cursor) option" where
  "ref_word pf opts los fl [] = None"
| "ref_word pf opts los fl (w # ws) =
     (if is_nonoption opts w
      then if has_flag fl FLAG_ALLARGS then Some ((INORDER, Some w), (None, ws))
        else if has_flag fl FLAG_PERMUTE then ref_word pf opts los fl ws
        else None
      else if chars w = ''--'' then None
      else Some (ref_option pf opts los fl (if cur (tl (chars w)) \<noteq> NUL then advance w else w) w ws))"

definition ref_next :: "platform \<Rightarrow> string \<Rightarrow> long_option list option \<Rightarrow> flags \<Rightarrow> cursor \<Rightarrow> (report \<times> cursor) option" where
  "ref_next pf opts los fl cursor =
     (case cursor of
        (Some (p, w), ws) \<Rightarrow> Some (ref_option pf opts los fl p w ws)
      | (None, ws) \<Rightarrow> ref_word pf opts los fl ws)"

text \<open>The words that a scan of \<open>ws\<close> passes over, and the end of a run in front of the words \<open>ws\<close>:
  what it still takes, a \<open>--\<close>, and what it leaves.\<close>

definition ref_skips :: "string \<Rightarrow> flags \<Rightarrow> cstr list \<Rightarrow> cstr list" where
  "ref_skips opts fl ws =
     (if has_flag fl FLAG_PERMUTE \<and> \<not> has_flag fl FLAG_ALLARGS then takeWhile (is_nonoption opts) ws else [])"

definition ref_stop :: "cstr list \<Rightarrow> cstr list \<times> cstr list" where
  "ref_stop ws = (case ws of [] \<Rightarrow> ([], []) | w # vs \<Rightarrow> if chars w = ''--'' then ([w], vs) else ([], w # vs))"

text \<open>Every report uses up letters or words.\<close>

definition cursor_size :: "cursor \<Rightarrow> nat" where
  "cursor_size cursor = (case fst cursor of Some (p, w) \<Rightarrow> Suc (length (chars p)) | None \<Rightarrow> 0) + cost (snd cursor)"

lemma cost_simps [simp]: "cost [] = 0" "cost (w # ws) = Suc (length (chars w)) + cost ws"
  by (simp_all add: cost_def)

lemma ref_long_size:
  "ref_long opts los st fl p ws = Some (rep, ws') \<Longrightarrow> length ws' \<le> length ws \<and> cost ws' \<le> cost ws"
  by (auto simp: ref_long_def Let_def split: prod.splits if_splits list.splits)

section \<open>The words behind \<open>optind\<close>\<close>

definition behind :: "getopt_state \<Rightarrow> cstr list" where
  "behind s = drop (nat (optind s)) (nargv s)"

definition cursor_of :: "getopt_state \<Rightarrow> cursor" where
  "cursor_of s = (if pending s then (Some (place s, hd (behind s)), tl (behind s)) else (None, behind s))"

lemma behind_Cons:
  assumes "0 \<le> optind s" "behind s = w # ws"
  shows "optind s < int (length (nargv s))" "argv_at (nargv s) (optind s) = Some (Some w)"
    "drop (nat (optind s + 1)) (nargv s) = ws"
proof -
  have l: "nat (optind s) < length (nargv s)"
    using assms(2) by (cases "nat (optind s) < length (nargv s)") (auto simp: behind_def)
  then show lt: "optind s < int (length (nargv s))" using assms(1) by linarith
  have "nargv s ! nat (optind s) = w" "drop (Suc (nat (optind s))) (nargv s) = ws"
    using assms(2) l by (auto simp: behind_def simp flip: Cons_nth_drop_Suc)
  then show "argv_at (nargv s) (optind s) = Some (Some w)" "drop (nat (optind s + 1)) (nargv s) = ws"
    using assms(1) lt by (auto simp: argv_at_def aget_def in_range_def nat_add_distrib)
qed

lemma behind_Nil:
  assumes "0 \<le> optind s" "behind s = []" "optind s \<le> int (length (nargv s))"
  shows "optind s = int (length (nargv s))" "argv_at (nargv s) (optind s) = Some None"
  using assms by (auto simp: behind_def argv_at_def)

section \<open>Long options\<close>

lemma long_result_ref:
  assumes "long_result options idx cu mt lo t = (r, s')"
  shows "if has_arg lo = required_argument \<and> optarg t = None
    then r = BADARG options \<and> optarg s' = None \<and> optind s' = optind t - 1 \<and> nargv s' = nargv t
    else r = opt_of lo \<and> optarg s' = optarg t \<and> optind s' = optind t \<and> nargv s' = nargv t"
  using assms by (auto simp: long_result_def opt_of_def Let_def split: if_splits option.splits)

lemma long_found_ref:
  assumes t: "0 \<le> optind t" "optind t \<le> int (length (nargv t))" "optarg t = None"
    and f: "map_option (long_result options idx cu mt lo) (long_argument lo he t) = Some (r, s')"
  shows "(r, optarg s', behind s') =
    (if has_arg lo \<in> {required_argument, optional_argument} \<and> he \<noteq> None then (opt_of lo, he, behind t)
     else if has_arg lo = required_argument
     then (case behind t of [] \<Rightarrow> (BADARG options, None, []) | w # ws \<Rightarrow> (opt_of lo, Some w, ws))
     else (opt_of lo, None, behind t))"
proof -
  obtain u where u: "long_argument lo he t = Some u" "long_result options idx cu mt lo u = (r, s')"
    using f by (cases "long_argument lo he t") auto
  note lr = long_result_ref [OF u(2)]
  show ?thesis
  proof (cases "has_arg lo = required_argument \<and> he = None")
    case False
    then have "optind u = optind t" "nargv u = nargv t"
      "optarg u = (if has_arg lo \<in> {required_argument, optional_argument} then he else None)"
      using u(1) t(3) by (auto simp: long_argument_def split: if_splits)
    then show ?thesis using lr False by (auto simp: behind_def split: if_splits)
  next
    case True
    show ?thesis
    proof (cases "behind t")
      case Nil
      from behind_Nil [OF t(1) Nil t(2)] have "u = t\<lparr>optarg := None, optind := optind t + 1\<rparr>"
        using u(1) True by (simp add: long_argument_def)
      then show ?thesis using lr True Nil by (auto simp: behind_def)
    next
      case (Cons w ws)
      note b = behind_Cons [OF t(1) Cons]
      then have "u = t\<lparr>optarg := Some w, optind := optind t + 1\<rparr>"
        using u(1) True by (simp add: long_argument_def)
      then show ?thesis using lr True Cons b(3) by (simp add: behind_def)
    qed
  qed
qed

lemma parse_long_ref:
  assumes s: "0 \<le> optind s" "behind s = w # ws" "optarg s = None"
    and p: "parse_long_options options los idx st fl s = Some (r, s')"
  shows "case ref_long options los st fl (place s) ws of
      None \<Rightarrow> st \<and> r = -1 \<and> s' = s
    | Some ((r0, a), ws') \<Rightarrow> r = r0 \<and> optarg s' = a \<and> behind s' = ws'"
proof -
  let ?cu = "chars (place s)"
  define eq where "eq = strchr ?cu (CHR ''='')"
  define len where "len = (case eq of Some t \<Rightarrow> length ?cu - length t | None \<Rightarrow> length ?cu)"
  define he where "he = map_option (\<lambda>t. case place s of EMSG \<Rightarrow> EMSG | Str a _ \<Rightarrow> Str a (tl t)) eq"
  obtain mt ex sec where m: "match_long ?cu len st fl los los 0 (-1) False = (mt, ex, sec)"
    by (cases "match_long ?cu len st fl los los 0 (-1) False") auto
  note b = behind_Cons [OF s(1,2)]
  let ?s1 = "s\<lparr>optind := optind s + 1\<rparr>"
  have code: "parse_long_options options los idx st fl s =
     (if \<not> ex \<and> sec then Some (BADCH, (warnx options (Ambig (take len ?cu)) ?s1)\<lparr>optopt := 0\<rparr>)
      else if mt \<noteq> -1
      then (if has_arg (los ! nat mt) = no_argument \<and> he \<noteq> None
            then Some (BADARG options,
              (warnx options (NoArg (take len ?cu)) ?s1)\<lparr>optopt := opt_of (los ! nat mt)\<rparr>)
            else map_option (long_result options idx ?cu mt (los ! nat mt))
              (long_argument (los ! nat mt) he ?s1))
      else if st then Some (-1, ?s1\<lparr>optind := optind ?s1 - 1\<rparr>)
      else Some (BADCH, (warnx options (IllOptString ?cu) ?s1)\<lparr>optopt := 0\<rparr>))"
    by (auto simp: parse_long_options_def Let_def m simp flip: eq_def len_def he_def)
  have ref: "ref_long options los st fl (place s) ws =
     (if \<not> ex \<and> sec then Some ((BADCH, None), ws)
      else if mt = -1 then (if st then None else Some ((BADCH, None), ws))
      else if has_arg (los ! nat mt) = no_argument \<and> he \<noteq> None then Some ((BADARG options, None), ws)
      else if has_arg (los ! nat mt) \<in> {required_argument, optional_argument} \<and> he \<noteq> None
      then Some ((opt_of (los ! nat mt), he), ws)
      else if has_arg (los ! nat mt) = required_argument
      then (case ws of [] \<Rightarrow> Some ((BADARG options, None), []) | w # ws \<Rightarrow> Some ((opt_of (los ! nat mt), Some w), ws))
      else Some ((opt_of (los ! nat mt), None), ws))"
    by (auto simp: ref_long_def Let_def m simp flip: eq_def len_def he_def)
  have b1: "behind ?s1 = ws" using b by (simp add: behind_def)
  have keep: "behind (t\<lparr>optopt := x\<rparr>) = behind t" "behind (warnx o' msg t) = behind t" for t x o' msg
    by (simp_all add: behind_def)
  consider (bad) "\<not> ex \<and> sec \<or> mt = -1 \<or> has_arg (los ! nat mt) = no_argument \<and> he \<noteq> None"
    | (found) "ex \<or> \<not> sec" "mt \<noteq> -1" "\<not> (has_arg (los ! nat mt) = no_argument \<and> he \<noteq> None)" by blast
  then show ?thesis
  proof cases
    case bad
    then show ?thesis using p s(3) unfolding code ref by (auto simp: b1 keep split: if_splits)
  next
    case found
    then have "map_option (long_result options idx ?cu mt (los ! nat mt)) (long_argument (los ! nat mt) he ?s1)
        = Some (r, s')" using p unfolding code by (simp split: if_splits)
    from long_found_ref [OF _ _ _ this] have "(r, optarg s', behind s') =
      (if has_arg (los ! nat mt) \<in> {required_argument, optional_argument} \<and> he \<noteq> None then (opt_of (los ! nat mt), he, ws)
       else if has_arg (los ! nat mt) = required_argument
       then (case ws of [] \<Rightarrow> (BADARG options, None, []) | w # ws \<Rightarrow> (opt_of (los ! nat mt), Some w, ws))
       else (opt_of (los ! nat mt), None, ws))"
      using s(1,3) b(1) unfolding b1 by simp
    then show ?thesis using found unfolding ref by (auto split: list.splits if_splits)
  qed
qed

section \<open>Short options\<close>

lemma cursor_done: "place s = EMSG \<Longrightarrow> cursor_of s = (None, behind s)"
  by (simp add: cursor_of_def pending_def)

lemma behind_frame [simp]:
  "behind (s\<lparr>place := q\<rparr>) = behind s" "behind (s\<lparr>optopt := x\<rparr>) = behind s"
  "behind (s\<lparr>optarg := a\<rparr>) = behind s" "behind (warnx o' m s) = behind s"
  "behind (s\<lparr>posixly_correct := i\<rparr>) = behind s"
  by (simp_all add: behind_def)

lemma parse_whole_ref:
  assumes "0 \<le> optind s" "behind s = w # ws" "optarg s = None"
    "parse_long_options options los idx False fl s = Some (r, t)" "s' = t\<lparr>place := EMSG\<rparr>"
  shows "((r, optarg s'), cursor_of s') =
    (case ref_long options los False fl (place s) ws of
       None \<Rightarrow> ((BADCH, None), (None, ws)) | Some (rep, ws) \<Rightarrow> (rep, (None, ws)))"
  using parse_long_ref [OF assms(1-4)] assms(5)
  by (auto simp: cursor_done split: option.splits)

lemma dash_W_ref:
  assumes s: "0 \<le> optind s" "behind s = w # ws" "optarg s = None" "nargc = int (length (nargv s))"
    and d: "dash_W nargc options los idx fl oc s = Some (r, s')"
  shows "((r, optarg s'), cursor_of s') =
    (case (if cur (chars (place s)) \<noteq> NUL then Some (place s, ws)
           else case ws of [] \<Rightarrow> None | w # ws \<Rightarrow> Some (w, ws)) of
       None \<Rightarrow> ((BADARG options, None), (None, []))
     | Some (q, ws) \<Rightarrow>
         (case ref_long options los False fl q ws of
            None \<Rightarrow> ((BADCH, None), (None, ws)) | Some (rep, ws) \<Rightarrow> (rep, (None, ws))))"
proof -
  note b = behind_Cons [OF s(1,2)]
  show ?thesis
  proof (cases "cur (chars (place s)) = NUL")
    case False
    then obtain t where "parse_long_options options los idx False fl s = Some (r, t)" "s' = t\<lparr>place := EMSG\<rparr>"
      using d by (auto simp: dash_W_def bind_eq_Some_conv)
    from parse_whole_ref [OF s(1-3) this] show ?thesis using False by simp
  next
    case True
    let ?u = "s\<lparr>optind := optind s + 1\<rparr>"
    have u: "0 \<le> optind ?u" "behind ?u = ws" "optarg ?u = None" "optind ?u \<le> int (length (nargv ?u))"
      using s b by (simp_all add: behind_def)
    show ?thesis
    proof (cases ws)
      case Nil
      then have e: "optind s + 1 = nargc" using behind_Nil [OF u(1) _ u(4)] u(2) s(4) by simp
      have "r = BADARG options \<and> optarg s' = None \<and> cursor_of s' = (None, [])"
        using d True e u(2,3) Nil by (auto simp: dash_W_def Let_def cursor_done)
      then show ?thesis using True Nil by simp
    next
      case (Cons w' ws')
      have b': "optind ?u < int (length (nargv ?u))" "argv_at (nargv ?u) (optind ?u) = Some (Some w')"
        using behind_Cons [of ?u w' ws'] u(1,2) Cons by auto
      then obtain t where t: "parse_long_options options los idx False fl (?u\<lparr>place := w'\<rparr>) = Some (r, t)"
        "s' = t\<lparr>place := EMSG\<rparr>"
        using d True s(4) by (auto simp: dash_W_def Let_def bind_eq_Some_conv)
      have "0 \<le> optind (?u\<lparr>place := w'\<rparr>)" "behind (?u\<lparr>place := w'\<rparr>) = w' # ws'" "optarg (?u\<lparr>place := w'\<rparr>) = None"
        using u Cons by simp_all
      from parse_whole_ref [OF this t] show ?thesis using True Cons by simp
    qed
  qed
qed

lemma short_option_ref:
  assumes s: "0 \<le> optind s" "behind s = w # ws" "optarg s = None" "nargc = int (length (nargv s))"
    and d: "short_option pf nargc options los idx fl s = Some (r, s')"
  shows "ref_short pf options los fl (place s) w ws = ((r, optarg s'), cursor_of s')"
proof -
  note b = behind_Cons [OF s(1,2)]
  let ?c = "cur (chars (place s))" and ?p = "advance (place s)"
  let ?t = "s\<lparr>place := ?p\<rparr>"
  define u where "u = (if cur (chars ?p) = NUL then ?t\<lparr>optind := optind s + 1\<rparr> else ?t)"
  have u: "cursor_of u = (if cur (chars ?p) \<noteq> NUL then Some (?p, w) else None, ws)" "optarg u = None"
    using s b by (auto simp: u_def cursor_of_def pending_def behind_def)
  have uw: "cursor_of ((warnx options m u)\<lparr>optopt := x\<rparr>) = cursor_of u" for m x
    by (simp add: cursor_of_def pending_def)
  have nxt: "behind (?t\<lparr>optarg := a, place := q, optind := optind s + 1\<rparr>) = ws" for q a
    using b by (simp add: behind_def)
  show ?thesis
  proof (cases "?c = CHR '':'' \<or> strchr options ?c = None")
    case True
    let ?oc = "int_of_char (char_signed pf) ?c"
    have "r = BADCH" "s' = (warnx options (IllOptChar ?oc) u)\<lparr>optopt := ?oc\<rparr>"
      using True d by (auto simp: short_option_def Let_def u_def)
    then show ?thesis using True u uw by (auto simp: ref_short_def Let_def split: option.splits)
  next
    case False
    then obtain spec where sp: "strchr options ?c = Some spec" "?c \<noteq> CHR '':''" by auto
    show ?thesis
    proof (cases "los \<noteq> None \<and> ?c = CHR ''W'' \<and> cur (tl spec) = CHR '';''")
      case True
      then have "dash_W nargc options (the los) idx fl (int_of_char (char_signed pf) ?c) ?t = Some (r, s')"
        using d sp by (auto simp: short_option_def Let_def)
      from dash_W_ref [OF _ _ _ _ this] show ?thesis
        using True sp s by (auto simp: ref_short_def Let_def)
    next
      case nw: False
      show ?thesis
      proof (cases "cur (tl spec) = CHR '':''")
        case False
        then have "r = int_of_char (char_signed pf) ?c" "s' = u"
          using d sp nw by (auto simp: short_option_def Let_def u_def)
        then show ?thesis using False sp nw u by (auto simp: ref_short_def Let_def)
      next
        case arg: True
        show ?thesis
        proof (cases "cur (chars ?p) \<noteq> NUL")
          case True
          then have "r = int_of_char (char_signed pf) ?c"
            "s' = ?t\<lparr>optarg := Some ?p, place := EMSG, optind := optind s + 1\<rparr>"
            using d sp nw arg by (auto simp: short_option_def Let_def)
          then show ?thesis using True sp nw arg nxt by (auto simp: ref_short_def Let_def cursor_done)
        next
          case nomore: False
          let ?v = "?t\<lparr>optarg := None, optind := optind s + 1\<rparr>"
          have v: "0 \<le> optind ?v" "behind ?v = ws" "optind ?v \<le> int (length (nargv ?v))"
            "behind (s\<lparr>optarg := None, optind := optind s + 1\<rparr>) = ws"
            using s b by (simp_all add: behind_def)
          show ?thesis
          proof (cases "cur (tl (tl spec)) = CHR '':''")
            case True
            then have "r = int_of_char (char_signed pf) ?c" "s' = ?v\<lparr>place := EMSG\<rparr>"
              using d sp nw arg nomore by (auto simp: short_option_def Let_def)
            then show ?thesis using True sp nw arg nomore v
              by (auto simp: ref_short_def Let_def cursor_done behind_def)
          next
            case req: False
            show ?thesis
            proof (cases ws)
              case Nil
              then have "nargc \<le> optind s + 1" using behind_Nil [OF v(1) _ v(3)] v(2) s(4) by simp
              let ?oc = "int_of_char (char_signed pf) ?c"
              have "r = BADARG options" "s' = (warnx options (RecArgChar ?oc) (?v\<lparr>place := EMSG\<rparr>))\<lparr>optopt := ?oc\<rparr>"
                using d sp nw arg nomore req \<open>nargc \<le> optind s + 1\<close> by (auto simp: short_option_def Let_def)
              then show ?thesis using sp nw arg nomore req Nil v
                by (auto simp: ref_short_def Let_def cursor_done)
            next
              case (Cons w' ws')
              have b': "optind ?v < nargc" "argv_at (nargv ?v) (optind ?v) = Some (Some w')"
                "drop (nat (optind ?v + 1)) (nargv ?v) = ws'"
                using behind_Cons [of ?v w' ws'] v Cons s(4) by auto
              then have "r = int_of_char (char_signed pf) ?c"
                "s' = ?v\<lparr>optarg := Some w', place := EMSG, optind := optind ?v + 1\<rparr>"
                using d sp nw arg nomore req by (auto simp: short_option_def Let_def)
              then show ?thesis using sp nw arg nomore req Cons b'(3)
                by (auto simp: ref_short_def Let_def cursor_done behind_def)
            qed
          qed
        qed
      qed
    qed
  qed
qed

section \<open>Options\<close>

lemma option_argument_ref:
  assumes pre: "option_pre nargc s" and s: "behind s = w # ws" "optarg s = None"
    and los: "\<And>l. los = Some l \<Longrightarrow> vals_ok l"
    and d: "option_argument pf nargc options los idx fl s = Some (r, s')"
  shows "ref_option pf options los fl (place s) w ws = ((r, optarg s'), cursor_of s')"
proof -
  note p = pre [unfolded option_pre_def]
  have s0: "0 \<le> optind s" "nargc = int (length (nargv s))" using p by auto
  note b = behind_Cons [OF s0(1) s(1)]
  let ?c = "cur (chars (place s))"
  define st where "st \<longleftrightarrow> ?c \<noteq> CHR ''-'' \<and> ?c \<noteq> CHR '':'' \<and> strchr options ?c \<noteq> None"
  define t where "t = (if ?c = CHR ''-'' then s\<lparr>place := advance (place s)\<rparr> else s)"
  have t: "0 \<le> optind t" "behind t = w # ws" "optarg t = None" using s s0 by (simp_all add: t_def)
  have short: "short_option pf nargc options los idx fl s = Some (r, s') \<Longrightarrow>
      ref_short pf options los fl (place s) w ws = ((r, optarg s'), cursor_of s')"
    by (rule short_option_ref [OF s0(1) s s0(2)])
  show ?thesis
  proof (cases "los \<noteq> None \<and> place s \<noteq> w \<and> (?c = CHR ''-'' \<or> has_flag fl FLAG_LONGONLY)")
    case False
    then have "short_option pf nargc options los idx fl s = Some (r, s')"
      using d b(2) by (auto simp: option_argument_def split: option.splits if_splits)
    then show ?thesis using short False by (auto simp: ref_option_def Let_def)
  next
    case True
    then obtain l where l: "los = Some l" by auto
    obtain q u where q: "parse_long_options options l idx st fl t = Some (q, u)"
      "q \<noteq> -1 \<and> r = q \<and> s' = u\<lparr>place := EMSG\<rparr>
       \<or> q = -1 \<and> short_option pf nargc options los idx fl u = Some (r, s')"
      using d True unfolding l option_argument_long [OF b(2) st_def t_def]
      by (auto simp: bind_eq_Some_conv split: if_splits)
    note ref = parse_long_ref [OF t q(1)]
    have pl: "place t = (if ?c = CHR ''-'' then advance (place s) else place s)" by (simp add: t_def)
    have bound: "optind t < int (length (nargv t))" using b(1) by (simp add: t_def)
    show ?thesis
    proof (cases "ref_long options l st fl (place t) ws")
      case None
      then have "u = t" "st" "q = -1" using ref by auto
      then have "u = s" by (auto simp: t_def st_def)
      then show ?thesis using q(2) \<open>q = -1\<close> short None True l pl by (auto simp: ref_option_def Let_def st_def)
    next
      case (Some y)
      have "q \<noteq> -1"
      proof
        assume "q = -1"
        then have "long_frame t u" "optind u = optind t"
          using parse_long_options_consumes [OF t(1) bound los [OF l], of options idx st fl] q(1) by auto
        then have "behind u = behind t" by (simp add: behind_def long_frame_def)
        moreover obtain rep ws' where "y = (rep, ws')" by (cases y)
        ultimately show False using ref_long_size [of options l st fl "place t" ws rep ws'] Some ref t(2) by auto
      qed
      then show ?thesis using ref q(2) Some True l pl
        by (auto simp: ref_option_def Let_def st_def cursor_done split: prod.splits)
    qed
  qed
qed

section \<open>Scanning\<close>

lemma parts_behind: "parts opts fl A s P N Q \<Longrightarrow> behind s = drop (nat (optind s)) A"
  using parts_length [of opts fl A s P N Q] parts_range(4) [of opts fl A s P N Q]
  by (simp add: behind_def)

text \<open>What a scan of the words \<open>ws\<close> ends in.\<close>

definition scan_ref :: "platform \<Rightarrow> string \<Rightarrow> long_option list option \<Rightarrow> flags \<Rightarrow> cstr list \<Rightarrow> scan \<Rightarrow> bool" where
  "scan_ref pf opts los fl ws out \<longleftrightarrow> (case out of
     Return r s' \<Rightarrow>
       if r = -1 then ref_word pf opts los fl ws = None
       else ref_word pf opts los fl ws = Some ((r, optarg s'), cursor_of s')
   | Proceed t \<Rightarrow> \<exists>w vs. behind t = w # vs \<and> optarg t = None
       \<and> ref_word pf opts los fl ws = Some (ref_option pf opts los fl (place t) w vs))"

lemma enter_option_ref:
  assumes w: "behind s = w # ws" "optarg s = None" "c_string_ok (chars w)" "\<not> is_nonoption opts w"
    and out: "enter_option w s = Some out"
  shows "scan_ref pf opts los fl (w # ws) out"
proof -
  define u where "u = (if nonopt_start s \<noteq> -1 \<and> nonopt_end s = -1
      then s\<lparr>place := w, nonopt_end := optind s\<rparr> else s\<lparr>place := w\<rparr>)"
  have u: "behind u = w # ws" "optarg u = None" "place u = w" using w by (simp_all add: u_def behind_def)
  have unf: "enter_option w s =
      (if cur (tl (chars w)) \<noteq> NUL
       then if cur (tl (chars w)) = CHR ''-'' \<and> cur (tl (tl (chars w))) = NUL
            then map_option (\<lambda>(r, s). Return r s) (double_dash (u\<lparr>place := advance w\<rparr>))
            else Some (Proceed (u\<lparr>place := advance w\<rparr>))
       else Some (Proceed u))"
    by (simp add: enter_option_def Let_def u_def)
  have dash: "cur (chars w) = CHR ''-''" using w(4) by (simp add: is_nonoption_def)
  have ddash: "cur (tl (chars w)) = CHR ''-'' \<and> cur (tl (tl (chars w))) = NUL \<longleftrightarrow> chars w = ''--''"
    using dash w(3) by (cases "chars w"; cases "tl (chars w)"; cases "tl (tl (chars w))") (auto simp: c_string_ok_def)
  consider (dd) r s' where "chars w = ''--''" "double_dash (u\<lparr>place := advance w\<rparr>) = Some (r, s')" "out = Return r s'"
    | (more) "chars w \<noteq> ''--''" "cur (tl (chars w)) \<noteq> NUL" "out = Proceed (u\<lparr>place := advance w\<rparr>)"
    | (dash) "chars w \<noteq> ''--''" "cur (tl (chars w)) = NUL" "out = Proceed u"
    using out unfolding unf by (auto simp: ddash [symmetric] split: if_splits)
  then show ?thesis
  proof cases
    case dd
    then have "r = -1" by (auto simp: double_dash_def bind_eq_Some_conv Let_def)
    then show ?thesis using dd w(4) by (simp add: scan_ref_def)
  qed (use u w(4) in \<open>auto simp: scan_ref_def\<close>)
qed

lemma getopt_scan_ref:
  assumes "nargc = int (length A)" "argv_ok A" "optreset s = 0" "\<not> pending s" "optarg s = None"
    and "idle_blocks nargc s" "parts opts fl A s P N Q"
    and "getopt_scan nargc opts fl s = Some out"
  shows "scan_ref pf opts los fl (behind s) out"
  using assms
proof (induction "nat (nargc - optind s)" arbitrary: s P N Q rule: less_induct)
  case less
  note idle = less.prems(4) and p = less.prems(7) and out = less.prems(8)
  have nr: "\<not> (optreset s = 0 \<and> pending s)" using idle by simp
  have or: "s\<lparr>optreset := 0\<rparr> = s" using less.prems(3) by simp
  note bh = parts_behind [OF p]
  show ?case
  proof (cases "optind s < nargc")
    case False
    then obtain r s' where "end_of_args s = Some (r, s')" "out = Return r s'"
      using out scan_end [OF nr, of nargc opts fl] or by auto
    moreover have "behind s = []" using False less.prems(1) by (simp add: bh)
    ultimately show ?thesis using end_of_args_ret by (auto simp: scan_ref_def)
  next
    case more: True
    define a where "a = A ! nat (optind s)"
    have lt: "optind s < int (length A)" using more less.prems(1) by simp
    note at = parts_at [OF p lt, folded a_def]
    have b: "behind s = a # drop (nat (optind s + 1)) A" using at(3) by (simp add: bh)
    have "a \<in> set A" using lt parts_range(1) [OF p] by (simp add: a_def)
    then have a: "c_string_ok (chars a)" using less.prems(2) by (auto simp: argv_ok_def)
    show ?thesis
    proof (cases "is_nonoption opts a")
      case False
      then have "enter_option a s = Some out" using out scan_option [OF nr more at(1) False] or by simp
      then show ?thesis using enter_option_ref [OF b less.prems(5) a False] b by simp
    next
      case nonopt: True
      let ?u = "s\<lparr>optreset := 0, place := EMSG\<rparr>"
      have u: "parts opts fl A ?u P N Q" "idle_blocks nargc ?u"
        using p less.prems(6) by (auto intro: parts_cong simp: idle_blocks_def)
      have un: "nargc = int (length (nargv ?u))" "0 \<le> optind ?u" "optind ?u < nargc"
        using more less.prems(1) parts_range(1) [OF p] parts_nargv_length [OF p] by simp_all
      consider (all) "has_flag fl FLAG_ALLARGS"
          "out = Return INORDER (?u\<lparr>optarg := Some a, optind := optind s + 1\<rparr>)"
        | (stop) "\<not> has_flag fl FLAG_ALLARGS" "\<not> has_flag fl FLAG_PERMUTE" "out = Return (-1) ?u"
        | (skip) s' where "\<not> has_flag fl FLAG_ALLARGS" "has_flag fl FLAG_PERMUTE"
          "skip_nonoption ?u = Some s'" "getopt_scan nargc opts fl s' = Some out"
        using out unfolding scan_nonoption [OF nr more at(1) nonopt, of fl] Let_def
        by (auto split: if_splits option.splits)
      then show ?thesis
      proof cases
        case all
        have "behind (?u\<lparr>optarg := Some a, optind := optind s + 1\<rparr>) = drop (nat (optind s + 1)) A"
          using behind_Cons(3) [OF parts_range(1) [OF p] b] by (simp add: behind_def)
        then show ?thesis using all nonopt b by (simp add: scan_ref_def cursor_done)
      next
        case stop
        then show ?thesis using nonopt b by (simp add: scan_ref_def)
      next
        case skip
        have p': "parts opts fl A s' (P @ Q) (N @ [a]) []"
          using parts_skip [OF u(1,2) _ _ skip(2,1,3)] lt nonopt by (simp add: a_def)
        obtain s'' where "skip_nonoption ?u = Some s''" "idle_blocks nargc s''" "optreset s'' = 0"
            "place s'' = EMSG" "optind s'' = optind s + 1"
          using skip_nonoption_ok [OF u(2) un] by auto
        then have s': "idle_blocks nargc s'" "optreset s' = 0" "\<not> pending s'" "optind s' = optind s + 1"
          using skip(3) by (auto simp: pending_def)
        have oa: "optarg s' = None"
          using skip(3) less.prems(5) by (auto simp: skip_nonoption_def permute_def bind_eq_Some_conv split: if_splits)
        have "scan_ref pf opts los fl (behind s') out"
          by (rule less.hyps [OF _ less.prems(1,2) s'(2,3) oa s'(1) p' skip(4)]) (use s'(4) more in simp)
        moreover have "behind s' = drop (nat (optind s + 1)) A" using parts_behind [OF p'] s'(4) by simp
        ultimately show ?thesis using nonopt skip(1,2) b by (cases out) (simp_all add: scan_ref_def)
      qed
    qed
  qed
qed

section \<open>Where a scan leaves the words\<close>

text \<open>\<open>D\<close>: the options and arguments that were taken before the scan of \<open>ws\<close>, \<open>N\<close>: the non-options that
  were skipped before it.\<close>

definition scan_order :: "string \<Rightarrow> flags \<Rightarrow> cstr list \<Rightarrow> cstr list \<Rightarrow> cstr list \<Rightarrow> cstr list \<Rightarrow> scan \<Rightarrow> bool" where
  "scan_order opts fl A D N ws out \<longleftrightarrow>
    (let sk = ref_skips opts fl ws; rest = drop (length sk) ws in case out of
       Return r s' \<Rightarrow>
         if r = -1
         then (case ref_stop rest of (os, vs) \<Rightarrow>
           nargv s' = D @ os @ N @ sk @ vs \<and> optind s' = int (length D + length os))
         else has_flag fl FLAG_ALLARGS \<and> behind s' = tl ws \<and> (\<exists>P Q. parts opts fl A s' P N Q \<and> P @ Q @ behind s' = D @ ws)
     | Proceed t \<Rightarrow> behind t = rest
         \<and> (\<exists>P Q. parts opts fl A t P (N @ sk) Q \<and> P @ Q = D \<and> (N @ sk = [] \<or> nonopt_end t \<noteq> -1)))"

lemma ref_skips_simps [simp]:
  "ref_skips opts fl [] = []"
  "\<not> is_nonoption opts w \<Longrightarrow> ref_skips opts fl (w # ws) = []"
  "has_flag fl FLAG_PERMUTE \<Longrightarrow> \<not> has_flag fl FLAG_ALLARGS \<Longrightarrow> is_nonoption opts w
    \<Longrightarrow> ref_skips opts fl (w # ws) = w # ref_skips opts fl ws"
  "\<not> has_flag fl FLAG_PERMUTE \<Longrightarrow> ref_skips opts fl ws = []"
  "has_flag fl FLAG_ALLARGS \<Longrightarrow> ref_skips opts fl ws = []"
  by (simp_all add: ref_skips_def)

lemma nonoption_not_dashes: "is_nonoption opts w \<Longrightarrow> chars w \<noteq> ''--''"
  by (auto simp: is_nonoption_def)

lemma enter_option_order:
  assumes p: "parts opts fl A s P N Q" and lt: "optind s < int (length A)"
    and a: "a = A ! nat (optind s)" "c_string_ok (chars a)" "\<not> is_nonoption opts a"
    and b: "behind s = a # ws" and out: "enter_option a s = Some out"
  shows "scan_order opts fl A (P @ Q) N (a # ws) out"
proof -
  define u where "u = (if nonopt_start s \<noteq> -1 \<and> nonopt_end s = -1
      then s\<lparr>place := a, nonopt_end := optind s\<rparr> else s\<lparr>place := a\<rparr>)"
  have u: "optind u = optind s" "behind u = a # ws" using b by (simp_all add: u_def behind_def)
  note up = parts_enter [OF p u_def]
  have go: "scan_order opts fl A (P @ Q) N (a # ws) (Proceed (u\<lparr>place := q\<rparr>))" for q
  proof -
    have "parts opts fl A (u\<lparr>place := q\<rparr>) P N Q" by (rule parts_cong [OF up(1)]) simp_all
    then show ?thesis using up(2) u a(3) by (auto simp: scan_order_def)
  qed
  have self: "u = u\<lparr>place := a\<rparr>" by (simp add: u_def)
  have unf: "enter_option a s =
      (if cur (tl (chars a)) \<noteq> NUL
       then if cur (tl (chars a)) = CHR ''-'' \<and> cur (tl (tl (chars a))) = NUL
            then map_option (\<lambda>(r, s). Return r s) (double_dash (u\<lparr>place := advance a\<rparr>))
            else Some (Proceed (u\<lparr>place := advance a\<rparr>))
       else Some (Proceed u))"
    by (simp add: enter_option_def Let_def u_def)
  have dash: "cur (chars a) = CHR ''-''" using a(3) by (simp add: is_nonoption_def)
  consider (dd) r s' where "chars a = ''--''" "double_dash (u\<lparr>place := advance a\<rparr>) = Some (r, s')" "out = Return r s'"
    | (go) q where "out = Proceed (u\<lparr>place := q\<rparr>)"
  proof (cases "cur (tl (chars a)) = CHR ''-'' \<and> cur (tl (tl (chars a))) = NUL")
    case True
    then have "chars a = ''--''"
      using dash a(2) by (cases "chars a"; cases "tl (chars a)"; cases "tl (tl (chars a))") (auto simp: c_string_ok_def)
    then show ?thesis using True out unfolding unf by (auto intro: dd)
  next
    case False
    then show ?thesis using out self go unfolding unf by (auto split: if_splits)
  qed
  then show ?thesis
  proof cases
    case dd
    have "parts opts fl A (u\<lparr>place := advance a\<rparr>) P N Q" by (rule parts_cong [OF up(1)]) simp_all
    note v = parts_double_dash_vector [OF this _ _ dd(2)]
    have "r = -1" using dd(2) by (auto simp: double_dash_def bind_eq_Some_conv Let_def)
    moreover have "drop (nat (optind s + 1)) A = ws"
      using parts_at(3) [OF p lt] parts_behind [OF p] b by simp
    ultimately show ?thesis using v up(2) lt u(1) a dd(1,3) by (simp add: scan_order_def ref_stop_def)
  qed (use go in simp)
qed

lemma getopt_scan_order:
  assumes "nargc = int (length A)" "argv_ok A" "optreset s = 0" "\<not> pending s"
    and "idle_blocks nargc s" "parts opts fl A s P N Q"
    and "getopt_scan nargc opts fl s = Some out"
  shows "scan_order opts fl A (P @ Q) N (behind s) out"
  using assms
proof (induction "nat (nargc - optind s)" arbitrary: s P N Q rule: less_induct)
  case less
  note idle = less.prems(4) and p = less.prems(6) and out = less.prems(7)
  have nr: "\<not> (optreset s = 0 \<and> pending s)" using idle by simp
  have or: "s\<lparr>optreset := 0\<rparr> = s" using less.prems(3) by simp
  note bh = parts_behind [OF p]
  show ?case
  proof (cases "optind s < nargc")
    case False
    then obtain r s' where e: "end_of_args s = Some (r, s')" "out = Return r s'"
      using out scan_end [OF nr, of nargc opts fl] or by auto
    moreover have o: "optind s = int (length A)" using False less.prems(1) parts_range(2) [OF p] by simp
    moreover have "behind s = []" using o by (simp add: bh)
    ultimately show ?thesis using parts_end_vector [OF p less.prems(5) o e(1)] end_of_args_ret [OF e(1)]
      by (simp add: scan_order_def ref_stop_def)
  next
    case more: True
    define a where "a = A ! nat (optind s)"
    have lt: "optind s < int (length A)" using more less.prems(1) by simp
    note at = parts_at [OF p lt, folded a_def]
    have b: "behind s = a # drop (nat (optind s + 1)) A" using at(3) by (simp add: bh)
    have "a \<in> set A" using lt parts_range(1) [OF p] by (simp add: a_def)
    then have a: "c_string_ok (chars a)" using less.prems(2) by (auto simp: argv_ok_def)
    show ?thesis
    proof (cases "is_nonoption opts a")
      case False
      then have "enter_option a s = Some out" using out scan_option [OF nr more at(1) False] or by simp
      then show ?thesis using enter_option_order [OF p lt a_def a False b] b by simp
    next
      case nonopt: True
      let ?u = "s\<lparr>optreset := 0, place := EMSG\<rparr>"
      have u: "parts opts fl A ?u P N Q" "idle_blocks nargc ?u"
        using p less.prems(5) by (auto intro: parts_cong simp: idle_blocks_def)
      have un: "nargc = int (length (nargv ?u))" "0 \<le> optind ?u" "optind ?u < nargc"
        using more less.prems(1) parts_range(1) [OF p] parts_nargv_length [OF p] by simp_all
      consider (all) "has_flag fl FLAG_ALLARGS"
          "out = Return INORDER (?u\<lparr>optarg := Some a, optind := optind s + 1\<rparr>)"
        | (stop) "\<not> has_flag fl FLAG_ALLARGS" "\<not> has_flag fl FLAG_PERMUTE" "out = Return (-1) ?u"
        | (skip) s' where "\<not> has_flag fl FLAG_ALLARGS" "has_flag fl FLAG_PERMUTE"
          "skip_nonoption ?u = Some s'" "getopt_scan nargc opts fl s' = Some out"
        using out unfolding scan_nonoption [OF nr more at(1) nonopt, of fl] Let_def
        by (auto split: if_splits option.splits)
      then show ?thesis
      proof cases
        case all
        then have "N = []" using p by (auto simp: parts_def)
        let ?v = "?u\<lparr>optarg := Some a, optind := optind s + 1\<rparr>"
        have "\<exists>P' Q'. parts opts fl A ?v P' N Q' \<and>
            P' @ Q' = P @ Q @ take (nat (optind ?v - optind ?u)) (drop (nat (optind ?u)) A)"
          by (rule parts_advance [OF u(1)]) (use \<open>N = []\<close> lt in auto)
        moreover have "behind ?v = drop (nat (optind s + 1)) A"
          using behind_Cons(3) [OF parts_range(1) [OF p] b] by (simp add: behind_def)
        ultimately show ?thesis using all(1) at(3) b
          by (auto simp: scan_order_def all(2) INORDER_def)
      next
        case stop
        then have "N = []" "Q = []" using p by (auto simp: parts_def split: if_splits)
        then show ?thesis using stop nonopt nonoption_not_dashes [OF nonopt] p parts_optind [OF p] b bh
          by (simp add: scan_order_def ref_stop_def parts_range(4) [OF p])
      next
        case skip
        have p': "parts opts fl A s' (P @ Q) (N @ [a]) []"
          using parts_skip [OF u(1,2) _ _ skip(2,1,3)] lt nonopt by (simp add: a_def)
        obtain s'' where "skip_nonoption ?u = Some s''" "idle_blocks nargc s''" "optreset s'' = 0"
            "place s'' = EMSG" "optind s'' = optind s + 1"
          using skip_nonoption_ok [OF u(2) un] by auto
        then have s': "idle_blocks nargc s'" "optreset s' = 0" "\<not> pending s'" "optind s' = optind s + 1"
          using skip(3) by (auto simp: pending_def)
        have "scan_order opts fl A ((P @ Q) @ []) (N @ [a]) (behind s') out"
          by (rule less.hyps [OF _ less.prems(1,2) s'(2,3,1) p' skip(4)]) (use s'(4) more in simp)
        moreover have "behind s' = drop (nat (optind s + 1)) A" using parts_behind [OF p'] s'(4) by simp
        ultimately show ?thesis using nonopt skip(1,2) b by (cases out) (auto simp: scan_order_def Let_def split: if_splits)
      qed
    qed
  qed
qed

section \<open>One call\<close>

text \<open>A call between two states of the run is one step of the reference.\<close>

lemma getopt_internal_ref:
  assumes inv: "run_inv pf opts flags A s" and los: "long_vals_ok los" and let': "letters_ok pf (eff_opts opts)"
    and g: "getopt_internal pf (int (length A)) (Some opts) los idx flags s = Some (r, s')"
  shows "ref_next pf (eff_opts opts) los (eff_flags pf flags opts) (cursor_of s) =
    (if r = -1 then None else Some ((r, optarg s'), cursor_of s'))"
proof -
  let ?o = "eff_opts opts" and ?fl = "eff_flags pf flags opts" and ?n = "int (length A)"
  let ?s = "s\<lparr>posixly_correct := of_bool (posixly_env pf), optarg := None\<rparr>"
  note i = inv [unfolded run_inv_def]
  obtain P N Q where p0: "parts ?o ?fl A s P N Q" using i by blast
  then have p: "parts ?o ?fl A ?s P N Q" by (rule parts_cong) simp_all
  have gi: "getopt_inv ?n s" "argv_ok A" "optreset s = 0" "1 \<le> optind s" using i by blast+
  have bl: "if optreset ?s = 0 \<and> pending ?s then mid_blocks ?n ?s else idle_blocks ?n ?s"
    using gi by (auto simp: getopt_inv_def mid_blocks_def idle_blocks_def pending_def)
  obtain out where out: "getopt_scan ?n ?o ?fl ?s = Some out" "scan_post ?n (nargv ?s) out"
    using getopt_scan_ok [OF _ _ _ _ bl, of ?o ?fl] gi(1) by (auto simp: getopt_inv_def)
  have unf: "Some (r, s') = (case out of Return r s \<Rightarrow> Some (r, s)
      | Proceed s \<Rightarrow> option_argument pf ?n ?o los idx ?fl s)"
    using g out(1) getopt_internal_unfold [of s pf ?n opts los idx flags] i by simp
  have option: "ref_option pf ?o los ?fl (place t) w ws = ((r, optarg s'), cursor_of s') \<and> r \<noteq> -1"
    if "out = Proceed t" "behind t = w # ws" "optarg t = None" for t w ws
  proof -
    have pre: "option_pre ?n t" using out(2) that(1) by (simp add: scan_post_def)
    have l: "\<And>l. los = Some l \<Longrightarrow> vals_ok l" using los by (simp add: long_vals_ok_def)
    have oa: "option_argument pf ?n ?o los idx ?fl t = Some (r, s')" using unf that(1) by simp
    show ?thesis using option_argument_ref [OF pre that(2,3) l oa] option_argument_ret [OF oa l let' pre] by simp
  qed
  show ?thesis
  proof (cases "pending s")
    case True
    then have o: "out = Proceed ?s"
      using out(1) gi(3) scan_pending [of ?s ?n ?o ?fl] by (simp add: pending_def)
    have "optind s < ?n" using bl True gi(3) by (simp add: mid_blocks_def pending_def split: if_splits)
    then have b: "behind s = A ! nat (optind s) # drop (nat (optind s + 1)) A"
      using parts_behind [OF p0] parts_at(3) [OF p0] by simp
    then have "behind ?s = A ! nat (optind s) # drop (nat (optind s + 1)) A" by (simp add: behind_def)
    from option [OF o this] have "ref_option pf ?o los ?fl (place s) (A ! nat (optind s)) (drop (nat (optind s + 1)) A)
        = ((r, optarg s'), cursor_of s') \<and> r \<noteq> -1" by simp
    then show ?thesis using True b by (simp add: ref_next_def cursor_of_def)
  next
    case False
    then have c: "cursor_of s = (None, behind s)" "\<not> pending ?s" "behind ?s = behind s"
      by (simp_all add: cursor_of_def pending_def behind_def)
    have "idle_blocks ?n ?s" using bl c(2) by simp
    from getopt_scan_ref [OF refl gi(2) _ c(2) _ this p out(1), of pf los]
    have sr: "scan_ref pf ?o los ?fl (behind s) out" using gi(3) c(3) by simp
    show ?thesis
    proof (cases out)
      case (Return r0 s0)
      then show ?thesis using sr unf by (auto simp: scan_ref_def ref_next_def c(1))
    next
      case (Proceed t)
      then obtain w ws where "behind t = w # ws" "optarg t = None"
        "ref_word pf ?o los ?fl (behind s) = Some (ref_option pf ?o los ?fl (place t) w ws)"
        using sr by (auto simp: scan_ref_def)
      then show ?thesis using option [OF Proceed] by (simp add: ref_next_def c(1))
    qed
  qed
qed

text \<open>\<open>D\<close>: the words taken, the one that is being read among them; \<open>N\<close>: those skipped.\<close>

definition taken :: "string \<Rightarrow> flags \<Rightarrow> cstr list \<Rightarrow> getopt_state \<Rightarrow> cstr list \<Rightarrow> cstr list \<Rightarrow> bool" where
  "taken opts fl A s D N \<longleftrightarrow> (\<exists>P Q. parts opts fl A s P N Q \<and> P @ Q @ behind s = D @ snd (cursor_of s))"

definition cursor_skips :: "string \<Rightarrow> flags \<Rightarrow> cursor \<Rightarrow> cstr list" where
  "cursor_skips opts fl cursor = (if fst cursor = None then ref_skips opts fl (snd cursor) else [])"

lemma take_ahead:
  assumes "D @ rest = Z @ v" "length v \<le> length rest"
  shows "D @ rest = (D @ take (length rest - length v) rest) @ v"
  using assms by (auto simp: append_eq_append_conv2)

lemma cursor_behind: "\<exists>X. behind s = X @ snd (cursor_of s)"
  by (cases "behind s") (auto simp: cursor_of_def intro: exI [of _ "[hd (behind s)]"])

text \<open>An option takes words from the front of what is ahead.\<close>

lemma option_taken:
  assumes p: "parts opts fl A t P N Q" "N = [] \<or> nonopt_end t \<noteq> -1"
    and pre: "option_pre (int (length A)) t" and c: "consumes (int (length A)) t s'"
    and D: "P @ Q @ behind t = D @ rest" "length (tl (behind t)) \<le> length rest"
    and keep: "pending s' \<Longrightarrow> length (snd (cursor_of s')) \<le> length rest"
  shows "taken opts fl A s' (D @ take (length rest - length (snd (cursor_of s'))) rest) N"
proof -
  let ?v = "snd (cursor_of s')"
  have j: "optind t \<le> optind s'" "optind s' \<le> int (length A)" "nargv s' = nargv t"
      "nonopt_start s' = nonopt_start t" "nonopt_end s' = nonopt_end t"
    using c parts_range(2) [OF p(1)] by (auto simp: consumes_def split: if_splits)
  obtain P' Q' where q: "parts opts fl A s' P' N Q'"
      "P' @ Q' = P @ Q @ take (nat (optind s' - optind t)) (drop (nat (optind t)) A)"
    using parts_advance [OF p j] by blast
  have "nat (optind s') = nat (optind s' - optind t) + nat (optind t)"
    using j(1) parts_range(1) [OF p(1)] by simp
  then have "drop (nat (optind s')) A = drop (nat (optind s' - optind t)) (drop (nat (optind t)) A)"
    by (simp add: add.commute)
  then have b: "P' @ Q' @ behind s' = D @ rest"
    using q(2) D(1) parts_behind [OF p(1)] parts_behind [OF q(1)]
    by (metis append.assoc append_take_drop_id)
  have len: "length ?v \<le> length rest"
  proof (cases "pending s'")
    case False
    then have "length (behind s') < length (behind t)"
      using c pre parts_behind [OF p(1)] parts_behind [OF q(1)]
      by (auto simp: consumes_def option_pre_def)
    then show ?thesis using False D(2) by (simp add: cursor_of_def)
  qed (rule keep)
  obtain X where "behind s' = X @ ?v" using cursor_behind by blast
  then have "D @ rest = (P' @ Q' @ X) @ ?v" using b by simp
  from take_ahead [OF this len] show ?thesis using q(1) b unfolding taken_def by metis
qed

lemma getopt_internal_order:
  assumes inv: "run_inv pf opts flags A s" and los: "long_vals_ok los" and let': "letters_ok pf (eff_opts opts)"
    and g: "getopt_internal pf (int (length A)) (Some opts) los idx flags s = Some (r, s')"
    and D: "taken (eff_opts opts) (eff_flags pf flags opts) A s D N"
  shows "let sk = cursor_skips (eff_opts opts) (eff_flags pf flags opts) (cursor_of s);
             rest = drop (length sk) (snd (cursor_of s)) in
    if r = -1
    then (case ref_stop rest of (os, vs) \<Rightarrow> nargv s' = D @ os @ N @ sk @ vs \<and> optind s' = int (length D + length os))
    else taken (eff_opts opts) (eff_flags pf flags opts) A s'
      (D @ take (length rest - length (snd (cursor_of s'))) rest) (N @ sk)"
proof -
  let ?o = "eff_opts opts" and ?fl = "eff_flags pf flags opts" and ?n = "int (length A)"
  let ?s = "s\<lparr>posixly_correct := of_bool (posixly_env pf), optarg := None\<rparr>"
  note i = inv [unfolded run_inv_def]
  obtain P Q where p0: "parts ?o ?fl A s P N Q" and d: "P @ Q @ behind s = D @ snd (cursor_of s)"
    using D unfolding taken_def by blast
  then have p: "parts ?o ?fl A ?s P N Q" by (intro parts_cong [OF p0]) simp_all
  have gi: "getopt_inv ?n s" "argv_ok A" "optreset s = 0" "1 \<le> optind s" using i by blast+
  have bl: "if optreset ?s = 0 \<and> pending ?s then mid_blocks ?n ?s else idle_blocks ?n ?s"
    using gi by (auto simp: getopt_inv_def mid_blocks_def idle_blocks_def pending_def)
  obtain out where out: "getopt_scan ?n ?o ?fl ?s = Some out" "scan_post ?n (nargv ?s) out"
    using getopt_scan_ok [OF _ _ _ _ bl, of ?o ?fl] gi(1) by (auto simp: getopt_inv_def)
  have unf: "Some (r, s') = (case out of Return r s \<Rightarrow> Some (r, s)
      | Proceed s \<Rightarrow> option_argument pf ?n ?o los idx ?fl s)"
    using g out(1) getopt_internal_unfold [of s pf ?n opts los idx flags] i by simp
  have l: "\<And>l. los = Some l \<Longrightarrow> vals_ok l" using los by (simp add: long_vals_ok_def)
  have option: "option_pre ?n t \<and> consumes ?n t s' \<and> r \<noteq> -1" if "out = Proceed t" for t
  proof -
    have pre: "option_pre ?n t" using out(2) that by (simp add: scan_post_def)
    have oa: "option_argument pf ?n ?o los idx ?fl t = Some (r, s')" using unf that by simp
    then have "consumes ?n t s'" using option_argument_consumes [OF pre l, of los pf ?o idx ?fl] by auto
    then show ?thesis using pre option_argument_ret [OF oa l let' pre] by simp
  qed
  show ?thesis
  proof (cases "pending s")
    case True
    then have o: "out = Proceed ?s"
      using out(1) gi(3) scan_pending [of ?s ?n ?o ?fl] by (simp add: pending_def)
    note c = option [OF o]
    have "N = [] \<or> nonopt_end ?s \<noteq> -1"
      using bl True gi(3) p0 by (auto simp: mid_blocks_def parts_def pending_def split: if_splits)
    moreover have "P @ Q @ behind ?s = D @ snd (cursor_of s)" using d by (simp add: behind_def)
    moreover have "length (tl (behind ?s)) \<le> length (snd (cursor_of s))"
      using True by (simp add: cursor_of_def behind_def)
    moreover have "length (snd (cursor_of s')) \<le> length (snd (cursor_of s))" if "pending s'"
      using c that True by (simp add: consumes_def cursor_of_def behind_def)
    ultimately have "taken ?o ?fl A s' (D @ take (length (snd (cursor_of s)) - length (snd (cursor_of s')))
        (snd (cursor_of s))) N"
      using c by (intro option_taken [OF p]) auto
    moreover have "cursor_skips ?o ?fl (cursor_of s) = []" using True by (simp add: cursor_skips_def cursor_of_def)
    ultimately show ?thesis using c by simp
  next
    case False
    then have c: "cursor_of s = (None, behind s)" "\<not> pending ?s" "behind ?s = behind s"
      by (simp_all add: cursor_of_def pending_def behind_def)
    have PQ: "P @ Q = D" using d c(1) by simp
    have sk: "cursor_skips ?o ?fl (cursor_of s) = ref_skips ?o ?fl (behind s)" by (simp add: cursor_skips_def c(1))
    have "idle_blocks ?n ?s" using bl c(2) by simp
    from getopt_scan_order [OF refl gi(2) _ c(2) this p out(1)]
    have so: "scan_order ?o ?fl A D N (behind s) out" using gi(3) c(3) PQ by simp
    show ?thesis
    proof (cases out)
      case (Return r0 s0)
      then have r0: "r0 = r" "s0 = s'" "\<not> pending s'" using unf out(2) by (auto simp: scan_post_def)
      have cs: "snd (cursor_of s') = behind s'" using r0(3) by (simp add: cursor_of_def)
      show ?thesis
      proof (cases "r = -1")
        case True
        then show ?thesis using so Return r0 c(1) sk by (simp add: scan_order_def Let_def)
      next
        case False
        have so': "has_flag ?fl FLAG_ALLARGS \<and> behind s' = tl (behind s)
            \<and> (\<exists>P Q. parts ?o ?fl A s' P N Q \<and> P @ Q @ behind s' = D @ behind s)"
          using so unfolding scan_order_def Let_def Return scan.case r0 if_not_P [OF False] .
        then have f: "ref_skips ?o ?fl (behind s) = []" "behind s' = tl (behind s)"
            "\<exists>P Q. parts ?o ?fl A s' P N Q \<and> P @ Q @ behind s' = D @ behind s"
          by (simp only: ref_skips_simps, blast+)
        have "D @ behind s = (D @ take (length (behind s) - length (behind s')) (behind s)) @ behind s'"
          unfolding f(2) by (cases "behind s") simp_all
        then have "taken ?o ?fl A s' (D @ take (length (behind s) - length (behind s')) (behind s)) N"
          using f(3) unfolding taken_def cs by metis
        then show ?thesis using f(1) False c(1) sk cs by simp
      qed
    next
      case (Proceed t)
      let ?sk = "ref_skips ?o ?fl (behind s)"
      obtain P' Q' where p': "parts ?o ?fl A t P' (N @ ?sk) Q'" "N @ ?sk = [] \<or> nonopt_end t \<noteq> -1" "P' @ Q' = D"
          "behind t = drop (length ?sk) (behind s)"
        using so Proceed by (auto simp: scan_order_def Let_def)
      note o = option [OF Proceed]
      have "length (snd (cursor_of s')) \<le> length (behind t)" if "pending s'"
        using o that by (simp add: consumes_def cursor_of_def behind_def)
      then have "taken ?o ?fl A s' (D @ take (length (behind t) - length (snd (cursor_of s'))) (behind t)) (N @ ?sk)"
        using o p'(3) by (intro option_taken [OF p'(1,2)]) auto
      then show ?thesis using o c(1) sk p'(4) by simp
    qed
  qed
qed

section \<open>The run\<close>

lemma ref_short_size:
  "ref_short pf opts los fl p w ws = (rep, cursor) \<Longrightarrow> cursor_size cursor < Suc (length (chars p)) + cost ws"
proof -
  assume r: "ref_short pf opts los fl p w ws = (rep, cursor)"
  have "length (chars p) - Suc 0 < length (chars p)" if "cur (tl (chars p)) \<noteq> NUL"
    using that by (cases "chars p") auto
  then show ?thesis
    using r by (auto simp: ref_short_def Let_def cursor_size_def dest!: ref_long_size
      split: option.splits if_splits list.splits)
qed

lemma ref_option_size:
  assumes "ref_option pf opts los fl p w ws = (rep, cursor)"
  shows "cursor_size cursor < Suc (length (chars p)) + cost ws"
proof -
  have "cursor_size (None, vs) < Suc (length (chars p)) + cost ws" if "ref_long opts (the los) st fl q ws = Some (rep', vs)" for st q rep' vs
    using ref_long_size [OF that] by (simp add: cursor_size_def)
  then show ?thesis
    using assms ref_short_size [of pf opts los fl p w ws rep cursor]
    by (auto simp: ref_option_def Let_def split: option.splits if_splits)
qed

lemma ref_word_size:
  "ref_word pf opts los fl ws = Some (rep, cursor) \<Longrightarrow> cursor_size cursor < cost ws"
proof (induction pf opts los fl ws rule: ref_word.induct)
  case (2 pf opts los fl w ws)
  show ?case
  proof (cases "is_nonoption opts w")
    case True
    then show ?thesis using 2 by (auto simp: cursor_size_def split: if_splits)
  next
    case False
    then have "ref_option pf opts los fl (if cur (tl (chars w)) \<noteq> NUL then advance w else w) w ws = (rep, cursor)"
      using 2(2) by (auto split: if_splits)
    from ref_option_size [OF this] show ?thesis by (auto split: if_splits)
  qed
qed simp

lemma ref_next_size:
  "ref_next pf opts los fl cursor = Some (rep, cursor') \<Longrightarrow> cursor_size cursor' < cursor_size cursor"
proof (induction "fst cursor")
  case None
  then have "ref_word pf opts los fl (snd cursor) = Some (rep, cursor')"
    using None(1) [symmetric] by (cases cursor) (simp add: ref_next_def)
  from ref_word_size [OF this] show ?case using None(1) [symmetric] by (simp add: cursor_size_def)
next
  case (Some pw)
  obtain p w where pw: "pw = (p, w)" by (cases pw)
  have "ref_option pf opts los fl p w (snd cursor) = (rep, cursor')"
    using Some(2) Some(1) [symmetric] pw by (cases cursor) (simp add: ref_next_def)
  from ref_option_size [OF this] show ?case using Some(1) [symmetric] pw
    by (simp add: cursor_size_def split: option.splits prod.splits)
qed

function ref_reports :: "platform \<Rightarrow> string \<Rightarrow> long_option list option \<Rightarrow> flags \<Rightarrow> cursor \<Rightarrow> report list" where
  "ref_reports pf opts los fl cursor =
     (case ref_next pf opts los fl cursor of
        None \<Rightarrow> []
      | Some (rep, cursor) \<Rightarrow> rep # ref_reports pf opts los fl cursor)"
  by pat_completeness auto
termination
  by (relation "measure (\<lambda>(pf, opts, los, fl, cursor). cursor_size cursor)") (auto dest: ref_next_size)

declare ref_reports.simps [simp del]


text \<open>The words in the end: the options with their arguments, the skipped non-options, and the rest, behind
  \<open>--\<close> or from the non-option that stopped the run.\<close>

function ref_words :: "platform \<Rightarrow> string \<Rightarrow> long_option list option \<Rightarrow> flags \<Rightarrow> cursor
    \<Rightarrow> cstr list \<times> cstr list \<times> cstr list" where
  "ref_words pf opts los fl cursor =
     (let sk = cursor_skips opts fl cursor; rest = drop (length sk) (snd cursor) in
      case ref_next pf opts los fl cursor of
        None \<Rightarrow> (case ref_stop rest of (os, vs) \<Rightarrow> (os, sk, vs))
      | Some (rep, cursor') \<Rightarrow>
          (case ref_words pf opts los fl cursor' of (os, ns, vs) \<Rightarrow>
             (take (length rest - length (snd cursor')) rest @ os, sk @ ns, vs)))"
  by pat_completeness auto
termination
  by (relation "measure (\<lambda>(pf, opts, los, fl, cursor). cursor_size cursor)") (auto dest: ref_next_size)

declare ref_words.simps [simp del]

text \<open>The words in front of the rest are an interleaving of the other two, and the run ended at the end of
  the vector, behind \<open>--\<close> or at a non-option that is not to be skipped.\<close>

definition split_words :: "string \<Rightarrow> flags \<Rightarrow> cstr list \<Rightarrow> cstr list \<Rightarrow> cstr list \<Rightarrow> cstr list \<Rightarrow> bool" where
  "split_words opts fl ws os ns vs \<longleftrightarrow>
     (\<exists>us. ws = us @ vs \<and> us \<in> shuffles os ns) \<and> (\<forall>a \<in> set ns. is_nonoption opts a)
     \<and> (vs = [] \<or> os \<noteq> [] \<and> chars (last os) = ''--''
        \<or> ns = [] \<and> is_nonoption opts (hd vs) \<and> \<not> has_flag fl FLAG_PERMUTE)"

lemma drop_suffix: "\<exists>us. ws = us @ drop n ws"
  by (metis append_take_drop_id)

lemma ref_long_suffix:
  "ref_long opts los st fl p ws = Some (rep, ws') \<Longrightarrow> ws' = ws \<or> ws' = tl ws"
  by (auto simp: ref_long_def Let_def split: prod.splits if_splits list.splits)

lemma ref_short_suffix:
  assumes "ref_short pf opts los fl p w ws = (rep, cursor)"
  shows "snd cursor \<in> {ws, tl ws, tl (tl ws)}"
  using assms by (auto simp: ref_short_def Let_def dest!: ref_long_suffix
      split: option.splits if_splits list.splits)

lemma ref_option_suffix:
  assumes "ref_option pf opts los fl p w ws = (rep, cursor)"
  shows "\<exists>us. ws = us @ snd cursor"
proof -
  have "snd cursor \<in> {ws, tl ws, tl (tl ws)}"
    using assms ref_short_suffix [of pf opts los fl p w ws rep cursor]
    by (auto simp: ref_option_def Let_def dest!: ref_long_suffix split: option.splits if_splits)
  then have "snd cursor \<in> {drop 0 ws, drop 1 ws, drop 2 ws}" by (simp add: drop_Suc numeral_2_eq_2)
  then show ?thesis using drop_suffix [of ws] by (auto simp del: drop0)
qed

lemma ref_word_suffix:
  "ref_word pf opts los fl ws = Some (rep, cursor) \<Longrightarrow> \<exists>us. drop (length (ref_skips opts fl ws)) ws = us @ snd cursor"
proof (induction pf opts los fl ws rule: ref_word.induct)
  case (2 pf opts los fl w ws)
  show ?case
  proof (cases "is_nonoption opts w")
    case True
    then show ?thesis using 2 by (auto split: if_splits)
  next
    case False
    then obtain p where "ref_option pf opts los fl p w ws = (rep, cursor)" using 2(2) by (auto split: if_splits)
    from ref_option_suffix [OF this] False show ?thesis by (auto intro: exI [of _ "w # _"])
  qed
qed simp

lemma ref_word_end:
  "ref_word pf opts los fl ws = None \<Longrightarrow> ref_stop (drop (length (ref_skips opts fl ws)) ws) = (os, vs)
    \<Longrightarrow> drop (length (ref_skips opts fl ws)) ws = os @ vs
      \<and> (vs = [] \<or> os \<noteq> [] \<and> chars (last os) = ''--'' \<or> is_nonoption opts (hd vs) \<and> \<not> has_flag fl FLAG_PERMUTE)"
proof (induction pf opts los fl ws rule: ref_word.induct)
  case (2 pf opts los fl w ws)
  then show ?case
    by (cases "is_nonoption opts w") (auto simp: ref_stop_def nonoption_not_dashes split: if_splits)
qed (simp add: ref_stop_def)

lemma cursor_skips_prefix: "snd cursor = cursor_skips opts fl cursor @ drop (length (cursor_skips opts fl cursor)) (snd cursor)"
proof -
  have "ws = takeWhile P ws @ drop (length (takeWhile P ws)) ws" for P and ws :: "cstr list"
    unfolding dropWhile_eq_drop [symmetric] by simp
  then show ?thesis by (auto simp: cursor_skips_def ref_skips_def)
qed

lemma cursor_skips_nonoptions: "a \<in> set (cursor_skips opts fl cursor) \<Longrightarrow> is_nonoption opts a"
  by (auto simp: cursor_skips_def ref_skips_def dest: set_takeWhileD split: if_splits)

lemma shuffles_prefix: "zs \<in> shuffles xs ys \<Longrightarrow> sk @ us @ zs \<in> shuffles (us @ xs) (sk @ ys)"
proof -
  assume "zs \<in> shuffles xs ys"
  then have "us @ zs \<in> shuffles (us @ xs) ys" by (induction us) (auto intro: Cons_in_shuffles_leftI)
  then show ?thesis by (induction sk) (auto intro: Cons_in_shuffles_rightI)
qed

lemma ref_words_split:
  "ref_words pf opts los fl cursor = (os, ns, vs) \<Longrightarrow> split_words opts fl (snd cursor) os ns vs
    \<and> (\<not> has_flag fl FLAG_PERMUTE \<longrightarrow> ns = [])"
proof (induction pf opts los fl cursor arbitrary: os ns rule: ref_words.induct)
  case (1 pf opts los fl cursor)
  define sk where "sk = cursor_skips opts fl cursor"
  define rest where "rest = drop (length sk) (snd cursor)"
  have ws: "snd cursor = sk @ rest" using cursor_skips_prefix [of cursor opts fl] by (simp add: sk_def rest_def)
  note words = "1.prems" [unfolded ref_words.simps [of _ _ _ _ cursor] Let_def, folded sk_def, folded rest_def]
  have sk: "\<forall>a \<in> set sk. is_nonoption opts a" "\<not> has_flag fl FLAG_PERMUTE \<Longrightarrow> sk = []"
    using cursor_skips_nonoptions by (auto simp: sk_def cursor_skips_def)
  show ?case
  proof (cases "ref_next pf opts los fl cursor")
    case None
    then have c: "fst cursor = None" "ref_word pf opts los fl (snd cursor) = None"
      by (auto simp: ref_next_def split: prod.splits option.splits)
    then have "sk = ref_skips opts fl (snd cursor)" by (simp add: sk_def cursor_skips_def)
    moreover have st: "ref_stop rest = (os, vs)" "ns = sk" using words None by (auto split: prod.splits)
    ultimately have "rest = os @ vs \<and> (vs = [] \<or> os \<noteq> [] \<and> chars (last os) = ''--''
        \<or> is_nonoption opts (hd vs) \<and> \<not> has_flag fl FLAG_PERMUTE)"
      using ref_word_end [OF c(2)] by (simp add: rest_def)
    moreover have "sk @ os \<in> shuffles os sk" using shuffles_prefix [of "[]" "[]" "[]" sk os] by simp
    ultimately show ?thesis using ws sk st(2) unfolding split_words_def by (metis append_assoc)
  next
    case (Some y)
    then obtain rp c' where y: "ref_next pf opts los fl cursor = Some (rp, c')" by (cases y) simp
    define us where "us = take (length rest - length (snd c')) rest"
    obtain os' ns' where w: "ref_words pf opts los fl c' = (os', ns', vs)" "os = us @ os'" "ns = sk @ ns'"
      using words y by (auto simp: us_def split: prod.splits)
    have "\<exists>us. rest = us @ snd c'"
    proof (cases "fst cursor")
      case None
      then have "ref_word pf opts los fl (snd cursor) = Some (rp, c')"
        using y by (cases cursor) (simp add: ref_next_def)
      from ref_word_suffix [OF this] None show ?thesis by (simp add: rest_def sk_def cursor_skips_def)
    next
      case (Some pw)
      then have "ref_option pf opts los fl (fst pw) (snd pw) (snd cursor) = (rp, c')"
        using y by (cases cursor; cases pw) (simp add: ref_next_def)
      from ref_option_suffix [OF this] Some show ?thesis by (simp add: rest_def sk_def cursor_skips_def)
    qed
    then have rest: "rest = us @ snd c'" by (auto simp: us_def)
    have ih: "split_words opts fl (snd c') os' ns' vs \<and> (\<not> has_flag fl FLAG_PERMUTE \<longrightarrow> ns' = [])"
      by (rule "1.IH" [OF refl refl y refl w(1)])
    then obtain zs where zs: "snd c' = zs @ vs" "zs \<in> shuffles os' ns'" by (auto simp: split_words_def)
    have "snd cursor = (sk @ us @ zs) @ vs" "sk @ us @ zs \<in> shuffles os ns"
      using ws rest zs shuffles_prefix w(2,3) by auto
    moreover have "(\<forall>a \<in> set ns. is_nonoption opts a)
        \<and> (vs = [] \<or> os \<noteq> [] \<and> chars (last os) = ''--'' \<or> ns = [] \<and> is_nonoption opts (hd vs) \<and> \<not> has_flag fl FLAG_PERMUTE)"
      using ih sk w(2,3) unfolding split_words_def by auto
    ultimately show ?thesis using ih sk(2) w(3) unfolding split_words_def by blast
  qed
qed

text \<open>The loop of a caller that keeps each value with its \<open>optarg\<close>.\<close>

fun getopt_reports :: "nat \<Rightarrow> platform \<Rightarrow> int \<Rightarrow> string option \<Rightarrow> long_option list option \<Rightarrow> bool
    \<Rightarrow> flags \<Rightarrow> getopt_state \<Rightarrow> (report list \<times> getopt_state) option" where
  "getopt_reports 0 pf nargc options long_options idx flags s = None"
| "getopt_reports (Suc fuel) pf nargc options long_options idx flags s =
     (case getopt_internal pf nargc options long_options idx flags s of
        None \<Rightarrow> None
      | Some (r, s) \<Rightarrow>
          if r = -1 then Some ([], s)
          else map_option (apfst (Cons (r, optarg s)))
            (getopt_reports fuel pf nargc options long_options idx flags s))"

lemma getopt_reports_ref:
  assumes "run_inv pf opts flags A s" "long_vals_ok los" "letters_ok pf (eff_opts opts)" "work A s < fuel"
    and "taken (eff_opts opts) (eff_flags pf flags opts) A s D N"
    and "ref_words pf (eff_opts opts) los (eff_flags pf flags opts) (cursor_of s) = (os, ns, vs)"
  shows "\<exists>s'. getopt_reports fuel pf (int (length A)) (Some opts) los idx flags s
      = Some (ref_reports pf (eff_opts opts) los (eff_flags pf flags opts) (cursor_of s), s')
    \<and> nargv s' = D @ os @ N @ ns @ vs \<and> optind s' = int (length D + length os)
    \<and> finished (eff_opts opts) (eff_flags pf flags opts) A s'"
  using assms(1,4-)
proof (induction fuel arbitrary: s D N os ns)
  case (Suc fuel)
  let ?ref = "ref_reports pf (eff_opts opts) los (eff_flags pf flags opts)"
  let ?words = "ref_words pf (eff_opts opts) los (eff_flags pf flags opts)"
  obtain r s' where r: "getopt_internal pf (int (length A)) (Some opts) los idx flags s = Some (r, s')"
      "if r = -1 then finished (eff_opts opts) (eff_flags pf flags opts) A s'
       else run_inv pf opts flags A s' \<and> work A s' < work A s"
    using getopt_internal_run [OF Suc.prems(1) assms(2,3)] by blast
  note step = getopt_internal_ref [OF Suc.prems(1) assms(2,3) r(1)]
  note order = getopt_internal_order [OF Suc.prems(1) assms(2,3) r(1) Suc.prems(3)]
  define sk where "sk = cursor_skips (eff_opts opts) (eff_flags pf flags opts) (cursor_of s)"
  define rest where "rest = drop (length sk) (snd (cursor_of s))"
  note words = Suc.prems(4) [unfolded ref_words.simps [of _ _ _ _ "cursor_of s"] Let_def, folded sk_def, folded rest_def]
  note order = order [unfolded Let_def, folded sk_def, folded rest_def]
  show ?case
  proof (cases "r = -1")
    case True
    then have "ref_stop rest = (os, vs)" "sk = ns" using words step by (auto split: prod.splits)
    then show ?thesis using r step order True by (subst ref_reports.simps) simp
  next
    case False
    then have i: "run_inv pf opts flags A s'" "work A s' < fuel" using r(2) Suc.prems(2) by auto
    let ?D = "D @ take (length rest - length (snd (cursor_of s'))) rest"
    have t: "taken (eff_opts opts) (eff_flags pf flags opts) A s' ?D (N @ sk)" using order False by simp
    obtain os' ns' where w: "?words (cursor_of s') = (os', ns', vs)"
        "os = take (length rest - length (snd (cursor_of s'))) rest @ os'" "ns = sk @ ns'"
      using words step False by (auto split: prod.splits)
    have "?ref (cursor_of s) = (r, optarg s') # ?ref (cursor_of s')"
      using step False by (subst ref_reports.simps) simp
    then show ?thesis using Suc.IH [OF i t w(1)] r(1) False w(2,3) by auto
  qed
qed simp

section \<open>Properties\<close>

text \<open>C1. Equivalence with the reference: the loop of a caller over a fresh argument vector, which
  \<open>getopt_internal\<close> permutes while it goes, is told exactly what \<open>ref_reports\<close> says of the original words
  in their original order: the same values with the same arguments, for short options in clusters, with
  required and optional arguments, long options and their abbreviations, \<open>-W\<close>, \<open>--\<close>, errors, and
  non-options that are skipped, returned or stop the loop, as the flags say. The vector it leaves is the
  one \<open>ref_words\<close> names from the original words: behind the program name the words \<open>os\<close> the reference takes
  as options and arguments, then the non-options \<open>ns\<close> it passes over, then the words \<open>vs\<close> it never looks at,
  and \<open>optind\<close> is the index of the first of \<open>ns @ vs\<close>. The words in front of \<open>vs\<close> were an interleaving of \<open>os\<close>
  and \<open>ns\<close>, \<open>ns\<close> are non-options, and \<open>vs\<close> is empty, stood behind \<open>--\<close>, or begins with the non-option that
  stopped the loop since non-options are not to be skipped (\<open>split_words\<close>).\<close>

theorem getopt_reports_original_order:
  assumes "argv_ok A" "A \<noteq> []" "long_vals_ok los" "letters_ok pf (eff_opts opts)"
    and "ref_words pf (eff_opts opts) los (eff_flags pf flags opts) (None, tl A) = (os, ns, vs)"
  shows "\<exists>s'. getopt_reports (Suc (cost (tl A))) pf (int (length A)) (Some opts) los idx flags (getopt_init A)
      = Some (ref_reports pf (eff_opts opts) los (eff_flags pf flags opts) (None, tl A), s')
    \<and> nargv s' = hd A # os @ ns @ vs \<and> optind s' = int (Suc (length os))
    \<and> split_words (eff_opts opts) (eff_flags pf flags opts) (tl A) os ns vs"
proof -
  have c: "work A (getopt_init A) < Suc (cost (tl A))" "cursor_of (getopt_init A) = (None, tl A)"
    using assms(2) by (simp_all add: work_def cursor_of_def behind_def pending_def getopt_init_def drop_Suc)
  have "parts (eff_opts opts) (eff_flags pf flags opts) A (getopt_init A) [hd A] [] []"
    using assms(2) by (cases A) (auto simp: parts_def getopt_init_def)
  then have "taken (eff_opts opts) (eff_flags pf flags opts) A (getopt_init A) [hd A] []"
    unfolding taken_def c(2) by (intro exI [of _ "[hd A]"] exI [of _ "[]"])
      (simp add: behind_def getopt_init_def drop_Suc)
  from getopt_reports_ref [where idx = idx, OF run_inv_init [OF assms(1,2)] assms(3,4) c(1) this, of os ns vs]
  show ?thesis using assms(5) ref_words_split [OF assms(5)] by (auto simp: c(2))
qed

text \<open>The words \<open>prog x -b y -ac z\<close> with the option string \<open>ab:c::\<close>: skipped \<open>x\<close> and \<open>z\<close>.\<close>

definition report_argv :: "cstr list" where
  "report_argv = [Str 0 ''prog'', Str 1 ''x'', Str 2 ''-b'', Str 3 ''y'', Str 4 ''-ac'', Str 5 ''z'']"

theorem getopt_reports_original_order_witness:
  "\<exists>s'. getopt_reports (Suc (cost (tl report_argv))) demo_platform 6 (Some ''ab:c::'') None False FLAG_PERMUTE
      (getopt_init report_argv) = Some ([(98, Some (Str 3 ''y'')), (97, None), (99, None)], s')
    \<and> nargv s' = [Str 0 ''prog'', Str 2 ''-b'', Str 3 ''y'', Str 4 ''-ac'', Str 1 ''x'', Str 5 ''z''] \<and> optind s' = 4
    \<and> split_words ''ab:c::'' FLAG_PERMUTE (tl report_argv) [Str 2 ''-b'', Str 3 ''y'', Str 4 ''-ac''] [Str 1 ''x'', Str 5 ''z''] []"
proof -
  have pre: "argv_ok report_argv" "report_argv \<noteq> []" "long_vals_ok None" "letters_ok demo_platform (eff_opts ''ab:c::'')"
    by (simp_all add: report_argv_def argv_ok_def c_string_ok_def long_vals_ok_def letters_ok_def eff_opts_def)
  have eff: "eff_opts ''ab:c::'' = ''ab:c::''" "eff_flags demo_platform FLAG_PERMUTE ''ab:c::'' = FLAG_PERMUTE"
    by (simp_all add: eff_opts_def eff_flags_def demo_platform_def)
  have len: "int (length report_argv) = 6" by (simp add: report_argv_def)
  have reports: "ref_reports demo_platform ''ab:c::'' None FLAG_PERMUTE (None, tl report_argv)
      = [(98, Some (Str 3 ''y'')), (97, None), (99, None)]"
    by (simp add: report_argv_def ref_reports.simps ref_next_def ref_option_def ref_short_def Let_def is_nonoption_def
        has_flag_def demo_platform_def int_of_char_def)
  have words: "ref_words demo_platform ''ab:c::'' None FLAG_PERMUTE (None, tl report_argv)
      = ([Str 2 ''-b'', Str 3 ''y'', Str 4 ''-ac''], [Str 1 ''x'', Str 5 ''z''], [])"
    by (simp add: report_argv_def ref_words.simps ref_next_def ref_option_def ref_short_def Let_def is_nonoption_def
        has_flag_def demo_platform_def int_of_char_def cursor_skips_def ref_skips_def ref_stop_def)
  from getopt_reports_original_order [where idx = False and flags = FLAG_PERMUTE, OF pre, unfolded eff, OF words]
  show ?thesis by (simp only: reports len) (simp add: report_argv_def)
qed

end
