(* ===== verification/Rb_Tree.thy ===== *)
theory Rb_Tree
  imports Compat_Prelude
begin

text \<open>
  The red-black tree macros \<open>RB_*\<close> of \<^verbatim>\<open>src/include/compat/sys/tree.h\<close>, with
  the pointers they change: the head and the four members of the \<open>RB_ENTRY\<close> of every
  element, by the address of the element. A read or write through a null pointer is
  undefined (\<open>None\<close>), and so is a loop that does not end. The macro parameter \<open>cmp\<close>
  is an argument of the operations, a function of the two elements compared;
  \<open>RB_AUGMENT\<close> is the empty statement it is by default.
\<close>

section \<open>The heap\<close>

definition RB_BLACK :: int where [simp]: "RB_BLACK = 0"
definition RB_RED :: int where [simp]: "RB_RED = 1"

record rb_heap =
  rbh_root :: ptr
  rbe_left :: "nat \<Rightarrow> ptr"
  rbe_right :: "nat \<Rightarrow> ptr"
  rbe_parent :: "nat \<Rightarrow> ptr"
  rbe_color :: "nat \<Rightarrow> int"

definition setl :: "nat \<Rightarrow> ptr \<Rightarrow> rb_heap \<Rightarrow> rb_heap" where
  "setl a v h = h\<lparr>rbe_left := (rbe_left h)(a := v)\<rparr>"

definition setr :: "nat \<Rightarrow> ptr \<Rightarrow> rb_heap \<Rightarrow> rb_heap" where
  "setr a v h = h\<lparr>rbe_right := (rbe_right h)(a := v)\<rparr>"

definition setp :: "nat \<Rightarrow> ptr \<Rightarrow> rb_heap \<Rightarrow> rb_heap" where
  "setp a v h = h\<lparr>rbe_parent := (rbe_parent h)(a := v)\<rparr>"

definition setc :: "nat \<Rightarrow> int \<Rightarrow> rb_heap \<Rightarrow> rb_heap" where
  "setc a v h = h\<lparr>rbe_color := (rbe_color h)(a := v)\<rparr>"

definition set_root :: "ptr \<Rightarrow> rb_heap \<Rightarrow> rb_heap" where
  "set_root p h = h\<lparr>rbh_root := p\<rparr>"

fun RB_LEFT :: "rb_heap \<Rightarrow> ptr \<Rightarrow> ptr option" where
  "RB_LEFT h (Ref a) = Some (rbe_left h a)"
| "RB_LEFT h Null = None"

fun RB_RIGHT :: "rb_heap \<Rightarrow> ptr \<Rightarrow> ptr option" where
  "RB_RIGHT h (Ref a) = Some (rbe_right h a)"
| "RB_RIGHT h Null = None"

fun RB_PARENT :: "rb_heap \<Rightarrow> ptr \<Rightarrow> ptr option" where
  "RB_PARENT h (Ref a) = Some (rbe_parent h a)"
| "RB_PARENT h Null = None"

fun RB_COLOR :: "rb_heap \<Rightarrow> ptr \<Rightarrow> int option" where
  "RB_COLOR h (Ref a) = Some (rbe_color h a)"
| "RB_COLOR h Null = None"

fun set_LEFT :: "ptr \<Rightarrow> ptr \<Rightarrow> rb_heap \<Rightarrow> rb_heap option" where
  "set_LEFT (Ref a) v h = Some (setl a v h)"
| "set_LEFT Null v h = None"

fun set_RIGHT :: "ptr \<Rightarrow> ptr \<Rightarrow> rb_heap \<Rightarrow> rb_heap option" where
  "set_RIGHT (Ref a) v h = Some (setr a v h)"
| "set_RIGHT Null v h = None"

fun set_PARENT :: "ptr \<Rightarrow> ptr \<Rightarrow> rb_heap \<Rightarrow> rb_heap option" where
  "set_PARENT (Ref a) v h = Some (setp a v h)"
| "set_PARENT Null v h = None"

fun set_COLOR :: "ptr \<Rightarrow> int \<Rightarrow> rb_heap \<Rightarrow> rb_heap option" where
  "set_COLOR (Ref a) v h = Some (setc a v h)"
| "set_COLOR Null v h = None"

definition RB_INIT :: "rb_heap \<Rightarrow> rb_heap" where
  "RB_INIT h = set_root Null h"

definition RB_ROOT :: "rb_heap \<Rightarrow> ptr" where
  "RB_ROOT h = rbh_root h"

definition RB_EMPTY :: "rb_heap \<Rightarrow> bool" where
  "RB_EMPTY h \<longleftrightarrow> RB_ROOT h = Null"

definition RB_SET :: "ptr \<Rightarrow> ptr \<Rightarrow> rb_heap \<Rightarrow> rb_heap option" where
  "RB_SET elm parent h = do {
     h \<leftarrow> set_PARENT elm parent h;
     h \<leftarrow> set_RIGHT elm Null h;
     h \<leftarrow> set_LEFT elm Null h;
     set_COLOR elm RB_RED h
   }"

definition RB_SET_BLACKRED :: "ptr \<Rightarrow> ptr \<Rightarrow> rb_heap \<Rightarrow> rb_heap option" where
  "RB_SET_BLACKRED black red h = do {
     h \<leftarrow> set_COLOR black RB_BLACK h;
     set_COLOR red RB_RED h
   }"

text \<open>The conditions \<open>p && RB_COLOR(p) == RB_RED\<close> and
  \<open>p == NULL || RB_COLOR(p) == RB_BLACK\<close>.\<close>

definition is_red :: "rb_heap \<Rightarrow> ptr \<Rightarrow> bool option" where
  "is_red h p = (if p = Null then Some False else do { c \<leftarrow> RB_COLOR h p; Some (c = RB_RED) })"

definition is_black :: "rb_heap \<Rightarrow> ptr \<Rightarrow> bool option" where
  "is_black h p = (if p = Null then Some True else do { c \<leftarrow> RB_COLOR h p; Some (c = RB_BLACK) })"

text \<open>In the parent of \<open>elm\<close>, or in the head, the pointer to \<open>elm\<close> becomes one
  to \<open>new\<close>.\<close>

definition replace_child :: "ptr \<Rightarrow> ptr \<Rightarrow> ptr \<Rightarrow> rb_heap \<Rightarrow> rb_heap option" where
  "replace_child parent elm new h =
     (if parent \<noteq> Null
      then do {
        l \<leftarrow> RB_LEFT h parent;
        if l = elm then set_LEFT parent new h else set_RIGHT parent new h
      }
      else Some (set_root new h))"

section \<open>Rotations\<close>

text \<open>The result holds the value of the macro parameter \<open>tmp\<close>.\<close>

definition RB_ROTATE_LEFT :: "ptr \<Rightarrow> rb_heap \<Rightarrow> (ptr \<times> rb_heap) option" where
  "RB_ROTATE_LEFT elm h = do {
     tmp \<leftarrow> RB_RIGHT h elm;
     l \<leftarrow> RB_LEFT h tmp;
     h \<leftarrow> set_RIGHT elm l h;
     h \<leftarrow> (if l \<noteq> Null then do { l \<leftarrow> RB_LEFT h tmp; set_PARENT l elm h } else Some h);
     parent \<leftarrow> RB_PARENT h elm;
     h \<leftarrow> set_PARENT tmp parent h;
     h \<leftarrow> replace_child parent elm tmp h;
     h \<leftarrow> set_LEFT tmp elm h;
     h \<leftarrow> set_PARENT elm tmp h;
     Some (tmp, h)
   }"

definition RB_ROTATE_RIGHT :: "ptr \<Rightarrow> rb_heap \<Rightarrow> (ptr \<times> rb_heap) option" where
  "RB_ROTATE_RIGHT elm h = do {
     tmp \<leftarrow> RB_LEFT h elm;
     r \<leftarrow> RB_RIGHT h tmp;
     h \<leftarrow> set_LEFT elm r h;
     h \<leftarrow> (if r \<noteq> Null then do { r \<leftarrow> RB_RIGHT h tmp; set_PARENT r elm h } else Some h);
     parent \<leftarrow> RB_PARENT h elm;
     h \<leftarrow> set_PARENT tmp parent h;
     h \<leftarrow> replace_child parent elm tmp h;
     h \<leftarrow> set_RIGHT tmp elm h;
     h \<leftarrow> set_PARENT elm tmp h;
     Some (tmp, h)
   }"

section \<open>Insertion\<close>

text \<open>The body of the loop of \<open>RB_INSERT_COLOR\<close>, one definition per branch; the
  result is \<open>elm\<close> for the next iteration.\<close>

definition insert_color_left :: "ptr \<Rightarrow> ptr \<Rightarrow> ptr \<Rightarrow> rb_heap \<Rightarrow> (ptr \<times> rb_heap) option" where
  "insert_color_left elm parent gparent h = do {
     tmp \<leftarrow> RB_RIGHT h gparent;
     red \<leftarrow> is_red h tmp;
     if red
     then do {
       h \<leftarrow> set_COLOR tmp RB_BLACK h;
       h \<leftarrow> RB_SET_BLACKRED parent gparent h;
       Some (gparent, h)
     }
     else do {
       r \<leftarrow> RB_RIGHT h parent;
       (elm, parent, h) \<leftarrow>
         (if r = elm
          then do { (tmp, h) \<leftarrow> RB_ROTATE_LEFT parent h; Some (parent, elm, h) }
          else Some (elm, parent, h));
       h \<leftarrow> RB_SET_BLACKRED parent gparent h;
       (tmp, h) \<leftarrow> RB_ROTATE_RIGHT gparent h;
       Some (elm, h)
     }
   }"

definition insert_color_right :: "ptr \<Rightarrow> ptr \<Rightarrow> ptr \<Rightarrow> rb_heap \<Rightarrow> (ptr \<times> rb_heap) option" where
  "insert_color_right elm parent gparent h = do {
     tmp \<leftarrow> RB_LEFT h gparent;
     red \<leftarrow> is_red h tmp;
     if red
     then do {
       h \<leftarrow> set_COLOR tmp RB_BLACK h;
       h \<leftarrow> RB_SET_BLACKRED parent gparent h;
       Some (gparent, h)
     }
     else do {
       l \<leftarrow> RB_LEFT h parent;
       (elm, parent, h) \<leftarrow>
         (if l = elm
          then do { (tmp, h) \<leftarrow> RB_ROTATE_RIGHT parent h; Some (parent, elm, h) }
          else Some (elm, parent, h));
       h \<leftarrow> RB_SET_BLACKRED parent gparent h;
       (tmp, h) \<leftarrow> RB_ROTATE_LEFT gparent h;
       Some (elm, h)
     }
   }"

partial_function (option) insert_color_loop :: "ptr \<Rightarrow> rb_heap \<Rightarrow> rb_heap option" where
  "insert_color_loop elm h = do {
     parent \<leftarrow> RB_PARENT h elm;
     red \<leftarrow> is_red h parent;
     if red
     then do {
       gparent \<leftarrow> RB_PARENT h parent;
       l \<leftarrow> RB_LEFT h gparent;
       (elm, h) \<leftarrow>
         (if parent = l then insert_color_left elm parent gparent h
          else insert_color_right elm parent gparent h);
       insert_color_loop elm h
     }
     else Some h
   }"

definition RB_INSERT_COLOR :: "ptr \<Rightarrow> rb_heap \<Rightarrow> rb_heap option" where
  "RB_INSERT_COLOR elm h = do {
     h \<leftarrow> insert_color_loop elm h;
     set_COLOR (rbh_root h) RB_BLACK h
   }"

text \<open>The descent of \<open>RB_INSERT\<close>: \<open>Inl\<close> the element found, or \<open>Inr\<close> the
  last element visited and the last comparison.\<close>

partial_function (option) insert_descend ::
    "(nat \<Rightarrow> nat \<Rightarrow> int) \<Rightarrow> nat \<Rightarrow> ptr \<Rightarrow> ptr \<Rightarrow> int \<Rightarrow> rb_heap \<Rightarrow> (ptr + ptr \<times> int) option" where
  "insert_descend cmp elm tmp parent comp' h =
     (case tmp of
        Null \<Rightarrow> Some (Inr (parent, comp'))
      | Ref a \<Rightarrow>
          if cmp elm a < 0 then insert_descend cmp elm (rbe_left h a) tmp (cmp elm a) h
          else if cmp elm a > 0 then insert_descend cmp elm (rbe_right h a) tmp (cmp elm a) h
          else Some (Inl tmp))"

definition RB_INSERT :: "(nat \<Rightarrow> nat \<Rightarrow> int) \<Rightarrow> nat \<Rightarrow> rb_heap \<Rightarrow> (ptr \<times> rb_heap) option" where
  "RB_INSERT cmp elm h = do {
     found \<leftarrow> insert_descend cmp elm (RB_ROOT h) Null 0 h;
     case found of
       Inl tmp \<Rightarrow> Some (tmp, h)
     | Inr (parent, comp') \<Rightarrow> do {
         h \<leftarrow> RB_SET (Ref elm) parent h;
         h \<leftarrow> (if parent \<noteq> Null
              then if comp' < 0 then set_LEFT parent (Ref elm) h else set_RIGHT parent (Ref elm) h
              else Some (set_root (Ref elm) h));
         h \<leftarrow> RB_INSERT_COLOR (Ref elm) h;
         Some (Null, h)
       }
   }"

section \<open>Removal\<close>

text \<open>The body of the loop of \<open>RB_REMOVE_COLOR\<close>, one definition per branch: \<open>Inl\<close>
  the values of \<open>elm\<close> and \<open>parent\<close> for the next iteration, \<open>Inr\<close> the value of
  \<open>elm\<close> at the \<open>break\<close>. \<open>remove_sibling_left\<close> starts where the sibling
  \<open>tmp\<close> is black.\<close>

definition remove_sibling_left :: "ptr \<Rightarrow> ptr \<Rightarrow> rb_heap \<Rightarrow> ((ptr \<times> ptr + ptr) \<times> rb_heap) option" where
  "remove_sibling_left parent tmp h = do {
     l \<leftarrow> RB_LEFT h tmp;
     lb \<leftarrow> is_black h l;
     r \<leftarrow> RB_RIGHT h tmp;
     rb \<leftarrow> is_black h r;
     if lb \<and> rb
     then do {
       h \<leftarrow> set_COLOR tmp RB_RED h;
       p \<leftarrow> RB_PARENT h parent;
       Some (Inl (parent, p), h)
     }
     else do {
       (tmp, h) \<leftarrow>
         (if rb
          then do {
            oleft \<leftarrow> RB_LEFT h tmp;
            h \<leftarrow> (if oleft \<noteq> Null then set_COLOR oleft RB_BLACK h else Some h);
            h \<leftarrow> set_COLOR tmp RB_RED h;
            (oleft, h) \<leftarrow> RB_ROTATE_RIGHT tmp h;
            tmp \<leftarrow> RB_RIGHT h parent;
            Some (tmp, h)
          }
          else Some (tmp, h));
       c \<leftarrow> RB_COLOR h parent;
       h \<leftarrow> set_COLOR tmp c h;
       h \<leftarrow> set_COLOR parent RB_BLACK h;
       r \<leftarrow> RB_RIGHT h tmp;
       h \<leftarrow> (if r \<noteq> Null then set_COLOR r RB_BLACK h else Some h);
       (tmp, h) \<leftarrow> RB_ROTATE_LEFT parent h;
       Some (Inr (RB_ROOT h), h)
     }
   }"

definition remove_color_left :: "ptr \<Rightarrow> rb_heap \<Rightarrow> ((ptr \<times> ptr + ptr) \<times> rb_heap) option" where
  "remove_color_left parent h = do {
     tmp \<leftarrow> RB_RIGHT h parent;
     c \<leftarrow> RB_COLOR h tmp;
     (tmp, h) \<leftarrow>
       (if c = RB_RED
        then do {
          h \<leftarrow> RB_SET_BLACKRED tmp parent h;
          (tmp, h) \<leftarrow> RB_ROTATE_LEFT parent h;
          tmp \<leftarrow> RB_RIGHT h parent;
          Some (tmp, h)
        }
        else Some (tmp, h));
     remove_sibling_left parent tmp h
   }"

definition remove_sibling_right :: "ptr \<Rightarrow> ptr \<Rightarrow> rb_heap \<Rightarrow> ((ptr \<times> ptr + ptr) \<times> rb_heap) option" where
  "remove_sibling_right parent tmp h = do {
     l \<leftarrow> RB_LEFT h tmp;
     lb \<leftarrow> is_black h l;
     r \<leftarrow> RB_RIGHT h tmp;
     rb \<leftarrow> is_black h r;
     if lb \<and> rb
     then do {
       h \<leftarrow> set_COLOR tmp RB_RED h;
       p \<leftarrow> RB_PARENT h parent;
       Some (Inl (parent, p), h)
     }
     else do {
       (tmp, h) \<leftarrow>
         (if lb
          then do {
            oright \<leftarrow> RB_RIGHT h tmp;
            h \<leftarrow> (if oright \<noteq> Null then set_COLOR oright RB_BLACK h else Some h);
            h \<leftarrow> set_COLOR tmp RB_RED h;
            (oright, h) \<leftarrow> RB_ROTATE_LEFT tmp h;
            tmp \<leftarrow> RB_LEFT h parent;
            Some (tmp, h)
          }
          else Some (tmp, h));
       c \<leftarrow> RB_COLOR h parent;
       h \<leftarrow> set_COLOR tmp c h;
       h \<leftarrow> set_COLOR parent RB_BLACK h;
       l \<leftarrow> RB_LEFT h tmp;
       h \<leftarrow> (if l \<noteq> Null then set_COLOR l RB_BLACK h else Some h);
       (tmp, h) \<leftarrow> RB_ROTATE_RIGHT parent h;
       Some (Inr (RB_ROOT h), h)
     }
   }"

definition remove_color_right :: "ptr \<Rightarrow> rb_heap \<Rightarrow> ((ptr \<times> ptr + ptr) \<times> rb_heap) option" where
  "remove_color_right parent h = do {
     tmp \<leftarrow> RB_LEFT h parent;
     c \<leftarrow> RB_COLOR h tmp;
     (tmp, h) \<leftarrow>
       (if c = RB_RED
        then do {
          h \<leftarrow> RB_SET_BLACKRED tmp parent h;
          (tmp, h) \<leftarrow> RB_ROTATE_RIGHT parent h;
          tmp \<leftarrow> RB_LEFT h parent;
          Some (tmp, h)
        }
        else Some (tmp, h));
     remove_sibling_right parent tmp h
   }"

partial_function (option) remove_color_loop :: "ptr \<Rightarrow> ptr \<Rightarrow> rb_heap \<Rightarrow> (ptr \<times> rb_heap) option" where
  "remove_color_loop parent elm h = do {
     b \<leftarrow> is_black h elm;
     if b \<and> elm \<noteq> RB_ROOT h
     then do {
       l \<leftarrow> RB_LEFT h parent;
       (next, h) \<leftarrow> (if l = elm then remove_color_left parent h else remove_color_right parent h);
       case next of
         Inl (elm, parent) \<Rightarrow> remove_color_loop parent elm h
       | Inr elm \<Rightarrow> Some (elm, h)
     }
     else Some (elm, h)
   }"

definition RB_REMOVE_COLOR :: "ptr \<Rightarrow> ptr \<Rightarrow> rb_heap \<Rightarrow> rb_heap option" where
  "RB_REMOVE_COLOR parent elm h = do {
     (elm, h) \<leftarrow> remove_color_loop parent elm h;
     if elm \<noteq> Null then set_COLOR elm RB_BLACK h else Some h
   }"

text \<open>\<open>while ((left = RB_LEFT(elm))) elm = left\<close> and its mirror image.\<close>

partial_function (option) leftmost :: "ptr \<Rightarrow> rb_heap \<Rightarrow> ptr option" where
  "leftmost elm h = do {
     left \<leftarrow> RB_LEFT h elm;
     if left \<noteq> Null then leftmost left h else Some elm
   }"

partial_function (option) rightmost :: "ptr \<Rightarrow> rb_heap \<Rightarrow> ptr option" where
  "rightmost elm h = do {
     right \<leftarrow> RB_RIGHT h elm;
     if right \<noteq> Null then rightmost right h else Some elm
   }"

text \<open>The walk to the root that calls \<open>RB_AUGMENT\<close> on every ancestor.\<close>

partial_function (option) augment_path :: "ptr \<Rightarrow> rb_heap \<Rightarrow> rb_heap option" where
  "augment_path left h = do {
     left \<leftarrow> RB_PARENT h left;
     if left \<noteq> Null then augment_path left h else Some h
   }"

text \<open>\<open>(elm)->field = (old)->field\<close>\<close>

definition copy_entry :: "ptr \<Rightarrow> ptr \<Rightarrow> rb_heap \<Rightarrow> rb_heap option" where
  "copy_entry elm old h = do {
     l \<leftarrow> RB_LEFT h old;
     r \<leftarrow> RB_RIGHT h old;
     p \<leftarrow> RB_PARENT h old;
     c \<leftarrow> RB_COLOR h old;
     h \<leftarrow> set_LEFT elm l h;
     h \<leftarrow> set_RIGHT elm r h;
     h \<leftarrow> set_PARENT elm p h;
     set_COLOR elm c h
   }"

text \<open>\<open>elm\<close>, which has at most the child \<open>child\<close>, is cut out of the tree.\<close>

definition unlink_elm :: "ptr \<Rightarrow> ptr \<Rightarrow> ptr \<Rightarrow> rb_heap \<Rightarrow> rb_heap option" where
  "unlink_elm elm child parent h = do {
     h \<leftarrow> (if child \<noteq> Null then set_PARENT child parent h else Some h);
     replace_child parent elm child h
   }"

text \<open>\<open>elm\<close> takes the place of \<open>old\<close>, which has a left child.\<close>

definition take_place :: "ptr \<Rightarrow> ptr \<Rightarrow> rb_heap \<Rightarrow> rb_heap option" where
  "take_place elm old h = do {
     h \<leftarrow> copy_entry elm old h;
     p \<leftarrow> RB_PARENT h old;
     h \<leftarrow> replace_child p old elm h;
     l \<leftarrow> RB_LEFT h old;
     h \<leftarrow> set_PARENT l elm h;
     r \<leftarrow> RB_RIGHT h old;
     if r \<noteq> Null then set_PARENT r elm h else Some h
   }"

text \<open>The two-child case of \<open>RB_REMOVE\<close>: the successor takes the place of the element.
  The result holds \<open>parent\<close>, \<open>child\<close> and \<open>color\<close> at the label \<open>color:\<close>.\<close>

definition remove_two :: "ptr \<Rightarrow> rb_heap \<Rightarrow> (ptr \<times> ptr \<times> int \<times> rb_heap) option" where
  "remove_two old h = do {
     elm \<leftarrow> RB_RIGHT h old;
     elm \<leftarrow> leftmost elm h;
     child \<leftarrow> RB_RIGHT h elm;
     parent \<leftarrow> RB_PARENT h elm;
     color \<leftarrow> RB_COLOR h elm;
     h \<leftarrow> unlink_elm elm child parent h;
     p \<leftarrow> RB_PARENT h elm;
     let parent = (if p = old then elm else parent);
     h \<leftarrow> take_place elm old h;
     h \<leftarrow> (if parent \<noteq> Null then augment_path parent h else Some h);
     Some (parent, child, color, h)
   }"

definition remove_one :: "ptr \<Rightarrow> ptr \<Rightarrow> rb_heap \<Rightarrow> (ptr \<times> ptr \<times> int \<times> rb_heap) option" where
  "remove_one elm child h = do {
     parent \<leftarrow> RB_PARENT h elm;
     color \<leftarrow> RB_COLOR h elm;
     h \<leftarrow> unlink_elm elm child parent h;
     Some (parent, child, color, h)
   }"

definition RB_REMOVE :: "ptr \<Rightarrow> rb_heap \<Rightarrow> (ptr \<times> rb_heap) option" where
  "RB_REMOVE elm h = do {
     l \<leftarrow> RB_LEFT h elm;
     r \<leftarrow> RB_RIGHT h elm;
     (parent, child, color, h) \<leftarrow>
       (if l = Null then remove_one elm r h
        else if r = Null then remove_one elm l h
        else remove_two elm h);
     h \<leftarrow> (if color = RB_BLACK then RB_REMOVE_COLOR parent child h else Some h);
     Some (elm, h)
   }"

section \<open>Search and traversal\<close>

partial_function (option) find_loop :: "(nat \<Rightarrow> nat \<Rightarrow> int) \<Rightarrow> nat \<Rightarrow> ptr \<Rightarrow> rb_heap \<Rightarrow> ptr option" where
  "find_loop cmp elm tmp h =
     (case tmp of
        Null \<Rightarrow> Some Null
      | Ref a \<Rightarrow>
          if cmp elm a < 0 then find_loop cmp elm (rbe_left h a) h
          else if cmp elm a > 0 then find_loop cmp elm (rbe_right h a) h
          else Some tmp)"

definition RB_FIND :: "(nat \<Rightarrow> nat \<Rightarrow> int) \<Rightarrow> nat \<Rightarrow> rb_heap \<Rightarrow> ptr option" where
  "RB_FIND cmp elm h = find_loop cmp elm (RB_ROOT h) h"

partial_function (option) nfind_loop ::
    "(nat \<Rightarrow> nat \<Rightarrow> int) \<Rightarrow> nat \<Rightarrow> ptr \<Rightarrow> ptr \<Rightarrow> rb_heap \<Rightarrow> ptr option" where
  "nfind_loop cmp elm tmp res h =
     (case tmp of
        Null \<Rightarrow> Some res
      | Ref a \<Rightarrow>
          if cmp elm a < 0 then nfind_loop cmp elm (rbe_left h a) tmp h
          else if cmp elm a > 0 then nfind_loop cmp elm (rbe_right h a) res h
          else Some tmp)"

definition RB_NFIND :: "(nat \<Rightarrow> nat \<Rightarrow> int) \<Rightarrow> nat \<Rightarrow> rb_heap \<Rightarrow> ptr option" where
  "RB_NFIND cmp elm h = nfind_loop cmp elm (RB_ROOT h) Null h"

text \<open>The climb of \<open>RB_NEXT\<close> while \<open>elm\<close> is a right child, of \<open>RB_PREV\<close>
  while it is a left child.\<close>

partial_function (option) climb_right :: "ptr \<Rightarrow> rb_heap \<Rightarrow> ptr option" where
  "climb_right elm h = do {
     p \<leftarrow> RB_PARENT h elm;
     if p = Null then Some elm
     else do {
       r \<leftarrow> RB_RIGHT h p;
       if elm = r then climb_right p h else Some elm
     }
   }"

partial_function (option) climb_left :: "ptr \<Rightarrow> rb_heap \<Rightarrow> ptr option" where
  "climb_left elm h = do {
     p \<leftarrow> RB_PARENT h elm;
     if p = Null then Some elm
     else do {
       l \<leftarrow> RB_LEFT h p;
       if elm = l then climb_left p h else Some elm
     }
   }"

definition RB_NEXT :: "ptr \<Rightarrow> rb_heap \<Rightarrow> ptr option" where
  "RB_NEXT elm h = do {
     r \<leftarrow> RB_RIGHT h elm;
     if r \<noteq> Null then leftmost r h
     else do {
       p \<leftarrow> RB_PARENT h elm;
       is_left \<leftarrow> (if p = Null then Some False else do { l \<leftarrow> RB_LEFT h p; Some (elm = l) });
       if is_left then Some p
       else do { elm \<leftarrow> climb_right elm h; RB_PARENT h elm }
     }
   }"

definition RB_PREV :: "ptr \<Rightarrow> rb_heap \<Rightarrow> ptr option" where
  "RB_PREV elm h = do {
     l \<leftarrow> RB_LEFT h elm;
     if l \<noteq> Null then rightmost l h
     else do {
       p \<leftarrow> RB_PARENT h elm;
       is_right \<leftarrow> (if p = Null then Some False else do { r \<leftarrow> RB_RIGHT h p; Some (elm = r) });
       if is_right then Some p
       else do { elm \<leftarrow> climb_left elm h; RB_PARENT h elm }
     }
   }"

partial_function (option) minmax_loop :: "int \<Rightarrow> ptr \<Rightarrow> ptr \<Rightarrow> rb_heap \<Rightarrow> ptr option" where
  "minmax_loop v tmp parent h =
     (case tmp of
        Null \<Rightarrow> Some parent
      | Ref a \<Rightarrow> minmax_loop v (if v < 0 then rbe_left h a else rbe_right h a) tmp h)"

definition RB_MINMAX :: "int \<Rightarrow> rb_heap \<Rightarrow> ptr option" where
  "RB_MINMAX v h = minmax_loop v (RB_ROOT h) Null h"

definition RB_MIN :: "rb_heap \<Rightarrow> ptr option" where
  "RB_MIN h = RB_MINMAX (-1) h"

definition RB_MAX :: "rb_heap \<Rightarrow> ptr option" where
  "RB_MAX h = RB_MINMAX 1 h"

text \<open>The elements visited by \<open>RB_FOREACH\<close> and \<open>RB_FOREACH_REVERSE\<close>, starting
  at \<open>x\<close>.\<close>

partial_function (option) foreach_loop :: "ptr \<Rightarrow> rb_heap \<Rightarrow> nat list option" where
  "foreach_loop x h =
     (case x of
        Null \<Rightarrow> Some []
      | Ref a \<Rightarrow> do { y \<leftarrow> RB_NEXT x h; xs \<leftarrow> foreach_loop y h; Some (a # xs) })"

partial_function (option) foreach_reverse_loop :: "ptr \<Rightarrow> rb_heap \<Rightarrow> nat list option" where
  "foreach_reverse_loop x h =
     (case x of
        Null \<Rightarrow> Some []
      | Ref a \<Rightarrow> do { y \<leftarrow> RB_PREV x h; xs \<leftarrow> foreach_reverse_loop y h; Some (a # xs) })"

definition RB_FOREACH :: "rb_heap \<Rightarrow> nat list option" where
  "RB_FOREACH h = do { x \<leftarrow> RB_MIN h; foreach_loop x h }"

definition RB_FOREACH_REVERSE :: "rb_heap \<Rightarrow> nat list option" where
  "RB_FOREACH_REVERSE h = do { x \<leftarrow> RB_MAX h; foreach_reverse_loop x h }"

text \<open>The loops that allow their body to free the element they are at: the neighbour is read
  before the body runs.\<close>

partial_function (option) foreach_safe_loop ::
    "(nat \<Rightarrow> rb_heap \<Rightarrow> rb_heap option) \<Rightarrow> ptr \<Rightarrow> rb_heap \<Rightarrow> rb_heap option" where
  "foreach_safe_loop body x h =
     (case x of
        Null \<Rightarrow> Some h
      | Ref a \<Rightarrow> do { y \<leftarrow> RB_NEXT x h; h \<leftarrow> body a h; foreach_safe_loop body y h })"

definition RB_FOREACH_SAFE :: "(nat \<Rightarrow> rb_heap \<Rightarrow> rb_heap option) \<Rightarrow> rb_heap \<Rightarrow> rb_heap option" where
  "RB_FOREACH_SAFE body h = do { x \<leftarrow> RB_MIN h; foreach_safe_loop body x h }"

partial_function (option) foreach_reverse_safe_loop ::
    "(nat \<Rightarrow> rb_heap \<Rightarrow> rb_heap option) \<Rightarrow> ptr \<Rightarrow> rb_heap \<Rightarrow> rb_heap option" where
  "foreach_reverse_safe_loop body x h =
     (case x of
        Null \<Rightarrow> Some h
      | Ref a \<Rightarrow> do { y \<leftarrow> RB_PREV x h; h \<leftarrow> body a h; foreach_reverse_safe_loop body y h })"

definition RB_FOREACH_REVERSE_SAFE ::
    "(nat \<Rightarrow> rb_heap \<Rightarrow> rb_heap option) \<Rightarrow> rb_heap \<Rightarrow> rb_heap option" where
  "RB_FOREACH_REVERSE_SAFE body h = do { x \<leftarrow> RB_MAX h; foreach_reverse_safe_loop body x h }"

end
