(* ===== verification/Rb_Repr.thy ===== *)
theory Rb_Repr
  imports Rb_Tree
begin

text \<open>
  The trees a heap of \<open>RB_ENTRY\<close> members represents. \<open>rep h par t\<close>: the elements
  of \<open>t\<close> carry the child pointers and colours of \<open>t\<close>, with the parent pointers
  that belong to a subtree hanging below \<open>par\<close>. A position in the tree is a subtree and
  its context, the path to the root (a zipper); \<open>focus h t k\<close> says that the heap
  represents the tree with the subtree \<open>t\<close> in the context \<open>k\<close>. Every pointer
  operation of the macros is a change of the focused subtree.
\<close>

section \<open>Trees and contexts\<close>

datatype rbt = Lf | Nd rbt nat int rbt

datatype frame = FL nat int rbt | FR rbt nat int

type_synonym ctx = "frame list"

fun rootp :: "rbt \<Rightarrow> ptr" where
  "rootp Lf = Null"
| "rootp (Nd l a c r) = Ref a"

fun inorder :: "rbt \<Rightarrow> nat list" where
  "inorder Lf = []"
| "inorder (Nd l a c r) = inorder l @ a # inorder r"

fun parent_of :: "ctx \<Rightarrow> ptr" where
  "parent_of [] = Null"
| "parent_of (FL a c r # k) = Ref a"
| "parent_of (FR l a c # k) = Ref a"

fun ctx_left :: "ctx \<Rightarrow> nat list" where
  "ctx_left [] = []"
| "ctx_left (FL a c r # k) = ctx_left k"
| "ctx_left (FR l a c # k) = ctx_left k @ inorder l @ [a]"

fun ctx_right :: "ctx \<Rightarrow> nat list" where
  "ctx_right [] = []"
| "ctx_right (FL a c r # k) = a # inorder r @ ctx_right k"
| "ctx_right (FR l a c # k) = ctx_right k"

fun plug :: "rbt \<Rightarrow> ctx \<Rightarrow> rbt" where
  "plug t [] = t"
| "plug t (FL a c r # k) = plug (Nd t a c r) k"
| "plug t (FR l a c # k) = plug (Nd l a c t) k"

lemma inorder_plug: "inorder (plug t k) = ctx_left k @ inorder t @ ctx_right k"
  by (induction t k rule: plug.induct) auto

lemma rootp_eq_Null [simp]: "rootp t = Null \<longleftrightarrow> t = Lf"
  by (cases t) auto

lemma rootp_eq_Ref: "rootp t = Ref a \<longleftrightarrow> (\<exists>l c r. t = Nd l a c r)"
  by (cases t) auto

lemma rootp_in: "rootp t = Ref a \<Longrightarrow> a \<in> set (inorder t)"
  by (cases t) auto

lemma parent_of_eq_Null [simp]: "parent_of k = Null \<longleftrightarrow> k = []"
  by (cases k rule: parent_of.cases) auto

section \<open>Representation\<close>

fun rep :: "rb_heap \<Rightarrow> ptr \<Rightarrow> rbt \<Rightarrow> bool" where
  "rep h par Lf = True"
| "rep h par (Nd l a c r) \<longleftrightarrow>
     rbe_left h a = rootp l \<and> rbe_right h a = rootp r \<and> rbe_parent h a = par
     \<and> rbe_color h a = c \<and> rep h (Ref a) l \<and> rep h (Ref a) r"

fun repc :: "rb_heap \<Rightarrow> ptr \<Rightarrow> ctx \<Rightarrow> bool" where
  "repc h p [] \<longleftrightarrow> rbh_root h = p"
| "repc h p (FL a c r # k) \<longleftrightarrow>
     rbe_left h a = p \<and> rbe_right h a = rootp r \<and> rbe_parent h a = parent_of k
     \<and> rbe_color h a = c \<and> rep h (Ref a) r \<and> repc h (Ref a) k"
| "repc h p (FR l a c # k) \<longleftrightarrow>
     rbe_left h a = rootp l \<and> rbe_right h a = p \<and> rbe_parent h a = parent_of k
     \<and> rbe_color h a = c \<and> rep h (Ref a) l \<and> repc h (Ref a) k"

definition ctx_addrs :: "ctx \<Rightarrow> nat list" where
  "ctx_addrs k = ctx_left k @ ctx_right k"

definition focus :: "rb_heap \<Rightarrow> rbt \<Rightarrow> ctx \<Rightarrow> bool" where
  "focus h t k \<longleftrightarrow> rep h (parent_of k) t \<and> repc h (rootp t) k
     \<and> distinct (inorder (plug t k))"

text \<open>The heap represents the tree \<open>t\<close>.\<close>

definition repr :: "rb_heap \<Rightarrow> rbt \<Rightarrow> bool" where
  "repr h t \<longleftrightarrow> focus h t []"

lemma focus_FL: "focus h t (FL a c r # k) \<longleftrightarrow> focus h (Nd t a c r) k"
  by (auto simp: focus_def)

lemma focus_FR: "focus h t (FR l a c # k) \<longleftrightarrow> focus h (Nd l a c t) k"
  by (auto simp: focus_def)

lemmas focus_move = focus_FL focus_FR

lemma focus_repr: "focus h t k \<longleftrightarrow> repr h (plug t k)"
  by (induction t k rule: plug.induct) (auto simp: repr_def focus_move)

section \<open>Updates\<close>

lemma set_sel [simp]:
  "rbe_left (setl a v h) b = (if b = a then v else rbe_left h b)"
  "rbe_right (setl a v h) = rbe_right h" "rbe_parent (setl a v h) = rbe_parent h"
  "rbe_color (setl a v h) = rbe_color h" "rbh_root (setl a v h) = rbh_root h"
  "rbe_right (setr a v h) b = (if b = a then v else rbe_right h b)"
  "rbe_left (setr a v h) = rbe_left h" "rbe_parent (setr a v h) = rbe_parent h"
  "rbe_color (setr a v h) = rbe_color h" "rbh_root (setr a v h) = rbh_root h"
  "rbe_parent (setp a v h) b = (if b = a then v else rbe_parent h b)"
  "rbe_left (setp a v h) = rbe_left h" "rbe_right (setp a v h) = rbe_right h"
  "rbe_color (setp a v h) = rbe_color h" "rbh_root (setp a v h) = rbh_root h"
  "rbe_color (setc a w h) b = (if b = a then w else rbe_color h b)"
  "rbe_left (setc a w h) = rbe_left h" "rbe_right (setc a w h) = rbe_right h"
  "rbe_parent (setc a w h) = rbe_parent h" "rbh_root (setc a w h) = rbh_root h"
  "rbh_root (set_root p h) = p" "rbe_left (set_root p h) = rbe_left h"
  "rbe_right (set_root p h) = rbe_right h" "rbe_parent (set_root p h) = rbe_parent h"
  "rbe_color (set_root p h) = rbe_color h"
  by (simp_all add: setl_def setr_def setp_def setc_def set_root_def)

lemma rep_set [simp]:
  "a \<notin> set (inorder t) \<Longrightarrow> rep (setl a v h) par t = rep h par t"
  "a \<notin> set (inorder t) \<Longrightarrow> rep (setr a v h) par t = rep h par t"
  "a \<notin> set (inorder t) \<Longrightarrow> rep (setp a v h) par t = rep h par t"
  "a \<notin> set (inorder t) \<Longrightarrow> rep (setc a w h) par t = rep h par t"
  "rep (set_root p h) par t = rep h par t"
  by (induction t arbitrary: par) auto

lemma repc_set [simp]:
  "a \<notin> set (ctx_addrs k) \<Longrightarrow> repc (setl a v h) p k = repc h p k"
  "a \<notin> set (ctx_addrs k) \<Longrightarrow> repc (setr a v h) p k = repc h p k"
  "a \<notin> set (ctx_addrs k) \<Longrightarrow> repc (setp a v h) p k = repc h p k"
  "a \<notin> set (ctx_addrs k) \<Longrightarrow> repc (setc a w h) p k = repc h p k"
  by (induction h p k rule: repc.induct) (auto simp: ctx_addrs_def)

text \<open>Hanging a subtree below another parent, and another subtree below a context.\<close>

definition set_parent_opt :: "ptr \<Rightarrow> ptr \<Rightarrow> rb_heap \<Rightarrow> rb_heap" where
  "set_parent_opt p v h = (case p of Null \<Rightarrow> h | Ref a \<Rightarrow> setp a v h)"

lemma set_parent_opt_simps [simp]:
  "set_parent_opt Null v h = h" "set_parent_opt (Ref a) v h = setp a v h"
  by (simp_all add: set_parent_opt_def)

lemma rep_reparent:
  assumes "rep h par t" "distinct (inorder t)"
  shows "rep (set_parent_opt (rootp t) par' h) par' t"
  using assms by (cases t) auto

fun relink :: "ctx \<Rightarrow> ptr \<Rightarrow> rb_heap \<Rightarrow> rb_heap" where
  "relink [] p h = set_root p h"
| "relink (FL a c r # k) p h = setl a p h"
| "relink (FR l a c # k) p h = setr a p h"

lemma repc_relink:
  assumes "repc h p k" "distinct (ctx_addrs k)"
  shows "repc (relink k q h) q k"
  using assms by (cases k rule: parent_of.cases) (auto simp: ctx_addrs_def)

lemma rep_relink [simp]:
  assumes "set (inorder t) \<inter> set (ctx_addrs k) = {}"
  shows "rep (relink k q h) par t = rep h par t"
  using assms by (cases k rule: parent_of.cases) (auto simp: ctx_addrs_def)

lemma replace_child_relink:
  assumes "repc h (Ref a) k" "a \<notin> set (ctx_addrs k)"
  shows "replace_child (parent_of k) (Ref a) q h = Some (relink k q h)"
proof (cases k rule: parent_of.cases)
  case (3 l b c k')
  then have "rootp l \<noteq> Ref a" using assms(2) by (auto simp: ctx_addrs_def dest: rootp_in)
  with 3 assms show ?thesis by (auto simp: replace_child_def)
qed (use assms in \<open>auto simp: replace_child_def\<close>)

section \<open>Frames\<close>

lemma focus_alt:
  "focus h t k \<longleftrightarrow> rep h (parent_of k) t \<and> repc h (rootp t) k \<and> distinct (inorder t)
     \<and> distinct (ctx_addrs k) \<and> set (inorder t) \<inter> set (ctx_addrs k) = {}"
  by (auto simp: focus_def inorder_plug ctx_addrs_def)

lemma set_parent_opt_sel [simp]:
  "rbe_left (set_parent_opt p v h) = rbe_left h" "rbe_right (set_parent_opt p v h) = rbe_right h"
  "rbe_color (set_parent_opt p v h) = rbe_color h" "rbh_root (set_parent_opt p v h) = rbh_root h"
  by (cases p; simp)+

lemma rbe_parent_set_parent_opt [simp]:
  "a \<notin> set (inorder m) \<Longrightarrow> rbe_parent (set_parent_opt (rootp m) v h) a = rbe_parent h a"
  by (cases m) auto

lemma rep_set_parent_opt [simp]:
  "set (inorder m) \<inter> set (inorder t) = {} \<Longrightarrow>
     rep (set_parent_opt (rootp m) v h) par t = rep h par t"
  by (cases m) auto

lemma repc_set_parent_opt [simp]:
  "set (inorder m) \<inter> set (ctx_addrs k) = {} \<Longrightarrow>
     repc (set_parent_opt (rootp m) v h) p k = repc h p k"
  by (cases m) auto

lemma relink_sel [simp]:
  "rbe_parent (relink k q h) = rbe_parent h" "rbe_color (relink k q h) = rbe_color h"
  "a \<notin> set (ctx_addrs k) \<Longrightarrow> rbe_left (relink k q h) a = rbe_left h a"
  "a \<notin> set (ctx_addrs k) \<Longrightarrow> rbe_right (relink k q h) a = rbe_right h a"
  by (cases k rule: parent_of.cases; auto simp: ctx_addrs_def)+

lemma set_PARENT_opt:
  "(if rootp t \<noteq> Null then set_PARENT (rootp t) v h else Some h) =
     Some (set_parent_opt (rootp t) v h)"
  by (cases t) auto

section \<open>Rotations\<close>

lemma rotate_left_focus:
  assumes f: "focus h (Nd l a c (Nd m b d r)) k"
  shows "\<exists>h'. RB_ROTATE_LEFT (Ref a) h = Some (Ref b, h') \<and> focus h' (Nd (Nd l a c m) b d r) k"
proof -
  note f' = f [unfolded focus_alt]
  define h1 where "h1 = set_parent_opt (rootp m) (Ref a) (setr a (rootp m) h)"
  define h2 where "h2 = setp b (parent_of k) h1"
  define h3 where "h3 = setp a (Ref b) (setl b (Ref a) (relink k (Ref b) h2))"
  have c2: "repc h2 (Ref a) k"
    using f' by (simp add: h1_def h2_def Int_Un_distrib2)
  have rl: "replace_child (parent_of k) (Ref a) (Ref b) h2 = Some (relink k (Ref b) h2)"
    by (rule replace_child_relink [OF c2]) (use f' in auto)
  have pm: "(if rootp m \<noteq> Null then do { l \<leftarrow> RB_LEFT (setr a (rootp m) h) (Ref b);
      set_PARENT l (Ref a) (setr a (rootp m) h) } else Some (setr a (rootp m) h)) = Some h1"
    using f' by (cases m) (auto simp: h1_def)
  have pa: "rbe_parent h1 a = parent_of k"
    using f' by (auto simp: h1_def)
  have "RB_ROTATE_LEFT (Ref a) h = Some (Ref b, h3)"
    using f' pm rl pa by (simp add: RB_ROTATE_LEFT_def flip: h2_def h3_def)
  moreover have "focus h3 (Nd (Nd l a c m) b d r) k"
  proof -
    have "repc (relink k (Ref b) h2) (Ref b) k"
      by (rule repc_relink [OF c2]) (use f' in auto)
    moreover have "rep h1 (Ref a) m"
      unfolding h1_def by (rule rep_reparent [of _ "Ref b"]) (use f' in auto)
    moreover have "set (inorder t) \<inter> set (ctx_addrs k) = {}" if "t \<in> {l, m, r}" for t
      using f' that by auto
    moreover have "set (inorder m) \<inter> set (inorder l) = {}" "set (inorder m) \<inter> set (inorder r) = {}"
      using f' by auto
    ultimately show ?thesis
      using f' by (auto simp: focus_alt h3_def h2_def h1_def)
  qed
  ultimately show ?thesis by blast
qed

lemma rotate_right_focus:
  assumes f: "focus h (Nd (Nd l b d m) a c r) k"
  shows "\<exists>h'. RB_ROTATE_RIGHT (Ref a) h = Some (Ref b, h') \<and> focus h' (Nd l b d (Nd m a c r)) k"
proof -
  note f' = f [unfolded focus_alt]
  define h1 where "h1 = set_parent_opt (rootp m) (Ref a) (setl a (rootp m) h)"
  define h2 where "h2 = setp b (parent_of k) h1"
  define h3 where "h3 = setp a (Ref b) (setr b (Ref a) (relink k (Ref b) h2))"
  have c2: "repc h2 (Ref a) k"
    using f' by (simp add: h1_def h2_def Int_Un_distrib2)
  have rl: "replace_child (parent_of k) (Ref a) (Ref b) h2 = Some (relink k (Ref b) h2)"
    by (rule replace_child_relink [OF c2]) (use f' in auto)
  have pm: "(if rootp m \<noteq> Null then do { l \<leftarrow> RB_RIGHT (setl a (rootp m) h) (Ref b);
      set_PARENT l (Ref a) (setl a (rootp m) h) } else Some (setl a (rootp m) h)) = Some h1"
    using f' by (cases m) (auto simp: h1_def)
  have pa: "rbe_parent h1 a = parent_of k"
    using f' by (auto simp: h1_def)
  have "RB_ROTATE_RIGHT (Ref a) h = Some (Ref b, h3)"
    using f' pm rl pa by (simp add: RB_ROTATE_RIGHT_def flip: h2_def h3_def)
  moreover have "focus h3 (Nd l b d (Nd m a c r)) k"
  proof -
    have "repc (relink k (Ref b) h2) (Ref b) k"
      by (rule repc_relink [OF c2]) (use f' in auto)
    moreover have "rep h1 (Ref a) m"
      unfolding h1_def by (rule rep_reparent [of _ "Ref b"]) (use f' in auto)
    moreover have "set (inorder t) \<inter> set (ctx_addrs k) = {}" if "t \<in> {l, m, r}" for t
      using f' that by auto
    moreover have "set (inorder m) \<inter> set (inorder l) = {}" "set (inorder m) \<inter> set (inorder r) = {}"
      using f' by auto
    ultimately show ?thesis
      using f' by (auto simp: focus_alt h3_def h2_def h1_def)
  qed
  ultimately show ?thesis by blast
qed

section \<open>Colours\<close>

lemma focus_setc:
  assumes "focus h (Nd l a c r) k"
  shows "focus (setc a c' h) (Nd l a c' r) k"
  using assms by (auto simp: focus_alt)

text \<open>A heap reads as the focused tree says.\<close>

lemma focus_read:
  assumes "focus h (Nd l a c r) k"
  shows "rbe_left h a = rootp l" "rbe_right h a = rootp r" "rbe_parent h a = parent_of k"
    "rbe_color h a = c"
  using assms by (simp_all add: focus_def)

fun is_red_tree :: "rbt \<Rightarrow> bool" where
  "is_red_tree Lf = False"
| "is_red_tree (Nd l a c r) \<longleftrightarrow> c = RB_RED"

fun is_black_tree :: "rbt \<Rightarrow> bool" where
  "is_black_tree Lf = True"
| "is_black_tree (Nd l a c r) \<longleftrightarrow> c = RB_BLACK"

fun paint :: "int \<Rightarrow> rbt \<Rightarrow> rbt" where
  "paint c Lf = Lf"
| "paint c (Nd l a c' r) = Nd l a c r"

lemma rootp_paint [simp]: "rootp (paint c t) = rootp t"
  by (cases t) auto

lemma inorder_paint [simp]: "inorder (paint c t) = inorder t"
  by (cases t) auto

lemma is_red_focus: "focus h t k \<Longrightarrow> is_red h (rootp t) = Some (is_red_tree t)"
  by (cases t) (auto simp: is_red_def focus_def)

lemma is_black_focus: "focus h t k \<Longrightarrow> is_black h (rootp t) = Some (is_black_tree t)"
  by (cases t) (auto simp: is_black_def focus_def)

lemma focus_root: "focus h t k \<Longrightarrow> rbh_root h = rootp (plug t k)"
  unfolding focus_repr by (simp add: repr_def focus_def)

end
