(* ===== verification/Tree_Order.thy ===== *)
theory Tree_Order
  imports Compat_Prelude
begin

text \<open>
  What the tree macros promise to their users, for the red-black and the splay trees of
  \<^verbatim>\<open>src/include/compat/sys/tree.h\<close>: the comparison functions they accept, the
  sorted sequence of elements as the abstract value of a tree, and the interface
  \<open>ordered_tree\<close> with the refinement of every sequence of operations.
\<close>

section \<open>Comparison functions\<close>

type_synonym cmp = "nat \<Rightarrow> nat \<Rightarrow> int"

text \<open>A three-way comparison of a total preorder; elements that compare equal have the
  same key.\<close>

definition total_cmp :: "cmp \<Rightarrow> bool" where
  "total_cmp cmp \<longleftrightarrow> (\<forall>a b. (cmp a b < 0) = (0 < cmp b a))
     \<and> (\<forall>a b c. cmp a b \<le> 0 \<longrightarrow> cmp b c \<le> 0 \<longrightarrow> cmp a c \<le> 0)"

lemma cmp_swap:
  assumes "total_cmp cmp"
  shows "cmp a b < 0 \<longleftrightarrow> 0 < cmp b a" "cmp a b = 0 \<longleftrightarrow> cmp b a = 0" "cmp a b \<le> 0 \<longleftrightarrow> 0 \<le> cmp b a"
proof -
  show *: "cmp a b < 0 \<longleftrightarrow> 0 < cmp b a" for a b using assms by (simp add: total_cmp_def)
  show "cmp a b = 0 \<longleftrightarrow> cmp b a = 0" using * [of a b] * [of b a] by linarith
  show "cmp a b \<le> 0 \<longleftrightarrow> 0 \<le> cmp b a" using * [of a b] * [of b a] by linarith
qed

lemma cmp_trans_le: "total_cmp cmp \<Longrightarrow> cmp a b \<le> 0 \<Longrightarrow> cmp b c \<le> 0 \<Longrightarrow> cmp a c \<le> 0"
  unfolding total_cmp_def by blast

lemma cmp_less_le:
  assumes "total_cmp cmp" "cmp a b < 0" "cmp b c \<le> 0"
  shows "cmp a c < 0"
proof (rule ccontr)
  assume "\<not> cmp a c < 0"
  then have "cmp c a \<le> 0" using cmp_swap(1) [OF assms(1), of a c] cmp_swap(3) [OF assms(1), of c a] by linarith
  then have "cmp b a \<le> 0" using cmp_trans_le [OF assms(1,3)] by blast
  then show False using assms(2) cmp_swap(1) [OF assms(1), of a b] by linarith
qed

lemma cmp_le_less:
  assumes "total_cmp cmp" "cmp a b \<le> 0" "cmp b c < 0"
  shows "cmp a c < 0"
proof (rule ccontr)
  assume "\<not> cmp a c < 0"
  then have "cmp c a \<le> 0" using cmp_swap(1) [OF assms(1), of a c] cmp_swap(3) [OF assms(1), of c a] by linarith
  then have "cmp c b \<le> 0" using cmp_trans_le [OF assms(1) _ assms(2)] by blast
  then show False using assms(3) cmp_swap(1) [OF assms(1), of b c] by linarith
qed

lemma cmp_greater_trans:
  assumes "total_cmp cmp" "0 < cmp e a" "cmp b a < 0"
  shows "0 < cmp e b"
  using cmp_less_le [OF assms(1), of b a e] assms cmp_swap [OF assms(1), of b e] cmp_swap [OF assms(1), of a e]
  by linarith

section \<open>Sorted sequences\<close>

abbreviation cmp_sorted :: "cmp \<Rightarrow> nat list \<Rightarrow> bool" where
  "cmp_sorted cmp \<equiv> sorted_wrt (\<lambda>a b. cmp a b < 0)"

fun insort_cmp :: "cmp \<Rightarrow> nat \<Rightarrow> nat list \<Rightarrow> nat list" where
  "insort_cmp cmp e [] = [e]"
| "insort_cmp cmp e (x # xs) = (if cmp e x < 0 then e # x # xs else x # insort_cmp cmp e xs)"

lemma set_insort_cmp [simp]: "set (insort_cmp cmp e xs) = insert e (set xs)"
  by (induction xs) auto

text \<open>The position of a key \<open>e\<close> between the elements before and behind it.\<close>

definition between :: "cmp \<Rightarrow> nat \<Rightarrow> nat list \<Rightarrow> nat list \<Rightarrow> bool" where
  "between cmp e L R \<longleftrightarrow> (\<forall>x \<in> set L. 0 < cmp e x) \<and> (\<forall>x \<in> set R. cmp e x < 0)"

lemma insort_between: "between cmp e L R \<Longrightarrow> insort_cmp cmp e (L @ R) = L @ e # R"
  by (induction L; cases R) (auto simp: between_def)

lemma sorted_between:
  assumes "total_cmp cmp" "cmp_sorted cmp (L @ R)" "between cmp e L R"
  shows "cmp_sorted cmp (L @ e # R)"
  using assms(2,3) cmp_swap(1) [OF assms(1)] by (auto simp: sorted_wrt_append between_def)

lemma between_below:
  assumes "total_cmp cmp" "cmp_sorted cmp (L @ a # R)" "cmp e a \<le> 0"
  shows "\<forall>x \<in> set R. cmp e x < 0"
  using assms by (auto simp: sorted_wrt_append intro: cmp_le_less)

lemma between_above:
  assumes "total_cmp cmp" "cmp_sorted cmp (L @ a # R)" "0 \<le> cmp e a"
  shows "\<forall>x \<in> set L. 0 < cmp e x"
proof
  fix x assume "x \<in> set L"
  then have "cmp x a < 0" using assms(2) by (auto simp: sorted_wrt_append)
  moreover have "cmp a e \<le> 0" using assms(3) cmp_swap(3) [OF assms(1), of a e] by simp
  ultimately have "cmp x e < 0" using cmp_less_le [OF assms(1)] by blast
  then show "0 < cmp e x" using cmp_swap(1) [OF assms(1)] by blast
qed

definition lookup :: "cmp \<Rightarrow> nat \<Rightarrow> nat list \<Rightarrow> ptr" where
  "lookup cmp e xs = (case find (\<lambda>x. cmp e x = 0) xs of Some x \<Rightarrow> Ref x | None \<Rightarrow> Null)"

lemma find_append: "find P (xs @ ys) = (case find P xs of Some x \<Rightarrow> Some x | None \<Rightarrow> find P ys)"
  by (induction xs) auto

lemma lookup_hit:
  assumes "total_cmp cmp" "cmp_sorted cmp (L @ a # R)" "cmp e a = 0"
  shows "lookup cmp e (L @ a # R) = Ref a"
proof -
  have "find (\<lambda>x. cmp e x = 0) L = None"
    using between_above [OF assms(1,2), of e] assms(3) by (auto simp: find_None_iff)
  then show ?thesis using assms(3) by (simp add: lookup_def find_append)
qed

lemma lookup_miss:
  assumes "between cmp e L R"
  shows "lookup cmp e (L @ R) = Null"
proof -
  have "find (\<lambda>x. cmp e x = 0) (L @ R) = None"
    using assms by (auto simp: between_def find_None_iff)
  then show ?thesis by (simp add: lookup_def)
qed

lemma sorted_distinct:
  assumes "total_cmp cmp" "cmp_sorted cmp xs"
  shows "distinct xs"
proof -
  have "cmp x x = 0" for x using cmp_swap(1) [OF assms(1), of x x] by linarith
  with assms(2) show ?thesis by (induction xs) force+
qed

text \<open>The abstract operations: the value of the tree is the sorted list of its elements.\<close>

definition abs_insert :: "cmp \<Rightarrow> nat \<Rightarrow> nat list \<Rightarrow> ptr \<times> nat list" where
  "abs_insert cmp e xs =
     (if lookup cmp e xs = Null then (Null, insort_cmp cmp e xs) else (lookup cmp e xs, xs))"

definition abs_find :: "cmp \<Rightarrow> nat \<Rightarrow> nat list \<Rightarrow> ptr \<times> nat list" where
  "abs_find cmp e xs = (lookup cmp e xs, xs)"

definition abs_remove :: "nat \<Rightarrow> nat list \<Rightarrow> ptr \<times> nat list" where
  "abs_remove e xs = (Ref e, remove1 e xs)"

lemma distinct_split:
  assumes "distinct (xs @ a # ys)" "xs @ a # ys = xs' @ a # ys'"
  shows "xs = xs' \<and> ys = ys'"
proof -
  have "distinct (xs' @ a # ys')" using assms by simp
  then have "a \<notin> set xs" "a \<notin> set ys" "a \<notin> set xs'" "a \<notin> set ys'" using assms(1) by auto
  then show ?thesis using assms(2) append_Cons_eq_iff [of a xs ys xs' ys'] by blast
qed

section \<open>The interface\<close>

datatype tree_op = Insert nat | Find nat | Remove nat | Min | Max

text \<open>What a caller may do: insert an element that is not linked, remove one that is.\<close>

fun allowed :: "tree_op \<Rightarrow> nat list \<Rightarrow> bool" where
  "allowed (Insert e) xs \<longleftrightarrow> e \<notin> set xs"
| "allowed (Remove e) xs \<longleftrightarrow> e \<in> set xs"
| "allowed _ xs \<longleftrightarrow> True"

fun abs_step :: "cmp \<Rightarrow> tree_op \<Rightarrow> nat list \<Rightarrow> ptr \<times> nat list" where
  "abs_step cmp (Insert e) xs = abs_insert cmp e xs"
| "abs_step cmp (Find e) xs = abs_find cmp e xs"
| "abs_step cmp (Remove e) xs = abs_remove e xs"
| "abs_step cmp Min xs = (first_ptr xs, xs)"
| "abs_step cmp Max xs = (first_ptr (rev xs), xs)"

fun abs_run :: "cmp \<Rightarrow> tree_op list \<Rightarrow> nat list \<Rightarrow> (ptr list \<times> nat list) option" where
  "abs_run cmp [] xs = Some ([], xs)"
| "abs_run cmp (op # ops) xs =
     (if allowed op xs
      then (case abs_step cmp op xs of (r, xs') \<Rightarrow>
              map_option (apfst (Cons r)) (abs_run cmp ops xs'))
      else None)"

text \<open>The concrete operations one after the other.\<close>

fun run_ops :: "(cmp \<Rightarrow> tree_op \<Rightarrow> 'h \<Rightarrow> (ptr \<times> 'h) option) \<Rightarrow> cmp \<Rightarrow> tree_op list \<Rightarrow> 'h
    \<Rightarrow> (ptr list \<times> 'h) option" where
  "run_ops step cmp [] h = Some ([], h)"
| "run_ops step cmp (op # ops) h =
     (case step cmp op h of
        None \<Rightarrow> None
      | Some (r, h') \<Rightarrow> map_option (apfst (Cons r)) (run_ops step cmp ops h'))"

text \<open>\<open>holds cmp h xs\<close>: the heap \<open>h\<close> is a well-formed tree with the elements
  \<open>xs\<close> in order.\<close>

locale ordered_tree =
  fixes holds :: "cmp \<Rightarrow> 'h \<Rightarrow> nat list \<Rightarrow> bool"
    and step :: "cmp \<Rightarrow> tree_op \<Rightarrow> 'h \<Rightarrow> (ptr \<times> 'h) option"
  assumes sorted: "holds cmp h xs \<Longrightarrow> cmp_sorted cmp xs"
    and step_refines: "holds cmp h xs \<Longrightarrow> total_cmp cmp \<Longrightarrow> allowed op xs \<Longrightarrow>
      \<exists>h'. step cmp op h = Some (fst (abs_step cmp op xs), h')
        \<and> holds cmp h' (snd (abs_step cmp op xs))"
begin

lemma run_refines:
  assumes "total_cmp cmp" "holds cmp h xs" "abs_run cmp ops xs = Some (rs, ys)"
  shows "\<exists>h'. run_ops step cmp ops h = Some (rs, h') \<and> holds cmp h' ys"
  using assms(2,3)
proof (induction ops arbitrary: h xs rs)
  case Nil
  then show ?case by simp
next
  case (Cons op ops)
  obtain r xs' where st: "abs_step cmp op xs = (r, xs')" by fastforce
  with Cons.prems obtain rs' where "allowed op xs" "abs_run cmp ops xs' = Some (rs', ys)" "rs = r # rs'"
    by (auto split: if_splits)
  moreover obtain h' where "step cmp op h = Some (r, h')" "holds cmp h' xs'"
    using step_refines [OF Cons.prems(1) assms(1) calculation(1)] st by auto
  ultimately show ?case using Cons.IH [of h' xs' rs'] by auto
qed

lemma run_sorted:
  assumes "total_cmp cmp" "holds cmp h xs" "abs_run cmp ops xs = Some (rs, ys)"
  shows "cmp_sorted cmp ys \<and> distinct ys"
  using run_refines [OF assms] sorted sorted_distinct [OF assms(1)] by blast

end

section \<open>A concrete run\<close>

text \<open>A concrete comparison and a sequence of operations for the witnesses: elements are compared by
  their addresses.\<close>

definition addr_cmp :: cmp where
  "addr_cmp a b = int a - int b"

lemma addr_cmp_total: "total_cmp addr_cmp"
  by (simp add: total_cmp_def addr_cmp_def)

definition demo_ops :: "tree_op list" where
  "demo_ops = [Insert 2, Insert 1, Insert 3, Remove 2, Find 3]"

lemma demo_ops_run:
  "abs_run addr_cmp demo_ops [] = Some ([Null, Null, Null, Ref 2, Ref 3], [1, 3])"
  by (simp add: demo_ops_def abs_insert_def abs_find_def abs_remove_def lookup_def addr_cmp_def)

end
