(* ===== verification/Rb_Insert.thy ===== *)
theory Rb_Insert
  imports Rb_Repr Tree_Order
begin

text \<open>
  \<open>RB_INSERT_COLOR\<close> and \<open>RB_INSERT\<close> on the represented trees: the loop of
  \<open>RB_INSERT_COLOR\<close> is the function \<open>ins_fix\<close> on the new node and its context.
\<close>

section \<open>The repair as a function\<close>

fun ins_fix :: "rbt \<Rightarrow> ctx \<Rightarrow> rbt" where
  "ins_fix t (FL p c s # FL g d u # k) =
     (if c \<noteq> RB_RED then plug t (FL p c s # FL g d u # k)
      else if is_red_tree u then ins_fix (Nd (Nd t p RB_BLACK s) g RB_RED (paint RB_BLACK u)) k
      else plug (Nd t p RB_BLACK (Nd s g RB_RED u)) k)"
| "ins_fix t (FR s p c # FL g d u # k) =
     (if c \<noteq> RB_RED then plug t (FR s p c # FL g d u # k)
      else if is_red_tree u then ins_fix (Nd (Nd s p RB_BLACK t) g RB_RED (paint RB_BLACK u)) k
      else (case t of
              Nd l e x r \<Rightarrow> plug (Nd (Nd s p c l) e RB_BLACK (Nd r g RB_RED u)) k
            | Lf \<Rightarrow> Lf))"
| "ins_fix t (FR s p c # FR u g d # k) =
     (if c \<noteq> RB_RED then plug t (FR s p c # FR u g d # k)
      else if is_red_tree u then ins_fix (Nd (paint RB_BLACK u) g RB_RED (Nd s p RB_BLACK t)) k
      else plug (Nd (Nd u g RB_RED s) p RB_BLACK t) k)"
| "ins_fix t (FL p c s # FR u g d # k) =
     (if c \<noteq> RB_RED then plug t (FL p c s # FR u g d # k)
      else if is_red_tree u then ins_fix (Nd (paint RB_BLACK u) g RB_RED (Nd t p RB_BLACK s)) k
      else (case t of
              Nd l e x r \<Rightarrow> plug (Nd (Nd u g RB_RED l) e RB_BLACK (Nd r p c s)) k
            | Lf \<Rightarrow> Lf))"
| "ins_fix t k = plug t k"

section \<open>One iteration\<close>

lemma focus_paint:
  assumes "focus h t k" "rootp t = Ref a"
  shows "focus (setc a c' h) (paint c' t) k"
  using assms by (cases t) (auto intro: focus_setc)

text \<open>Recolouring a node and its two children.\<close>

lemma recolour:
  assumes "focus h (Nd l g d r) k" "rootp l = Ref a" "rootp r = Ref b"
  shows "focus (setc g z (setc b y (setc a x h))) (Nd (paint x l) g z (paint y r)) k"
proof -
  have "focus h l (FL g d r # k)" using assms(1) by (simp add: focus_move)
  from focus_paint [OF this assms(2)] have "focus (setc a x h) r (FR (paint x l) g d # k)"
    by (simp add: focus_move)
  from focus_paint [OF this assms(3)] have "focus (setc b y (setc a x h)) (Nd (paint x l) g d (paint y r)) k"
    by (simp add: focus_move)
  then show ?thesis by (rule focus_setc)
qed

lemma setc_commute: "a \<noteq> b \<Longrightarrow> setc a x (setc b y h) = setc b y (setc a x h)"
  by (simp add: setc_def fun_upd_twist)

lemma focus_neq:
  assumes "focus h (Nd l a c r) k"
  shows "rootp l \<noteq> Ref a" "rootp r \<noteq> Ref a" "l \<noteq> Lf \<Longrightarrow> rootp l \<noteq> rootp r"
  using assms by (cases l; cases r; auto simp: focus_alt)+

lemma insert_color_left_red:
  assumes f: "focus h (Nd (Nd pl p RB_RED pr) g d u) k" and u: "is_red_tree u"
  shows "\<exists>h'. insert_color_left elm (Ref p) (Ref g) h = Some (Ref g, h')
    \<and> focus h' (Nd (Nd pl p RB_BLACK pr) g RB_RED (paint RB_BLACK u)) k"
proof -
  obtain b where b: "rootp u = Ref b" using u by (cases u) auto
  have "focus h u (FR (Nd pl p RB_RED pr) g d # k)" using f by (simp add: focus_move)
  from is_red_focus [OF this] u b have "is_red h (Ref b) = Some True" by simp
  moreover have "b \<noteq> p" using focus_neq(3) [OF f] b by auto
  ultimately show ?thesis
    using focus_read(2) [OF f] b recolour [OF f _ b, of p RB_RED RB_BLACK RB_BLACK]
    by (auto simp: insert_color_left_def RB_SET_BLACKRED_def setc_commute [of p b])
qed

lemma insert_color_right_red:
  assumes f: "focus h (Nd u g d (Nd pl p RB_RED pr)) k" and u: "is_red_tree u"
  shows "\<exists>h'. insert_color_right elm (Ref p) (Ref g) h = Some (Ref g, h')
    \<and> focus h' (Nd (paint RB_BLACK u) g RB_RED (Nd pl p RB_BLACK pr)) k"
proof -
  obtain b where b: "rootp u = Ref b" using u by (cases u) auto
  have "focus h u (FL g d (Nd pl p RB_RED pr) # k)" using f by (simp add: focus_move)
  from is_red_focus [OF this] u b have "is_red h (Ref b) = Some True" by simp
  then show ?thesis
    using focus_read(1) [OF f] b recolour [OF f b, of p RB_RED RB_BLACK RB_BLACK]
    by (auto simp: insert_color_right_def RB_SET_BLACKRED_def)
qed

text \<open>The black uncle: at most two rotations.\<close>

lemma blackred_rotate_right:
  assumes f: "focus h (Nd (Nd l p c s) g d u) k"
  shows "\<exists>h1 h'. RB_SET_BLACKRED (Ref p) (Ref g) h = Some h1
    \<and> RB_ROTATE_RIGHT (Ref g) h1 = Some (Ref p, h')
    \<and> focus h' (Nd l p RB_BLACK (Nd s g RB_RED u)) k"
proof -
  have "focus h (Nd l p c s) (FL g d u # k)" using f by (simp add: focus_move)
  from focus_setc [OF this] have "focus (setc p RB_BLACK h) (Nd (Nd l p RB_BLACK s) g d u) k"
    by (simp add: focus_move)
  from rotate_right_focus [OF focus_setc [OF this]] show ?thesis
    by (auto simp: RB_SET_BLACKRED_def)
qed

lemma blackred_rotate_left:
  assumes f: "focus h (Nd u g d (Nd s p c r)) k"
  shows "\<exists>h1 h'. RB_SET_BLACKRED (Ref p) (Ref g) h = Some h1
    \<and> RB_ROTATE_LEFT (Ref g) h1 = Some (Ref p, h')
    \<and> focus h' (Nd (Nd u g RB_RED s) p RB_BLACK r) k"
proof -
  have "focus h (Nd s p c r) (FR u g d # k)" using f by (simp add: focus_move)
  from focus_setc [OF this] have "focus (setc p RB_BLACK h) (Nd u g d (Nd s p RB_BLACK r)) k"
    by (simp add: focus_move)
  from rotate_left_focus [OF focus_setc [OF this]] show ?thesis
    by (auto simp: RB_SET_BLACKRED_def)
qed

lemma insert_color_left_outer:
  assumes f: "focus h (Nd (Nd (Nd l e x r) p c s) g d u) k" and u: "\<not> is_red_tree u"
  shows "\<exists>h'. insert_color_left (Ref e) (Ref p) (Ref g) h = Some (Ref e, h')
    \<and> focus h' (Nd (Nd l e x r) p RB_BLACK (Nd s g RB_RED u)) k"
proof -
  have "focus h u (FR (Nd (Nd l e x r) p c s) g d # k)" using f by (simp add: focus_move)
  from is_red_focus [OF this] u have red: "is_red h (rootp u) = Some False" by simp
  have fp: "focus h (Nd (Nd l e x r) p c s) (FL g d u # k)" using f by (simp add: focus_move)
  have "rootp s \<noteq> Ref e" using focus_neq(3) [OF fp] by auto
  then show ?thesis
    using red focus_read(2) [OF f] focus_read(2) [OF fp] blackred_rotate_right [OF f]
    by (auto simp: insert_color_left_def)
qed

lemma insert_color_left_inner:
  assumes f: "focus h (Nd (Nd s p c (Nd l e x r)) g d u) k" and u: "\<not> is_red_tree u"
  shows "\<exists>h'. insert_color_left (Ref e) (Ref p) (Ref g) h = Some (Ref p, h')
    \<and> focus h' (Nd (Nd s p c l) e RB_BLACK (Nd r g RB_RED u)) k"
proof -
  have "focus h u (FR (Nd s p c (Nd l e x r)) g d # k)" using f by (simp add: focus_move)
  from is_red_focus [OF this] u have red: "is_red h (rootp u) = Some False" by simp
  have fp: "focus h (Nd s p c (Nd l e x r)) (FL g d u # k)" using f by (simp add: focus_move)
  obtain h1 where h1: "RB_ROTATE_LEFT (Ref p) h = Some (Ref e, h1)"
      "focus h1 (Nd (Nd (Nd s p c l) e x r) g d u) k"
    using rotate_left_focus [OF fp] by (auto simp: focus_move)
  show ?thesis
    using red focus_read(2) [OF f] focus_read(2) [OF fp] h1(1) blackred_rotate_right [OF h1(2)]
    by (auto simp: insert_color_left_def)
qed

lemma insert_color_right_outer:
  assumes f: "focus h (Nd u g d (Nd s p c (Nd l e x r))) k" and u: "\<not> is_red_tree u"
  shows "\<exists>h'. insert_color_right (Ref e) (Ref p) (Ref g) h = Some (Ref e, h')
    \<and> focus h' (Nd (Nd u g RB_RED s) p RB_BLACK (Nd l e x r)) k"
proof -
  have "focus h u (FL g d (Nd s p c (Nd l e x r)) # k)" using f by (simp add: focus_move)
  from is_red_focus [OF this] u have red: "is_red h (rootp u) = Some False" by simp
  have fp: "focus h (Nd s p c (Nd l e x r)) (FR u g d # k)" using f by (simp add: focus_move)
  have "rootp s \<noteq> Ref e" using focus_neq(3) [OF fp] by (cases s) auto
  then show ?thesis
    using red focus_read(1) [OF f] focus_read(1) [OF fp] blackred_rotate_left [OF f]
    by (auto simp: insert_color_right_def)
qed

lemma insert_color_right_inner:
  assumes f: "focus h (Nd u g d (Nd (Nd l e x r) p c s)) k" and u: "\<not> is_red_tree u"
  shows "\<exists>h'. insert_color_right (Ref e) (Ref p) (Ref g) h = Some (Ref p, h')
    \<and> focus h' (Nd (Nd u g RB_RED l) e RB_BLACK (Nd r p c s)) k"
proof -
  have "focus h u (FL g d (Nd (Nd l e x r) p c s) # k)" using f by (simp add: focus_move)
  from is_red_focus [OF this] u have red: "is_red h (rootp u) = Some False" by simp
  have fp: "focus h (Nd (Nd l e x r) p c s) (FR u g d # k)" using f by (simp add: focus_move)
  obtain h1 where h1: "RB_ROTATE_RIGHT (Ref p) h = Some (Ref e, h1)"
      "focus h1 (Nd u g d (Nd l e x (Nd r p c s))) k"
    using rotate_right_focus [OF fp] by (auto simp: focus_move)
  show ?thesis
    using red focus_read(1) [OF f] focus_read(1) [OF fp] h1(1) blackred_rotate_left [OF h1(2)]
    by (auto simp: insert_color_right_def)
qed

section \<open>The loop\<close>

fun frame_color :: "frame \<Rightarrow> int" where
  "frame_color (FL a c r) = c"
| "frame_color (FR l a c) = c"

definition root_not_red :: "ctx \<Rightarrow> bool" where
  "root_not_red k \<longleftrightarrow> k \<noteq> [] \<longrightarrow> frame_color (last k) \<noteq> RB_RED"

lemma insert_color_exit:
  assumes "focus h (Nd l e x r) k" "k = [] \<or> frame_color (hd k) \<noteq> RB_RED"
  shows "insert_color_loop (Ref e) h = Some h"
proof -
  have "is_red h (parent_of k) = Some False"
    using assms by (cases k rule: parent_of.cases) (auto simp: is_red_def focus_def)
  then show ?thesis
    using focus_read(3) [OF assms(1)] by (subst insert_color_loop.simps) simp
qed

lemma insert_color_unfold:
  assumes "focus h (Nd l e x r) (f # k')" "frame_color f = RB_RED" "parent_of (f # k') = Ref p"
    and "parent_of k' = Ref g"
  shows "insert_color_loop (Ref e) h = do {
      (elm, h) \<leftarrow> (if Ref p = rbe_left h g then insert_color_left (Ref e) (Ref p) (Ref g) h
        else insert_color_right (Ref e) (Ref p) (Ref g) h);
      insert_color_loop elm h }"
proof -
  have "rbe_parent h e = Ref p" "is_red h (Ref p) = Some True" "rbe_parent h p = Ref g"
    using assms by (cases f; auto simp: is_red_def focus_def)+
  then show ?thesis by (subst insert_color_loop.simps) simp
qed

lemma insert_color_loop_left:
  assumes f: "focus h (Nd l e x r) (f # FL g d u # k)" and c: "frame_color f = RB_RED"
    and p: "parent_of (f # FL g d u # k) = Ref p"
    and s: "insert_color_left (Ref e) (Ref p) (Ref g) h = Some (elm, h')"
    and i: "insert_color_loop elm h' = Some h''"
  shows "insert_color_loop (Ref e) h = Some h''"
proof -
  have "rbe_left h g = Ref p" using f p by (cases f) (auto simp: focus_def)
  then show ?thesis using insert_color_unfold [OF f c p] s i by simp
qed

lemma insert_color_loop_right:
  assumes f: "focus h (Nd l e x r) (f # FR u g d # k)" and c: "frame_color f = RB_RED"
    and p: "parent_of (f # FR u g d # k) = Ref p"
    and s: "insert_color_right (Ref e) (Ref p) (Ref g) h = Some (elm, h')"
    and i: "insert_color_loop elm h' = Some h''"
  shows "insert_color_loop (Ref e) h = Some h''"
proof -
  have "rbe_left h g \<noteq> Ref p"
    using f p by (cases f) (auto simp: focus_alt ctx_addrs_def dest: rootp_in)
  then show ?thesis using insert_color_unfold [OF f c p] s i by simp
qed

lemma insert_fix_LL:
  assumes f0: "focus h t (FL p RB_RED s # FL g d u # k)" and e: "rootp t = Ref e" "is_red_tree t"
    and IH: "\<And>h'. is_red_tree u \<Longrightarrow> focus h' (Nd (Nd t p RB_BLACK s) g RB_RED (paint RB_BLACK u)) k \<Longrightarrow>
      \<exists>h''. insert_color_loop (Ref g) h' = Some h'' \<and>
        repr h'' (ins_fix (Nd (Nd t p RB_BLACK s) g RB_RED (paint RB_BLACK u)) k)"
  shows "\<exists>h'. insert_color_loop (Ref e) h = Some h' \<and> repr h' (ins_fix t (FL p RB_RED s # FL g d u # k))"
proof -
  obtain l r where t: "t = Nd l e RB_RED r" using e by (cases t) auto
  have f: "focus h (Nd (Nd t p RB_RED s) g d u) k" using f0 by (simp add: focus_move)
  note go = insert_color_loop_left [OF f0 [unfolded t], of p]
  show ?thesis
  proof (cases "is_red_tree u")
    case True
    obtain h' where h': "insert_color_left (Ref e) (Ref p) (Ref g) h = Some (Ref g, h')"
        "focus h' (Nd (Nd t p RB_BLACK s) g RB_RED (paint RB_BLACK u)) k"
      using insert_color_left_red [OF f True] by blast
    from IH [OF True h'(2)] show ?thesis using go [OF _ _ h'(1)] True by auto
  next
    case False
    obtain h' where h': "insert_color_left (Ref e) (Ref p) (Ref g) h = Some (Ref e, h')"
        "focus h' (Nd t p RB_BLACK (Nd s g RB_RED u)) k"
      using insert_color_left_outer [OF f [unfolded t] False] t by blast
    have "insert_color_loop (Ref e) h' = Some h'"
      by (rule insert_color_exit [of _ l _ RB_RED r "FL p RB_BLACK (Nd s g RB_RED u) # k"])
        (use h'(2) t in \<open>simp_all add: focus_move\<close>)
    then show ?thesis using go [OF _ _ h'(1)] h'(2) False t by (simp add: focus_repr)
  qed
qed

lemma insert_fix_RL:
  assumes f0: "focus h t (FR s p RB_RED # FL g d u # k)" and e: "rootp t = Ref e" "is_red_tree t"
    and IH: "\<And>h'. is_red_tree u \<Longrightarrow> focus h' (Nd (Nd s p RB_BLACK t) g RB_RED (paint RB_BLACK u)) k \<Longrightarrow>
      \<exists>h''. insert_color_loop (Ref g) h' = Some h'' \<and>
        repr h'' (ins_fix (Nd (Nd s p RB_BLACK t) g RB_RED (paint RB_BLACK u)) k)"
  shows "\<exists>h'. insert_color_loop (Ref e) h = Some h' \<and> repr h' (ins_fix t (FR s p RB_RED # FL g d u # k))"
proof -
  obtain l r where t: "t = Nd l e RB_RED r" using e by (cases t) auto
  have f: "focus h (Nd (Nd s p RB_RED t) g d u) k" using f0 by (simp add: focus_move)
  note go = insert_color_loop_left [OF f0 [unfolded t], of p]
  show ?thesis
  proof (cases "is_red_tree u")
    case True
    obtain h' where h': "insert_color_left (Ref e) (Ref p) (Ref g) h = Some (Ref g, h')"
        "focus h' (Nd (Nd s p RB_BLACK t) g RB_RED (paint RB_BLACK u)) k"
      using insert_color_left_red [OF f True] by blast
    from IH [OF True h'(2)] show ?thesis using go [OF _ _ h'(1)] True by auto
  next
    case False
    obtain h' where h': "insert_color_left (Ref e) (Ref p) (Ref g) h = Some (Ref p, h')"
        "focus h' (Nd (Nd s p RB_RED l) e RB_BLACK (Nd r g RB_RED u)) k"
      using insert_color_left_inner [OF f [unfolded t] False] t by blast
    have "insert_color_loop (Ref p) h' = Some h'"
      by (rule insert_color_exit [of _ s _ RB_RED l "FL e RB_BLACK (Nd r g RB_RED u) # k"])
        (use h'(2) t in \<open>simp_all add: focus_move\<close>)
    then show ?thesis using go [OF _ _ h'(1)] h'(2) False t by (simp add: focus_repr)
  qed
qed

lemma insert_fix_RR:
  assumes f0: "focus h t (FR s p RB_RED # FR u g d # k)" and e: "rootp t = Ref e" "is_red_tree t"
    and IH: "\<And>h'. is_red_tree u \<Longrightarrow> focus h' (Nd (paint RB_BLACK u) g RB_RED (Nd s p RB_BLACK t)) k \<Longrightarrow>
      \<exists>h''. insert_color_loop (Ref g) h' = Some h'' \<and>
        repr h'' (ins_fix (Nd (paint RB_BLACK u) g RB_RED (Nd s p RB_BLACK t)) k)"
  shows "\<exists>h'. insert_color_loop (Ref e) h = Some h' \<and> repr h' (ins_fix t (FR s p RB_RED # FR u g d # k))"
proof -
  obtain l r where t: "t = Nd l e RB_RED r" using e by (cases t) auto
  have f: "focus h (Nd u g d (Nd s p RB_RED t)) k" using f0 by (simp add: focus_move)
  note go = insert_color_loop_right [OF f0 [unfolded t], of p]
  show ?thesis
  proof (cases "is_red_tree u")
    case True
    obtain h' where h': "insert_color_right (Ref e) (Ref p) (Ref g) h = Some (Ref g, h')"
        "focus h' (Nd (paint RB_BLACK u) g RB_RED (Nd s p RB_BLACK t)) k"
      using insert_color_right_red [OF f True] by blast
    from IH [OF True h'(2)] show ?thesis using go [OF _ _ h'(1)] True by auto
  next
    case False
    obtain h' where h': "insert_color_right (Ref e) (Ref p) (Ref g) h = Some (Ref e, h')"
        "focus h' (Nd (Nd u g RB_RED s) p RB_BLACK t) k"
      using insert_color_right_outer [OF f [unfolded t] False] t by blast
    have "insert_color_loop (Ref e) h' = Some h'"
      by (rule insert_color_exit [of _ l _ RB_RED r "FR (Nd u g RB_RED s) p RB_BLACK # k"])
        (use h'(2) t in \<open>simp_all add: focus_move\<close>)
    then show ?thesis using go [OF _ _ h'(1)] h'(2) False t by (simp add: focus_repr)
  qed
qed

lemma insert_fix_LR:
  assumes f0: "focus h t (FL p RB_RED s # FR u g d # k)" and e: "rootp t = Ref e" "is_red_tree t"
    and IH: "\<And>h'. is_red_tree u \<Longrightarrow> focus h' (Nd (paint RB_BLACK u) g RB_RED (Nd t p RB_BLACK s)) k \<Longrightarrow>
      \<exists>h''. insert_color_loop (Ref g) h' = Some h'' \<and>
        repr h'' (ins_fix (Nd (paint RB_BLACK u) g RB_RED (Nd t p RB_BLACK s)) k)"
  shows "\<exists>h'. insert_color_loop (Ref e) h = Some h' \<and> repr h' (ins_fix t (FL p RB_RED s # FR u g d # k))"
proof -
  obtain l r where t: "t = Nd l e RB_RED r" using e by (cases t) auto
  have f: "focus h (Nd u g d (Nd t p RB_RED s)) k" using f0 by (simp add: focus_move)
  note go = insert_color_loop_right [OF f0 [unfolded t], of p]
  show ?thesis
  proof (cases "is_red_tree u")
    case True
    obtain h' where h': "insert_color_right (Ref e) (Ref p) (Ref g) h = Some (Ref g, h')"
        "focus h' (Nd (paint RB_BLACK u) g RB_RED (Nd t p RB_BLACK s)) k"
      using insert_color_right_red [OF f True] by blast
    from IH [OF True h'(2)] show ?thesis using go [OF _ _ h'(1)] True by auto
  next
    case False
    obtain h' where h': "insert_color_right (Ref e) (Ref p) (Ref g) h = Some (Ref p, h')"
        "focus h' (Nd (Nd u g RB_RED l) e RB_BLACK (Nd r p RB_RED s)) k"
      using insert_color_right_inner [OF f [unfolded t] False] t by blast
    have "insert_color_loop (Ref p) h' = Some h'"
      by (rule insert_color_exit [of _ r _ RB_RED s "FR (Nd u g RB_RED l) e RB_BLACK # k"])
        (use h'(2) t in \<open>simp_all add: focus_move\<close>)
    then show ?thesis using go [OF _ _ h'(1)] h'(2) False t by (simp add: focus_repr)
  qed
qed

lemma ins_fix_plug: "k = [] \<or> frame_color (hd k) \<noteq> RB_RED \<Longrightarrow> ins_fix t k = plug t k"
  by (cases "(t, k)" rule: ins_fix.cases) auto

lemma insert_fix_exit:
  assumes "focus h t k" "rootp t = Ref e" "k = [] \<or> frame_color (hd k) \<noteq> RB_RED"
  shows "\<exists>h'. insert_color_loop (Ref e) h = Some h' \<and> repr h' (ins_fix t k)"
proof -
  obtain l x r where t: "t = Nd l e x r" using assms(2) by (auto simp: rootp_eq_Ref)
  have "insert_color_loop (Ref e) h = Some h"
    using assms(1,3) unfolding t by (rule insert_color_exit)
  then show ?thesis using assms(1) ins_fix_plug [OF assms(3)] by (simp add: focus_repr)
qed

lemma insert_color_loop_ok:
  assumes "focus h t k" "rootp t = Ref e" "is_red_tree t" "root_not_red k"
  shows "\<exists>h'. insert_color_loop (Ref e) h = Some h' \<and> repr h' (ins_fix t k)"
  using assms
proof (induction t k arbitrary: h e rule: ins_fix.induct)
  case (1 t p c s g d u k)
  show ?case
  proof (cases "c = RB_RED")
    case True
    show ?thesis
      using "1.prems"(1,2,3,4) unfolding True
      by (intro insert_fix_LL "1.IH") (simp_all add: True root_not_red_def split: if_splits)
  qed (use insert_fix_exit "1.prems" in force)
next
  case (2 t s p c g d u k)
  show ?case
  proof (cases "c = RB_RED")
    case True
    show ?thesis
      using "2.prems"(1,2,3,4) unfolding True
      by (intro insert_fix_RL "2.IH") (simp_all add: True root_not_red_def split: if_splits)
  qed (use insert_fix_exit "2.prems" in force)
next
  case (3 t s p c u g d k)
  show ?case
  proof (cases "c = RB_RED")
    case True
    show ?thesis
      using "3.prems"(1,2,3,4) unfolding True
      by (intro insert_fix_RR "3.IH") (simp_all add: True root_not_red_def split: if_splits)
  qed (use insert_fix_exit "3.prems" in force)
next
  case (4 t p c s u g d k)
  show ?case
  proof (cases "c = RB_RED")
    case True
    show ?thesis
      using "4.prems"(1,2,3,4) unfolding True
      by (intro insert_fix_LR "4.IH") (simp_all add: True root_not_red_def split: if_splits)
  qed (use insert_fix_exit "4.prems" in force)
qed (use insert_fix_exit in \<open>force simp: root_not_red_def\<close>)+

section \<open>The sequence of elements\<close>

lemma inorder_ins_fix: "t \<noteq> Lf \<Longrightarrow> inorder (ins_fix t k) = inorder (plug t k)"
  by (induction t k rule: ins_fix.induct) (auto simp: inorder_plug split: rbt.splits)

lemma ins_fix_not_Lf: "t \<noteq> Lf \<Longrightarrow> ins_fix t k \<noteq> Lf"
  using inorder_ins_fix [of t k] by (cases t) (auto simp: inorder_plug)

lemma RB_INSERT_COLOR_ok:
  assumes "focus h t k" "rootp t = Ref e" "is_red_tree t" "root_not_red k"
  shows "\<exists>h'. RB_INSERT_COLOR (Ref e) h = Some h' \<and> repr h' (paint RB_BLACK (ins_fix t k))"
proof -
  obtain h' where h': "insert_color_loop (Ref e) h = Some h'" "repr h' (ins_fix t k)"
    using insert_color_loop_ok [OF assms] by blast
  have "t \<noteq> Lf" using assms(2) by auto
  then obtain a where a: "rootp (ins_fix t k) = Ref a"
    using ins_fix_not_Lf by (cases "ins_fix t k") auto
  have "rbh_root h' = Ref a" using h'(2) a by (simp add: repr_def focus_def)
  moreover have "repr (setc a RB_BLACK h') (paint RB_BLACK (ins_fix t k))"
    using h'(2) a unfolding repr_def by (rule focus_paint)
  ultimately show ?thesis using h'(1) by (simp add: RB_INSERT_COLOR_def)
qed

section \<open>The descent\<close>

fun descend :: "cmp \<Rightarrow> nat \<Rightarrow> rbt \<Rightarrow> ctx \<Rightarrow> nat + ctx" where
  "descend cmp e Lf k = Inr k"
| "descend cmp e (Nd l a c r) k =
     (if cmp e a < 0 then descend cmp e l (FL a c r # k)
      else if cmp e a > 0 then descend cmp e r (FR l a c # k)
      else Inl a)"

text \<open>The last comparison tells the side of the innermost frame.\<close>

fun side :: "ctx \<Rightarrow> int \<Rightarrow> bool" where
  "side [] v \<longleftrightarrow> True"
| "side (FL a c r # k) v \<longleftrightarrow> v < 0"
| "side (FR l a c # k) v \<longleftrightarrow> \<not> v < 0"

lemma insert_descend_ok:
  assumes "focus h t k" "side k v"
  shows "case descend cmp e t k of
      Inl a \<Rightarrow> insert_descend cmp e (rootp t) (parent_of k) v h = Some (Inl (Ref a))
    | Inr k' \<Rightarrow> (\<exists>v'. insert_descend cmp e (rootp t) (parent_of k) v h = Some (Inr (parent_of k', v'))
        \<and> side k' v')"
  using assms
proof (induction cmp e t k arbitrary: v rule: descend.induct)
  case (1 cmp e k)
  then show ?case by (subst insert_descend.simps) (auto simp: insert_descend.simps)
next
  case (2 cmp e l a c r k)
  note rd = focus_read [OF "2.prems"(1)]
  have fl: "focus h l (FL a c r # k)" and fr: "focus h r (FR l a c # k)"
    using "2.prems"(1) by (simp_all add: focus_move)
  consider "cmp e a < 0" | "cmp e a > 0" | "cmp e a = 0" by linarith
  then show ?case
  proof cases
    case 1
    then show ?thesis
      using "2.IH"(1) [OF 1 fl, of "cmp e a"] rd
      by (simp add: insert_descend.simps [of cmp e "Ref a"] split: sum.splits)
  next
    case 2
    then show ?thesis
      using "2.IH"(2) [OF _ 2 fr, of "cmp e a"] rd
      by (simp add: insert_descend.simps [of cmp e "Ref a"] split: sum.splits)
  next
    case 3
    then show ?thesis by (simp add: insert_descend.simps [of cmp e "Ref a"])
  qed
qed

lemma descend_plug: "descend cmp e t k = Inr k' \<Longrightarrow> plug Lf k' = plug t k"
  by (induction cmp e t k rule: descend.induct) (auto split: if_splits)

lemma root_not_red_plug: "k \<noteq> [] \<Longrightarrow> is_red_tree (plug t k) \<longleftrightarrow> frame_color (last k) = RB_RED"
proof (induction t k rule: plug.induct)
  case (2 t a c r k)
  then show ?case by (cases k) auto
next
  case (3 t l a c k)
  then show ?case by (cases k) auto
qed simp

text \<open>The new node is linked where the descent ended.\<close>

lemma link_new:
  assumes f: "focus h Lf k" and e: "e \<notin> set (inorder (plug Lf k))" and v: "side k v"
  shows "\<exists>h1 h2. RB_SET (Ref e) (parent_of k) h = Some h1
    \<and> (if parent_of k \<noteq> Null
       then if v < 0 then set_LEFT (parent_of k) (Ref e) h1 else set_RIGHT (parent_of k) (Ref e) h1
       else Some (set_root (Ref e) h1)) = Some h2
    \<and> focus h2 (Nd Lf e RB_RED Lf) k"
proof -
  let ?h1 = "setc e RB_RED (setl e Null (setr e Null (setp e (parent_of k) h)))"
  have e': "e \<notin> set (ctx_addrs k)" using e by (auto simp: inorder_plug ctx_addrs_def)
  note f' = f [unfolded focus_alt]
  have "repc ?h1 Null k" using f' e' by simp
  from repc_relink [OF this, of "Ref e"] have "focus (relink k (Ref e) ?h1) (Nd Lf e RB_RED Lf) k"
    using f' e' by (simp add: focus_alt)
  moreover have "(if parent_of k \<noteq> Null
      then if v < 0 then set_LEFT (parent_of k) (Ref e) ?h1 else set_RIGHT (parent_of k) (Ref e) ?h1
      else Some (set_root (Ref e) ?h1)) = Some (relink k (Ref e) ?h1)"
    using v by (cases k rule: parent_of.cases) auto
  moreover have "RB_SET (Ref e) (parent_of k) h = Some ?h1" by (simp add: RB_SET_def)
  ultimately show ?thesis by blast
qed

definition rb_insert :: "cmp \<Rightarrow> nat \<Rightarrow> rbt \<Rightarrow> rbt" where
  "rb_insert cmp e t = (case descend cmp e t [] of
     Inl a \<Rightarrow> t
   | Inr k \<Rightarrow> paint RB_BLACK (ins_fix (Nd Lf e RB_RED Lf) k))"

lemma RB_INSERT_repr:
  assumes r: "repr h t" and b: "\<not> is_red_tree t" and e: "e \<notin> set (inorder t)"
  shows "\<exists>h'. RB_INSERT cmp e h =
      Some (case descend cmp e t [] of Inl a \<Rightarrow> Ref a | Inr k \<Rightarrow> Null, h')
    \<and> repr h' (rb_insert cmp e t) \<and> (\<forall>a. descend cmp e t [] = Inl a \<longrightarrow> h' = h)"
proof -
  have f: "focus h t []" using r by (simp add: repr_def)
  have root: "RB_ROOT h = rootp t" using f by (simp add: focus_def RB_ROOT_def)
  note d = insert_descend_ok [OF f, of 0 cmp e]
  show ?thesis
  proof (cases "descend cmp e t []")
    case (Inl a)
    then show ?thesis using d r root by (simp add: RB_INSERT_def rb_insert_def)
  next
    case (Inr k)
    obtain v where v: "insert_descend cmp e (rootp t) Null 0 h = Some (Inr (parent_of k, v))" "side k v"
      using d Inr by auto
    have p: "plug Lf k = t" using descend_plug [OF Inr] by simp
    have fk: "focus h Lf k" using r p by (simp add: focus_repr)
    have rn: "root_not_red k" using root_not_red_plug [of k Lf] p b by (auto simp: root_not_red_def)
    obtain h1 h2 where h: "RB_SET (Ref e) (parent_of k) h = Some h1"
        "(if parent_of k \<noteq> Null
          then if v < 0 then set_LEFT (parent_of k) (Ref e) h1 else set_RIGHT (parent_of k) (Ref e) h1
          else Some (set_root (Ref e) h1)) = Some h2"
        "focus h2 (Nd Lf e RB_RED Lf) k"
      using link_new [OF fk _ v(2), of e] e p by auto
    obtain h' where "RB_INSERT_COLOR (Ref e) h2 = Some h'"
        "repr h' (paint RB_BLACK (ins_fix (Nd Lf e RB_RED Lf) k))"
      using RB_INSERT_COLOR_ok [OF h(3) _ _ rn] by auto
    then show ?thesis
      using v(1) h(1,2) Inr root by (simp add: RB_INSERT_def rb_insert_def)
  qed
qed

section \<open>Insertion into the sorted sequence\<close>

lemma descend_sorted:
  assumes "total_cmp cmp" "cmp_sorted cmp (inorder (plug t k))" "between cmp e (ctx_left k) (ctx_right k)"
  shows "case descend cmp e t k of
      Inl a \<Rightarrow> lookup cmp e (inorder (plug t k)) = Ref a
    | Inr k' \<Rightarrow> between cmp e (ctx_left k') (ctx_right k')"
  using assms
proof (induction cmp e t k rule: descend.induct)
  case (1 cmp e k)
  then show ?case by simp
next
  case (2 cmp e l a c r k)
  let ?L = "ctx_left k @ inorder l" and ?R = "inorder r @ ctx_right k"
  have s: "cmp_sorted cmp (?L @ a # ?R)" using "2.prems"(2) by (simp add: inorder_plug)
  consider "cmp e a < 0" | "cmp e a > 0" | "cmp e a = 0" by linarith
  then show ?case
  proof cases
    case 1
    then have "between cmp e (ctx_left (FL a c r # k)) (ctx_right (FL a c r # k))"
      using between_below [OF "2.prems"(1) s, of e] "2.prems"(3) by (auto simp: between_def)
    then show ?thesis using "2.IH"(1) [OF 1 "2.prems"(1)] "2.prems"(2) 1
      by (simp split: sum.splits)
  next
    case 2
    then have "between cmp e (ctx_left (FR l a c # k)) (ctx_right (FR l a c # k))"
      using between_above [OF "2.prems"(1) s, of e] "2.prems"(3) by (auto simp: between_def)
    then show ?thesis using "2.IH"(2) [OF _ 2 "2.prems"(1)] "2.prems"(2) 2
      by (simp split: sum.splits)
  next
    case 3
    then show ?thesis using lookup_hit [OF "2.prems"(1) s 3] by (simp add: inorder_plug)
  qed
qed

lemma rb_insert_sorted:
  assumes "total_cmp cmp" "cmp_sorted cmp (inorder t)"
  shows "(case descend cmp e t [] of Inl a \<Rightarrow> Ref a | Inr k \<Rightarrow> Null) = fst (abs_insert cmp e (inorder t))"
    and "inorder (rb_insert cmp e t) = snd (abs_insert cmp e (inorder t))"
    and "cmp_sorted cmp (inorder (rb_insert cmp e t))"
proof -
  have d: "case descend cmp e t [] of Inl a \<Rightarrow> lookup cmp e (inorder t) = Ref a
    | Inr k' \<Rightarrow> between cmp e (ctx_left k') (ctx_right k')"
    using descend_sorted [OF assms(1), of t "[]" e] assms(2)
    by (simp add: between_def split: sum.splits)
  have "(case descend cmp e t [] of Inl a \<Rightarrow> Ref a | Inr k \<Rightarrow> Null) = fst (abs_insert cmp e (inorder t))
    \<and> inorder (rb_insert cmp e t) = snd (abs_insert cmp e (inorder t))
    \<and> cmp_sorted cmp (inorder (rb_insert cmp e t))"
  proof (cases "descend cmp e t []")
    case (Inl a)
    then show ?thesis using d assms(2) by (simp add: abs_insert_def rb_insert_def)
  next
    case (Inr k)
    then have b: "between cmp e (ctx_left k) (ctx_right k)" using d by simp
    have t: "inorder t = ctx_left k @ ctx_right k"
      using descend_plug [OF Inr] inorder_plug [of Lf k] by simp
    have i: "inorder (rb_insert cmp e t) = ctx_left k @ e # ctx_right k"
      using inorder_ins_fix [of "Nd Lf e RB_RED Lf" k] Inr by (simp add: rb_insert_def inorder_plug)
    show ?thesis
      unfolding i using lookup_miss [OF b] insort_between [OF b] Inr t
        sorted_between [OF assms(1) _ b] assms(2)
      by (simp add: abs_insert_def)
  qed
  then show "(case descend cmp e t [] of Inl a \<Rightarrow> Ref a | Inr k \<Rightarrow> Null) = fst (abs_insert cmp e (inorder t))"
    "inorder (rb_insert cmp e t) = snd (abs_insert cmp e (inorder t))"
    "cmp_sorted cmp (inorder (rb_insert cmp e t))" by blast+
qed

end
