(* ===== verification/Rb_Balance.thy ===== *)
theory Rb_Balance
  imports Rb_Insert
begin

text \<open>
  The red-black invariant: every path from a node to a leaf has the same number of black
  nodes (\<open>invh\<close>), and no red node has a red child (\<open>invc\<close>); both also for
  contexts. It holds of the empty tree, insertion keeps it, and it bounds the height by
  \<open>2 lg (n + 1)\<close>.
\<close>

section \<open>Invariants\<close>

fun bh :: "rbt \<Rightarrow> nat" where
  "bh Lf = 0"
| "bh (Nd l a c r) = (if c = RB_RED then bh l else Suc (bh l))"

fun invh :: "rbt \<Rightarrow> bool" where
  "invh Lf = True"
| "invh (Nd l a c r) \<longleftrightarrow> bh l = bh r \<and> invh l \<and> invh r"

fun invc :: "rbt \<Rightarrow> bool" where
  "invc Lf = True"
| "invc (Nd l a c r) \<longleftrightarrow> invc l \<and> invc r
     \<and> (c = RB_BLACK \<or> c = RB_RED \<and> is_black_tree l \<and> is_black_tree r)"

definition rb_inv :: "rbt \<Rightarrow> bool" where
  "rb_inv t \<longleftrightarrow> invc t \<and> invh t \<and> is_black_tree t"

text \<open>A context whose hole has the black height \<open>n\<close>.\<close>

fun invhk :: "ctx \<Rightarrow> nat \<Rightarrow> bool" where
  "invhk [] n = True"
| "invhk (FL a c r # k) n \<longleftrightarrow> invh r \<and> bh r = n \<and> invhk k (if c = RB_RED then n else Suc n)"
| "invhk (FR l a c # k) n \<longleftrightarrow> invh l \<and> bh l = n \<and> invhk k (if c = RB_RED then n else Suc n)"

definition top_black :: "ctx \<Rightarrow> bool" where
  "top_black k \<longleftrightarrow> k = [] \<or> frame_color (hd k) = RB_BLACK"

fun invck :: "ctx \<Rightarrow> bool" where
  "invck [] = True"
| "invck (FL a c r # k) \<longleftrightarrow> invc r \<and> invck k
     \<and> (c = RB_BLACK \<or> c = RB_RED \<and> is_black_tree r \<and> top_black k)"
| "invck (FR l a c # k) \<longleftrightarrow> invc l \<and> invck k
     \<and> (c = RB_BLACK \<or> c = RB_RED \<and> is_black_tree l \<and> top_black k)"

lemma top_black_simps [simp]:
  "top_black []" "top_black (f # k) \<longleftrightarrow> frame_color f = RB_BLACK"
  by (simp_all add: top_black_def)

lemma invh_plug: "invh (plug t k) \<longleftrightarrow> invh t \<and> invhk k (bh t)"
  by (induction t k rule: plug.induct) auto

lemma invc_plug: "invc (plug t k) \<longleftrightarrow> invc t \<and> invck k \<and> (is_black_tree t \<or> top_black k)"
  by (induction t k rule: plug.induct) auto

lemma bh_paint_red: "is_black_tree t \<Longrightarrow> t \<noteq> Lf \<Longrightarrow> bh t = Suc (bh (paint 1 t))"
  by (cases t) auto

lemma invh_paint [simp]: "invh (paint c t) = invh t"
  by (cases t) auto

lemma invc_paint_black [simp]: "invc t \<Longrightarrow> invc (paint 0 t)"
  by (cases t) auto

lemma is_black_paint_black [simp]: "is_black_tree (paint 0 t)"
  by (cases t) auto

lemma bh_paint_black: "is_red_tree t \<Longrightarrow> bh (paint 0 t) = Suc (bh t)"
  by (cases t) auto

lemma invc_red_iff: "invc t \<Longrightarrow> is_red_tree t \<longleftrightarrow> \<not> is_black_tree t"
  by (cases t) auto

lemma invc_plug_single:
  "invc t \<Longrightarrow> invck [f] \<Longrightarrow> frame_color f \<noteq> 1 \<Longrightarrow> invc (paint 0 (plug t [f]))"
  by (cases f) auto

section \<open>Insertion\<close>

lemma invh_ins_fix:
  "is_red_tree t \<Longrightarrow> invh t \<Longrightarrow> invhk k (bh t) \<Longrightarrow> invck k \<Longrightarrow> invh (ins_fix t k)"
  by (induction t k rule: ins_fix.induct)
    (auto simp: invh_plug bh_paint_black split: rbt.splits)

lemma invc_ins_fix:
  "is_red_tree t \<Longrightarrow> invc t \<Longrightarrow> invck k \<Longrightarrow> root_not_red k \<Longrightarrow> invc (paint RB_BLACK (ins_fix t k))"
  by (induction t k rule: ins_fix.induct)
    (auto simp: invc_plug root_not_red_def invc_red_iff intro: invc_plug_single
      split: if_splits rbt.splits)

lemma rb_inv_insert:
  assumes "rb_inv t"
  shows "rb_inv (rb_insert cmp e t)"
proof (cases "descend cmp e t []")
  case (Inl a)
  then show ?thesis using assms by (simp add: rb_insert_def)
next
  case (Inr k)
  have p: "plug Lf k = t" using descend_plug [OF Inr] by simp
  have "root_not_red k"
    using root_not_red_plug [of k Lf] p assms by (cases t) (auto simp: root_not_red_def rb_inv_def)
  moreover have "invck k" "invhk k 0"
    using assms p invc_plug [of Lf k] invh_plug [of Lf k] by (auto simp: rb_inv_def)
  ultimately show ?thesis
    using invc_ins_fix [of "Nd Lf e RB_RED Lf" k] invh_ins_fix [of "Nd Lf e RB_RED Lf" k] Inr
    by (simp add: rb_insert_def rb_inv_def)
qed

section \<open>Height\<close>

fun height :: "rbt \<Rightarrow> nat" where
  "height Lf = 0"
| "height (Nd l a c r) = Suc (max (height l) (height r))"

lemma height_bh: "invc t \<Longrightarrow> invh t \<Longrightarrow> height t \<le> (if is_black_tree t then 2 * bh t else 2 * bh t + 1)"
proof (induction t)
  case Lf
  then show ?case by simp
next
  case (Nd l a c r)
  then have "height l \<le> (if is_black_tree l then 2 * bh l else 2 * bh l + 1)"
    "height r \<le> (if is_black_tree r then 2 * bh l else 2 * bh l + 1)" "bh r = bh l" by auto
  then show ?case using Nd.prems by (auto split: if_splits)
qed

lemma bh_size: "invh t \<Longrightarrow> 2 ^ bh t \<le> length (inorder t) + 1"
proof (induction t)
  case Lf
  then show ?case by simp
next
  case (Nd l a c r)
  then have "2 ^ bh l \<le> length (inorder l) + 1" "2 ^ bh l \<le> length (inorder r) + 1" by auto
  then show ?case by auto
qed

lemma rb_height:
  assumes "rb_inv t"
  shows "2 ^ height t \<le> (length (inorder t) + 1)\<^sup>2"
proof -
  have "(2::nat) ^ height t \<le> 2 ^ (2 * bh t)"
    using height_bh [of t] assms by (intro power_increasing) (auto simp: rb_inv_def)
  also have "\<dots> = (2 ^ bh t)\<^sup>2" by (simp add: power_mult mult.commute)
  also have "\<dots> \<le> (length (inorder t) + 1)\<^sup>2"
    using bh_size [of t] assms by (intro power_mono) (auto simp: rb_inv_def)
  finally show ?thesis .
qed

end
