(* ===== verification/Rb_Remove.thy ===== *)
theory Rb_Remove
  imports Rb_Balance
begin

text \<open>
  \<open>RB_REMOVE_COLOR\<close> and \<open>RB_REMOVE\<close> on the represented trees: the loop of
  \<open>RB_REMOVE_COLOR\<close> is the function \<open>del_fix\<close> on the subtree that lacks a black
  node and its context.
\<close>

section \<open>The repair as a function\<close>

text \<open>The subtree \<open>t\<close> on one side of \<open>p\<close> lacks a black node, the sibling on the
  other side is black: \<open>Inl\<close> a subtree that still lacks one, \<open>Inr\<close> one that
  does not.\<close>

fun sib_left :: "rbt \<Rightarrow> nat \<Rightarrow> int \<Rightarrow> rbt \<Rightarrow> rbt + rbt" where
  "sib_left t p c (Nd l a d r) =
     (if is_black_tree l \<and> is_black_tree r then Inl (Nd t p c (Nd l a RB_RED r))
      else if is_black_tree r
      then (case l of
              Nd ll la lc lr \<Rightarrow> Inr (Nd (Nd t p RB_BLACK ll) la c (Nd lr a RB_BLACK r))
            | Lf \<Rightarrow> Inr Lf)
      else Inr (Nd (Nd t p RB_BLACK l) a c (paint RB_BLACK r)))"
| "sib_left t p c Lf = Inr Lf"

fun sib_right :: "rbt \<Rightarrow> nat \<Rightarrow> int \<Rightarrow> rbt \<Rightarrow> rbt + rbt" where
  "sib_right t p c (Nd l a d r) =
     (if is_black_tree l \<and> is_black_tree r then Inl (Nd (Nd l a RB_RED r) p c t)
      else if is_black_tree l
      then (case r of
              Nd rl ra rc rr \<Rightarrow> Inr (Nd (Nd l a RB_BLACK rl) ra c (Nd rr p RB_BLACK t))
            | Lf \<Rightarrow> Inr Lf)
      else Inr (Nd (paint RB_BLACK l) a c (Nd r p RB_BLACK t)))"
| "sib_right t p c Lf = Inr Lf"

fun del_fix :: "rbt \<Rightarrow> ctx \<Rightarrow> rbt" where
  "del_fix t [] = paint RB_BLACK t"
| "del_fix t (FL p c s # k) =
     (if \<not> is_black_tree t then plug (paint RB_BLACK t) (FL p c s # k)
      else case s of
        Lf \<Rightarrow> Lf
      | Nd sl sa sc sr \<Rightarrow>
          if sc = RB_RED
          then (case sib_left t p RB_RED sl of
                  Inl t' \<Rightarrow> plug (paint RB_BLACK t') (FL sa RB_BLACK sr # k)
                | Inr t' \<Rightarrow> paint RB_BLACK (plug t' (FL sa RB_BLACK sr # k)))
          else (case sib_left t p c s of
                  Inl t' \<Rightarrow> del_fix t' k
                | Inr t' \<Rightarrow> paint RB_BLACK (plug t' k)))"
| "del_fix t (FR s p c # k) =
     (if \<not> is_black_tree t then plug (paint RB_BLACK t) (FR s p c # k)
      else case s of
        Lf \<Rightarrow> Lf
      | Nd sl sa sc sr \<Rightarrow>
          if sc = RB_RED
          then (case sib_right t p RB_RED sr of
                  Inl t' \<Rightarrow> plug (paint RB_BLACK t') (FR sl sa RB_BLACK # k)
                | Inr t' \<Rightarrow> paint RB_BLACK (plug t' (FR sl sa RB_BLACK # k)))
          else (case sib_right t p c s of
                  Inl t' \<Rightarrow> del_fix t' k
                | Inr t' \<Rightarrow> paint RB_BLACK (plug t' k)))"

section \<open>One iteration\<close>

lemma set_COLOR_paint:
  assumes "focus h t k"
  shows "\<exists>h'. (if rootp t \<noteq> Null then set_COLOR (rootp t) c h else Some h) = Some h'
    \<and> focus h' (paint c t) k"
  using assms by (cases t) (auto intro: focus_setc)

text \<open>The last rotation: the far child of the sibling is painted black and the sibling
  takes the place and the colour of the parent.\<close>

lemma remove_final_left:
  assumes f: "focus h (Nd t p c (Nd l a d r)) k"
  shows "\<exists>h1 h2 h'. set_COLOR (Ref a) c h = Some h1 \<and> set_COLOR (Ref p) RB_BLACK h1 = Some h2
    \<and> rbe_right h2 a = rootp r \<and> rbe_color h p = c
    \<and> (\<exists>h3. (if rootp r \<noteq> Null then set_COLOR (rootp r) RB_BLACK h2 else Some h2) = Some h3
      \<and> RB_ROTATE_LEFT (Ref p) h3 = Some (Ref a, h'))
    \<and> focus h' (Nd (Nd t p RB_BLACK l) a c (paint RB_BLACK r)) k"
proof -
  have "focus h (Nd l a d r) (FR t p c # k)" using f by (simp add: focus_move)
  from focus_setc [OF this, of c] have "focus (setc a c h) (Nd t p c (Nd l a c r)) k"
    by (simp add: focus_move)
  from focus_setc [OF this, of RB_BLACK]
  have f1: "focus (setc p RB_BLACK (setc a c h)) (Nd t p RB_BLACK (Nd l a c r)) k" .
  then have f2: "focus (setc p RB_BLACK (setc a c h)) r (FR l a c # FR t p RB_BLACK # k)"
    by (simp add: focus_move)
  obtain h3 where h3: "(if rootp r \<noteq> Null then set_COLOR (rootp r) RB_BLACK (setc p RB_BLACK (setc a c h))
      else Some (setc p RB_BLACK (setc a c h))) = Some h3"
      "focus h3 (Nd t p RB_BLACK (Nd l a c (paint RB_BLACK r))) k"
    using set_COLOR_paint [OF f2, of RB_BLACK] by (auto simp: focus_move)
  have "rbe_right (setc p RB_BLACK (setc a c h)) a = rootp r"
    using f1 by (simp add: focus_def)
  then show ?thesis
    using rotate_left_focus [OF h3(2)] h3(1) focus_read(4) [OF f] by (auto simp del: set_sel)
qed

lemma remove_final_right:
  assumes f: "focus h (Nd (Nd l a d r) p c t) k"
  shows "\<exists>h1 h2 h'. set_COLOR (Ref a) c h = Some h1 \<and> set_COLOR (Ref p) RB_BLACK h1 = Some h2
    \<and> rbe_left h2 a = rootp l \<and> rbe_color h p = c
    \<and> (\<exists>h3. (if rootp l \<noteq> Null then set_COLOR (rootp l) RB_BLACK h2 else Some h2) = Some h3
      \<and> RB_ROTATE_RIGHT (Ref p) h3 = Some (Ref a, h'))
    \<and> focus h' (Nd (paint RB_BLACK l) a c (Nd r p RB_BLACK t)) k"
proof -
  have "focus h (Nd l a d r) (FL p c t # k)" using f by (simp add: focus_move)
  from focus_setc [OF this, of c] have "focus (setc a c h) (Nd (Nd l a c r) p c t) k"
    by (simp add: focus_move)
  from focus_setc [OF this, of RB_BLACK]
  have f1: "focus (setc p RB_BLACK (setc a c h)) (Nd (Nd l a c r) p RB_BLACK t) k" .
  then have f2: "focus (setc p RB_BLACK (setc a c h)) l (FL a c r # FL p RB_BLACK t # k)"
    by (simp add: focus_move)
  obtain h3 where h3: "(if rootp l \<noteq> Null then set_COLOR (rootp l) RB_BLACK (setc p RB_BLACK (setc a c h))
      else Some (setc p RB_BLACK (setc a c h))) = Some h3"
      "focus h3 (Nd (Nd (paint RB_BLACK l) a c r) p RB_BLACK t) k"
    using set_COLOR_paint [OF f2, of RB_BLACK] by (auto simp: focus_move)
  have "rbe_left (setc p RB_BLACK (setc a c h)) a = rootp l"
    using f1 by (simp add: focus_def)
  then show ?thesis
    using rotate_right_focus [OF h3(2)] h3(1) focus_read(4) [OF f] by (auto simp del: set_sel)
qed

lemma sibling_read_left:
  assumes "focus h (Nd t p c (Nd l a d r)) k"
  shows "rbe_left h a = rootp l" "rbe_right h a = rootp r" "rbe_right h p = Ref a"
    "is_black h (rootp l) = Some (is_black_tree l)" "is_black h (rootp r) = Some (is_black_tree r)"
    "rbe_color h p = c" "rbe_color h a = d" "rbe_parent h p = parent_of k"
proof -
  have "focus h l (FL a d r # FR t p c # k)" "focus h r (FR l a d # FR t p c # k)"
    using assms by (simp_all add: focus_move)
  then show "is_black h (rootp l) = Some (is_black_tree l)" "is_black h (rootp r) = Some (is_black_tree r)"
    by (simp_all add: is_black_focus)
qed (use assms in \<open>simp_all add: focus_def\<close>)

lemma sibling_read_right:
  assumes "focus h (Nd (Nd l a d r) p c t) k"
  shows "rbe_left h a = rootp l" "rbe_right h a = rootp r" "rbe_left h p = Ref a"
    "is_black h (rootp l) = Some (is_black_tree l)" "is_black h (rootp r) = Some (is_black_tree r)"
    "rbe_color h p = c" "rbe_color h a = d" "rbe_parent h p = parent_of k"
proof -
  have "focus h l (FL a d r # FL p c t # k)" "focus h r (FR l a d # FL p c t # k)"
    using assms by (simp_all add: focus_move)
  then show "is_black h (rootp l) = Some (is_black_tree l)" "is_black h (rootp r) = Some (is_black_tree r)"
    by (simp_all add: is_black_focus)
qed (use assms in \<open>simp_all add: focus_def\<close>)

text \<open>What an iteration does, as a value of \<open>sib_left\<close> or \<open>sib_right\<close>.\<close>

definition sib_post :: "rbt + rbt \<Rightarrow> nat \<Rightarrow> ctx \<Rightarrow> (ptr \<times> ptr + ptr) \<times> rb_heap \<Rightarrow> bool" where
  "sib_post s p k res \<longleftrightarrow> (case s of
     Inl t \<Rightarrow> fst res = Inl (Ref p, parent_of k) \<and> focus (snd res) t k
   | Inr t \<Rightarrow> fst res = Inr (RB_ROOT (snd res)) \<and> focus (snd res) t k)"

lemma remove_sibling_left_tail:
  assumes f: "focus h (Nd t p c (Nd l a d r)) k"
  shows "\<exists>res. do {
      c \<leftarrow> RB_COLOR h (Ref p);
      h \<leftarrow> set_COLOR (Ref a) c h;
      h \<leftarrow> set_COLOR (Ref p) RB_BLACK h;
      r \<leftarrow> RB_RIGHT h (Ref a);
      h \<leftarrow> (if r \<noteq> Null then set_COLOR r RB_BLACK h else Some h);
      (tmp, h) \<leftarrow> RB_ROTATE_LEFT (Ref p) h;
      Some (Inr (RB_ROOT h), h) } = Some res
    \<and> sib_post (Inr (Nd (Nd t p RB_BLACK l) a c (paint RB_BLACK r))) p k res"
proof -
  obtain h1 h2 h3 h' where h: "set_COLOR (Ref a) c h = Some h1" "set_COLOR (Ref p) RB_BLACK h1 = Some h2"
      "rbe_right h2 a = rootp r" "rbe_color h p = c"
      "(if rootp r \<noteq> Null then set_COLOR (rootp r) RB_BLACK h2 else Some h2) = Some h3"
      "RB_ROTATE_LEFT (Ref p) h3 = Some (Ref a, h')"
      "focus h' (Nd (Nd t p RB_BLACK l) a c (paint RB_BLACK r)) k"
    using remove_final_left [OF f] by blast
  show ?thesis
    by (intro exI [of _ "(Inr (RB_ROOT h'), h')"])
      (use h in \<open>auto simp: sib_post_def simp del: set_COLOR.simps split: if_splits\<close>)
qed

lemma remove_sibling_right_tail:
  assumes f: "focus h (Nd (Nd l a d r) p c t) k"
  shows "\<exists>res. do {
      c \<leftarrow> RB_COLOR h (Ref p);
      h \<leftarrow> set_COLOR (Ref a) c h;
      h \<leftarrow> set_COLOR (Ref p) RB_BLACK h;
      l \<leftarrow> RB_LEFT h (Ref a);
      h \<leftarrow> (if l \<noteq> Null then set_COLOR l RB_BLACK h else Some h);
      (tmp, h) \<leftarrow> RB_ROTATE_RIGHT (Ref p) h;
      Some (Inr (RB_ROOT h), h) } = Some res
    \<and> sib_post (Inr (Nd (paint RB_BLACK l) a c (Nd r p RB_BLACK t))) p k res"
proof -
  obtain h1 h2 h3 h' where h: "set_COLOR (Ref a) c h = Some h1" "set_COLOR (Ref p) RB_BLACK h1 = Some h2"
      "rbe_left h2 a = rootp l" "rbe_color h p = c"
      "(if rootp l \<noteq> Null then set_COLOR (rootp l) RB_BLACK h2 else Some h2) = Some h3"
      "RB_ROTATE_RIGHT (Ref p) h3 = Some (Ref a, h')"
      "focus h' (Nd (paint RB_BLACK l) a c (Nd r p RB_BLACK t)) k"
    using remove_final_right [OF f] by blast
  show ?thesis
    by (intro exI [of _ "(Inr (RB_ROOT h'), h')"])
      (use h in \<open>auto simp: sib_post_def simp del: set_COLOR.simps split: if_splits\<close>)
qed

lemma remove_sibling_left_ok:
  assumes f: "focus h (Nd t p c (Nd l a d r)) k"
  shows "\<exists>res. remove_sibling_left (Ref p) (Ref a) h = Some res
    \<and> sib_post (sib_left t p c (Nd l a d r)) p k res"
proof -
  note rd = sibling_read_left [OF f]
  consider (both) "is_black_tree l" "is_black_tree r"
    | (near) ll la lc lr where "l = Nd ll la lc lr" "\<not> is_black_tree l" "is_black_tree r"
    | (far) "\<not> is_black_tree r" by (cases l) auto
  then show ?thesis
  proof cases
    case both
    have "focus h (Nd l a d r) (FR t p c # k)" using f by (simp add: focus_move)
    from focus_setc [OF this, of RB_RED] have "focus (setc a RB_RED h) (Nd t p c (Nd l a RB_RED r)) k"
      by (simp add: focus_move)
    then show ?thesis using both rd by (simp add: remove_sibling_left_def sib_post_def)
  next
    case near
    have "focus h (Nd ll la lc lr) (FL a d r # FR t p c # k)" using f near(1) by (simp add: focus_move)
    from focus_setc [OF this, of RB_BLACK]
    have "focus (setc la RB_BLACK h) (Nd (Nd ll la RB_BLACK lr) a d r) (FR t p c # k)"
      by (simp add: focus_move)
    from rotate_right_focus [OF focus_setc [OF this, of RB_RED]] obtain h1 where
      h1: "RB_ROTATE_RIGHT (Ref a) (setc a RB_RED (setc la RB_BLACK h)) = Some (Ref la, h1)"
        "focus h1 (Nd t p c (Nd ll la RB_BLACK (Nd lr a RB_RED r))) k"
      by (auto simp: focus_move)
    have "rbe_right h1 p = Ref la" using h1(2) by (simp add: focus_def)
    then have "remove_sibling_left (Ref p) (Ref a) h = do {
      c \<leftarrow> RB_COLOR h1 (Ref p);
      h \<leftarrow> set_COLOR (Ref la) c h1;
      h \<leftarrow> set_COLOR (Ref p) RB_BLACK h;
      r \<leftarrow> RB_RIGHT h (Ref la);
      h \<leftarrow> (if r \<noteq> Null then set_COLOR r RB_BLACK h else Some h);
      (tmp, h) \<leftarrow> RB_ROTATE_LEFT (Ref p) h;
      Some (Inr (RB_ROOT h), h) }"
      using near rd h1(1) by (simp add: remove_sibling_left_def)
    then show ?thesis using remove_sibling_left_tail [OF h1(2)] near by simp
  next
    case far
    then have "remove_sibling_left (Ref p) (Ref a) h = do {
      c \<leftarrow> RB_COLOR h (Ref p);
      h \<leftarrow> set_COLOR (Ref a) c h;
      h \<leftarrow> set_COLOR (Ref p) RB_BLACK h;
      r \<leftarrow> RB_RIGHT h (Ref a);
      h \<leftarrow> (if r \<noteq> Null then set_COLOR r RB_BLACK h else Some h);
      (tmp, h) \<leftarrow> RB_ROTATE_LEFT (Ref p) h;
      Some (Inr (RB_ROOT h), h) }"
      using rd by (simp add: remove_sibling_left_def)
    then show ?thesis using remove_sibling_left_tail [OF f] far by simp
  qed
qed

lemma remove_sibling_right_ok:
  assumes f: "focus h (Nd (Nd l a d r) p c t) k"
  shows "\<exists>res. remove_sibling_right (Ref p) (Ref a) h = Some res
    \<and> sib_post (sib_right t p c (Nd l a d r)) p k res"
proof -
  note rd = sibling_read_right [OF f]
  consider (both) "is_black_tree l" "is_black_tree r"
    | (near) rl ra rc rr where "r = Nd rl ra rc rr" "\<not> is_black_tree r" "is_black_tree l"
    | (far) "\<not> is_black_tree l" by (cases r) auto
  then show ?thesis
  proof cases
    case both
    have "focus h (Nd l a d r) (FL p c t # k)" using f by (simp add: focus_move)
    from focus_setc [OF this, of RB_RED] have "focus (setc a RB_RED h) (Nd (Nd l a RB_RED r) p c t) k"
      by (simp add: focus_move)
    then show ?thesis using both rd by (simp add: remove_sibling_right_def sib_post_def)
  next
    case near
    have "focus h (Nd rl ra rc rr) (FR l a d # FL p c t # k)" using f near(1) by (simp add: focus_move)
    from focus_setc [OF this, of RB_BLACK]
    have "focus (setc ra RB_BLACK h) (Nd l a d (Nd rl ra RB_BLACK rr)) (FL p c t # k)"
      by (simp add: focus_move)
    from rotate_left_focus [OF focus_setc [OF this, of RB_RED]] obtain h1 where
      h1: "RB_ROTATE_LEFT (Ref a) (setc a RB_RED (setc ra RB_BLACK h)) = Some (Ref ra, h1)"
        "focus h1 (Nd (Nd (Nd l a RB_RED rl) ra RB_BLACK rr) p c t) k"
      by (auto simp: focus_move)
    have "rbe_left h1 p = Ref ra" using h1(2) by (simp add: focus_def)
    then have "remove_sibling_right (Ref p) (Ref a) h = do {
      c \<leftarrow> RB_COLOR h1 (Ref p);
      h \<leftarrow> set_COLOR (Ref ra) c h1;
      h \<leftarrow> set_COLOR (Ref p) RB_BLACK h;
      l \<leftarrow> RB_LEFT h (Ref ra);
      h \<leftarrow> (if l \<noteq> Null then set_COLOR l RB_BLACK h else Some h);
      (tmp, h) \<leftarrow> RB_ROTATE_RIGHT (Ref p) h;
      Some (Inr (RB_ROOT h), h) }"
      using near rd h1(1) by (simp add: remove_sibling_right_def)
    then show ?thesis using remove_sibling_right_tail [OF h1(2)] near by simp
  next
    case far
    then have "remove_sibling_right (Ref p) (Ref a) h = do {
      c \<leftarrow> RB_COLOR h (Ref p);
      h \<leftarrow> set_COLOR (Ref a) c h;
      h \<leftarrow> set_COLOR (Ref p) RB_BLACK h;
      l \<leftarrow> RB_LEFT h (Ref a);
      h \<leftarrow> (if l \<noteq> Null then set_COLOR l RB_BLACK h else Some h);
      (tmp, h) \<leftarrow> RB_ROTATE_RIGHT (Ref p) h;
      Some (Inr (RB_ROOT h), h) }"
      using rd by (simp add: remove_sibling_right_def)
    then show ?thesis using remove_sibling_right_tail [OF f] far by simp
  qed
qed

text \<open>A red sibling is first rotated away.\<close>

lemma remove_color_left_ok:
  assumes f: "focus h (Nd t p c (Nd sl sa sc sr)) k" and s: "sc = RB_RED \<Longrightarrow> sl \<noteq> Lf"
  shows "if sc = RB_RED
    then \<exists>res. remove_color_left (Ref p) h = Some res
      \<and> sib_post (sib_left t p RB_RED sl) p (FL sa RB_BLACK sr # k) res
    else \<exists>res. remove_color_left (Ref p) h = Some res
      \<and> sib_post (sib_left t p c (Nd sl sa sc sr)) p k res"
proof (cases "sc = RB_RED")
  case True
  then obtain l a d r where sl: "sl = Nd l a d r" using s by (cases sl) auto
  obtain h1 h' where h: "RB_SET_BLACKRED (Ref sa) (Ref p) h = Some h1"
      "RB_ROTATE_LEFT (Ref p) h1 = Some (Ref sa, h')"
      "focus h' (Nd (Nd t p RB_RED sl) sa RB_BLACK sr) k"
    using blackred_rotate_left [OF f] by blast
  then have f': "focus h' (Nd t p RB_RED (Nd l a d r)) (FL sa RB_BLACK sr # k)"
    by (simp add: focus_move sl)
  have "remove_color_left (Ref p) h = remove_sibling_left (Ref p) (Ref a) h'"
    using sibling_read_left [OF f] sibling_read_left(3) [OF f'] h(1,2) True
    by (simp add: remove_color_left_def)
  then show ?thesis using remove_sibling_left_ok [OF f'] True sl by simp
next
  case False
  have "remove_color_left (Ref p) h = remove_sibling_left (Ref p) (Ref sa) h"
    using sibling_read_left [OF f] False by (simp add: remove_color_left_def)
  then show ?thesis using remove_sibling_left_ok [OF f] False by simp
qed

lemma remove_color_right_ok:
  assumes f: "focus h (Nd (Nd sl sa sc sr) p c t) k" and s: "sc = RB_RED \<Longrightarrow> sr \<noteq> Lf"
  shows "if sc = RB_RED
    then \<exists>res. remove_color_right (Ref p) h = Some res
      \<and> sib_post (sib_right t p RB_RED sr) p (FR sl sa RB_BLACK # k) res
    else \<exists>res. remove_color_right (Ref p) h = Some res
      \<and> sib_post (sib_right t p c (Nd sl sa sc sr)) p k res"
proof (cases "sc = RB_RED")
  case True
  then obtain l a d r where sr: "sr = Nd l a d r" using s by (cases sr) auto
  obtain h1 h' where h: "RB_SET_BLACKRED (Ref sa) (Ref p) h = Some h1"
      "RB_ROTATE_RIGHT (Ref p) h1 = Some (Ref sa, h')"
      "focus h' (Nd sl sa RB_BLACK (Nd sr p RB_RED t)) k"
    using blackred_rotate_right [OF f] by blast
  then have f': "focus h' (Nd (Nd l a d r) p RB_RED t) (FR sl sa RB_BLACK # k)"
    by (simp add: focus_move sr)
  have "remove_color_right (Ref p) h = remove_sibling_right (Ref p) (Ref a) h'"
    using sibling_read_right [OF f] sibling_read_right(3) [OF f'] h(1,2) True
    by (simp add: remove_color_right_def)
  then show ?thesis using remove_sibling_right_ok [OF f'] True sr by simp
next
  case False
  have "remove_color_right (Ref p) h = remove_sibling_right (Ref p) (Ref sa) h"
    using sibling_read_right [OF f] False by (simp add: remove_color_right_def)
  then show ?thesis using remove_sibling_right_ok [OF f] False by simp
qed

section \<open>The loop\<close>

lemma rootp_plug_in: "k \<noteq> [] \<Longrightarrow> \<exists>a. rootp (plug t k) = Ref a \<and> a \<in> set (ctx_addrs k)"
proof (induction t k rule: plug.induct)
  case (2 t b c r k)
  then show ?case by (cases "k = []") (auto simp: ctx_addrs_def)
next
  case (3 t l b c k)
  then show ?case by (cases "k = []") (auto simp: ctx_addrs_def)
qed simp

lemma focus_not_root:
  assumes "focus h t k" "k \<noteq> []"
  shows "rootp t \<noteq> RB_ROOT h"
proof -
  obtain a where "rootp (plug t k) = Ref a" "a \<in> set (ctx_addrs k)"
    using rootp_plug_in [OF assms(2)] by blast
  then show ?thesis
    using assms(1) focus_root [OF assms(1)] by (cases t) (auto simp: focus_alt RB_ROOT_def)
qed

lemma remove_color_exit:
  assumes f: "focus h t k" and x: "k = [] \<or> \<not> is_black_tree t"
  shows "\<exists>h'. RB_REMOVE_COLOR (parent_of k) (rootp t) h = Some h' \<and> repr h' (plug (paint RB_BLACK t) k)"
proof -
  have "k = [] \<Longrightarrow> rootp t = RB_ROOT h" using f by (simp add: focus_def RB_ROOT_def)
  then have "remove_color_loop (parent_of k) (rootp t) h = Some (rootp t, h)"
    using x is_black_focus [OF f] by (subst remove_color_loop.simps) auto
  then show ?thesis
    using set_COLOR_paint [OF f, of RB_BLACK] by (auto simp: RB_REMOVE_COLOR_def focus_repr)
qed

lemma remove_color_loop_step:
  assumes f: "focus h t k" and x: "k \<noteq> []" "is_black_tree t"
    and p: "parent_of k = Ref p"
    and s: "(if rbe_left h p = rootp t then remove_color_left (Ref p) h
      else remove_color_right (Ref p) h) = Some res"
  shows "RB_REMOVE_COLOR (parent_of k) (rootp t) h = (case fst res of
      Inl (elm, parent) \<Rightarrow> RB_REMOVE_COLOR parent elm (snd res)
    | Inr elm \<Rightarrow> if elm \<noteq> Null then set_COLOR elm RB_BLACK (snd res) else Some (snd res))"
proof -
  have "remove_color_loop (Ref p) (rootp t) h = (case fst res of
      Inl (elm, parent) \<Rightarrow> remove_color_loop parent elm (snd res)
    | Inr elm \<Rightarrow> Some (elm, snd res))"
    using focus_not_root [OF f x(1)] is_black_focus [OF f] x(2) s
    by (subst remove_color_loop.simps) (auto split: prod.splits sum.splits)
  then show ?thesis using p by (auto simp: RB_REMOVE_COLOR_def split: sum.splits)
qed

lemma paint_root:
  assumes f: "focus h t k" and t: "plug t k \<noteq> Lf"
  shows "\<exists>h'. (if RB_ROOT h \<noteq> Null then set_COLOR (RB_ROOT h) RB_BLACK h else Some h) = Some h'
    \<and> repr h' (paint RB_BLACK (plug t k))"
proof -
  have "focus h (plug t k) []" using f by (simp add: focus_repr)
  from set_COLOR_paint [OF this, of RB_BLACK] show ?thesis
    using focus_root [OF f] by (auto simp: RB_ROOT_def repr_def)
qed

text \<open>How an iteration leads on, or ends the loop.\<close>

lemma remove_color_done:
  assumes f: "focus h t k" and x: "k \<noteq> []" "is_black_tree t" and p: "parent_of k = Ref p"
    and s: "(if rbe_left h p = rootp t then remove_color_left (Ref p) h
      else remove_color_right (Ref p) h) = Some res"
    and post: "sib_post (Inr t') p k' res" and t': "t' \<noteq> Lf"
  shows "\<exists>h'. RB_REMOVE_COLOR (parent_of k) (rootp t) h = Some h'
    \<and> repr h' (paint RB_BLACK (plug t' k'))"
proof -
  have "plug t' k' \<noteq> Lf" using t' by (induction t' k' rule: plug.induct) auto
  then show ?thesis
    using remove_color_loop_step [OF f x p s] post paint_root [of "snd res" t' k']
    by (simp add: sib_post_def)
qed

lemma remove_color_next:
  assumes f: "focus h t k" and x: "k \<noteq> []" "is_black_tree t" and p: "parent_of k = Ref p"
    and s: "(if rbe_left h p = rootp t then remove_color_left (Ref p) h
      else remove_color_right (Ref p) h) = Some res"
    and post: "sib_post (Inl t') p k' res" and t': "rootp t' = Ref p"
  shows "RB_REMOVE_COLOR (parent_of k) (rootp t) h = RB_REMOVE_COLOR (parent_of k') (rootp t') (snd res)
    \<and> focus (snd res) t' k'"
  using remove_color_loop_step [OF f x p s] post t' by (simp add: sib_post_def)

lemma sib_left_cases:
  obtains (go_on) l a d r where "s = Nd l a d r" "sib_left t p c s = Inl (Nd t p c (Nd l a RB_RED r))"
      "is_black_tree l" "is_black_tree r"
  | (stop) t' where "sib_left t p c s = Inr t'" "s \<noteq> Lf \<Longrightarrow> t' \<noteq> Lf"
proof (cases s)
  case Lf
  then show ?thesis using that(2) by simp
next
  case (Nd l a d r)
  show ?thesis
  proof (cases "is_black_tree l \<and> is_black_tree r")
    case True
    then show ?thesis using that(1) [OF Nd] Nd by simp
  next
    case False
    have "\<exists>t'. sib_left t p c s = Inr t' \<and> t' \<noteq> Lf" using False Nd by (cases l; cases r) auto
    then show ?thesis using that(2) by blast
  qed
qed

lemma sib_right_cases:
  obtains (go_on) l a d r where "s = Nd l a d r" "sib_right t p c s = Inl (Nd (Nd l a RB_RED r) p c t)"
      "is_black_tree l" "is_black_tree r"
  | (stop) t' where "sib_right t p c s = Inr t'" "s \<noteq> Lf \<Longrightarrow> t' \<noteq> Lf"
proof (cases s)
  case Lf
  then show ?thesis using that(2) by simp
next
  case (Nd l a d r)
  show ?thesis
  proof (cases "is_black_tree l \<and> is_black_tree r")
    case True
    then show ?thesis using that(1) [OF Nd] Nd by simp
  next
    case False
    have "\<exists>t'. sib_right t p c s = Inr t' \<and> t' \<noteq> Lf" using False Nd by (cases l; cases r) auto
    then show ?thesis using that(2) by blast
  qed
qed

lemma remove_fix_left_red:
  assumes f0: "focus h t (FL p c s # k)" and bt: "is_black_tree t" and near: "sl \<noteq> Lf"
    and s: "s = Nd sl sa RB_RED sr"
  shows "\<exists>h'. RB_REMOVE_COLOR (parent_of (FL p c s # k)) (rootp t) h = Some h'
    \<and> repr h' (del_fix t (FL p c s # k))"
proof -
  have f: "focus h (Nd t p c (Nd sl sa RB_RED sr)) k" using f0 s by (simp add: focus_move)
  have side: "rbe_left h p = rootp t" using f by (simp add: focus_def)
  obtain res where res: "remove_color_left (Ref p) h = Some res"
      "sib_post (sib_left t p RB_RED sl) p (FL sa RB_BLACK sr # k) res"
    using remove_color_left_ok [OF f] near by auto
  show ?thesis
  proof (cases rule: sib_left_cases [of sl t p RB_RED])
    case (go_on l a d r)
    then have "RB_REMOVE_COLOR (parent_of (FL p c s # k)) (rootp t) h =
        RB_REMOVE_COLOR (Ref sa) (Ref p) (snd res)"
      and "focus (snd res) (Nd t p RB_RED (Nd l a RB_RED r)) (FL sa RB_BLACK sr # k)"
      using remove_color_next [OF f0 _ bt, of p res] res side by auto
    then show ?thesis
      using remove_color_exit [of "snd res" "Nd t p RB_RED (Nd l a RB_RED r)" "FL sa RB_BLACK sr # k"]
        bt s go_on(2) by simp
  next
    case (stop t')
    then show ?thesis
      using remove_color_done [OF f0 _ bt, of p res t' "FL sa RB_BLACK sr # k"] res side near bt s by simp
  qed
qed

lemma remove_fix_left_black:
  assumes f0: "focus h t (FL p c s # k)" and bt: "is_black_tree t"
    and inv: "invh t" "invhk (FL p c s # k) (Suc (bh t))"
    and s: "s = Nd sl sa sc sr" "sc \<noteq> RB_RED"
    and IH: "\<And>t' h'. sib_left t p c s = Inl t' \<Longrightarrow> focus h' t' k \<Longrightarrow> invh t' \<Longrightarrow>
      invhk k (Suc (bh t')) \<Longrightarrow>
      \<exists>h''. RB_REMOVE_COLOR (parent_of k) (rootp t') h' = Some h'' \<and> repr h'' (del_fix t' k)"
  shows "\<exists>h'. RB_REMOVE_COLOR (parent_of (FL p c s # k)) (rootp t) h = Some h'
    \<and> repr h' (del_fix t (FL p c s # k))"
proof -
  have f: "focus h (Nd t p c (Nd sl sa sc sr)) k" using f0 s by (simp add: focus_move)
  have side: "rbe_left h p = rootp t" using f by (simp add: focus_def)
  obtain res where res: "remove_color_left (Ref p) h = Some res" "sib_post (sib_left t p c s) p k res"
    using remove_color_left_ok [OF f] s by auto
  show ?thesis
  proof (cases rule: sib_left_cases [of s t p c])
    case (go_on l a d r)
    let ?t = "Nd t p c (Nd l a RB_RED r)"
    have "RB_REMOVE_COLOR (parent_of (FL p c s # k)) (rootp t) h =
        RB_REMOVE_COLOR (parent_of k) (rootp ?t) (snd res)" "focus (snd res) ?t k"
      using remove_color_next [OF f0 _ bt, of p res ?t k] res side go_on by auto
    moreover have "invh ?t" "invhk k (Suc (bh ?t))" using inv go_on s by auto
    ultimately show ?thesis using IH [OF go_on(2), of "snd res"] bt s go_on(2) by simp
  next
    case (stop t')
    then show ?thesis
      using remove_color_done [OF f0 _ bt, of p res t' k] res side bt s by simp
  qed
qed

lemma remove_fix_right_red:
  assumes f0: "focus h t (FR s p c # k)" and bt: "is_black_tree t" and near: "sr \<noteq> Lf"
    and s: "s = Nd sl sa RB_RED sr"
  shows "\<exists>h'. RB_REMOVE_COLOR (parent_of (FR s p c # k)) (rootp t) h = Some h'
    \<and> repr h' (del_fix t (FR s p c # k))"
proof -
  have f: "focus h (Nd (Nd sl sa RB_RED sr) p c t) k" using f0 s by (simp add: focus_move)
  have side: "rbe_left h p \<noteq> rootp t" using focus_neq(3) [OF f] focus_read(1) [OF f] by auto
  obtain res where res: "remove_color_right (Ref p) h = Some res"
      "sib_post (sib_right t p RB_RED sr) p (FR sl sa RB_BLACK # k) res"
    using remove_color_right_ok [OF f] near by auto
  show ?thesis
  proof (cases rule: sib_right_cases [of sr t p RB_RED])
    case (go_on l a d r)
    then have "RB_REMOVE_COLOR (parent_of (FR s p c # k)) (rootp t) h =
        RB_REMOVE_COLOR (Ref sa) (Ref p) (snd res)"
      and "focus (snd res) (Nd (Nd l a RB_RED r) p RB_RED t) (FR sl sa RB_BLACK # k)"
      using remove_color_next [OF f0 _ bt, of p res] res side by auto
    then show ?thesis
      using remove_color_exit [of "snd res" "Nd (Nd l a RB_RED r) p RB_RED t" "FR sl sa RB_BLACK # k"]
        bt s go_on(2) by simp
  next
    case (stop t')
    then show ?thesis
      using remove_color_done [OF f0 _ bt, of p res t' "FR sl sa RB_BLACK # k"] res side near bt s by simp
  qed
qed

lemma remove_fix_right_black:
  assumes f0: "focus h t (FR s p c # k)" and bt: "is_black_tree t"
    and inv: "invh t" "invhk (FR s p c # k) (Suc (bh t))"
    and s: "s = Nd sl sa sc sr" "sc \<noteq> RB_RED"
    and IH: "\<And>t' h'. sib_right t p c s = Inl t' \<Longrightarrow> focus h' t' k \<Longrightarrow> invh t' \<Longrightarrow>
      invhk k (Suc (bh t')) \<Longrightarrow>
      \<exists>h''. RB_REMOVE_COLOR (parent_of k) (rootp t') h' = Some h'' \<and> repr h'' (del_fix t' k)"
  shows "\<exists>h'. RB_REMOVE_COLOR (parent_of (FR s p c # k)) (rootp t) h = Some h'
    \<and> repr h' (del_fix t (FR s p c # k))"
proof -
  have f: "focus h (Nd (Nd sl sa sc sr) p c t) k" using f0 s by (simp add: focus_move)
  have side: "rbe_left h p \<noteq> rootp t" using focus_neq(3) [OF f] focus_read(1) [OF f] by auto
  obtain res where res: "remove_color_right (Ref p) h = Some res" "sib_post (sib_right t p c s) p k res"
    using remove_color_right_ok [OF f] s by auto
  show ?thesis
  proof (cases rule: sib_right_cases [of s t p c])
    case (go_on l a d r)
    let ?t = "Nd (Nd l a RB_RED r) p c t"
    have "RB_REMOVE_COLOR (parent_of (FR s p c # k)) (rootp t) h =
        RB_REMOVE_COLOR (parent_of k) (rootp ?t) (snd res)" "focus (snd res) ?t k"
      using remove_color_next [OF f0 _ bt, of p res ?t k] res side go_on by auto
    moreover have "invh ?t" "invhk k (Suc (bh ?t))" using inv go_on s by auto
    ultimately show ?thesis using IH [OF go_on(2), of "snd res"] bt s go_on(2) by simp
  next
    case (stop t')
    then show ?thesis
      using remove_color_done [OF f0 _ bt, of p res t' k] res side bt s by simp
  qed
qed

lemma remove_color_ok:
  assumes "focus h t k" "invh t" "invhk k (Suc (bh t))"
  shows "\<exists>h'. RB_REMOVE_COLOR (parent_of k) (rootp t) h = Some h' \<and> repr h' (del_fix t k)"
  using assms
proof (induction t k arbitrary: h rule: del_fix.induct)
  case (1 t)
  then show ?case using remove_color_exit [of h t "[]"] by simp
next
  case (2 t p c s k)
  obtain sl sa sc sr where s: "s = Nd sl sa sc sr" using "2.prems"(3) by (cases s) auto
  consider "\<not> is_black_tree t" | "is_black_tree t" "sc = RB_RED" | "is_black_tree t" "sc \<noteq> RB_RED"
    by blast
  then show ?case
  proof cases
    case 1
    then show ?thesis using remove_color_exit [OF "2.prems"(1)] by simp
  next
    case red: 2
    have "sl \<noteq> Lf" using "2.prems"(3) s red by auto
    then show ?thesis using remove_fix_left_red [OF "2.prems"(1) red(1)] s red by blast
  next
    case black: 3
    show ?thesis
      by (rule remove_fix_left_black [OF "2.prems"(1) black(1) "2.prems"(2,3) s black(2)])
        (rule "2.IH", use black s in auto)
  qed
next
  case (3 t s p c k)
  obtain sl sa sc sr where s: "s = Nd sl sa sc sr" using "3.prems"(3) by (cases s) auto
  consider "\<not> is_black_tree t" | "is_black_tree t" "sc = RB_RED" | "is_black_tree t" "sc \<noteq> RB_RED"
    by blast
  then show ?case
  proof cases
    case 1
    then show ?thesis using remove_color_exit [OF "3.prems"(1)] by simp
  next
    case red: 2
    have "sr \<noteq> Lf" using "3.prems"(3) s red by auto
    then show ?thesis using remove_fix_right_red [OF "3.prems"(1) red(1)] s red by blast
  next
    case black: 3
    show ?thesis
      by (rule remove_fix_right_black [OF "3.prems"(1) black(1) "3.prems"(2,3) s black(2)])
        (rule "3.IH", use black s in auto)
  qed
qed

section \<open>The repaired tree\<close>

lemma inorder_sib:
  "s \<noteq> Lf \<Longrightarrow> inorder (case sib_left t p c s of Inl u \<Rightarrow> u | Inr u \<Rightarrow> u) = inorder t @ p # inorder s"
  "s \<noteq> Lf \<Longrightarrow> inorder (case sib_right t p c s of Inl u \<Rightarrow> u | Inr u \<Rightarrow> u) = inorder s @ p # inorder t"
  by (cases s; auto split: rbt.splits)+

lemma inorder_del_fix:
  "invh t \<Longrightarrow> invhk k (Suc (bh t)) \<Longrightarrow> inorder (del_fix t k) = inorder (plug t k)"
proof (induction t k rule: del_fix.induct)
  case (1 t)
  then show ?case by simp
next
  case (2 t p c s k)
  then obtain sl sa sc sr where s: "s = Nd sl sa sc sr" by (cases s) auto
  show ?case
  proof (cases "sc = RB_RED")
    case True
    then have "sl \<noteq> Lf" using "2.prems"(2) s by auto
    then show ?thesis
      using inorder_sib(1) [of sl t p RB_RED] s True by (auto simp: inorder_plug split: sum.splits)
  next
    case False
    show ?thesis
    proof (cases rule: sib_left_cases [of s t p c])
      case (go_on l a d r)
      then show ?thesis
        using "2.IH" [OF _ s False go_on(2)] "2.prems" s False
        by (auto simp: inorder_plug split: if_splits)
    next
      case (stop t')
      then show ?thesis
        using inorder_sib(1) [of s t p c] s False by (auto simp: inorder_plug simp del: sib_left.simps)
    qed
  qed
next
  case (3 t s p c k)
  then obtain sl sa sc sr where s: "s = Nd sl sa sc sr" by (cases s) auto
  show ?case
  proof (cases "sc = RB_RED")
    case True
    then have "sr \<noteq> Lf" using "3.prems"(2) s by auto
    then show ?thesis
      using inorder_sib(2) [of sr t p RB_RED] s True by (auto simp: inorder_plug split: sum.splits)
  next
    case False
    show ?thesis
    proof (cases rule: sib_right_cases [of s t p c])
      case (go_on l a d r)
      then show ?thesis
        using "3.IH" [OF _ s False go_on(2)] "3.prems" s False
        by (auto simp: inorder_plug split: if_splits)
    next
      case (stop t')
      then show ?thesis
        using inorder_sib(2) [of s t p c] s False by (auto simp: inorder_plug simp del: sib_right.simps)
    qed
  qed
qed

text \<open>Balance around the hole: with \<open>n\<close> the black height the other subtrees expect, a
  finished repair has it and a pending one is one short.\<close>

lemma sib_left_inv:
  assumes "invh t" "invc t" "is_black_tree t" "invh s" "invc s" "is_black_tree s"
    "bh s = Suc (bh t)" "c = RB_BLACK \<or> c = RB_RED"
  shows "case sib_left t p c s of
      Inl u \<Rightarrow> invh u \<and> invc (paint RB_BLACK u) \<and> bh u = (if c = RB_RED then bh t else Suc (bh t))
    | Inr u \<Rightarrow> invh u \<and> invc u \<and> bh u = (if c = RB_RED then Suc (bh t) else Suc (Suc (bh t)))
        \<and> (c = RB_BLACK \<longrightarrow> is_black_tree u)"
  using assms by (cases s) (auto simp: bh_paint_black invc_red_iff split: rbt.splits)

lemma sib_right_inv:
  assumes "invh t" "invc t" "is_black_tree t" "invh s" "invc s" "is_black_tree s"
    "bh s = Suc (bh t)" "c = RB_BLACK \<or> c = RB_RED"
  shows "case sib_right t p c s of
      Inl u \<Rightarrow> invh u \<and> invc (paint RB_BLACK u) \<and> bh u = (if c = RB_RED then bh t else Suc (bh t))
    | Inr u \<Rightarrow> invh u \<and> invc u \<and> bh u = (if c = RB_RED then Suc (bh t) else Suc (Suc (bh t)))
        \<and> (c = RB_BLACK \<longrightarrow> is_black_tree u)"
  using assms by (cases s) (auto simp: bh_paint_black invc_red_iff split: rbt.splits)

lemma rb_inv_plug:
  assumes "invc t" "invh t" "invck k" "invhk k (bh t)" "is_black_tree t \<or> top_black k" "root_not_red k"
    "k = [] \<Longrightarrow> is_black_tree t"
  shows "rb_inv (plug t k)"
proof -
  have inv: "invc (plug t k)" "invh (plug t k)" using assms by (simp_all add: invc_plug invh_plug)
  moreover have "\<not> is_red_tree (plug t k)" if "k \<noteq> []"
    using root_not_red_plug [OF that, of t] assms(6) that by (simp add: root_not_red_def)
  ultimately have "is_black_tree (plug t k)" using assms(7) invc_red_iff [OF inv(1)] by fastforce
  then show ?thesis using inv by (simp add: rb_inv_def)
qed

lemma rb_inv_paint: "invc t \<Longrightarrow> invh t \<Longrightarrow> rb_inv (paint RB_BLACK t)"
  by (simp add: rb_inv_def)

lemma root_not_red_Cons: "root_not_red (f # k) \<Longrightarrow> root_not_red k"
  by (auto simp: root_not_red_def split: if_splits)

lemma root_not_red_swap:
  "root_not_red (f # k) \<Longrightarrow> frame_color g = RB_BLACK \<Longrightarrow> root_not_red (g # k)"
  by (auto simp: root_not_red_def split: if_splits)

lemma del_fix_left_red:
  assumes f: "invh t" "invhk (FL p c s # k) (Suc (bh t))" "invc t" "invck (FL p c s # k)"
      "root_not_red (FL p c s # k)" "is_black_tree t"
    and s: "s = Nd sl sa RB_RED sr"
  shows "rb_inv (del_fix t (FL p c s # k))"
proof -
  have n: "invh sl" "invc sl" "is_black_tree sl" "bh sl = Suc (bh t)" "invc sr" "invh sr"
    "bh sr = Suc (bh t)" "c = RB_BLACK" "invck k" "invhk k (Suc (Suc (bh t)))"
    using f(2,4) s by auto
  have k': "invck (FL sa RB_BLACK sr # k)" "root_not_red (FL sa RB_BLACK sr # k)" "invhk (FL sa RB_BLACK sr # k) (Suc (bh t))"
    using n root_not_red_swap [OF f(5), of "FL sa RB_BLACK sr"] by auto
  note inv = sib_left_inv [OF f(1,3,6) n(1-4), of RB_RED p]
  show ?thesis
  proof (cases "sib_left t p RB_RED sl")
    case (Inl u)
    have "is_red_tree u" using Inl by (cases sl) (auto split: if_splits rbt.splits)
    then have "rb_inv (plug (paint RB_BLACK u) (FL sa RB_BLACK sr # k))"
      using inv Inl k' by (intro rb_inv_plug) (auto simp: bh_paint_black)
    then show ?thesis using f(6) s Inl by simp
  next
    case (Inr u)
    then have "invc (plug u (FL sa RB_BLACK sr # k))" "invh (plug u (FL sa RB_BLACK sr # k))"
      using inv k' by (simp_all add: invc_plug invh_plug)
    then show ?thesis using rb_inv_paint f(6) s Inr by simp
  qed
qed

lemma del_fix_left_black:
  assumes f: "invh t" "invhk (FL p c s # k) (Suc (bh t))" "invc t" "invck (FL p c s # k)"
      "root_not_red (FL p c s # k)" "is_black_tree t"
    and s: "s = Nd sl sa sc sr" "sc \<noteq> RB_RED"
    and IH: "\<And>u. sib_left t p c s = Inl u \<Longrightarrow> invh u \<Longrightarrow> invhk k (Suc (bh u)) \<Longrightarrow>
      invc (paint RB_BLACK u) \<Longrightarrow> invck k \<Longrightarrow> root_not_red k \<Longrightarrow> is_black_tree u \<or> is_red_tree u \<Longrightarrow>
      rb_inv (del_fix u k)"
  shows "rb_inv (del_fix t (FL p c s # k))"
proof -
  have c: "c = RB_BLACK \<or> c = RB_RED" using f(4) by auto
  have n: "invh s" "invc s" "is_black_tree s" "bh s = Suc (bh t)" "invck k"
    "invhk k (if c = RB_RED then Suc (bh t) else Suc (Suc (bh t)))" "c = RB_RED \<Longrightarrow> top_black k"
    using f(2,4) s by auto
  note inv = sib_left_inv [OF f(1,3,6) n(1-4) c, of p]
  show ?thesis
  proof (cases "sib_left t p c s")
    case (Inl u)
    have "is_black_tree u \<or> is_red_tree u" using Inl s c by (auto split: if_splits rbt.splits)
    then have "rb_inv (del_fix u k)"
      using IH [OF Inl] inv Inl n root_not_red_Cons [OF f(5)] by (auto split: if_splits)
    then show ?thesis using f(6) s Inl by simp
  next
    case (Inr u)
    then have "invc (plug u k)" "invh (plug u k)"
      using inv n c by (auto simp: invc_plug invh_plug split: if_splits)
    then show ?thesis using rb_inv_paint f(6) s Inr by simp
  qed
qed

lemma del_fix_right_red:
  assumes f: "invh t" "invhk (FR s p c # k) (Suc (bh t))" "invc t" "invck (FR s p c # k)"
      "root_not_red (FR s p c # k)" "is_black_tree t"
    and s: "s = Nd sl sa RB_RED sr"
  shows "rb_inv (del_fix t (FR s p c # k))"
proof -
  have n: "invh sr" "invc sr" "is_black_tree sr" "bh sr = Suc (bh t)" "invc sl" "invh sl"
    "bh sl = Suc (bh t)" "c = RB_BLACK" "invck k" "invhk k (Suc (Suc (bh t)))"
    using f(2,4) s by auto
  have k': "invck (FR sl sa RB_BLACK # k)" "root_not_red (FR sl sa RB_BLACK # k)" "invhk (FR sl sa RB_BLACK # k) (Suc (bh t))"
    using n root_not_red_swap [OF f(5), of "FR sl sa RB_BLACK"] by auto
  note inv = sib_right_inv [OF f(1,3,6) n(1-4), of RB_RED p]
  show ?thesis
  proof (cases "sib_right t p RB_RED sr")
    case (Inl u)
    have "is_red_tree u" using Inl by (cases sr) (auto split: if_splits rbt.splits)
    then have "rb_inv (plug (paint RB_BLACK u) (FR sl sa RB_BLACK # k))"
      using inv Inl k' by (intro rb_inv_plug) (auto simp: bh_paint_black)
    then show ?thesis using f(6) s Inl by simp
  next
    case (Inr u)
    then have "invc (plug u (FR sl sa RB_BLACK # k))" "invh (plug u (FR sl sa RB_BLACK # k))"
      using inv k' by (simp_all add: invc_plug invh_plug)
    then show ?thesis using rb_inv_paint f(6) s Inr by simp
  qed
qed

lemma del_fix_right_black:
  assumes f: "invh t" "invhk (FR s p c # k) (Suc (bh t))" "invc t" "invck (FR s p c # k)"
      "root_not_red (FR s p c # k)" "is_black_tree t"
    and s: "s = Nd sl sa sc sr" "sc \<noteq> RB_RED"
    and IH: "\<And>u. sib_right t p c s = Inl u \<Longrightarrow> invh u \<Longrightarrow> invhk k (Suc (bh u)) \<Longrightarrow>
      invc (paint RB_BLACK u) \<Longrightarrow> invck k \<Longrightarrow> root_not_red k \<Longrightarrow> is_black_tree u \<or> is_red_tree u \<Longrightarrow>
      rb_inv (del_fix u k)"
  shows "rb_inv (del_fix t (FR s p c # k))"
proof -
  have c: "c = RB_BLACK \<or> c = RB_RED" using f(4) by auto
  have n: "invh s" "invc s" "is_black_tree s" "bh s = Suc (bh t)" "invck k"
    "invhk k (if c = RB_RED then Suc (bh t) else Suc (Suc (bh t)))" "c = RB_RED \<Longrightarrow> top_black k"
    using f(2,4) s by auto
  note inv = sib_right_inv [OF f(1,3,6) n(1-4) c, of p]
  show ?thesis
  proof (cases "sib_right t p c s")
    case (Inl u)
    have "is_black_tree u \<or> is_red_tree u" using Inl s c by (auto split: if_splits rbt.splits)
    then have "rb_inv (del_fix u k)"
      using IH [OF Inl] inv Inl n root_not_red_Cons [OF f(5)] by (auto split: if_splits)
    then show ?thesis using f(6) s Inl by simp
  next
    case (Inr u)
    then have "invc (plug u k)" "invh (plug u k)"
      using inv n c by (auto simp: invc_plug invh_plug split: if_splits)
    then show ?thesis using rb_inv_paint f(6) s Inr by simp
  qed
qed

lemma del_fix_inv:
  assumes "invh t" "invhk k (Suc (bh t))" "invc (paint RB_BLACK t)" "invck k" "root_not_red k"
    "is_black_tree t \<or> is_red_tree t"
  shows "rb_inv (del_fix t k)"
  using assms
proof (induction t k rule: del_fix.induct)
  case (1 t)
  then show ?case by (simp add: rb_inv_def)
next
  case (2 t p c s k)
  note f = "2.prems"
  obtain sl sa sc sr where s: "s = Nd sl sa sc sr" using f(2) by (cases s) auto
  show ?case
  proof (cases "is_black_tree t")
    case False
    then have "bh (paint RB_BLACK t) = Suc (bh t)" using f(6) bh_paint_black by auto
    then have "rb_inv (plug (paint RB_BLACK t) (FL p c s # k))"
      using f by (intro rb_inv_plug) auto
    then show ?thesis using False by simp
  next
    case True
    then have t: "invc t" using f(3) by (cases t) auto
    show ?thesis
    proof (cases "sc = RB_RED")
      case False
      show ?thesis
        by (rule del_fix_left_black [OF f(1,2) t f(4,5) True s False], rule "2.IH")
          (use True s False in auto)
    qed (use del_fix_left_red [OF f(1,2) t f(4,5) True] s in blast)
  qed
next
  case (3 t s p c k)
  note f = "3.prems"
  obtain sl sa sc sr where s: "s = Nd sl sa sc sr" using f(2) by (cases s) auto
  show ?case
  proof (cases "is_black_tree t")
    case False
    then have "bh (paint RB_BLACK t) = Suc (bh t)" using f(6) bh_paint_black by auto
    then have "rb_inv (plug (paint RB_BLACK t) (FR s p c # k))"
      using f by (intro rb_inv_plug) auto
    then show ?thesis using False by simp
  next
    case True
    then have t: "invc t" using f(3) by (cases t) auto
    show ?thesis
    proof (cases "sc = RB_RED")
      case False
      show ?thesis
        by (rule del_fix_right_black [OF f(1,2) t f(4,5) True s False], rule "3.IH")
          (use True s False in auto)
    qed (use del_fix_right_red [OF f(1,2) t f(4,5) True] s in blast)
  qed
qed

end
