(* ===== verification/Rb_Delete.thy ===== *)
theory Rb_Delete
  imports Rb_Remove
begin

text \<open>
  \<open>RB_REMOVE\<close>: cutting an element out, putting its successor in its place, and the
  repair.
\<close>

section \<open>Cutting an element out\<close>

lemma plug_append: "plug t (k1 @ k2) = plug (plug t k1) k2"
  by (induction t k1 rule: plug.induct) auto

lemma unlink_ok:
  assumes f: "focus h (Nd l a c r) k" and ch: "l = Lf \<and> ch = r \<or> r = Lf \<and> ch = l"
  shows "\<exists>h'. unlink_elm (Ref a) (rootp ch) (parent_of k) h = Some h' \<and> focus h' ch k
    \<and> rbe_parent h' a = rbe_parent h a"
proof -
  note f' = f [unfolded focus_alt]
  let ?h1 = "set_parent_opt (rootp ch) (parent_of k) h" and ?h' = "relink k (rootp ch) (set_parent_opt (rootp ch) (parent_of k) h)"
  have d: "distinct (inorder ch)" "set (inorder ch) \<inter> set (ctx_addrs k) = {}" "a \<notin> set (inorder ch)"
    "rep h (Ref a) ch" "a \<notin> set (ctx_addrs k)"
    using f' ch by auto
  have c: "repc ?h1 (Ref a) k" using f' d by simp
  have "replace_child (parent_of k) (Ref a) (rootp ch) ?h1 = Some ?h'"
    by (rule replace_child_relink [OF c d(5)])
  then have "unlink_elm (Ref a) (rootp ch) (parent_of k) h = Some ?h'"
    using set_PARENT_opt [of ch "parent_of k" h] by (simp add: unlink_elm_def split: if_splits)
  moreover have "repc ?h' (rootp ch) k" by (rule repc_relink [OF c]) (use f' in auto)
  moreover have "rep ?h' (parent_of k) ch"
    using rep_reparent [OF d(4,1), of "parent_of k"] d(2) by simp
  moreover have "rbe_parent ?h' a = rbe_parent h a" using d(3) by simp
  ultimately show ?thesis using f' d by (auto simp: focus_alt)
qed

section \<open>The successor\<close>

fun lm :: "rbt \<Rightarrow> nat \<times> int \<times> rbt \<times> ctx" where
  "lm (Nd Lf a c r) = (a, c, r, [])"
| "lm (Nd l a c r) = (case lm l of (e, d, er, ks) \<Rightarrow> (e, d, er, ks @ [FL a c r]))"
| "lm Lf = (0, 0, Lf, [])"

lemma lm_plug: "t \<noteq> Lf \<Longrightarrow> lm t = (e, d, er, ks) \<Longrightarrow> plug (Nd Lf e d er) ks = t"
  by (induction t arbitrary: ks rule: lm.induct) (auto simp: plug_append split: prod.splits)

lemma lm_left: "lm t = (e, d, er, ks) \<Longrightarrow> ctx_left ks = []"
proof (induction t arbitrary: ks rule: lm.induct)
  case (2 l1 a1 c1 r1 a c r)
  obtain e' d' er' ks' where "lm (Nd l1 a1 c1 r1) = (e', d', er', ks')" by (metis prod_cases4)
  moreover have "ctx_left (ks @ [FL a c r]) = ctx_left ks" for ks
    by (induction ks rule: ctx_left.induct) auto
  ultimately show ?case using 2 by auto
qed auto

lemma leftmost_ok:
  assumes "focus h t k" "t \<noteq> Lf" "lm t = (e, d, er, ks)"
  shows "leftmost (rootp t) h = Some (Ref e)"
  using assms
proof (induction t arbitrary: k ks rule: lm.induct)
  case (1 a c r)
  then show ?case using focus_read(1) [OF "1.prems"(1)] by (subst leftmost.simps) simp
next
  case (2 l1 a1 c1 r1 a c r)
  have "focus h (Nd l1 a1 c1 r1) (FL a c r # k)" using "2.prems"(1) by (simp add: focus_move)
  moreover obtain ks' where "lm (Nd l1 a1 c1 r1) = (e, d, er, ks')"
    using "2.prems"(3) by (auto split: prod.splits)
  ultimately have "leftmost (Ref a1) h = Some (Ref e)" using "2.IH" by auto
  then show ?case using focus_read(1) [OF "2.prems"(1)] by (subst leftmost.simps) simp
qed simp

section \<open>Taking the place of an element\<close>

lemma replace_node:
  assumes f: "focus h (Nd l x c r) k" and l: "l \<noteq> Lf" and e: "e \<notin> set (inorder (plug (Nd l x c r) k))"
  shows "\<exists>h'. take_place (Ref e) (Ref x) h = Some h'
    \<and> focus h' (Nd l e c r) k"
proof -
  note f' = f [unfolded focus_alt]
  have ek: "e \<notin> set (inorder l)" "e \<notin> set (inorder r)" "e \<noteq> x" "e \<notin> set (ctx_addrs k)"
    using e by (auto simp: inorder_plug ctx_addrs_def)
  define h1 where "h1 = setc e c (setp e (parent_of k) (setr e (rootp r) (setl e (rootp l) h)))"
  have ce: "copy_entry (Ref e) (Ref x) h = Some h1"
    using f' by (simp add: copy_entry_def h1_def)
  have c1: "repc h1 (Ref x) k" using f' ek by (simp add: h1_def)
  have rl: "replace_child (parent_of k) (Ref x) (Ref e) h1 = Some (relink k (Ref e) h1)"
    by (rule replace_child_relink [OF c1]) (use f' in auto)
  define h2 where "h2 = relink k (Ref e) h1"
  define h3 where "h3 = set_parent_opt (rootp l) (Ref e) h2"
  define h4 where "h4 = set_parent_opt (rootp r) (Ref e) h3"
  have x1: "rbe_parent h1 x = parent_of k" "rbe_left h2 x = rootp l" "rbe_right h3 x = rootp r"
    using f' ek by (auto simp: h1_def h2_def h3_def)
  have sl: "set_PARENT (rootp l) (Ref e) h2 = Some h3"
    using l by (cases l) (auto simp: h3_def)
  have sr: "(if rootp r \<noteq> Null then set_PARENT (rootp r) (Ref e) h3 else Some h3) = Some h4"
    using set_PARENT_opt [of r "Ref e" h3] by (simp add: h4_def)
  have "focus h4 (Nd l e c r) k"
  proof -
    have dj: "set (inorder l) \<inter> set (ctx_addrs k) = {}" "set (inorder r) \<inter> set (ctx_addrs k) = {}"
      "set (inorder r) \<inter> set (inorder l) = {}" "set (inorder l) \<inter> set (inorder r) = {}"
      using f' by auto
    have "repc h2 (Ref e) k" unfolding h2_def by (rule repc_relink [OF c1]) (use f' in auto)
    moreover have "rep h2 (Ref x) l" "rep h2 (Ref x) r"
      using f' ek dj by (simp_all add: h2_def h1_def)
    moreover have "rep h3 (Ref e) l"
      unfolding h3_def by (rule rep_reparent [OF calculation(2)]) (use f' in auto)
    moreover have "rep h4 (Ref e) r"
      unfolding h4_def by (rule rep_reparent [of _ "Ref x"]) (use f' calculation(3) dj in \<open>auto simp: h3_def\<close>)
    ultimately show ?thesis
      using f' ek dj by (auto simp: focus_alt h4_def h3_def h2_def h1_def)
  qed
  then show ?thesis using ce x1 rl sl sr by (simp add: take_place_def h2_def [symmetric] split: if_splits)
qed

lemma augment_path_ok:
  assumes "focus h t k" "k \<noteq> []"
  shows "augment_path (parent_of k) h = Some h"
  using assms
proof (induction t k rule: plug.induct)
  case (2 t a c r k)
  have f: "focus h (Nd t a c r) k" using "2.prems"(1) by (simp add: focus_move)
  then have "rbe_parent h a = parent_of k" by (rule focus_read)
  then show ?case using "2.IH" [OF f] by (subst augment_path.simps) auto
next
  case (3 t l a c k)
  have f: "focus h (Nd l a c t) k" using "3.prems"(1) by (simp add: focus_move)
  then have "rbe_parent h a = parent_of k" by (rule focus_read)
  then show ?case using "3.IH" [OF f] by (subst augment_path.simps) auto
qed simp

section \<open>Removal of an element with two children\<close>

text \<open>The successor \<open>e\<close> of the element \<open>x\<close> with the right subtree
  \<open>r\<close> takes the place of \<open>x\<close>; its right child moves up.\<close>

lemma remove_two_ok:
  assumes f: "focus h (Nd l x c r) k" and nl: "l \<noteq> Lf" "r \<noteq> Lf" and m: "lm r = (e, d, er, ks)"
  shows "\<exists>h'. remove_two (Ref x) h = Some (parent_of (ks @ FR l e c # k), rootp er, d, h')
    \<and> focus h' er (ks @ FR l e c # k)"
proof -
  let ?K = "ks @ FR l x c # k" and ?K' = "ks @ FR l e c # k"
  have r: "plug (Nd Lf e d er) ks = r" by (rule lm_plug [OF nl(2) m])
  have fr: "focus h r (FR l x c # k)" using f by (simp add: focus_move)
  have fe: "focus h (Nd Lf e d er) ?K" using f r by (simp add: focus_repr plug_append)
  note rd = focus_read [OF fe]
  obtain h1 where h1: "unlink_elm (Ref e) (rootp er) (parent_of ?K) h = Some h1" "focus h1 er ?K"
      "rbe_parent h1 e = parent_of ?K"
    using unlink_ok [OF fe, of er] rd(3) by auto
  have dist: "distinct (inorder (plug (Nd Lf e d er) ?K))" using fe by (simp add: focus_def)
  have ex: "e \<noteq> x" "e \<notin> set (inorder (plug er ?K))"
    using dist by (auto simp: inorder_plug plug_append)
  have px: "(if parent_of ?K = Ref x then Ref e else parent_of ?K) = parent_of ?K'"
  proof (cases ks rule: parent_of.cases)
    case (2 b bc br ks')
    then have "b \<noteq> x" using dist by (auto simp: inorder_plug plug_append)
    then show ?thesis using 2 by simp
  next
    case (3 bl b bc ks')
    then have "b \<noteq> x" using dist by (auto simp: inorder_plug plug_append)
    then show ?thesis using 3 by simp
  qed simp
  have f1: "focus h1 (Nd l x c (plug er ks)) k" using h1(2) by (simp add: focus_repr plug_append)
  have "e \<notin> set (inorder (plug (Nd l x c (plug er ks)) k))" using ex(2) by (simp add: plug_append)
  then obtain h2 where h2: "take_place (Ref e) (Ref x) h1 = Some h2"
      "focus h2 (Nd l e c (plug er ks)) k"
    using replace_node [OF f1 nl(1)] by blast
  have f2: "focus h2 er ?K'" using h2(2) by (simp add: focus_repr plug_append)
  have "augment_path (parent_of ?K') h2 = Some h2" by (rule augment_path_ok [OF f2]) simp
  moreover have "parent_of ?K' \<noteq> Null" by simp
  moreover have "leftmost (rootp r) h = Some (Ref e)" by (rule leftmost_ok [OF fr nl(2) m])
  moreover have "rbe_right h x = rootp r" by (rule focus_read [OF f])
  ultimately have "remove_two (Ref x) h = Some (parent_of ?K', rootp er, d, h2)"
    using h1(1,3) rd px h2(1)
    by (simp add: remove_two_def Let_def del: parent_of_eq_Null)
  then show ?thesis using f2 by blast
qed

section \<open>Removal\<close>

definition after_cut :: "rbt \<Rightarrow> int \<Rightarrow> ctx \<Rightarrow> rbt" where
  "after_cut t c k = (if c = RB_BLACK then del_fix t k else plug t k)"

lemma after_cut_ok:
  assumes f: "focus h t k" and inv: "invh t" "c = RB_BLACK \<Longrightarrow> invhk k (Suc (bh t))"
  shows "\<exists>h'. (if c = RB_BLACK then RB_REMOVE_COLOR (parent_of k) (rootp t) h else Some h) = Some h'
    \<and> repr h' (after_cut t c k)"
proof (cases "c = RB_BLACK")
  case True
  then show ?thesis using remove_color_ok [OF f inv(1)] inv(2) by (simp add: after_cut_def)
next
  case False
  then show ?thesis using f by (simp add: after_cut_def focus_repr)
qed

text \<open>What the invariant says about an element to be cut out, which has at most one
  child.\<close>

lemma cut_inv:
  assumes "rb_inv (plug (Nd l a c r) k)" "l = Lf \<and> ch = r \<or> r = Lf \<and> ch = l"
  shows "invh ch" "invc ch" "invck k" "root_not_red k \<or> k = []"
    "c = RB_BLACK \<Longrightarrow> invhk k (Suc (bh ch))" "c \<noteq> RB_BLACK \<Longrightarrow> invhk k (bh ch)"
    "c \<noteq> RB_BLACK \<Longrightarrow> is_black_tree ch" "c \<noteq> RB_BLACK \<Longrightarrow> k \<noteq> []"
    "is_black_tree ch \<or> is_red_tree ch" "root_not_red k"
proof -
  have i: "invc (plug (Nd l a c r) k)" "invh (plug (Nd l a c r) k)"
    using assms(1) by (simp_all add: rb_inv_def)
  then show "invh ch" "invc ch" "invck k" "c = RB_BLACK \<Longrightarrow> invhk k (Suc (bh ch))"
    "c \<noteq> RB_BLACK \<Longrightarrow> invhk k (bh ch)" "c \<noteq> RB_BLACK \<Longrightarrow> is_black_tree ch"
    using assms(2) by (auto simp: invc_plug invh_plug)
  then show "is_black_tree ch \<or> is_red_tree ch" using invc_red_iff by blast
  show "c \<noteq> RB_BLACK \<Longrightarrow> k \<noteq> []" using assms(1) by (auto simp: rb_inv_def)
  have "\<not> is_red_tree (plug (Nd l a c r) k)"
    using assms(1) invc_red_iff [OF i(1)] by (simp add: rb_inv_def)
  then show "root_not_red k" "root_not_red k \<or> k = []"
    using root_not_red_plug [of k "Nd l a c r"] by (auto simp: root_not_red_def)
qed

lemma after_cut_inv:
  assumes "rb_inv (plug (Nd l a c r) k)" "l = Lf \<and> ch = r \<or> r = Lf \<and> ch = l"
  shows "rb_inv (after_cut ch c k)" "inorder (after_cut ch c k) = inorder (plug ch k)"
proof -
  note i = cut_inv [OF assms]
  show "rb_inv (after_cut ch c k)"
  proof (cases "c = RB_BLACK")
    case True
    then have "rb_inv (del_fix ch k)"
      using i by (intro del_fix_inv) auto
    then show ?thesis using True by (simp add: after_cut_def)
  next
    case False
    then have "rb_inv (plug ch k)" using i by (intro rb_inv_plug) auto
    then show ?thesis using False by (simp add: after_cut_def)
  qed
  show "inorder (after_cut ch c k) = inorder (plug ch k)"
    using inorder_del_fix [of ch k] i by (simp add: after_cut_def)
qed

text \<open>The invariant does not depend on the element in a node.\<close>

lemma is_black_plug: "is_black_tree u = is_black_tree v \<Longrightarrow> is_black_tree (plug u k) = is_black_tree (plug v k)"
  by (induction u k arbitrary: v rule: plug.induct) auto

lemma rb_inv_swap_node: "rb_inv (plug t (ks @ FR l x c # k)) = rb_inv (plug t (ks @ FR l e c # k))"
proof -
  let ?u = "Nd l x c (plug t ks)" and ?v = "Nd l e c (plug t ks)"
  have "is_black_tree (plug ?u k) = is_black_tree (plug ?v k)" by (rule is_black_plug) simp
  moreover have "invc (plug ?u k) = invc (plug ?v k)" "invh (plug ?u k) = invh (plug ?v k)"
    by (simp_all add: invc_plug invh_plug)
  ultimately show ?thesis by (simp add: rb_inv_def plug_append)
qed

lemma locate: "x \<in> set (inorder t) \<Longrightarrow> \<exists>l c r k. t = plug (Nd l x c r) k"
proof (induction t)
  case (Nd l a c r)
  then consider "x = a" | l1 c1 r1 k1 where "l = plug (Nd l1 x c1 r1) k1"
    | l1 c1 r1 k1 where "r = plug (Nd l1 x c1 r1) k1" by auto
  then show ?case
  proof cases
    case 1
    then show ?thesis by (metis plug.simps(1))
  next
    case 2
    then have "Nd l a c r = plug (Nd l1 x c1 r1) (k1 @ [FL a c r])" by (simp add: plug_append)
    then show ?thesis by blast
  next
    case 3
    then have "Nd l a c r = plug (Nd l1 x c1 r1) (k1 @ [FR l a c])" by (simp add: plug_append)
    then show ?thesis by blast
  qed
qed simp

lemma remove_cases:
  assumes f: "focus h (Nd l x c r) k" and inv: "rb_inv (plug (Nd l x c r) k)"
  shows "\<exists>p t d k' h'. (if rootp l = Null then remove_one (Ref x) (rootp r) h
      else if rootp r = Null then remove_one (Ref x) (rootp l) h
      else remove_two (Ref x) h) = Some (parent_of k', rootp t, d, h')
    \<and> focus h' t k' \<and> invh t \<and> (d = RB_BLACK \<longrightarrow> invhk k' (Suc (bh t)))
    \<and> rb_inv (after_cut t d k')
    \<and> inorder (after_cut t d k') = ctx_left k @ inorder l @ inorder r @ ctx_right k"
proof -
  consider (one) ch where "l = Lf \<and> ch = r \<or> r = Lf \<and> ch = l" | (two) "l \<noteq> Lf" "r \<noteq> Lf" by blast
  then show ?thesis
  proof cases
    case one
    obtain h' where "unlink_elm (Ref x) (rootp ch) (parent_of k) h = Some h'" "focus h' ch k"
      using unlink_ok [OF f one] by blast
    then have "(if rootp l = Null then remove_one (Ref x) (rootp r) h
        else if rootp r = Null then remove_one (Ref x) (rootp l) h
        else remove_two (Ref x) h) = Some (parent_of k, rootp ch, c, h')" "focus h' ch k"
      using one focus_read [OF f] by (auto simp: remove_one_def)
    moreover note cut_inv(1,5) [OF inv one] after_cut_inv [OF inv one]
    moreover have "inorder (plug ch k) = ctx_left k @ inorder l @ inorder r @ ctx_right k"
      using one by (auto simp: inorder_plug)
    ultimately show ?thesis by auto
  next
    case two
    obtain e d er ks where m: "lm r = (e, d, er, ks)" by (metis prod_cases4)
    let ?k = "ks @ FR l e c # k"
    have r: "plug (Nd Lf e d er) ks = r" by (rule lm_plug [OF two(2) m])
    obtain h' where "remove_two (Ref x) h = Some (parent_of ?k, rootp er, d, h')" "focus h' er ?k"
      using remove_two_ok [OF f two m] by blast
    moreover have inv': "rb_inv (plug (Nd Lf e d er) ?k)"
      using inv rb_inv_swap_node [of "Nd Lf e d er" ks l x c k e] r by (simp add: plug_append)
    have "Lf = Lf \<and> er = er \<or> er = Lf \<and> er = Lf" by simp
    note cut_inv(1,5) [OF inv' this] after_cut_inv [OF inv' this]
    moreover have "inorder r = e # inorder er @ ctx_right ks"
      using arg_cong [OF r, of inorder] lm_left [OF m] by (simp add: inorder_plug)
    then have "inorder (plug er ?k) = ctx_left k @ inorder l @ inorder r @ ctx_right k"
      using lm_left [OF m] by (simp add: inorder_plug plug_append)
    ultimately show ?thesis using two by (auto simp del: parent_of_eq_Null)
  qed
qed

lemma RB_REMOVE_ok:
  assumes r: "repr h t" and inv: "rb_inv t" and x: "x \<in> set (inorder t)"
  shows "\<exists>h' t'. RB_REMOVE (Ref x) h = Some (Ref x, h') \<and> repr h' t' \<and> rb_inv t'
    \<and> inorder t' = remove1 x (inorder t)"
proof -
  obtain l c rt k where t: "t = plug (Nd l x c rt) k" using locate [OF x] by blast
  have f: "focus h (Nd l x c rt) k" using r t by (simp add: focus_repr)
  obtain t1 d k' h1 where c: "(if rootp l = Null then remove_one (Ref x) (rootp rt) h
      else if rootp rt = Null then remove_one (Ref x) (rootp l) h
      else remove_two (Ref x) h) = Some (parent_of k', rootp t1, d, h1)"
      "focus h1 t1 k'" "invh t1" "d = RB_BLACK \<Longrightarrow> invhk k' (Suc (bh t1))"
      "rb_inv (after_cut t1 d k')"
      "inorder (after_cut t1 d k') = ctx_left k @ inorder l @ inorder rt @ ctx_right k"
    using remove_cases [OF f] inv t by auto
  obtain h' where h': "(if d = RB_BLACK then RB_REMOVE_COLOR (parent_of k') (rootp t1) h1 else Some h1) = Some h'"
      "repr h' (after_cut t1 d k')"
    using after_cut_ok [OF c(2,3)] c(4) by blast
  have "RB_REMOVE (Ref x) h = Some (Ref x, h')"
    using focus_read [OF f] c(1) h'(1) by (simp add: RB_REMOVE_def split: if_splits)
  moreover have "distinct (inorder t)" using f t by (simp add: focus_def)
  then have "remove1 x (inorder t) = ctx_left k @ inorder l @ inorder rt @ ctx_right k"
    unfolding t by (auto simp: inorder_plug remove1_append)
  ultimately show ?thesis using h'(2) c(5,6) by auto
qed

end
