(* ===== verification/Rb_Search.thy ===== *)
theory Rb_Search
  imports Rb_Delete
begin

text \<open>
  Search and traversal of the red-black trees on the represented trees, the interface
  \<open>ordered_tree\<close> for the \<open>RB_*\<close> operations, and their properties.
\<close>

section \<open>Search\<close>

lemma find_loop_ok:
  assumes "focus h t k"
  shows "find_loop cmp e (rootp t) h =
    Some (case descend cmp e t k of Inl a \<Rightarrow> Ref a | Inr k' \<Rightarrow> Null)"
  using assms
proof (induction cmp e t k rule: descend.induct)
  case (1 cmp e k)
  then show ?case by (simp add: find_loop.simps)
next
  case (2 cmp e l a c r k)
  have "focus h l (FL a c r # k)" "focus h r (FR l a c # k)"
    using "2.prems" by (simp_all add: focus_move)
  then show ?case
    using "2.IH" focus_read(1,2) [OF "2.prems"] by (simp add: find_loop.simps [of cmp e "Ref a"])
qed

lemma RB_FIND_ok:
  assumes "repr h t" "total_cmp cmp" "cmp_sorted cmp (inorder t)"
  shows "RB_FIND cmp e h = Some (lookup cmp e (inorder t))"
proof -
  have f: "focus h t []" and root: "RB_ROOT h = rootp t"
    using assms(1) by (simp_all add: repr_def focus_def RB_ROOT_def)
  have "lookup cmp e (inorder t) = (case descend cmp e t [] of Inl a \<Rightarrow> Ref a | Inr k' \<Rightarrow> Null)"
  proof (cases "descend cmp e t []")
    case (Inl a)
    then show ?thesis
      using descend_sorted [OF assms(2), of t "[]" e] assms(3) by (simp add: between_def)
  next
    case (Inr k)
    then have "between cmp e (ctx_left k) (ctx_right k)"
      using descend_sorted [OF assms(2), of t "[]" e] assms(3) by (simp add: between_def)
    from lookup_miss [OF this] Inr show ?thesis
      using descend_plug [OF Inr] inorder_plug [of Lf k] by simp
  qed
  then show ?thesis using find_loop_ok [OF f] root by (simp add: RB_FIND_def)
qed

text \<open>\<open>RB_NFIND\<close>: the first element that is not smaller than the key.\<close>

lemma nfind_loop_ok:
  assumes "focus h t k" "total_cmp cmp" "cmp_sorted cmp (inorder (plug t k))"
    "between cmp e (ctx_left k) (ctx_right k)"
  shows "nfind_loop cmp e (rootp t) (first_ptr (ctx_right k)) h =
    Some (first_ptr (dropWhile (\<lambda>x. 0 < cmp e x) (inorder (plug t k))))"
  using assms
proof (induction cmp e t k rule: descend.induct)
  case (1 cmp e k)
  have "dropWhile (\<lambda>x. 0 < cmp e x) (ctx_left k @ ctx_right k) = ctx_right k"
    using "1.prems"(4) by (cases "ctx_right k") (auto simp: between_def dropWhile_append2)
  then show ?case by (simp add: nfind_loop.simps inorder_plug)
next
  case (2 cmp e l a c r k)
  note rd = focus_read(1,2) [OF "2.prems"(1)]
  let ?L = "ctx_left k @ inorder l" and ?R = "inorder r @ ctx_right k"
  have s: "cmp_sorted cmp (?L @ a # ?R)" using "2.prems"(3) by (simp add: inorder_plug)
  have fl: "focus h l (FL a c r # k)" and fr: "focus h r (FR l a c # k)"
    using "2.prems"(1) by (simp_all add: focus_move)
  consider "cmp e a < 0" | "cmp e a > 0" | "cmp e a = 0" by linarith
  then show ?case
  proof cases
    case 1
    then have "between cmp e (ctx_left (FL a c r # k)) (ctx_right (FL a c r # k))"
      using between_below [OF "2.prems"(2) s, of e] "2.prems"(4) by (auto simp: between_def)
    then show ?thesis
      using "2.IH"(1) [OF 1 fl "2.prems"(2)] "2.prems"(3) 1 rd
      by (simp add: nfind_loop.simps [of cmp e "Ref a"])
  next
    case 2
    then have "between cmp e (ctx_left (FR l a c # k)) (ctx_right (FR l a c # k))"
      using between_above [OF "2.prems"(2) s, of e] "2.prems"(4) by (auto simp: between_def)
    then show ?thesis
      using "2.IH"(2) [OF _ 2 fr "2.prems"(2)] "2.prems"(3) 2 rd
      by (simp add: nfind_loop.simps [of cmp e "Ref a"])
  next
    case 3
    have "dropWhile (\<lambda>x. 0 < cmp e x) (?L @ a # ?R) = a # ?R"
      using between_above [OF "2.prems"(2) s, of e] 3 by (simp add: dropWhile_append2)
    then show ?thesis
      using 3 by (simp add: nfind_loop.simps [of cmp e "Ref a"] inorder_plug)
  qed
qed

lemma RB_NFIND_ok:
  assumes "repr h t" "total_cmp cmp" "cmp_sorted cmp (inorder t)"
  shows "RB_NFIND cmp e h = Some (first_ptr (dropWhile (\<lambda>x. 0 < cmp e x) (inorder t)))"
proof -
  have f: "focus h t []" and root: "RB_ROOT h = rootp t"
    using assms(1) by (simp_all add: repr_def focus_def RB_ROOT_def)
  show ?thesis
    using nfind_loop_ok [OF f assms(2), of e] assms(3) root
    by (simp add: RB_NFIND_def first_ptr_def between_def)
qed

section \<open>Minimum and maximum\<close>

lemma minmax_loop_min:
  assumes "focus h t k" "v < 0"
  shows "minmax_loop v (rootp t) p h = Some (case inorder t of [] \<Rightarrow> p | x # xs \<Rightarrow> Ref x)"
  using assms(1)
proof (induction t arbitrary: k p)
  case Lf
  then show ?case by (simp add: minmax_loop.simps)
next
  case (Nd l a c r)
  have "focus h l (FL a c r # k)" using Nd.prems by (simp add: focus_move)
  from Nd.IH(1) [OF this, of "Ref a"] show ?case
    using focus_read(1) [OF Nd.prems] assms(2)
    by (cases "inorder l") (simp_all add: minmax_loop.simps [of v "Ref a"])
qed

lemma minmax_loop_max:
  assumes "focus h t k" "\<not> v < 0"
  shows "minmax_loop v (rootp t) p h = Some (case rev (inorder t) of [] \<Rightarrow> p | x # xs \<Rightarrow> Ref x)"
  using assms(1)
proof (induction t arbitrary: k p)
  case Lf
  then show ?case by (simp add: minmax_loop.simps)
next
  case (Nd l a c r)
  have "focus h r (FR l a c # k)" using Nd.prems by (simp add: focus_move)
  from Nd.IH(2) [OF this, of "Ref a"] show ?case
    using focus_read(2) [OF Nd.prems] assms(2)
    by (cases "rev (inorder r)") (simp_all add: minmax_loop.simps [of v "Ref a"])
qed

lemma RB_MIN_ok: "repr h t \<Longrightarrow> RB_MIN h = Some (first_ptr (inorder t))"
  using minmax_loop_min [of h t "[]" "-1" Null]
  by (auto simp: RB_MIN_def RB_MINMAX_def RB_ROOT_def repr_def focus_def first_ptr_def split: list.splits)

lemma RB_MAX_ok: "repr h t \<Longrightarrow> RB_MAX h = Some (first_ptr (rev (inorder t)))"
  using minmax_loop_max [of h t "[]" 1 Null]
  by (auto simp: RB_MAX_def RB_MINMAX_def RB_ROOT_def repr_def focus_def first_ptr_def split: list.splits)

section \<open>Successor and predecessor\<close>

lemma leftmost_first:
  assumes "focus h t k" "t \<noteq> Lf"
  shows "leftmost (rootp t) h = Some (first_ptr (inorder t))"
proof -
  obtain e d er ks where m: "lm t = (e, d, er, ks)" by (metis prod_cases4)
  have "inorder t = e # inorder er @ ctx_right ks"
    using arg_cong [OF lm_plug [OF assms(2) m], of inorder] lm_left [OF m] by (simp add: inorder_plug)
  then show ?thesis using leftmost_ok [OF assms m] by simp
qed

lemma rightmost_last:
  assumes "focus h t k" "t \<noteq> Lf"
  shows "rightmost (rootp t) h = Some (first_ptr (rev (inorder t)))"
  using assms
proof (induction t arbitrary: k)
  case (Nd l a c r)
  note rd = focus_read(2) [OF Nd.prems(1)]
  have f: "focus h r (FR l a c # k)" using Nd.prems by (simp add: focus_move)
  show ?case
  proof (cases "r = Lf")
    case True
    then show ?thesis using rd by (subst rightmost.simps) simp
  next
    case False
    then have "rev (inorder r) \<noteq> []" by (cases r) auto
    then show ?thesis
      using Nd.IH(2) [OF f False] rd False
      by (subst rightmost.simps) (auto simp: first_ptr_append split: list.splits)
  qed
qed simp

lemma climb_right_ok:
  assumes "focus h t k" "t \<noteq> Lf"
  shows "\<exists>x. climb_right (rootp t) h = Some (Ref x) \<and> rbe_parent h x = first_ptr (ctx_right k)"
  using assms
proof (induction t k rule: plug.induct)
  case (1 t)
  then obtain l a c r where t: "t = Nd l a c r" by (cases t) auto
  have "rbe_parent h a = Null" using focus_read(3) "1.prems"(1) t by fastforce
  then show ?case using t by (subst climb_right.simps) simp
next
  case (2 t a c r k)
  then obtain l b d r' where t: "t = Nd l b d r'" by (cases t) auto
  have f: "focus h (Nd t a c r) k" using "2.prems"(1) by (simp add: focus_move)
  have "rbe_parent h b = Ref a" using focus_read(3) "2.prems"(1) t by fastforce
  moreover have "rbe_right h a \<noteq> Ref b"
    using focus_neq(3) [OF f] focus_read(2) [OF f] t by auto
  ultimately show ?case using t by (subst climb_right.simps) simp
next
  case (3 t l a c k)
  then obtain l' b d r' where t: "t = Nd l' b d r'" by (cases t) auto
  have f: "focus h (Nd l a c t) k" using "3.prems"(1) by (simp add: focus_move)
  have "rbe_parent h b = Ref a" using focus_read(3) "3.prems"(1) t by fastforce
  then show ?case
    using "3.IH" [OF f] focus_read(2) [OF f] t by (subst climb_right.simps) simp
qed

lemma climb_left_ok:
  assumes "focus h t k" "t \<noteq> Lf"
  shows "\<exists>x. climb_left (rootp t) h = Some (Ref x) \<and> rbe_parent h x = first_ptr (rev (ctx_left k))"
  using assms
proof (induction t k rule: plug.induct)
  case (1 t)
  then obtain l a c r where t: "t = Nd l a c r" by (cases t) auto
  have "rbe_parent h a = Null" using focus_read(3) "1.prems"(1) t by fastforce
  then show ?case using t by (subst climb_left.simps) simp
next
  case (2 t a c r k)
  then obtain l' b d r' where t: "t = Nd l' b d r'" by (cases t) auto
  have f: "focus h (Nd t a c r) k" using "2.prems"(1) by (simp add: focus_move)
  have "rbe_parent h b = Ref a" using focus_read(3) "2.prems"(1) t by fastforce
  then show ?case
    using "2.IH" [OF f] focus_read(1) [OF f] t by (subst climb_left.simps) simp
next
  case (3 t l a c k)
  then obtain l' b d r' where t: "t = Nd l' b d r'" by (cases t) auto
  have f: "focus h (Nd l a c t) k" using "3.prems"(1) by (simp add: focus_move)
  have "rbe_parent h b = Ref a" using focus_read(3) "3.prems"(1) t by fastforce
  moreover have "rbe_left h a \<noteq> Ref b"
    using focus_neq(3) [OF f] focus_read(1) [OF f] t by (cases l) auto
  ultimately show ?case using t by (subst climb_left.simps) simp
qed

lemma RB_NEXT_focus:
  assumes f: "focus h (Nd l a c r) k"
  shows "RB_NEXT (Ref a) h = Some (first_ptr (inorder r @ ctx_right k))"
proof (cases "r = Lf")
  case False
  have "focus h r (FR l a c # k)" using f by (simp add: focus_move)
  moreover have "first_ptr (inorder r @ ctx_right k) = first_ptr (inorder r)"
    using False by (intro first_ptr_append) (cases r, auto)
  ultimately show ?thesis
    using leftmost_first False focus_read(2) [OF f] by (simp add: RB_NEXT_def)
next
  case True
  obtain x where x: "climb_right (Ref a) h = Some (Ref x)" "rbe_parent h x = first_ptr (ctx_right k)"
    using climb_right_ok [OF f] by auto
  note rd = focus_read(2,3) [OF f]
  show ?thesis
  proof (cases k rule: parent_of.cases)
    case (2 b d s k')
    have "rbe_left h b = Ref a" using f 2 by (auto simp: focus_def)
    then show ?thesis using rd True 2 by (simp add: RB_NEXT_def)
  next
    case (3 s b d k')
    have fb: "focus h (Nd s b d (Nd l a c r)) k'" using f 3 by (simp add: focus_move)
    have "rbe_left h b \<noteq> Ref a" using focus_neq(3) [OF fb] focus_read(1) [OF fb] by (cases s) auto
    then show ?thesis using rd True 3 x by (auto simp: RB_NEXT_def)
  qed (use rd True x in \<open>auto simp: RB_NEXT_def\<close>)
qed

lemma RB_PREV_focus:
  assumes f: "focus h (Nd l a c r) k"
  shows "RB_PREV (Ref a) h = Some (first_ptr (rev (ctx_left k @ inorder l)))"
proof (cases "l = Lf")
  case False
  have "focus h l (FL a c r # k)" using f by (simp add: focus_move)
  moreover have "first_ptr (rev (inorder l) @ rev (ctx_left k)) = first_ptr (rev (inorder l))"
    using False by (intro first_ptr_append) (cases l, auto)
  ultimately show ?thesis
    using rightmost_last False focus_read(1) [OF f] by (simp add: RB_PREV_def)
next
  case True
  obtain x where x: "climb_left (Ref a) h = Some (Ref x)" "rbe_parent h x = first_ptr (rev (ctx_left k))"
    using climb_left_ok [OF f] by auto
  note rd = focus_read(1,3) [OF f]
  show ?thesis
  proof (cases k rule: parent_of.cases)
    case (2 b d s k')
    have fb: "focus h (Nd (Nd l a c r) b d s) k'" using f 2 by (simp add: focus_move)
    have "rbe_right h b \<noteq> Ref a" using focus_neq(3) [OF fb] focus_read(2) [OF fb] by auto
    then show ?thesis using rd True 2 x by (auto simp: RB_PREV_def)
  next
    case (3 s b d k')
    have "rbe_right h b = Ref a" using f 3 by (auto simp: focus_def)
    then show ?thesis using rd True 3 by (simp add: RB_PREV_def)
  qed (use rd True x in \<open>auto simp: RB_PREV_def\<close>)
qed

lemma RB_NEXT_PREV_ok:
  assumes "repr h t" "inorder t = xs @ a # ys"
  shows "RB_NEXT (Ref a) h = Some (first_ptr ys)" "RB_PREV (Ref a) h = Some (first_ptr (rev xs))"
proof -
  obtain l c r k where t: "t = plug (Nd l a c r) k" using locate [of a t] assms(2) by auto
  have f: "focus h (Nd l a c r) k" using assms(1) t by (simp add: focus_repr)
  have "distinct (inorder t)" using f t by (simp add: focus_def)
  then have "xs = ctx_left k @ inorder l \<and> ys = inorder r @ ctx_right k"
    unfolding assms(2) by (rule distinct_split) (use assms(2) t in \<open>simp add: inorder_plug\<close>)
  then show "RB_NEXT (Ref a) h = Some (first_ptr ys)" "RB_PREV (Ref a) h = Some (first_ptr (rev xs))"
    using RB_NEXT_focus [OF f] RB_PREV_focus [OF f] by simp_all
qed

section \<open>Traversal\<close>

lemma foreach_loop_ok:
  assumes "repr h t"
  shows "inorder t = xs @ ys \<Longrightarrow> foreach_loop (first_ptr ys) h = Some ys"
proof (induction ys arbitrary: xs)
  case Nil
  then show ?case by (simp add: foreach_loop.simps)
next
  case (Cons y ys)
  then have "foreach_loop (first_ptr ys) h = Some ys" using Cons.IH [of "xs @ [y]"] by simp
  moreover have "RB_NEXT (Ref y) h = Some (first_ptr ys)"
    using RB_NEXT_PREV_ok(1) [OF assms Cons.prems] .
  ultimately show ?case by (simp add: foreach_loop.simps [of "Ref y"])
qed

lemma foreach_reverse_loop_ok:
  assumes "repr h t"
  shows "inorder t = rev ys @ xs \<Longrightarrow> foreach_reverse_loop (first_ptr ys) h = Some ys"
proof (induction ys arbitrary: xs)
  case Nil
  then show ?case by (simp add: foreach_reverse_loop.simps)
next
  case (Cons y ys)
  then have "foreach_reverse_loop (first_ptr ys) h = Some ys" using Cons.IH [of "y # xs"] by simp
  moreover have "RB_PREV (Ref y) h = Some (first_ptr ys)"
    using RB_NEXT_PREV_ok(2) [OF assms, of "rev ys" y xs] Cons.prems by simp
  ultimately show ?case
    by (simp add: foreach_reverse_loop.simps [of "Ref y"])
qed

lemma RB_FOREACH_ok:
  assumes "repr h t"
  shows "RB_FOREACH h = Some (inorder t)" "RB_FOREACH_REVERSE h = Some (rev (inorder t))"
  using RB_MIN_ok [OF assms] RB_MAX_ok [OF assms] foreach_loop_ok [OF assms, of "[]" "inorder t"]
    foreach_reverse_loop_ok [OF assms, of "rev (inorder t)" "[]"]
  by (simp_all add: RB_FOREACH_def RB_FOREACH_REVERSE_def)

section \<open>The interface\<close>

definition rb_holds :: "cmp \<Rightarrow> rb_heap \<Rightarrow> nat list \<Rightarrow> bool" where
  "rb_holds cmp h xs \<longleftrightarrow> (\<exists>t. repr h t \<and> rb_inv t \<and> inorder t = xs) \<and> cmp_sorted cmp xs"

fun rb_step :: "cmp \<Rightarrow> tree_op \<Rightarrow> rb_heap \<Rightarrow> (ptr \<times> rb_heap) option" where
  "rb_step cmp (Insert e) h = RB_INSERT cmp e h"
| "rb_step cmp (Find e) h = map_option (\<lambda>p. (p, h)) (RB_FIND cmp e h)"
| "rb_step cmp (Remove e) h = RB_REMOVE (Ref e) h"
| "rb_step cmp Min h = map_option (\<lambda>p. (p, h)) (RB_MIN h)"
| "rb_step cmp Max h = map_option (\<lambda>p. (p, h)) (RB_MAX h)"

lemma cmp_sorted_remove1: "cmp_sorted cmp xs \<Longrightarrow> cmp_sorted cmp (remove1 x xs)"
  by (induction xs) (auto dest: notin_set_remove1)

lemma rb_insert_step:
  assumes "rb_holds cmp h xs" "total_cmp cmp" "e \<notin> set xs"
  shows "\<exists>h'. RB_INSERT cmp e h = Some (fst (abs_insert cmp e xs), h')
    \<and> rb_holds cmp h' (snd (abs_insert cmp e xs))"
proof -
  obtain t where t: "repr h t" "rb_inv t" "inorder t = xs" "cmp_sorted cmp (inorder t)"
    using assms(1) by (auto simp: rb_holds_def)
  have "\<not> is_red_tree t" using t(2) invc_red_iff by (auto simp: rb_inv_def)
  then obtain h' where "RB_INSERT cmp e h =
      Some (case descend cmp e t [] of Inl a \<Rightarrow> Ref a | Inr k \<Rightarrow> Null, h')"
      "repr h' (rb_insert cmp e t)"
    using RB_INSERT_repr [OF t(1), of e cmp] assms(3) t(3) by auto
  then show ?thesis
    using rb_insert_sorted [OF assms(2) t(4), of e] rb_inv_insert [OF t(2), of cmp e] t(3)
    by (auto simp: rb_holds_def)
qed

interpretation rb: ordered_tree rb_holds rb_step
proof
  fix cmp :: cmp and h xs
  assume "rb_holds cmp h xs"
  then show "cmp_sorted cmp xs" by (simp add: rb_holds_def)
next
  fix cmp :: cmp and h xs op
  assume h: "rb_holds cmp h xs" and tc: "total_cmp cmp" and ok: "allowed op xs"
  obtain t where t: "repr h t" "rb_inv t" "inorder t = xs" "cmp_sorted cmp (inorder t)"
    using h by (auto simp: rb_holds_def)
  show "\<exists>h'. rb_step cmp op h = Some (fst (abs_step cmp op xs), h')
    \<and> rb_holds cmp h' (snd (abs_step cmp op xs))"
  proof (cases op)
    case (Insert e)
    then show ?thesis using rb_insert_step [OF h tc] ok by simp
  next
    case (Find e)
    then show ?thesis using RB_FIND_ok [OF t(1) tc t(4)] h t(3) by (simp add: abs_find_def)
  next
    case (Remove e)
    then show ?thesis
      using RB_REMOVE_ok [OF t(1,2), of e] ok t(3,4) cmp_sorted_remove1 [OF t(4), of e]
      by (fastforce simp: abs_remove_def rb_holds_def)
  next
    case Min
    then show ?thesis using RB_MIN_ok [OF t(1)] h t(3) by simp
  next
    case Max
    then show ?thesis using RB_MAX_ok [OF t(1)] h t(3) by simp
  qed
qed

section \<open>Properties\<close>

text \<open>A concrete heap for the witnesses.\<close>

definition rb_empty :: rb_heap where
  "rb_empty = RB_INIT \<lparr>rbh_root = Null, rbe_left = (\<lambda>_. Null), rbe_right = (\<lambda>_. Null),
     rbe_parent = (\<lambda>_. Null), rbe_color = (\<lambda>_. 0)\<rparr>"

lemma rb_empty_holds: "rb_holds cmp rb_empty []"
  by (auto simp: rb_holds_def repr_def focus_def rb_inv_def rb_empty_def RB_INIT_def set_root_def
      intro!: exI [of _ Lf])

text \<open>C2. Red-black trees: any sequence of insertions of unlinked elements, removals of linked
  ones, searches and minimum and maximum queries, from any well-formed tree, is defined, ends,
  returns what the same operations on the sorted list of elements return, and leaves a
  well-formed red-black tree (coherent parent pointers, no red node with a red child, equal
  black heights) with the resulting elements.\<close>

theorem rb_operations_refine_sorted_set:
  assumes "total_cmp cmp" "rb_holds cmp h xs" "abs_run cmp ops xs = Some (rs, ys)"
  shows "\<exists>h'. run_ops rb_step cmp ops h = Some (rs, h') \<and> rb_holds cmp h' ys"
  using assms by (rule rb.run_refines)

theorem rb_operations_refine_sorted_set_witness:
  "\<exists>h'. run_ops rb_step addr_cmp demo_ops rb_empty = Some ([Null, Null, Null, Ref 2, Ref 3], h')
     \<and> rb_holds addr_cmp h' [1, 3]"
  by (rule rb_operations_refine_sorted_set [OF addr_cmp_total rb_empty_holds demo_ops_run])

text \<open>\<open>RB_INSERT\<close> returns the element already linked with the same key, without
  changing anything, and otherwise null after linking the new element in its place.\<close>

theorem rb_insert_functional:
  assumes "total_cmp cmp" "rb_holds cmp h xs" "e \<notin> set xs"
  shows "\<exists>p h'. RB_INSERT cmp e h = Some (p, h')
    \<and> (case p of
         Ref x \<Rightarrow> x \<in> set xs \<and> cmp e x = 0 \<and> h' = h
       | Null \<Rightarrow> (\<forall>x \<in> set xs. cmp e x \<noteq> 0) \<and> rb_holds cmp h' (insort_cmp cmp e xs))"
proof -
  obtain t where t: "repr h t" "rb_inv t" "inorder t = xs" "cmp_sorted cmp (inorder t)"
    using assms(2) by (auto simp: rb_holds_def)
  have "\<not> is_red_tree t" using t(2) invc_red_iff by (auto simp: rb_inv_def)
  then obtain h' where h': "RB_INSERT cmp e h =
      Some (case descend cmp e t [] of Inl a \<Rightarrow> Ref a | Inr k \<Rightarrow> Null, h')"
      "\<forall>a. descend cmp e t [] = Inl a \<longrightarrow> h' = h"
    using RB_INSERT_repr [OF t(1), of e cmp] assms(3) t(3) by auto
  obtain h2 where h2: "RB_INSERT cmp e h = Some (fst (abs_insert cmp e xs), h2)"
      "rb_holds cmp h2 (snd (abs_insert cmp e xs))"
    using rb_insert_step [OF assms(2,1,3)] by blast
  show ?thesis
  proof (cases "lookup cmp e xs")
    case Null
    then have "\<forall>x \<in> set xs. cmp e x \<noteq> 0"
      by (auto simp: lookup_def find_None_iff split: option.splits)
    then show ?thesis using h2 Null by (simp add: abs_insert_def)
  next
    case (Ref x)
    then have "x \<in> set xs" "cmp e x = 0"
      by (auto simp: lookup_def find_Some_iff split: option.splits)
    moreover have "h2 = h" using h' h2(1) Ref by (auto simp: abs_insert_def split: sum.splits)
    ultimately show ?thesis using h2(1) Ref by (simp add: abs_insert_def)
  qed
qed

theorem rb_insert_functional_witness:
  "\<exists>p h'. RB_INSERT addr_cmp 5 rb_empty = Some (p, h')
    \<and> (case p of Ref x \<Rightarrow> x \<in> set [] \<and> addr_cmp 5 x = 0 \<and> h' = rb_empty
       | Null \<Rightarrow> (\<forall>x \<in> set []. addr_cmp 5 x \<noteq> 0) \<and> rb_holds addr_cmp h' (insort_cmp addr_cmp 5 []))"
  by (rule rb_insert_functional [OF addr_cmp_total rb_empty_holds]) simp

text \<open>\<open>RB_REMOVE\<close> of any linked element (with none, one or two children) is defined, returns
  the element, and leaves a well-formed red-black tree with exactly the other elements in the
  same order.\<close>

theorem rb_remove_functional:
  assumes "rb_holds cmp h xs" "x \<in> set xs"
  shows "\<exists>h'. RB_REMOVE (Ref x) h = Some (Ref x, h') \<and> rb_holds cmp h' (remove1 x xs)"
proof -
  obtain t where t: "repr h t" "rb_inv t" "inorder t = xs" "cmp_sorted cmp xs"
    using assms(1) by (auto simp: rb_holds_def)
  then show ?thesis
    using RB_REMOVE_ok [OF t(1,2), of x] assms(2) cmp_sorted_remove1 [OF t(4), of x]
    by (auto simp: rb_holds_def)
qed

text \<open>A tree with two elements, the root and its red right child.\<close>

definition two_nodes :: rb_heap where
  "two_nodes = \<lparr>rbh_root = Ref 1, rbe_left = (\<lambda>_. Null), rbe_right = (\<lambda>_. Null)(1 := Ref 2),
     rbe_parent = (\<lambda>_. Null)(2 := Ref 1), rbe_color = (\<lambda>_. 0)(2 := 1)\<rparr>"

lemma two_nodes_repr: "repr two_nodes (Nd Lf 1 0 (Nd Lf 2 1 Lf))"
  by (simp add: repr_def focus_def two_nodes_def)

lemma two_nodes_holds: "rb_holds addr_cmp two_nodes [1, 2]"
proof -
  have "rb_inv (Nd Lf 1 0 (Nd Lf 2 1 Lf))" by (simp add: rb_inv_def)
  then have "\<exists>t. repr two_nodes t \<and> rb_inv t \<and> inorder t = [1, 2]"
    using two_nodes_repr by (intro exI [of _ "Nd Lf 1 0 (Nd Lf 2 1 Lf)"]) simp
  then show ?thesis by (simp add: rb_holds_def addr_cmp_def)
qed

theorem rb_remove_functional_witness:
  "\<exists>h'. RB_REMOVE (Ref 1) two_nodes = Some (Ref 1, h') \<and> rb_holds addr_cmp h' [2]"
  using rb_remove_functional [OF two_nodes_holds, of 1] by simp

text \<open>C23. \<open>RB_FOREACH\<close> visits every element once in ascending order and
  \<open>RB_FOREACH_REVERSE\<close> in descending order; \<open>RB_NEXT\<close> and \<open>RB_PREV\<close> are the
  neighbours in this order, null at its ends.\<close>

theorem rb_traversal_in_order:
  assumes "rb_holds cmp h xs"
  shows "RB_FOREACH h = Some xs \<and> RB_FOREACH_REVERSE h = Some (rev xs)
    \<and> (\<forall>ls a rs. xs = ls @ a # rs \<longrightarrow> RB_NEXT (Ref a) h = Some (first_ptr rs)
        \<and> RB_PREV (Ref a) h = Some (first_ptr (rev ls)))"
  using assms RB_FOREACH_ok RB_NEXT_PREV_ok unfolding rb_holds_def by blast

theorem rb_traversal_in_order_witness:
  "RB_FOREACH two_nodes = Some [1, 2] \<and> RB_NEXT (Ref 1) two_nodes = Some (Ref 2)"
  using rb_traversal_in_order [OF two_nodes_holds] by fastforce

text \<open>\<open>RB_NFIND\<close> finds the first element that is not smaller than the key, null if
  there is none; \<open>RB_FIND\<close> finds the element equal to the key.\<close>

theorem rb_search_functional:
  assumes "total_cmp cmp" "rb_holds cmp h xs"
  shows "RB_NFIND cmp e h = Some (first_ptr (dropWhile (\<lambda>x. 0 < cmp e x) xs))
    \<and> RB_FIND cmp e h = Some (lookup cmp e xs)"
  using assms RB_NFIND_ok RB_FIND_ok unfolding rb_holds_def by blast

theorem rb_search_functional_witness:
  "RB_NFIND addr_cmp 0 two_nodes = Some (Ref 1) \<and> RB_FIND addr_cmp 2 two_nodes = Some (Ref 2)"
  using rb_search_functional [OF addr_cmp_total two_nodes_holds, of 0]
    rb_search_functional [OF addr_cmp_total two_nodes_holds, of 2]
  by (simp add: addr_cmp_def lookup_def)

text \<open>The height of what hangs below a pointer, measured on the heap: the longest way down through
  \<open>RB_LEFT\<close> and \<open>RB_RIGHT\<close> to null, at most \<open>fuel\<close> elements.\<close>

fun rb_depth :: "nat \<Rightarrow> rb_heap \<Rightarrow> ptr \<Rightarrow> nat option" where
  "rb_depth fuel h Null = Some 0"
| "rb_depth 0 h (Ref a) = None"
| "rb_depth (Suc fuel) h (Ref a) = do {
     p \<leftarrow> RB_LEFT h (Ref a);
     q \<leftarrow> RB_RIGHT h (Ref a);
     l \<leftarrow> rb_depth fuel h p;
     r \<leftarrow> rb_depth fuel h q;
     Some (Suc (max l r))
   }"

lemma rb_depth_ok:
  "focus h t k \<Longrightarrow> height t \<le> fuel \<Longrightarrow> rb_depth fuel h (rootp t) = Some (height t)"
proof (induction t arbitrary: k fuel)
  case (Nd l a c r)
  obtain n where n: "fuel = Suc n" "height l \<le> n" "height r \<le> n" using Nd.prems(2) by (cases fuel) auto
  have "focus h l (FL a c r # k)" "focus h r (FR l a c # k)" using Nd.prems(1) by (simp_all add: focus_move)
  then show ?case using Nd.IH n focus_read(1,2) [OF Nd.prems(1)] by simp
qed simp

lemma height_le_length: "height t \<le> length (inorder t)"
  by (induction t) auto

lemma rb_holds_depth:
  assumes "rb_holds cmp h xs"
  shows "\<exists>d. rb_depth (length xs) h (RB_ROOT h) = Some d \<and> 2 ^ d \<le> (length xs + 1)\<^sup>2"
proof -
  obtain t where t: "repr h t" "rb_inv t" "inorder t = xs" using assms by (auto simp: rb_holds_def)
  then have "focus h t []" "RB_ROOT h = rootp t" by (simp_all add: repr_def focus_def RB_ROOT_def)
  then show ?thesis using rb_depth_ok [of h t "[]" "length xs"] height_le_length [of t] rb_height [OF t(2)] t(3) by simp
qed

lemma rb_init_holds: "rb_holds cmp (RB_INIT h) []"
  by (auto simp: rb_holds_def repr_def focus_def rb_inv_def RB_INIT_def set_root_def intro!: exI [of _ Lf])

text \<open>C33. The documented bound on the height: after any admissible sequence of insertions, removals and
  searches that starts with \<open>RB_INIT\<close>, on memory with any contents, the way from the root to null through
  \<open>RB_LEFT\<close> and \<open>RB_RIGHT\<close> has on every path at most \<open>2 lg (n + 1)\<close> elements, for the \<open>n\<close> elements that are then
  in the tree; this bounds every search, insertion and query of the minimum that follows.\<close>

theorem rb_height_bound:
  assumes "total_cmp cmp" "abs_run cmp ops [] = Some (rs, ys)"
  shows "\<exists>h' d. run_ops rb_step cmp ops (RB_INIT h) = Some (rs, h')
    \<and> rb_depth (length ys) h' (RB_ROOT h') = Some d \<and> 2 ^ d \<le> (length ys + 1)\<^sup>2"
proof -
  obtain h' where "run_ops rb_step cmp ops (RB_INIT h) = Some (rs, h')" "rb_holds cmp h' ys"
    using rb.run_refines [OF assms(1) rb_init_holds assms(2)] by blast
  then show ?thesis using rb_holds_depth by blast
qed

text \<open>Seven elements inserted in their order, and the fourth removed: at most five on a path.\<close>

theorem rb_height_bound_witness:
  "\<exists>h' d. run_ops rb_step addr_cmp [Insert 1, Insert 2, Insert 3, Insert 4, Insert 5, Insert 6, Insert 7, Remove 4] (RB_INIT rb_empty)
      = Some ([Null, Null, Null, Null, Null, Null, Null, Ref 4], h')
    \<and> rb_depth 6 h' (RB_ROOT h') = Some d \<and> 2 ^ d \<le> (49 :: nat)"
proof -
  have "abs_run addr_cmp [Insert 1, Insert 2, Insert 3, Insert 4, Insert 5, Insert 6, Insert 7, Remove 4] []
      = Some ([Null, Null, Null, Null, Null, Null, Null, Ref 4], [1, 2, 3, 5, 6, 7])"
    by (simp add: abs_insert_def abs_find_def abs_remove_def lookup_def addr_cmp_def)
  moreover have "length [1, 2, 3, 5, 6, 7 :: nat] = 6" "(6 + 1)\<^sup>2 = (49 :: nat)" by simp_all
  ultimately show ?thesis using rb_height_bound [OF addr_cmp_total, of _ _ "[1, 2, 3, 5, 6, 7]" rb_empty] by metis
qed

text \<open>A loop body that removes the elements of \<open>P\<close>.\<close>

definition remove_if :: "(nat \<Rightarrow> bool) \<Rightarrow> nat \<Rightarrow> rb_heap \<Rightarrow> rb_heap option" where
  "remove_if P a h = (if P a then map_option snd (RB_REMOVE (Ref a) h) else Some h)"

lemma rb_remove_holds:
  assumes "rb_holds cmp h (ls @ a # rs)"
  shows "\<exists>h'. RB_REMOVE (Ref a) h = Some (Ref a, h') \<and> rb_holds cmp h' (ls @ rs)"
proof -
  obtain t where t: "repr h t" "rb_inv t" "inorder t = ls @ a # rs" "cmp_sorted cmp (ls @ a # rs)"
    using assms by (auto simp: rb_holds_def)
  have "distinct (inorder t)" using t(1) by (simp add: repr_def focus_def)
  then have "remove1 a (inorder t) = ls @ rs" using t(3) by (simp add: remove1_append)
  then show ?thesis
    using RB_REMOVE_ok [OF t(1,2), of a] t(3) cmp_sorted_remove1 [OF t(4), of a]
    by (auto simp: rb_holds_def)
qed

lemma remove_if_holds:
  assumes "rb_holds cmp h (ls @ a # rs)"
  shows "\<exists>h'. remove_if P a h = Some h' \<and> rb_holds cmp h' (ls @ filter (\<lambda>x. \<not> P x) [a] @ rs)"
  using assms rb_remove_holds [OF assms] by (auto simp: remove_if_def)

lemma rb_neighbours:
  assumes "rb_holds cmp h (ls @ a # rs)"
  shows "RB_NEXT (Ref a) h = Some (first_ptr rs)" "RB_PREV (Ref a) h = Some (first_ptr (rev ls))"
  using assms RB_NEXT_PREV_ok unfolding rb_holds_def by blast+

lemma foreach_safe_loop_ok:
  "rb_holds cmp h (ls @ rs) \<Longrightarrow>
     \<exists>h'. foreach_safe_loop (remove_if P) (first_ptr rs) h = Some h'
       \<and> rb_holds cmp h' (ls @ filter (\<lambda>x. \<not> P x) rs)"
proof (induction rs arbitrary: h ls)
  case Nil
  then show ?case by (simp add: foreach_safe_loop.simps)
next
  case (Cons a rs)
  obtain h1 where h1: "remove_if P a h = Some h1" "rb_holds cmp h1 (ls @ filter (\<lambda>x. \<not> P x) [a] @ rs)"
    using remove_if_holds [OF Cons.prems] by blast
  from Cons.IH [of h1 "ls @ filter (\<lambda>x. \<not> P x) [a]"] h1(2) show ?case
    using rb_neighbours(1) [OF Cons.prems] h1(1)
    by (auto simp: foreach_safe_loop.simps [of _ "Ref a"] split: if_splits)
qed

lemma foreach_reverse_safe_loop_ok:
  "rb_holds cmp h (rev ls @ rs) \<Longrightarrow>
     \<exists>h'. foreach_reverse_safe_loop (remove_if P) (first_ptr ls) h = Some h'
       \<and> rb_holds cmp h' (filter (\<lambda>x. \<not> P x) (rev ls) @ rs)"
proof (induction ls arbitrary: h rs)
  case Nil
  then show ?case by (simp add: foreach_reverse_safe_loop.simps)
next
  case (Cons a ls)
  have p: "rb_holds cmp h (rev ls @ a # rs)" using Cons.prems by simp
  obtain h1 where h1: "remove_if P a h = Some h1"
      "rb_holds cmp h1 (rev ls @ filter (\<lambda>x. \<not> P x) [a] @ rs)"
    using remove_if_holds [OF p] by blast
  from Cons.IH [of h1 "filter (\<lambda>x. \<not> P x) [a] @ rs"] h1(2) show ?case
    using rb_neighbours(2) [OF p] h1(1)
    by (auto simp: foreach_reverse_safe_loop.simps [of _ "Ref a"] split: if_splits)
qed

text \<open>C35. \<open>RB_FOREACH_SAFE\<close> and \<open>RB_FOREACH_REVERSE_SAFE\<close> survive a body that unlinks
  the element they are at: removing every element that satisfies a condition, in either direction,
  ends and leaves a well-formed tree with exactly the other elements.\<close>

theorem rb_foreach_safe_removes:
  assumes "rb_holds cmp h xs"
  shows "(\<exists>h'. RB_FOREACH_SAFE (remove_if P) h = Some h' \<and> rb_holds cmp h' (filter (\<lambda>x. \<not> P x) xs))
    \<and> (\<exists>h'. RB_FOREACH_REVERSE_SAFE (remove_if P) h = Some h'
         \<and> rb_holds cmp h' (filter (\<lambda>x. \<not> P x) xs))"
proof -
  obtain t where t: "repr h t" "inorder t = xs" using assms by (auto simp: rb_holds_def)
  then show ?thesis
    using RB_MIN_ok [OF t(1)] RB_MAX_ok [OF t(1)] foreach_safe_loop_ok [of cmp h "[]" xs P]
      foreach_reverse_safe_loop_ok [of cmp h "rev xs" "[]" P] assms
    by (simp add: RB_FOREACH_SAFE_def RB_FOREACH_REVERSE_SAFE_def)
qed

theorem rb_foreach_safe_removes_witness:
  "(\<exists>h'. RB_FOREACH_SAFE (remove_if (\<lambda>_. True)) two_nodes = Some h' \<and> rb_holds addr_cmp h' [])
    \<and> (\<exists>h'. RB_FOREACH_REVERSE_SAFE (remove_if even) two_nodes = Some h' \<and> rb_holds addr_cmp h' [1])"
  using rb_foreach_safe_removes [OF two_nodes_holds, of "\<lambda>_. True"]
    rb_foreach_safe_removes [OF two_nodes_holds, of even] by simp

end
