(* ===== verification/Rbt_Generic.thy ===== *)
theory Rbt_Generic
  imports Rb_Search
begin

text \<open>
  The type-generic red-black trees of \<^verbatim>\<open>src/include/compat/sys/tree.h\<close> (\<open>RBT_*\<close>): the
  functions the macros generate for one type of elements, over the functions \<open>_rb_*\<close> that do the
  work. Those are not in the repository: they are the fields of \<open>rbt_api\<close>, and what \<open>tree(3)\<close> says
  of them are the assumptions of the locale \<open>rbt_library\<close>, which the red-black trees of the same
  header satisfy.

  An element is the address of the user's structure, a tree the address of its \<open>struct rb_tree\<close>;
  the memory is abstract, except for the field \<open>rbt_root\<close> that the header itself accesses.
\<close>

section \<open>The types\<close>

record 'm rb_type =
  t_compare :: cmp
  t_augment :: "(nat \<Rightarrow> 'm \<Rightarrow> 'm) option"
  t_offset :: "32 word"

record 'm rbt_api =
  rbt_root :: "nat \<Rightarrow> 'm \<Rightarrow> ptr"
  set_rbt_root :: "nat \<Rightarrow> ptr \<Rightarrow> 'm \<Rightarrow> 'm"
  rb_insert_fn :: "'m rb_type \<Rightarrow> nat \<Rightarrow> nat \<Rightarrow> 'm \<Rightarrow> (ptr \<times> 'm) option"
  rb_remove_fn :: "'m rb_type \<Rightarrow> nat \<Rightarrow> nat \<Rightarrow> 'm \<Rightarrow> (ptr \<times> 'm) option"
  rb_find_fn :: "'m rb_type \<Rightarrow> nat \<Rightarrow> nat \<Rightarrow> 'm \<Rightarrow> ptr option"
  rb_nfind_fn :: "'m rb_type \<Rightarrow> nat \<Rightarrow> nat \<Rightarrow> 'm \<Rightarrow> ptr option"
  rb_root_fn :: "'m rb_type \<Rightarrow> nat \<Rightarrow> 'm \<Rightarrow> ptr option"
  rb_min_fn :: "'m rb_type \<Rightarrow> nat \<Rightarrow> 'm \<Rightarrow> ptr option"
  rb_max_fn :: "'m rb_type \<Rightarrow> nat \<Rightarrow> 'm \<Rightarrow> ptr option"
  rb_next_fn :: "'m rb_type \<Rightarrow> nat \<Rightarrow> 'm \<Rightarrow> ptr option"
  rb_prev_fn :: "'m rb_type \<Rightarrow> nat \<Rightarrow> 'm \<Rightarrow> ptr option"
  rb_left_fn :: "'m rb_type \<Rightarrow> nat \<Rightarrow> 'm \<Rightarrow> ptr option"
  rb_right_fn :: "'m rb_type \<Rightarrow> nat \<Rightarrow> 'm \<Rightarrow> ptr option"
  rb_parent_fn :: "'m rb_type \<Rightarrow> nat \<Rightarrow> 'm \<Rightarrow> ptr option"
  rb_set_left_fn :: "'m rb_type \<Rightarrow> nat \<Rightarrow> ptr \<Rightarrow> 'm \<Rightarrow> 'm option"
  rb_set_right_fn :: "'m rb_type \<Rightarrow> nat \<Rightarrow> ptr \<Rightarrow> 'm \<Rightarrow> 'm option"
  rb_set_parent_fn :: "'m rb_type \<Rightarrow> nat \<Rightarrow> ptr \<Rightarrow> 'm \<Rightarrow> 'm option"
  rb_poison_fn :: "'m rb_type \<Rightarrow> nat \<Rightarrow> 64 word \<Rightarrow> 'm \<Rightarrow> 'm option"
  rb_check_fn :: "'m rb_type \<Rightarrow> nat \<Rightarrow> 64 word \<Rightarrow> 'm \<Rightarrow> bool option"

section \<open>The generated functions\<close>

definition rb_init :: "'m rbt_api \<Rightarrow> nat \<Rightarrow> 'm \<Rightarrow> 'm" where
  "rb_init api rbt m = set_rbt_root api rbt Null m"

definition rb_empty_fn :: "'m rbt_api \<Rightarrow> nat \<Rightarrow> 'm \<Rightarrow> bool" where
  "rb_empty_fn api rbt m \<longleftrightarrow> rbt_root api rbt m = Null"

text \<open>The descriptor \<open>name_RBT_INFO\<close> of a type; \<open>cmp\<close>, \<open>aug\<close> and \<open>off\<close> are the arguments of the
  macro. \<open>name_RBT_COMPARE\<close> and \<open>name_RBT_AUGMENT\<close> only convert their arguments to the type.\<close>

definition RBT_COMPARE :: "cmp \<Rightarrow> nat \<Rightarrow> nat \<Rightarrow> int" where
  "RBT_COMPARE cmp l r = cmp l r"

definition RBT_AUGMENT :: "(nat \<Rightarrow> 'm \<Rightarrow> 'm) \<Rightarrow> nat \<Rightarrow> 'm \<Rightarrow> 'm" where
  "RBT_AUGMENT aug p = aug p"

definition RBT_GENERATE_INTERNAL :: "32 word \<Rightarrow> cmp \<Rightarrow> (nat \<Rightarrow> 'm \<Rightarrow> 'm) option \<Rightarrow> 'm rb_type" where
  "RBT_GENERATE_INTERNAL off cmp aug = \<lparr>t_compare = RBT_COMPARE cmp, t_augment = aug, t_offset = off\<rparr>"

definition RBT_GENERATE_AUGMENT :: "32 word \<Rightarrow> cmp \<Rightarrow> (nat \<Rightarrow> 'm \<Rightarrow> 'm) \<Rightarrow> 'm rb_type" where
  "RBT_GENERATE_AUGMENT off cmp aug = RBT_GENERATE_INTERNAL off cmp (Some (RBT_AUGMENT aug))"

definition RBT_GENERATE :: "32 word \<Rightarrow> cmp \<Rightarrow> 'm rb_type" where
  "RBT_GENERATE off cmp = RBT_GENERATE_INTERNAL off cmp None"

text \<open>The functions of one type: \<open>ty\<close> is its \<open>name_RBT_TYPE\<close>; \<open>rbh_root\<close> is the only member of the
  head.\<close>

definition RBT_INIT :: "'m rbt_api \<Rightarrow> nat \<Rightarrow> 'm \<Rightarrow> 'm" where
  "RBT_INIT api head m = rb_init api head m"

definition RBT_INSERT :: "'m rbt_api \<Rightarrow> 'm rb_type \<Rightarrow> nat \<Rightarrow> nat \<Rightarrow> 'm \<Rightarrow> (ptr \<times> 'm) option" where
  "RBT_INSERT api ty head elm m = rb_insert_fn api ty head elm m"

definition RBT_REMOVE :: "'m rbt_api \<Rightarrow> 'm rb_type \<Rightarrow> nat \<Rightarrow> nat \<Rightarrow> 'm \<Rightarrow> (ptr \<times> 'm) option" where
  "RBT_REMOVE api ty head elm m = rb_remove_fn api ty head elm m"

definition RBT_FIND :: "'m rbt_api \<Rightarrow> 'm rb_type \<Rightarrow> nat \<Rightarrow> nat \<Rightarrow> 'm \<Rightarrow> ptr option" where
  "RBT_FIND api ty head key m = rb_find_fn api ty head key m"

definition RBT_NFIND :: "'m rbt_api \<Rightarrow> 'm rb_type \<Rightarrow> nat \<Rightarrow> nat \<Rightarrow> 'm \<Rightarrow> ptr option" where
  "RBT_NFIND api ty head key m = rb_nfind_fn api ty head key m"

definition RBT_ROOT :: "'m rbt_api \<Rightarrow> 'm rb_type \<Rightarrow> nat \<Rightarrow> 'm \<Rightarrow> ptr option" where
  "RBT_ROOT api ty head m = rb_root_fn api ty head m"

definition RBT_EMPTY :: "'m rbt_api \<Rightarrow> nat \<Rightarrow> 'm \<Rightarrow> bool" where
  "RBT_EMPTY api head m = rb_empty_fn api head m"

definition RBT_MIN :: "'m rbt_api \<Rightarrow> 'm rb_type \<Rightarrow> nat \<Rightarrow> 'm \<Rightarrow> ptr option" where
  "RBT_MIN api ty head m = rb_min_fn api ty head m"

definition RBT_MAX :: "'m rbt_api \<Rightarrow> 'm rb_type \<Rightarrow> nat \<Rightarrow> 'm \<Rightarrow> ptr option" where
  "RBT_MAX api ty head m = rb_max_fn api ty head m"

definition RBT_NEXT :: "'m rbt_api \<Rightarrow> 'm rb_type \<Rightarrow> nat \<Rightarrow> 'm \<Rightarrow> ptr option" where
  "RBT_NEXT api ty elm m = rb_next_fn api ty elm m"

definition RBT_PREV :: "'m rbt_api \<Rightarrow> 'm rb_type \<Rightarrow> nat \<Rightarrow> 'm \<Rightarrow> ptr option" where
  "RBT_PREV api ty elm m = rb_prev_fn api ty elm m"

definition RBT_LEFT :: "'m rbt_api \<Rightarrow> 'm rb_type \<Rightarrow> nat \<Rightarrow> 'm \<Rightarrow> ptr option" where
  "RBT_LEFT api ty elm m = rb_left_fn api ty elm m"

definition RBT_RIGHT :: "'m rbt_api \<Rightarrow> 'm rb_type \<Rightarrow> nat \<Rightarrow> 'm \<Rightarrow> ptr option" where
  "RBT_RIGHT api ty elm m = rb_right_fn api ty elm m"

definition RBT_PARENT :: "'m rbt_api \<Rightarrow> 'm rb_type \<Rightarrow> nat \<Rightarrow> 'm \<Rightarrow> ptr option" where
  "RBT_PARENT api ty elm m = rb_parent_fn api ty elm m"

definition RBT_SET_LEFT :: "'m rbt_api \<Rightarrow> 'm rb_type \<Rightarrow> nat \<Rightarrow> ptr \<Rightarrow> 'm \<Rightarrow> 'm option" where
  "RBT_SET_LEFT api ty elm left m = rb_set_left_fn api ty elm left m"

definition RBT_SET_RIGHT :: "'m rbt_api \<Rightarrow> 'm rb_type \<Rightarrow> nat \<Rightarrow> ptr \<Rightarrow> 'm \<Rightarrow> 'm option" where
  "RBT_SET_RIGHT api ty elm right m = rb_set_right_fn api ty elm right m"

definition RBT_SET_PARENT :: "'m rbt_api \<Rightarrow> 'm rb_type \<Rightarrow> nat \<Rightarrow> ptr \<Rightarrow> 'm \<Rightarrow> 'm option" where
  "RBT_SET_PARENT api ty elm parent m = rb_set_parent_fn api ty elm parent m"

definition RBT_POISON :: "'m rbt_api \<Rightarrow> 'm rb_type \<Rightarrow> nat \<Rightarrow> 64 word \<Rightarrow> 'm \<Rightarrow> 'm option" where
  "RBT_POISON api ty elm poison m = rb_poison_fn api ty elm poison m"

definition RBT_CHECK :: "'m rbt_api \<Rightarrow> 'm rb_type \<Rightarrow> nat \<Rightarrow> 64 word \<Rightarrow> 'm \<Rightarrow> bool option" where
  "RBT_CHECK api ty elm poison m = rb_check_fn api ty elm poison m"

section \<open>The loops\<close>

text \<open>A loop over elements: \<open>step\<close> is the macro's way to the next one, \<open>body\<close> the statement of the
  caller, which may change the memory and what else the caller keeps (\<open>'s\<close>). The safe loops read
  the next element before the body, the others behind it.\<close>

partial_function (option) rbt_loop ::
    "(nat \<Rightarrow> 'm \<Rightarrow> ptr option) \<Rightarrow> (nat \<Rightarrow> 'm \<times> 's \<Rightarrow> ('m \<times> 's) option) \<Rightarrow> ptr \<Rightarrow> 'm \<times> 's
      \<Rightarrow> ('m \<times> 's) option" where
  "rbt_loop step body e ms =
     (case e of
        Null \<Rightarrow> Some ms
      | Ref a \<Rightarrow> do {
          ms \<leftarrow> body a ms;
          n \<leftarrow> step a (fst ms);
          rbt_loop step body n ms
        })"

partial_function (option) rbt_safe_loop ::
    "(nat \<Rightarrow> 'm \<Rightarrow> ptr option) \<Rightarrow> (nat \<Rightarrow> 'm \<times> 's \<Rightarrow> ('m \<times> 's) option) \<Rightarrow> ptr \<Rightarrow> 'm \<times> 's
      \<Rightarrow> ('m \<times> 's) option" where
  "rbt_safe_loop step body e ms =
     (case e of
        Null \<Rightarrow> Some ms
      | Ref a \<Rightarrow> do {
          n \<leftarrow> step a (fst ms);
          ms \<leftarrow> body a ms;
          rbt_safe_loop step body n ms
        })"

definition RBT_FOREACH :: "'m rbt_api \<Rightarrow> 'm rb_type \<Rightarrow> nat \<Rightarrow>
    (nat \<Rightarrow> 'm \<times> 's \<Rightarrow> ('m \<times> 's) option) \<Rightarrow> 'm \<times> 's \<Rightarrow> ('m \<times> 's) option" where
  "RBT_FOREACH api ty head body ms = do {
     e \<leftarrow> RBT_MIN api ty head (fst ms);
     rbt_loop (RBT_NEXT api ty) body e ms
   }"

definition RBT_FOREACH_SAFE :: "'m rbt_api \<Rightarrow> 'm rb_type \<Rightarrow> nat \<Rightarrow>
    (nat \<Rightarrow> 'm \<times> 's \<Rightarrow> ('m \<times> 's) option) \<Rightarrow> 'm \<times> 's \<Rightarrow> ('m \<times> 's) option" where
  "RBT_FOREACH_SAFE api ty head body ms = do {
     e \<leftarrow> RBT_MIN api ty head (fst ms);
     rbt_safe_loop (RBT_NEXT api ty) body e ms
   }"

definition RBT_FOREACH_REVERSE :: "'m rbt_api \<Rightarrow> 'm rb_type \<Rightarrow> nat \<Rightarrow>
    (nat \<Rightarrow> 'm \<times> 's \<Rightarrow> ('m \<times> 's) option) \<Rightarrow> 'm \<times> 's \<Rightarrow> ('m \<times> 's) option" where
  "RBT_FOREACH_REVERSE api ty head body ms = do {
     e \<leftarrow> RBT_MAX api ty head (fst ms);
     rbt_loop (RBT_PREV api ty) body e ms
   }"

definition RBT_FOREACH_REVERSE_SAFE :: "'m rbt_api \<Rightarrow> 'm rb_type \<Rightarrow> nat \<Rightarrow>
    (nat \<Rightarrow> 'm \<times> 's \<Rightarrow> ('m \<times> 's) option) \<Rightarrow> 'm \<times> 's \<Rightarrow> ('m \<times> 's) option" where
  "RBT_FOREACH_REVERSE_SAFE api ty head body ms = do {
     e \<leftarrow> RBT_MAX api ty head (fst ms);
     rbt_safe_loop (RBT_PREV api ty) body e ms
   }"

section \<open>What the library promises\<close>

fun rbt_step :: "'m rbt_api \<Rightarrow> 'm rb_type \<Rightarrow> nat \<Rightarrow> tree_op \<Rightarrow> 'm \<Rightarrow> (ptr \<times> 'm) option" where
  "rbt_step api ty head (Insert e) m = RBT_INSERT api ty head e m"
| "rbt_step api ty head (Find e) m = map_option (\<lambda>p. (p, m)) (RBT_FIND api ty head e m)"
| "rbt_step api ty head (Remove e) m = RBT_REMOVE api ty head e m"
| "rbt_step api ty head Min m = map_option (\<lambda>p. (p, m)) (RBT_MIN api ty head m)"
| "rbt_step api ty head Max m = map_option (\<lambda>p. (p, m)) (RBT_MAX api ty head m)"

text \<open>\<open>holds m xs\<close>: in the memory \<open>m\<close> the tree has the elements \<open>xs\<close> in order.\<close>

locale rbt_library =
  fixes api :: "'m rbt_api" and ty :: "'m rb_type" and head :: nat
    and holds :: "'m \<Rightarrow> nat list \<Rightarrow> bool"
  assumes total: "total_cmp (t_compare ty)"
    and init: "holds (set_rbt_root api head Null m) []"
    and root: "holds m xs \<Longrightarrow> rbt_root api head m = Null \<longleftrightarrow> xs = []"
    and sorted: "holds m xs \<Longrightarrow> cmp_sorted (t_compare ty) xs"
    and insert: "holds m xs \<Longrightarrow> e \<notin> set xs \<Longrightarrow>
      \<exists>m'. rb_insert_fn api ty head e m = Some (fst (abs_insert (t_compare ty) e xs), m')
        \<and> holds m' (snd (abs_insert (t_compare ty) e xs))"
    and remove: "holds m (xs @ e # ys) \<Longrightarrow>
      \<exists>m'. rb_remove_fn api ty head e m = Some (Ref e, m') \<and> holds m' (xs @ ys)"
    and find: "holds m xs \<Longrightarrow> rb_find_fn api ty head e m = Some (lookup (t_compare ty) e xs)"
    and min: "holds m xs \<Longrightarrow> rb_min_fn api ty head m = Some (first_ptr xs)"
    and max: "holds m xs \<Longrightarrow> rb_max_fn api ty head m = Some (first_ptr (rev xs))"
    and "next": "holds m (xs @ e # ys) \<Longrightarrow> rb_next_fn api ty e m = Some (first_ptr ys)"
    and prev: "holds m (xs @ e # ys) \<Longrightarrow> rb_prev_fn api ty e m = Some (first_ptr (rev xs))"
begin

lemma empty_init: "holds (RBT_INIT api head m) [] \<and> RBT_EMPTY api head (RBT_INIT api head m)"
  using init [of m] root [OF init [of m]]
  by (simp add: RBT_INIT_def rb_init_def RBT_EMPTY_def rb_empty_fn_def)

lemma empty_iff: "holds m xs \<Longrightarrow> RBT_EMPTY api head m \<longleftrightarrow> xs = []"
  by (simp add: RBT_EMPTY_def rb_empty_fn_def root)

lemma step_refines:
  assumes "holds m xs" "allowed op xs"
  shows "\<exists>m'. rbt_step api ty head op m = Some (fst (abs_step (t_compare ty) op xs), m')
    \<and> holds m' (snd (abs_step (t_compare ty) op xs))"
proof (cases op)
  case (Insert e)
  then show ?thesis using insert [OF assms(1), of e] assms(2) by (simp add: RBT_INSERT_def)
next
  case (Find e)
  then show ?thesis using assms(1) find by (simp add: RBT_FIND_def abs_find_def)
next
  case (Remove e)
  then have "e \<in> set xs" using assms(2) by simp
  then obtain ys zs where "xs = ys @ e # zs" "e \<notin> set ys" by (meson split_list_first)
  then show ?thesis using remove [of m ys e zs] assms(1) Remove
    by (simp add: RBT_REMOVE_def abs_remove_def remove1_append)
next
  case Min
  then show ?thesis using assms(1) min by (simp add: RBT_MIN_def)
next
  case Max
  then show ?thesis using assms(1) max by (simp add: RBT_MAX_def)
qed

end

text \<open>A library of these functions is a sorted set for the comparison of its type.\<close>

sublocale rbt_library \<subseteq> as_tree: ordered_tree "\<lambda>cmp m xs. cmp = t_compare ty \<and> holds m xs"
  "\<lambda>cmp. rbt_step api ty head"
  by unfold_locales (use sorted step_refines in auto)

context rbt_library
begin

lemma run_ok:
  assumes "abs_run (t_compare ty) ops [] = Some (rs, xs)"
  shows "\<exists>m'. run_ops (\<lambda>_. rbt_step api ty head) (t_compare ty) ops (RBT_INIT api head m) = Some (rs, m') \<and> holds m' xs"
  using as_tree.run_refines [OF total _ assms, of "RBT_INIT api head m"] empty_init by auto

end

section \<open>The loops visit every element\<close>

text \<open>A body that leaves the memory alone and keeps something of each element, and one that removes
  the elements of \<open>P\<close>.\<close>

definition visit :: "(nat \<Rightarrow> 's \<Rightarrow> 's) \<Rightarrow> nat \<Rightarrow> 'm \<times> 's \<Rightarrow> ('m \<times> 's) option" where
  "visit f a ms = Some (fst ms, f a (snd ms))"

definition rbt_remove_if :: "'m rbt_api \<Rightarrow> 'm rb_type \<Rightarrow> nat \<Rightarrow> (nat \<Rightarrow> bool) \<Rightarrow>
    nat \<Rightarrow> 'm \<times> nat list \<Rightarrow> ('m \<times> nat list) option" where
  "rbt_remove_if api ty head P a ms =
     (if P a
      then do { (_, m) \<leftarrow> RBT_REMOVE api ty head a (fst ms); Some (m, snd ms @ [a]) }
      else Some ms)"

lemma rbt_loop_visit:
  assumes "\<And>xs a ys. zs = xs @ a # ys \<Longrightarrow> step a m = Some (first_ptr ys)"
  shows "rbt_loop step (visit f) (first_ptr zs) (m, s) = Some (m, fold f zs s)"
  using assms
proof (induction zs arbitrary: s)
  case Nil
  then show ?case by (simp add: rbt_loop.simps)
next
  case (Cons a zs)
  have "step a m = Some (first_ptr zs)" using Cons.prems [of "[]"] by simp
  moreover have "rbt_loop step (visit f) (first_ptr zs) (m, f a s) = Some (m, fold f zs (f a s))"
    by (rule Cons.IH) (use Cons.prems [of "a # _"] in simp)
  moreover have "visit f a (m, s) = Some (m, f a s)" by (simp add: visit_def)
  ultimately show ?case by (simp add: rbt_loop.simps [of _ _ "Ref a"])
qed

context rbt_library
begin

lemma foreach_visits:
  assumes "holds m xs"
  shows "RBT_FOREACH api ty head (visit f) (m, s) = Some (m, fold f xs s)"
    "RBT_FOREACH_REVERSE api ty head (visit f) (m, s) = Some (m, fold f (rev xs) s)"
proof -
  have "rbt_loop (RBT_NEXT api ty) (visit f) (first_ptr xs) (m, s) = Some (m, fold f xs s)"
    by (rule rbt_loop_visit) (use assms "next" in \<open>simp add: RBT_NEXT_def\<close>)
  then show "RBT_FOREACH api ty head (visit f) (m, s) = Some (m, fold f xs s)"
    using min [OF assms] by (simp add: RBT_FOREACH_def RBT_MIN_def)
  have "RBT_PREV api ty a m = Some (first_ptr zs)" if "rev xs = ys @ a # zs" for ys a zs
  proof -
    have "xs = rev zs @ a # rev ys" using that by (simp add: rev_eq_append_conv)
    then show ?thesis using prev [of m "rev zs" a "rev ys"] assms by (simp add: RBT_PREV_def)
  qed
  then have "rbt_loop (RBT_PREV api ty) (visit f) (first_ptr (rev xs)) (m, s) = Some (m, fold f (rev xs) s)"
    by (rule rbt_loop_visit)
  then show "RBT_FOREACH_REVERSE api ty head (visit f) (m, s) = Some (m, fold f (rev xs) s)"
    using max [OF assms] by (simp add: RBT_FOREACH_REVERSE_def RBT_MAX_def)
qed

lemma library_remove_if:
  assumes "holds m (ls @ a # rs)"
  shows "\<exists>m'. rbt_remove_if api ty head P a (m, s) = Some (m', s @ filter P [a])
    \<and> holds m' (ls @ filter (\<lambda>x. \<not> P x) [a] @ rs)"
  using assms remove [OF assms] by (auto simp: rbt_remove_if_def RBT_REMOVE_def)

lemma safe_loop_removes:
  "holds m (ls @ rs) \<Longrightarrow>
    \<exists>m'. rbt_safe_loop (RBT_NEXT api ty) (rbt_remove_if api ty head P) (first_ptr rs) (m, s)
        = Some (m', s @ filter P rs) \<and> holds m' (ls @ filter (\<lambda>x. \<not> P x) rs)"
proof (induction rs arbitrary: m ls s)
  case Nil
  then show ?case by (simp add: rbt_safe_loop.simps)
next
  case (Cons a rs)
  obtain m1 where m1: "rbt_remove_if api ty head P a (m, s) = Some (m1, s @ filter P [a])"
    "holds m1 (ls @ filter (\<lambda>x. \<not> P x) [a] @ rs)" using library_remove_if [OF Cons.prems] by blast
  from Cons.IH [of m1 "ls @ filter (\<lambda>x. \<not> P x) [a]" "s @ filter P [a]"] m1(2) show ?case
    using "next" [OF Cons.prems] m1(1)
    by (auto simp: rbt_safe_loop.simps [of _ _ "Ref a"] RBT_NEXT_def split: if_splits)
qed

lemma safe_loop_removes_reverse:
  "holds m (rev ls @ rs) \<Longrightarrow>
    \<exists>m'. rbt_safe_loop (RBT_PREV api ty) (rbt_remove_if api ty head P) (first_ptr ls) (m, s)
        = Some (m', s @ filter P ls) \<and> holds m' (filter (\<lambda>x. \<not> P x) (rev ls) @ rs)"
proof (induction ls arbitrary: m rs s)
  case Nil
  then show ?case by (simp add: rbt_safe_loop.simps)
next
  case (Cons a ls)
  have p: "holds m (rev ls @ a # rs)" using Cons.prems by simp
  obtain m1 where m1: "rbt_remove_if api ty head P a (m, s) = Some (m1, s @ filter P [a])"
    "holds m1 (rev ls @ filter (\<lambda>x. \<not> P x) [a] @ rs)" using library_remove_if [OF p] by blast
  from Cons.IH [of m1 "filter (\<lambda>x. \<not> P x) [a] @ rs" "s @ filter P [a]"] m1(2) show ?case
    using prev [OF p] m1(1)
    by (auto simp: rbt_safe_loop.simps [of _ _ "Ref a"] RBT_PREV_def split: if_splits)
qed

lemma library_loops_remove:
  assumes "holds m xs"
  shows "\<exists>m'. RBT_FOREACH_SAFE api ty head (rbt_remove_if api ty head P) (m, s) = Some (m', s @ filter P xs)
      \<and> holds m' (filter (\<lambda>x. \<not> P x) xs)"
    "\<exists>m'. RBT_FOREACH_REVERSE_SAFE api ty head (rbt_remove_if api ty head P) (m, s)
        = Some (m', s @ filter P (rev xs)) \<and> holds m' (filter (\<lambda>x. \<not> P x) xs)"
  using safe_loop_removes [of m "[]" xs P s] safe_loop_removes_reverse [of m "rev xs" "[]" P s] assms
    min [OF assms] max [OF assms]
  by (simp_all add: RBT_FOREACH_SAFE_def RBT_FOREACH_REVERSE_SAFE_def RBT_MIN_def RBT_MAX_def)

end

section \<open>The red-black trees of the header as such a library\<close>

text \<open>\<open>RB_*\<close> for the comparison of the type: one tree, no augmentation, no poisoning.\<close>

definition rb_macros :: "rb_heap rbt_api" where
  "rb_macros = \<lparr>rbt_root = (\<lambda>_. RB_ROOT), set_rbt_root = (\<lambda>_. set_root),
     rb_insert_fn = (\<lambda>ty _ e. RB_INSERT (t_compare ty) e), rb_remove_fn = (\<lambda>_ _ e. RB_REMOVE (Ref e)),
     rb_find_fn = (\<lambda>ty _ e. RB_FIND (t_compare ty) e), rb_nfind_fn = (\<lambda>ty _ e. RB_NFIND (t_compare ty) e),
     rb_root_fn = (\<lambda>_ _ h. Some (RB_ROOT h)), rb_min_fn = (\<lambda>_ _. RB_MIN), rb_max_fn = (\<lambda>_ _. RB_MAX),
     rb_next_fn = (\<lambda>_ e. RB_NEXT (Ref e)), rb_prev_fn = (\<lambda>_ e. RB_PREV (Ref e)),
     rb_left_fn = (\<lambda>_ e h. RB_LEFT h (Ref e)), rb_right_fn = (\<lambda>_ e h. RB_RIGHT h (Ref e)),
     rb_parent_fn = (\<lambda>_ e h. RB_PARENT h (Ref e)), rb_set_left_fn = (\<lambda>_ e. set_LEFT (Ref e)),
     rb_set_right_fn = (\<lambda>_ e. set_RIGHT (Ref e)), rb_set_parent_fn = (\<lambda>_ e. set_PARENT (Ref e)),
     rb_poison_fn = (\<lambda>_ _ _. Some), rb_check_fn = (\<lambda>_ _ _ _. Some True)\<rparr>"

lemma rb_holds_init: "rb_holds cmp (set_root Null h) []"
  by (auto simp: rb_holds_def repr_def focus_def rb_inv_def set_root_def intro!: exI [of _ Lf])

lemma rb_holds_root: "rb_holds cmp h xs \<Longrightarrow> RB_ROOT h = Null \<longleftrightarrow> xs = []"
proof -
  assume "rb_holds cmp h xs"
  then obtain t where "repr h t" "inorder t = xs" by (auto simp: rb_holds_def)
  then show ?thesis by (cases t) (auto simp: repr_def focus_def RB_ROOT_def)
qed

interpretation rbt_rb: rbt_library rb_macros "RBT_GENERATE off addr_cmp" head "rb_holds addr_cmp" for off head
proof unfold_locales
  let ?ty = "RBT_GENERATE off addr_cmp :: rb_heap rb_type"
  have cmp [simp]: "t_compare ?ty = addr_cmp"
    by (simp add: RBT_GENERATE_def RBT_GENERATE_INTERNAL_def RBT_COMPARE_def [abs_def])
  note rb = rb.sorted rb.step_refines
  show "total_cmp (t_compare ?ty)" by (simp add: addr_cmp_total)
  show "rb_holds addr_cmp (set_rbt_root rb_macros head Null m) []" for m
    by (simp add: rb_macros_def rb_holds_init)
  show "rbt_root rb_macros head m = Null \<longleftrightarrow> xs = []" if "rb_holds addr_cmp m xs" for m xs
    using rb_holds_root [OF that] by (simp add: rb_macros_def)
  show "cmp_sorted (t_compare ?ty) xs" if "rb_holds addr_cmp m xs" for m xs
    using that by (simp add: rb_holds_def)
  show "\<exists>m'. rb_insert_fn rb_macros ?ty head e m = Some (fst (abs_insert (t_compare ?ty) e xs), m')
        \<and> rb_holds addr_cmp m' (snd (abs_insert (t_compare ?ty) e xs))"
    if "rb_holds addr_cmp m xs" "e \<notin> set xs" for m xs e
    using rb_insert_step [OF that(1) addr_cmp_total that(2)] by (simp add: rb_macros_def)
  show "\<exists>m'. rb_remove_fn rb_macros ?ty head e m = Some (Ref e, m') \<and> rb_holds addr_cmp m' (xs @ ys)"
    if "rb_holds addr_cmp m (xs @ e # ys)" for m xs e ys
    using rb_remove_holds [OF that] by (simp add: rb_macros_def)
  show "rb_find_fn rb_macros ?ty head e m = Some (lookup (t_compare ?ty) e xs)"
    if "rb_holds addr_cmp m xs" for m xs e
    using that RB_FIND_ok addr_cmp_total by (auto simp: rb_macros_def rb_holds_def)
  show "rb_min_fn rb_macros ?ty head m = Some (first_ptr xs)" if "rb_holds addr_cmp m xs" for m xs
    using that RB_MIN_ok by (auto simp: rb_macros_def rb_holds_def)
  show "rb_max_fn rb_macros ?ty head m = Some (first_ptr (rev xs))" if "rb_holds addr_cmp m xs" for m xs
    using that RB_MAX_ok by (auto simp: rb_macros_def rb_holds_def)
  show "rb_next_fn rb_macros ?ty e m = Some (first_ptr ys)"
    "rb_prev_fn rb_macros ?ty e m = Some (first_ptr (rev xs))"
    if "rb_holds addr_cmp m (xs @ e # ys)" for m xs e ys
    using rb_neighbours [OF that] by (simp_all add: rb_macros_def)
qed

section \<open>Properties\<close>

text \<open>C15. The type-generic trees over any library that keeps the promises of \<open>tree(3)\<close>: from
  \<open>RBT_INIT\<close>, every admissible sequence of operations is defined and answers as on the sorted list of
  elements, \<open>RBT_EMPTY\<close> tells whether it is empty, and the four loops of the header visit the
  elements once each, in ascending or descending order, the safe ones also when the body removes the
  element it is at.\<close>

theorem rbt_loops_and_operations:
  assumes "rbt_library api ty head holds" "abs_run (t_compare ty) ops [] = Some (rs, xs)"
  shows "\<exists>m1 m2 m3. run_ops (\<lambda>_. rbt_step api ty head) (t_compare ty) ops (RBT_INIT api head m) = Some (rs, m1)
    \<and> RBT_EMPTY api head m1 = (xs = [])
    \<and> RBT_FOREACH api ty head (visit f) (m1, s) = Some (m1, fold f xs s)
    \<and> RBT_FOREACH_REVERSE api ty head (visit f) (m1, s) = Some (m1, fold f (rev xs) s)
    \<and> RBT_FOREACH_SAFE api ty head (rbt_remove_if api ty head P) (m1, []) = Some (m2, filter P xs)
    \<and> RBT_FOREACH api ty head (visit f) (m2, s) = Some (m2, fold f (filter (\<lambda>x. \<not> P x) xs) s)
    \<and> RBT_FOREACH_REVERSE_SAFE api ty head (rbt_remove_if api ty head P) (m1, []) = Some (m3, filter P (rev xs))
    \<and> RBT_FOREACH api ty head (visit f) (m3, s) = Some (m3, fold f (filter (\<lambda>x. \<not> P x) xs) s)"
proof -
  note lib = assms(1)
  obtain m1 where m1: "run_ops (\<lambda>_. rbt_step api ty head) (t_compare ty) ops (RBT_INIT api head m) = Some (rs, m1)"
    "holds m1 xs"
    using rbt_library.run_ok [OF lib assms(2)] by blast
  obtain m2 where m2: "RBT_FOREACH_SAFE api ty head (rbt_remove_if api ty head P) (m1, []) = Some (m2, filter P xs)"
    "holds m2 (filter (\<lambda>x. \<not> P x) xs)"
    using rbt_library.library_loops_remove(1) [OF lib m1(2), of P "[]"] by auto
  obtain m3 where m3: "RBT_FOREACH_REVERSE_SAFE api ty head (rbt_remove_if api ty head P) (m1, []) = Some (m3, filter P (rev xs))"
    "holds m3 (filter (\<lambda>x. \<not> P x) xs)"
    using rbt_library.library_loops_remove(2) [OF lib m1(2), of P "[]"] by auto
  show ?thesis
    by (intro exI conjI; rule m1(1) m2(1) m3(1) rbt_library.empty_iff [OF lib m1(2)]
        rbt_library.foreach_visits [OF lib m1(2)] rbt_library.foreach_visits(1) [OF lib m2(2)]
        rbt_library.foreach_visits(1) [OF lib m3(2)])
qed

theorem rbt_loops_and_operations_witness:
  "\<exists>m1. run_ops (\<lambda>_. rbt_step rb_macros (RBT_GENERATE 0 addr_cmp) 0) addr_cmp demo_ops (RBT_INIT rb_macros 0 rb_empty)
      = Some ([Null, Null, Null, Ref 2, Ref 3], m1)
    \<and> RBT_FOREACH rb_macros (RBT_GENERATE 0 addr_cmp) 0 (visit (#)) (m1, []) = Some (m1, [3, 1])"
proof -
  have c: "t_compare (RBT_GENERATE 0 addr_cmp :: rb_heap rb_type) = addr_cmp"
    by (simp add: RBT_GENERATE_def RBT_GENERATE_INTERNAL_def RBT_COMPARE_def [abs_def])
  show ?thesis
    using rbt_loops_and_operations [OF rbt_rb.rbt_library_axioms [where off = 0 and head = 0],
        where ops = demo_ops and m = rb_empty and f = "(#)" and s = "[]", unfolded c, OF demo_ops_run]
    by fastforce
qed

end
