(* ===== verification/Splay_Tree.thy ===== *)
theory Splay_Tree
  imports Tree_Order
begin

text \<open>
  The splay tree macros \<open>SPLAY_*\<close> of \<^verbatim>\<open>src/include/compat/sys/tree.h\<close>. The
  heap holds the head and the two members of the \<open>SPLAY_ENTRY\<close> of every element; the
  local variable \<open>__node\<close> of the splay operations, whose members collect the smaller
  and the larger elements, is the cell \<open>Dummy\<close>. A pointer to a cell that is never null
  (\<open>__left\<close>, \<open>__right\<close>) is a \<open>snode\<close>.
\<close>

section \<open>Model\<close>

datatype snode = Dummy | Elm nat

record splay_heap =
  sph_root :: ptr
  spe_left :: "snode \<Rightarrow> ptr"
  spe_right :: "snode \<Rightarrow> ptr"

definition ssetl :: "snode \<Rightarrow> ptr \<Rightarrow> splay_heap \<Rightarrow> splay_heap" where
  "ssetl c v h = h\<lparr>spe_left := (spe_left h)(c := v)\<rparr>"

definition ssetr :: "snode \<Rightarrow> ptr \<Rightarrow> splay_heap \<Rightarrow> splay_heap" where
  "ssetr c v h = h\<lparr>spe_right := (spe_right h)(c := v)\<rparr>"

definition sset_root :: "ptr \<Rightarrow> splay_heap \<Rightarrow> splay_heap" where
  "sset_root p h = h\<lparr>sph_root := p\<rparr>"

fun deref :: "ptr \<Rightarrow> snode option" where
  "deref Null = None"
| "deref (Ref a) = Some (Elm a)"

definition SPLAY_INIT :: "splay_heap \<Rightarrow> splay_heap" where
  "SPLAY_INIT h = sset_root Null h"

definition SPLAY_EMPTY :: "splay_heap \<Rightarrow> bool" where
  "SPLAY_EMPTY h \<longleftrightarrow> sph_root h = Null"

definition SPLAY_ROTATE_RIGHT :: "ptr \<Rightarrow> splay_heap \<Rightarrow> splay_heap option" where
  "SPLAY_ROTATE_RIGHT tmp h = do {
     root \<leftarrow> deref (sph_root h);
     t \<leftarrow> deref tmp;
     let h = ssetl root (spe_right h t) h;
     let h = ssetr t (sph_root h) h;
     Some (sset_root tmp h)
   }"

definition SPLAY_ROTATE_LEFT :: "ptr \<Rightarrow> splay_heap \<Rightarrow> splay_heap option" where
  "SPLAY_ROTATE_LEFT tmp h = do {
     root \<leftarrow> deref (sph_root h);
     t \<leftarrow> deref tmp;
     let h = ssetr root (spe_left h t) h;
     let h = ssetl t (sph_root h) h;
     Some (sset_root tmp h)
   }"

text \<open>The result holds the new value of the macro parameter \<open>tmp\<close>.\<close>

definition SPLAY_LINKLEFT :: "snode \<Rightarrow> splay_heap \<Rightarrow> (snode \<times> splay_heap) option" where
  "SPLAY_LINKLEFT tmp h = do {
     let h = ssetl tmp (sph_root h) h;
     tmp \<leftarrow> deref (sph_root h);
     Some (tmp, sset_root (spe_left h tmp) h)
   }"

definition SPLAY_LINKRIGHT :: "snode \<Rightarrow> splay_heap \<Rightarrow> (snode \<times> splay_heap) option" where
  "SPLAY_LINKRIGHT tmp h = do {
     let h = ssetr tmp (sph_root h) h;
     tmp \<leftarrow> deref (sph_root h);
     Some (tmp, sset_root (spe_right h tmp) h)
   }"

definition SPLAY_ASSEMBLE :: "snode \<Rightarrow> snode \<Rightarrow> splay_heap \<Rightarrow> splay_heap option" where
  "SPLAY_ASSEMBLE left right h = do {
     root \<leftarrow> deref (sph_root h);
     let h = ssetr left (spe_left h root) h;
     let h = ssetl right (spe_right h root) h;
     let h = ssetl root (spe_right h Dummy) h;
     let h = ssetr root (spe_left h Dummy) h;
     Some h
   }"

text \<open>The two branches of the loop of \<open>SPLAY\<close>; \<open>left_of\<close> and \<open>right_of\<close> are the
  outcomes of the comparison with the child. \<open>Inl\<close> is a \<open>break\<close>, \<open>Inr\<close> the new
  \<open>__right\<close> or \<open>__left\<close>.\<close>

definition splay_left :: "(nat \<Rightarrow> bool) \<Rightarrow> snode \<Rightarrow> snode \<Rightarrow> splay_heap
    \<Rightarrow> (splay_heap + snode \<times> splay_heap) option" where
  "splay_left left_of root right h =
     (case spe_left h root of
        Null \<Rightarrow> Some (Inl h)
      | Ref t \<Rightarrow> do {
          h \<leftarrow> (if left_of t then SPLAY_ROTATE_RIGHT (Ref t) h else Some h);
          root \<leftarrow> deref (sph_root h);
          if left_of t \<and> spe_left h root = Null then Some (Inl h)
          else map_option Inr (SPLAY_LINKLEFT right h)
        })"

definition splay_right :: "(nat \<Rightarrow> bool) \<Rightarrow> snode \<Rightarrow> snode \<Rightarrow> splay_heap
    \<Rightarrow> (splay_heap + snode \<times> splay_heap) option" where
  "splay_right right_of root left h =
     (case spe_right h root of
        Null \<Rightarrow> Some (Inl h)
      | Ref t \<Rightarrow> do {
          h \<leftarrow> (if right_of t then SPLAY_ROTATE_LEFT (Ref t) h else Some h);
          root \<leftarrow> deref (sph_root h);
          if right_of t \<and> spe_right h root = Null then Some (Inl h)
          else map_option Inr (SPLAY_LINKRIGHT left h)
        })"

partial_function (option) splay_loop ::
    "cmp \<Rightarrow> nat \<Rightarrow> snode \<Rightarrow> snode \<Rightarrow> splay_heap \<Rightarrow> (snode \<times> snode \<times> splay_heap) option" where
  "splay_loop cmp elm left right h =
     (case sph_root h of
        Null \<Rightarrow> None
      | Ref a \<Rightarrow>
          if cmp elm a < 0
          then (case splay_left (\<lambda>t. cmp elm t < 0) (Elm a) right h of
                  None \<Rightarrow> None
                | Some (Inl h) \<Rightarrow> Some (left, right, h)
                | Some (Inr (right, h)) \<Rightarrow> splay_loop cmp elm left right h)
          else if cmp elm a > 0
          then (case splay_right (\<lambda>t. cmp elm t > 0) (Elm a) left h of
                  None \<Rightarrow> None
                | Some (Inl h) \<Rightarrow> Some (left, right, h)
                | Some (Inr (left, h)) \<Rightarrow> splay_loop cmp elm left right h)
          else Some (left, right, h))"

definition init_node :: "splay_heap \<Rightarrow> splay_heap" where
  "init_node h = ssetl Dummy Null (ssetr Dummy Null h)"

definition SPLAY :: "cmp \<Rightarrow> nat \<Rightarrow> splay_heap \<Rightarrow> splay_heap option" where
  "SPLAY cmp elm h = do {
     (left, right, h) \<leftarrow> splay_loop cmp elm Dummy Dummy (init_node h);
     SPLAY_ASSEMBLE left right h
   }"

text \<open>\<open>SPLAY_MINMAX\<close>: the direction is constant; with 0 the loop does not end.\<close>

partial_function (option) splay_minmax_loop ::
    "int \<Rightarrow> snode \<Rightarrow> snode \<Rightarrow> splay_heap \<Rightarrow> (snode \<times> snode \<times> splay_heap) option" where
  "splay_minmax_loop v left right h =
     (case sph_root h of
        Null \<Rightarrow> None
      | Ref a \<Rightarrow>
          if v < 0
          then (case splay_left (\<lambda>t. v < 0) (Elm a) right h of
                  None \<Rightarrow> None
                | Some (Inl h) \<Rightarrow> Some (left, right, h)
                | Some (Inr (right, h)) \<Rightarrow> splay_minmax_loop v left right h)
          else if v > 0
          then (case splay_right (\<lambda>t. v > 0) (Elm a) left h of
                  None \<Rightarrow> None
                | Some (Inl h) \<Rightarrow> Some (left, right, h)
                | Some (Inr (left, h)) \<Rightarrow> splay_minmax_loop v left right h)
          else splay_minmax_loop v left right h)"

definition SPLAY_MINMAX :: "int \<Rightarrow> splay_heap \<Rightarrow> splay_heap option" where
  "SPLAY_MINMAX v h = do {
     (left, right, h) \<leftarrow> splay_minmax_loop v Dummy Dummy (init_node h);
     SPLAY_ASSEMBLE left right h
   }"

definition SPLAY_FIND :: "cmp \<Rightarrow> nat \<Rightarrow> splay_heap \<Rightarrow> (ptr \<times> splay_heap) option" where
  "SPLAY_FIND cmp elm h =
     (if SPLAY_EMPTY h then Some (Null, h)
      else do {
        h \<leftarrow> SPLAY cmp elm h;
        case sph_root h of
          Null \<Rightarrow> None
        | Ref a \<Rightarrow> Some (if cmp elm a = 0 then Ref a else Null, h)
      })"

definition SPLAY_INSERT :: "cmp \<Rightarrow> nat \<Rightarrow> splay_heap \<Rightarrow> (ptr \<times> splay_heap) option" where
  "SPLAY_INSERT cmp elm h =
     (if SPLAY_EMPTY h
      then
        (let h = ssetr (Elm elm) Null h;
             h = ssetl (Elm elm) Null h
         in Some (Null, sset_root (Ref elm) h))
      else do {
        h \<leftarrow> SPLAY cmp elm h;
        case sph_root h of
          Null \<Rightarrow> None
        | Ref a \<Rightarrow>
            if cmp elm a < 0
            then
              (let h = ssetl (Elm elm) (spe_left h (Elm a)) h;
                   h = ssetr (Elm elm) (sph_root h) h;
                   h = ssetl (Elm a) Null h
               in Some (Null, sset_root (Ref elm) h))
            else if cmp elm a > 0
            then
              (let h = ssetr (Elm elm) (spe_right h (Elm a)) h;
                   h = ssetl (Elm elm) (sph_root h) h;
                   h = ssetr (Elm a) Null h
               in Some (Null, sset_root (Ref elm) h))
            else Some (sph_root h, h)
      })"

definition SPLAY_REMOVE :: "cmp \<Rightarrow> nat \<Rightarrow> splay_heap \<Rightarrow> (ptr \<times> splay_heap) option" where
  "SPLAY_REMOVE cmp elm h =
     (if SPLAY_EMPTY h then Some (Null, h)
      else do {
        h \<leftarrow> SPLAY cmp elm h;
        case sph_root h of
          Null \<Rightarrow> None
        | Ref a \<Rightarrow>
            if cmp elm a = 0
            then
              if spe_left h (Elm a) = Null
              then Some (Ref elm, sset_root (spe_right h (Elm a)) h)
              else do {
                let tmp = spe_right h (Elm a);
                h \<leftarrow> SPLAY cmp elm (sset_root (spe_left h (Elm a)) h);
                root \<leftarrow> deref (sph_root h);
                Some (Ref elm, ssetr root tmp h)
              }
            else Some (Null, h)
      })"

partial_function (option) splay_leftmost :: "nat \<Rightarrow> splay_heap \<Rightarrow> ptr option" where
  "splay_leftmost a h =
     (case spe_left h (Elm a) of Null \<Rightarrow> Some (Ref a) | Ref b \<Rightarrow> splay_leftmost b h)"

definition SPLAY_NEXT :: "cmp \<Rightarrow> nat \<Rightarrow> splay_heap \<Rightarrow> (ptr \<times> splay_heap) option" where
  "SPLAY_NEXT cmp elm h = do {
     h \<leftarrow> SPLAY cmp elm h;
     case spe_right h (Elm elm) of
       Null \<Rightarrow> Some (Null, h)
     | Ref a \<Rightarrow> do { p \<leftarrow> splay_leftmost a h; Some (p, h) }
   }"

definition SPLAY_MIN_MAX :: "int \<Rightarrow> splay_heap \<Rightarrow> (ptr \<times> splay_heap) option" where
  "SPLAY_MIN_MAX v h = do { h \<leftarrow> SPLAY_MINMAX v h; Some (sph_root h, h) }"

definition SPLAY_MIN :: "splay_heap \<Rightarrow> (ptr \<times> splay_heap) option" where
  "SPLAY_MIN h = (if SPLAY_EMPTY h then Some (Null, h) else SPLAY_MIN_MAX (-1) h)"

definition SPLAY_MAX :: "splay_heap \<Rightarrow> (ptr \<times> splay_heap) option" where
  "SPLAY_MAX h = (if SPLAY_EMPTY h then Some (Null, h) else SPLAY_MIN_MAX 1 h)"

text \<open>\<open>SPLAY_FOREACH\<close>: the elements visited from \<open>x\<close> on.\<close>

partial_function (option) splay_foreach_loop ::
    "cmp \<Rightarrow> ptr \<Rightarrow> splay_heap \<Rightarrow> (nat list \<times> splay_heap) option" where
  "splay_foreach_loop cmp x h =
     (case x of
        Null \<Rightarrow> Some ([], h)
      | Ref a \<Rightarrow> do {
          (y, h) \<leftarrow> SPLAY_NEXT cmp a h;
          (xs, h) \<leftarrow> splay_foreach_loop cmp y h;
          Some (a # xs, h)
        })"

definition SPLAY_FOREACH :: "cmp \<Rightarrow> splay_heap \<Rightarrow> (nat list \<times> splay_heap) option" where
  "SPLAY_FOREACH cmp h = do { (x, h) \<leftarrow> SPLAY_MIN h; splay_foreach_loop cmp x h }"

end
