(* ===== verification/Splay_Repr.thy ===== *)
theory Splay_Repr
  imports Splay_Tree
begin

text \<open>
  The trees a heap of \<open>SPLAY_ENTRY\<close> members represents, and the splay operation on
  them. While the loop runs, the elements found smaller than the key hang below the right
  member of \<open>__node\<close>, each with its left subtree (the list \<open>L\<close>, the last one
  first), the larger ones below the left member, each with its right subtree (the list
  \<open>R\<close>); \<open>sfocus h L t R\<close> says that the heap is in this state with the tree
  \<open>t\<close> still below the head.
\<close>

section \<open>Trees\<close>

datatype st = SL | SN st nat st

fun sroot :: "st \<Rightarrow> ptr" where
  "sroot SL = Null"
| "sroot (SN l a r) = Ref a"

fun sinorder :: "st \<Rightarrow> nat list" where
  "sinorder SL = []"
| "sinorder (SN l a r) = sinorder l @ a # sinorder r"

fun lcell :: "(st \<times> nat) list \<Rightarrow> snode" where
  "lcell [] = Dummy"
| "lcell ((l, a) # L) = Elm a"

fun rcell :: "(nat \<times> st) list \<Rightarrow> snode" where
  "rcell [] = Dummy"
| "rcell ((a, r) # R) = Elm a"

fun linorder :: "(st \<times> nat) list \<Rightarrow> nat list" where
  "linorder [] = []"
| "linorder ((l, a) # L) = linorder L @ sinorder l @ [a]"

fun rinorder :: "(nat \<times> st) list \<Rightarrow> nat list" where
  "rinorder [] = []"
| "rinorder ((a, r) # R) = a # sinorder r @ rinorder R"

fun asm_left :: "(st \<times> nat) list \<Rightarrow> st \<Rightarrow> st" where
  "asm_left [] t = t"
| "asm_left ((l, a) # L) t = asm_left L (SN l a t)"

fun asm_right :: "(nat \<times> st) list \<Rightarrow> st \<Rightarrow> st" where
  "asm_right [] t = t"
| "asm_right ((a, r) # R) t = asm_right R (SN t a r)"

lemma sinorder_asm:
  "sinorder (asm_left L t) = linorder L @ sinorder t"
  "sinorder (asm_right R t) = sinorder t @ rinorder R"
proof -
  show "sinorder (asm_left L t) = linorder L @ sinorder t"
    by (induction L t rule: asm_left.induct) auto
  show "sinorder (asm_right R t) = sinorder t @ rinorder R"
    by (induction R t rule: asm_right.induct) auto
qed

lemma sroot_eq_Null [simp]: "sroot t = Null \<longleftrightarrow> t = SL"
  by (cases t) auto

section \<open>Representation\<close>

fun srep :: "splay_heap \<Rightarrow> st \<Rightarrow> bool" where
  "srep h SL = True"
| "srep h (SN l a r) \<longleftrightarrow> spe_left h (Elm a) = sroot l \<and> spe_right h (Elm a) = sroot r
     \<and> srep h l \<and> srep h r"

fun lrep :: "splay_heap \<Rightarrow> (st \<times> nat) list \<Rightarrow> bool" where
  "lrep h [] = True"
| "lrep h ((l, a) # L) \<longleftrightarrow> spe_right h (lcell L) = Ref a \<and> spe_left h (Elm a) = sroot l
     \<and> srep h l \<and> lrep h L"

fun rrep :: "splay_heap \<Rightarrow> (nat \<times> st) list \<Rightarrow> bool" where
  "rrep h [] = True"
| "rrep h ((a, r) # R) \<longleftrightarrow> spe_left h (rcell R) = Ref a \<and> spe_right h (Elm a) = sroot r
     \<and> srep h r \<and> rrep h R"

definition srepr :: "splay_heap \<Rightarrow> st \<Rightarrow> bool" where
  "srepr h t \<longleftrightarrow> sph_root h = sroot t \<and> srep h t \<and> distinct (sinorder t)"

definition sfocus :: "splay_heap \<Rightarrow> (st \<times> nat) list \<Rightarrow> st \<Rightarrow> (nat \<times> st) list \<Rightarrow> bool" where
  "sfocus h L t R \<longleftrightarrow> lrep h L \<and> srep h t \<and> rrep h R \<and> sph_root h = sroot t
     \<and> distinct (linorder L @ sinorder t @ rinorder R)"

section \<open>Updates\<close>

fun cell_in :: "snode \<Rightarrow> nat set \<Rightarrow> bool" where
  "cell_in Dummy A = False"
| "cell_in (Elm a) A \<longleftrightarrow> a \<in> A"

lemma cell_in_simps [simp]:
  "cell_in c {} = False" "cell_in c (insert a A) \<longleftrightarrow> c = Elm a \<or> cell_in c A"
  "cell_in c (A \<union> B) \<longleftrightarrow> cell_in c A \<or> cell_in c B"
  by (cases c; auto)+

lemma sset_sel [simp]:
  "spe_left (ssetl c v h) d = (if d = c then v else spe_left h d)"
  "spe_right (ssetl c v h) = spe_right h" "sph_root (ssetl c v h) = sph_root h"
  "spe_right (ssetr c v h) d = (if d = c then v else spe_right h d)"
  "spe_left (ssetr c v h) = spe_left h" "sph_root (ssetr c v h) = sph_root h"
  "sph_root (sset_root p h) = p" "spe_left (sset_root p h) = spe_left h"
  "spe_right (sset_root p h) = spe_right h"
  by (simp_all add: ssetl_def ssetr_def sset_root_def)

lemma srep_set [simp]:
  "\<not> cell_in c (set (sinorder t)) \<Longrightarrow> srep (ssetl c v h) t = srep h t"
  "\<not> cell_in c (set (sinorder t)) \<Longrightarrow> srep (ssetr c v h) t = srep h t"
  "srep (sset_root p h) t = srep h t"
  by (induction t) auto

lemma lcell_in: "lcell L = Elm a \<Longrightarrow> a \<in> set (linorder L)"
  by (cases L rule: lcell.cases) auto

lemma lcell_neq: "\<not> cell_in c (set (linorder L)) \<Longrightarrow> c \<noteq> Dummy \<Longrightarrow> lcell L \<noteq> c"
  by (cases L rule: lcell.cases) auto

lemma rcell_in: "rcell R = Elm a \<Longrightarrow> a \<in> set (rinorder R)"
  by (cases R rule: rcell.cases) auto

lemma rcell_neq: "\<not> cell_in c (set (rinorder R)) \<Longrightarrow> c \<noteq> Dummy \<Longrightarrow> rcell R \<noteq> c"
  by (cases R rule: rcell.cases) auto

lemma lrep_set [simp]:
  "\<not> cell_in c (set (linorder L)) \<Longrightarrow> lrep (ssetl c v h) L = lrep h L"
  "\<not> cell_in c (set (linorder L)) \<Longrightarrow> c \<noteq> Dummy \<Longrightarrow> lrep (ssetr c v h) L = lrep h L"
  "lrep (sset_root p h) L = lrep h L"
proof -
  show "\<not> cell_in c (set (linorder L)) \<Longrightarrow> lrep (ssetl c v h) L = lrep h L"
    by (induction L rule: linorder.induct) auto
  show "\<not> cell_in c (set (linorder L)) \<Longrightarrow> c \<noteq> Dummy \<Longrightarrow> lrep (ssetr c v h) L = lrep h L"
    by (induction L rule: linorder.induct) (auto simp: lcell_neq)
  show "lrep (sset_root p h) L = lrep h L"
    by (induction L rule: linorder.induct) auto
qed

lemma rrep_set [simp]:
  "\<not> cell_in c (set (rinorder R)) \<Longrightarrow> rrep (ssetr c v h) R = rrep h R"
  "\<not> cell_in c (set (rinorder R)) \<Longrightarrow> c \<noteq> Dummy \<Longrightarrow> rrep (ssetl c v h) R = rrep h R"
  "rrep (sset_root p h) R = rrep h R"
proof -
  show "\<not> cell_in c (set (rinorder R)) \<Longrightarrow> rrep (ssetr c v h) R = rrep h R"
    by (induction R rule: rinorder.induct) auto
  show "\<not> cell_in c (set (rinorder R)) \<Longrightarrow> c \<noteq> Dummy \<Longrightarrow> rrep (ssetl c v h) R = rrep h R"
    by (induction R rule: rinorder.induct) (auto simp: rcell_neq)
  show "rrep (sset_root p h) R = rrep h R"
    by (induction R rule: rinorder.induct) auto
qed

text \<open>The open ends of the two chains may be overwritten.\<close>

lemma lrep_open:
  assumes "distinct (linorder L)"
  shows "lrep (ssetr (lcell L) v h) L = lrep h L"
proof (cases L rule: lcell.cases)
  case (2 l a L')
  have "lcell L' \<noteq> Elm a" using assms 2 by (auto dest: lcell_in)
  then show ?thesis using assms 2 by auto
qed simp

lemma rrep_open:
  assumes "distinct (rinorder R)"
  shows "rrep (ssetl (rcell R) v h) R = rrep h R"
proof (cases R rule: rcell.cases)
  case (2 a r R')
  have "rcell R' \<noteq> Elm a" using assms 2 by (auto dest: rcell_in)
  then show ?thesis using assms 2 by auto
qed simp

lemma rcell_not_left:
  assumes "set (rinorder R) \<inter> A = {}"
  shows "\<not> cell_in (rcell R) A"
  using assms by (cases R rule: rcell.cases) auto

lemma lcell_not_right:
  assumes "set (linorder L) \<inter> A = {}"
  shows "\<not> cell_in (lcell L) A"
  using assms by (cases L rule: lcell.cases) auto

text \<open>Only the elements in \<open>A\<close> (and \<open>__node\<close>) have been changed.\<close>

definition sframe :: "nat set \<Rightarrow> splay_heap \<Rightarrow> splay_heap \<Rightarrow> bool" where
  "sframe A h h' \<longleftrightarrow> (\<forall>x. x \<notin> A \<longrightarrow> spe_left h' (Elm x) = spe_left h (Elm x)
     \<and> spe_right h' (Elm x) = spe_right h (Elm x))"

definition saddrs :: "(st \<times> nat) list \<Rightarrow> st \<Rightarrow> (nat \<times> st) list \<Rightarrow> nat set" where
  "saddrs L t R = set (linorder L) \<union> set (sinorder t) \<union> set (rinorder R)"

lemma sframe_refl [simp]: "sframe A h h"
  by (simp add: sframe_def)

lemma sframe_trans: "sframe A h h1 \<Longrightarrow> sframe A h1 h2 \<Longrightarrow> sframe A h h2"
  by (simp add: sframe_def)

lemma sframe_set:
  "sframe A h h' \<Longrightarrow> c = Dummy \<or> cell_in c A \<Longrightarrow> sframe A h (ssetl c v h')"
  "sframe A h h' \<Longrightarrow> c = Dummy \<or> cell_in c A \<Longrightarrow> sframe A h (ssetr c v h')"
  "sframe A h (sset_root p h') = sframe A h h'"
  by (auto simp: sframe_def)

lemma cell_saddrs:
  "rcell R = Dummy \<or> cell_in (rcell R) (saddrs L t R)"
  "lcell L = Dummy \<or> cell_in (lcell L) (saddrs L t R)"
  by (cases R rule: rcell.cases; simp add: saddrs_def) (cases L rule: lcell.cases; simp add: saddrs_def)

lemma srep_frame: "sframe A h h' \<Longrightarrow> set (sinorder t) \<inter> A = {} \<Longrightarrow> srep h' t = srep h t"
  by (induction t) (auto simp: sframe_def)

section \<open>The steps of the loop\<close>

lemma sfocus_alt:
  "sfocus h L t R \<longleftrightarrow> lrep h L \<and> srep h t \<and> rrep h R \<and> sph_root h = sroot t
     \<and> distinct (linorder L) \<and> distinct (sinorder t) \<and> distinct (rinorder R)
     \<and> set (rinorder R) \<inter> set (linorder L) = {} \<and> set (rinorder R) \<inter> set (sinorder t) = {}
     \<and> set (linorder L) \<inter> set (rinorder R) = {} \<and> set (linorder L) \<inter> set (sinorder t) = {}"
  unfolding sfocus_def by auto

lemma rotate_right_sfocus:
  assumes "sfocus h L (SN (SN ll b lr) a r) R"
  shows "\<exists>h'. SPLAY_ROTATE_RIGHT (Ref b) h = Some h' \<and> sfocus h' L (SN ll b (SN lr a r)) R
    \<and> sframe (saddrs L (SN (SN ll b lr) a r) R) h h'"
  using assms by (auto simp: SPLAY_ROTATE_RIGHT_def sfocus_def Let_def saddrs_def intro!: sframe_set(1,2)
      simp: sframe_set(3))

lemma rotate_left_sfocus:
  assumes "sfocus h L (SN l a (SN rl b rr)) R"
  shows "\<exists>h'. SPLAY_ROTATE_LEFT (Ref b) h = Some h' \<and> sfocus h' L (SN (SN l a rl) b rr) R
    \<and> sframe (saddrs L (SN l a (SN rl b rr)) R) h h'"
  using assms by (auto simp: SPLAY_ROTATE_LEFT_def sfocus_def Let_def saddrs_def intro!: sframe_set(1,2)
      simp: sframe_set(3))

lemma linkleft_sfocus:
  assumes f: "sfocus h L (SN l a r) R"
  shows "\<exists>h'. SPLAY_LINKLEFT (rcell R) h = Some (rcell ((a, r) # R), h') \<and> sfocus h' L l ((a, r) # R)
    \<and> sframe (saddrs L (SN l a r) R) h h'"
proof -
  note f' = f [unfolded sfocus_alt]
  let ?h = "ssetl (rcell R) (Ref a) h"
  have out: "\<not> cell_in (rcell R) (set (linorder L))" "\<not> cell_in (rcell R) (set (sinorder l))"
    "\<not> cell_in (rcell R) (set (sinorder r))" "rcell R \<noteq> Elm a"
    using f' rcell_not_left [of R "set (linorder L)"] rcell_not_left [of R "set (sinorder (SN l a r))"]
    by auto
  have "SPLAY_LINKLEFT (rcell R) h = Some (Elm a, sset_root (sroot l) ?h)"
    using f' out by (simp add: SPLAY_LINKLEFT_def Let_def)
  moreover have "sfocus (sset_root (sroot l) ?h) L l ((a, r) # R)"
    using f' out rrep_open [of R] by (auto simp: sfocus_alt)
  moreover have "sframe (saddrs L (SN l a r) R) h (sset_root (sroot l) ?h)"
    using cell_saddrs(1) by (simp add: sframe_set)
  ultimately show ?thesis by simp
qed

lemma linkright_sfocus:
  assumes f: "sfocus h L (SN l a r) R"
  shows "\<exists>h'. SPLAY_LINKRIGHT (lcell L) h = Some (lcell ((l, a) # L), h') \<and> sfocus h' ((l, a) # L) r R
    \<and> sframe (saddrs L (SN l a r) R) h h'"
proof -
  note f' = f [unfolded sfocus_alt]
  let ?h = "ssetr (lcell L) (Ref a) h"
  have out: "\<not> cell_in (lcell L) (set (rinorder R))" "\<not> cell_in (lcell L) (set (sinorder l))"
    "\<not> cell_in (lcell L) (set (sinorder r))" "lcell L \<noteq> Elm a"
    using f' lcell_not_right [of L "set (rinorder R)"] lcell_not_right [of L "set (sinorder (SN l a r))"]
    by auto
  have "SPLAY_LINKRIGHT (lcell L) h = Some (Elm a, sset_root (sroot r) ?h)"
    using f' out by (simp add: SPLAY_LINKRIGHT_def Let_def)
  moreover have "sfocus (sset_root (sroot r) ?h) ((l, a) # L) r R"
    using f' out lrep_open [of L] by (auto simp: sfocus_alt)
  moreover have "sframe (saddrs L (SN l a r) R) h (sset_root (sroot r) ?h)"
    using cell_saddrs(2) by (simp add: sframe_set)
  ultimately show ?thesis by simp
qed

section \<open>The loop\<close>

fun spl :: "cmp \<Rightarrow> nat \<Rightarrow> (st \<times> nat) list \<Rightarrow> st \<Rightarrow> (nat \<times> st) list
    \<Rightarrow> (st \<times> nat) list \<times> st \<times> (nat \<times> st) list" where
  "spl cmp e L SL R = (L, SL, R)"
| "spl cmp e L (SN l a r) R =
     (if cmp e a < 0
      then (case l of
              SL \<Rightarrow> (L, SN l a r, R)
            | SN ll b lr \<Rightarrow>
                if cmp e b < 0
                then if ll = SL then (L, SN ll b (SN lr a r), R)
                     else spl cmp e L ll ((b, SN lr a r) # R)
                else spl cmp e L l ((a, r) # R))
      else if cmp e a > 0
      then (case r of
              SL \<Rightarrow> (L, SN l a r, R)
            | SN rl b rr \<Rightarrow>
                if cmp e b > 0
                then if rr = SL then (L, SN (SN l a rl) b rr, R)
                     else spl cmp e ((SN l a rl, b) # L) rr R
                else spl cmp e ((l, a) # L) r R)
      else (L, SN l a r, R))"

text \<open>An iteration stops, or moves an element and one of its subtrees to the side.\<close>

lemma spl_cases:
  obtains (stop) l' a' r' where "spl cmp e L (SN l a r) R = (L, SN l' a' r', R)"
      "sinorder (SN l' a' r') = sinorder (SN l a r)"
      "cmp e a' = 0 \<or> cmp e a' < 0 \<and> l' = SL \<or> cmp e a' > 0 \<and> r' = SL"
  | (left) t b u where "spl cmp e L (SN l a r) R = spl cmp e L t ((b, u) # R)"
      "size t < size (SN l a r)" "sinorder (SN l a r) = sinorder t @ b # sinorder u" "cmp e b < 0"
  | (right) u b t where "spl cmp e L (SN l a r) R = spl cmp e ((u, b) # L) t R"
      "size t < size (SN l a r)" "sinorder (SN l a r) = sinorder u @ b # sinorder t" "cmp e b > 0"
proof -
  consider (lt) "cmp e a < 0" | (gt) "cmp e a > 0" | (eq) "cmp e a = 0" by linarith
  then show ?thesis
  proof cases
    case lt
    show ?thesis
    proof (cases l)
      case SL
      then show ?thesis using lt by (intro stop [of l a r]) simp_all
    next
      case (SN ll b lr)
      consider "cmp e b < 0" "ll = SL" | "cmp e b < 0" "ll \<noteq> SL" | "\<not> cmp e b < 0" by blast
      then show ?thesis
      proof cases
        case 1
        then show ?thesis using lt SN by (intro stop [of SL b "SN lr a r"]) simp_all
      next
        case 2
        then show ?thesis using lt SN by (intro left [of ll b "SN lr a r"]) simp_all
      next
        case 3
        then show ?thesis using lt SN by (intro left [of l a r]) simp_all
      qed
    qed
  next
    case gt
    show ?thesis
    proof (cases r)
      case SL
      then show ?thesis using gt by (intro stop [of l a r]) simp_all
    next
      case (SN rl b rr)
      consider "cmp e b > 0" "rr = SL" | "cmp e b > 0" "rr \<noteq> SL" | "\<not> cmp e b > 0" by blast
      then show ?thesis
      proof cases
        case 1
        then show ?thesis using gt SN by (intro stop [of "SN l a rl" b SL]) simp_all
      next
        case 2
        then show ?thesis using gt SN by (intro right [of "SN l a rl" b rr]) simp_all
      next
        case 3
        then show ?thesis using gt SN by (intro right [of l a r]) simp_all
      qed
    qed
  next
    case eq
    then show ?thesis by (intro stop [of l a r]) simp_all
  qed
qed

lemma sinorder_spl:
  "spl cmp e L t R = (L', t', R') \<Longrightarrow>
     linorder L' @ sinorder t' @ rinorder R' = linorder L @ sinorder t @ rinorder R"
proof (induction "size t" arbitrary: L t R rule: less_induct)
  case less
  show ?case
  proof (cases t)
    case (SN l a r)
    show ?thesis
    proof (cases rule: spl_cases [of cmp e L l a r R])
      case stop
      then show ?thesis using less.prems SN by auto
    next
      case (left u b v)
      then show ?thesis using less.hyps [of u L "(b, v) # R"] less.prems SN by simp
    next
      case (right v b u)
      then show ?thesis using less.hyps [of u "(v, b) # L" R] less.prems SN by simp
    qed
  qed (use less.prems in simp)
qed

text \<open>One iteration to the left, for any outcome of the comparison with the child.\<close>

lemma splay_left_ok:
  assumes f: "sfocus h L (SN l a r) R"
  shows "case l of
      SL \<Rightarrow> splay_left p (Elm a) (rcell R) h = Some (Inl h)
    | SN ll b lr \<Rightarrow>
        if p b
        then if ll = SL
             then \<exists>h'. splay_left p (Elm a) (rcell R) h = Some (Inl h') \<and> sfocus h' L (SN ll b (SN lr a r)) R
               \<and> sframe (saddrs L (SN l a r) R) h h'
             else \<exists>h'. splay_left p (Elm a) (rcell R) h = Some (Inr (rcell ((b, SN lr a r) # R), h'))
               \<and> sfocus h' L ll ((b, SN lr a r) # R) \<and> sframe (saddrs L (SN l a r) R) h h'
        else \<exists>h'. splay_left p (Elm a) (rcell R) h = Some (Inr (rcell ((a, r) # R), h'))
          \<and> sfocus h' L l ((a, r) # R) \<and> sframe (saddrs L (SN l a r) R) h h'"
proof (cases l)
  case SL
  then show ?thesis using f by (simp add: splay_left_def sfocus_def)
next
  case (SN ll b lr)
  note f2 = f [unfolded SN]
  obtain h1 where h1: "SPLAY_ROTATE_RIGHT (Ref b) h = Some h1" "sfocus h1 L (SN ll b (SN lr a r)) R"
      "sframe (saddrs L (SN l a r) R) h h1"
    using rotate_right_sfocus [OF f2] SN by blast
  obtain h2 where h2: "SPLAY_LINKLEFT (rcell R) h1 = Some (Elm b, h2)" "sfocus h2 L ll ((b, SN lr a r) # R)"
      "sframe (saddrs L (SN ll b (SN lr a r)) R) h1 h2"
    using linkleft_sfocus [OF h1(2)] by auto
  then have fr: "sframe (saddrs L (SN l a r) R) h h2"
    using h1(3) SN by (auto intro: sframe_trans simp: saddrs_def insert_commute Un_ac)
  obtain h3 where h3: "SPLAY_LINKLEFT (rcell R) h = Some (Elm a, h3)" "sfocus h3 L l ((a, r) # R)"
      "sframe (saddrs L (SN l a r) R) h h3"
    using linkleft_sfocus [OF f] by auto
  have "spe_left h (Elm a) = Ref b" "sph_root h = Ref a" "sph_root h1 = Ref b"
    "spe_left h1 (Elm b) = sroot ll"
    using f2 h1(2) by (simp_all add: sfocus_def)
  then show ?thesis using SN h1 h2 h3 fr by (auto simp: splay_left_def)
qed

lemma splay_right_ok:
  assumes f: "sfocus h L (SN l a r) R"
  shows "case r of
      SL \<Rightarrow> splay_right p (Elm a) (lcell L) h = Some (Inl h)
    | SN rl b rr \<Rightarrow>
        if p b
        then if rr = SL
             then \<exists>h'. splay_right p (Elm a) (lcell L) h = Some (Inl h') \<and> sfocus h' L (SN (SN l a rl) b rr) R
               \<and> sframe (saddrs L (SN l a r) R) h h'
             else \<exists>h'. splay_right p (Elm a) (lcell L) h = Some (Inr (lcell ((SN l a rl, b) # L), h'))
               \<and> sfocus h' ((SN l a rl, b) # L) rr R \<and> sframe (saddrs L (SN l a r) R) h h'
        else \<exists>h'. splay_right p (Elm a) (lcell L) h = Some (Inr (lcell ((l, a) # L), h'))
          \<and> sfocus h' ((l, a) # L) r R \<and> sframe (saddrs L (SN l a r) R) h h'"
proof (cases r)
  case SL
  then show ?thesis using f by (simp add: splay_right_def sfocus_def)
next
  case (SN rl b rr)
  note f2 = f [unfolded SN]
  obtain h1 where h1: "SPLAY_ROTATE_LEFT (Ref b) h = Some h1" "sfocus h1 L (SN (SN l a rl) b rr) R"
      "sframe (saddrs L (SN l a r) R) h h1"
    using rotate_left_sfocus [OF f2] SN by blast
  obtain h2 where h2: "SPLAY_LINKRIGHT (lcell L) h1 = Some (Elm b, h2)" "sfocus h2 ((SN l a rl, b) # L) rr R"
      "sframe (saddrs L (SN (SN l a rl) b rr) R) h1 h2"
    using linkright_sfocus [OF h1(2)] by auto
  then have fr: "sframe (saddrs L (SN l a r) R) h h2"
    using h1(3) SN by (auto intro: sframe_trans simp: saddrs_def insert_commute Un_ac)
  obtain h3 where h3: "SPLAY_LINKRIGHT (lcell L) h = Some (Elm a, h3)" "sfocus h3 ((l, a) # L) r R"
      "sframe (saddrs L (SN l a r) R) h h3"
    using linkright_sfocus [OF f] by auto
  have "spe_right h (Elm a) = Ref b" "sph_root h = Ref a" "sph_root h1 = Ref b"
    "spe_right h1 (Elm b) = sroot rr"
    using f2 h1(2) by (simp_all add: sfocus_def)
  then show ?thesis using SN h1 h2 h3 fr by (auto simp: splay_right_def)
qed

text \<open>A loop that behaves like \<open>spl\<close>, for both the search and the minimum or
  maximum.\<close>

definition spl_post :: "nat set \<Rightarrow> splay_heap \<Rightarrow> (st \<times> nat) list \<times> st \<times> (nat \<times> st) list
    \<Rightarrow> (snode \<times> snode \<times> splay_heap) option \<Rightarrow> bool" where
  "spl_post A h s res \<longleftrightarrow> (case s of (L, t, R) \<Rightarrow>
     \<exists>h'. res = Some (lcell L, rcell R, h') \<and> sfocus h' L t R \<and> t \<noteq> SL \<and> sframe A h h')"

lemma spl_post_trans: "spl_post A h1 s res \<Longrightarrow> sframe A h h1 \<Longrightarrow> spl_post A h s res"
  by (fastforce simp: spl_post_def dest: sframe_trans split: prod.splits)

lemma spl_post_step:
  assumes lo: "\<And>L l a r R h. sfocus h L (SN l a r) R \<Longrightarrow> loop (lcell L) (rcell R) h =
      (if cmp e a < 0
       then (case splay_left (\<lambda>t. cmp e t < 0) (Elm a) (rcell R) h of
               None \<Rightarrow> None
             | Some (Inl h) \<Rightarrow> Some (lcell L, rcell R, h)
             | Some (Inr (right, h)) \<Rightarrow> loop (lcell L) right h)
       else if cmp e a > 0
       then (case splay_right (\<lambda>t. cmp e t > 0) (Elm a) (lcell L) h of
               None \<Rightarrow> None
             | Some (Inl h) \<Rightarrow> Some (lcell L, rcell R, h)
             | Some (Inr (left, h)) \<Rightarrow> loop left (rcell R) h)
       else Some (lcell L, rcell R, h))"
    and "sfocus h L t R" "t \<noteq> SL" "saddrs L t R = A"
  shows "spl_post A h (spl cmp e L t R) (loop (lcell L) (rcell R) h)"
  using assms(2,3,4)
proof (induction "size t" arbitrary: h L t R rule: less_induct)
  case less
  then obtain l a r where t: "t = SN l a r" by (cases t) auto
  note f = less.prems(1) [unfolded t]
  note unf = lo [OF f]
  consider (lt) "cmp e a < 0" | (gt) "cmp e a > 0" | (eq) "cmp e a = 0" by linarith
  then show ?case
  proof cases
    case lt
    note st = splay_left_ok [OF f, of "\<lambda>t. cmp e t < 0"]
    show ?thesis
    proof (cases l)
      case SL
      then show ?thesis using st unf lt t f by (simp add: spl_post_def)
    next
      case (SN ll b lr)
      have A: "saddrs L (SN l a r) R = A" using less.prems(3) t by simp
      consider "cmp e b < 0" "ll = SL" | "cmp e b < 0" "ll \<noteq> SL" | "\<not> cmp e b < 0" by blast
      then show ?thesis
      proof cases
        case 1
        then show ?thesis using st unf lt t SN A by (auto simp: spl_post_def)
      next
        case 2
        let ?R = "(b, SN lr a r) # R"
        have A': "saddrs L ll ?R = A" using A SN by (auto simp: saddrs_def)
        obtain h' where "splay_left (\<lambda>t. cmp e t < 0) (Elm a) (rcell R) h = Some (Inr (rcell ?R, h'))"
            "sfocus h' L ll ?R" "sframe A h h'"
          using st SN 2 A by auto
        then show ?thesis
          using spl_post_trans [OF less.hyps [of ll h' L ?R]] A' unf lt t SN 2 by simp
      next
        case 3
        let ?R = "(a, r) # R"
        have A': "saddrs L l ?R = A" using A by (auto simp: saddrs_def)
        obtain h' where "splay_left (\<lambda>t. cmp e t < 0) (Elm a) (rcell R) h = Some (Inr (rcell ?R, h'))"
            "sfocus h' L l ?R" "sframe A h h'"
          using st SN 3 A by auto
        then show ?thesis
          using spl_post_trans [OF less.hyps [of l h' L ?R]] A' unf lt t SN 3 by simp
      qed
    qed
  next
    case gt
    note st = splay_right_ok [OF f, of "\<lambda>t. cmp e t > 0"]
    show ?thesis
    proof (cases r)
      case SL
      then show ?thesis using st unf gt t f by (simp add: spl_post_def)
    next
      case (SN rl b rr)
      have A: "saddrs L (SN l a r) R = A" using less.prems(3) t by simp
      consider "cmp e b > 0" "rr = SL" | "cmp e b > 0" "rr \<noteq> SL" | "\<not> cmp e b > 0" by blast
      then show ?thesis
      proof cases
        case 1
        then show ?thesis using st unf gt t SN A by (auto simp: spl_post_def)
      next
        case 2
        let ?L = "(SN l a rl, b) # L"
        have A': "saddrs ?L rr R = A" using A SN by (auto simp: saddrs_def)
        obtain h' where "splay_right (\<lambda>t. cmp e t > 0) (Elm a) (lcell L) h = Some (Inr (lcell ?L, h'))"
            "sfocus h' ?L rr R" "sframe A h h'"
          using st SN 2 A by auto
        then show ?thesis
          using spl_post_trans [OF less.hyps [of rr h' ?L R]] A' unf gt t SN 2 by simp
      next
        case 3
        let ?L = "(l, a) # L"
        have A': "saddrs ?L r R = A" using A by (auto simp: saddrs_def)
        obtain h' where "splay_right (\<lambda>t. cmp e t > 0) (Elm a) (lcell L) h = Some (Inr (lcell ?L, h'))"
            "sfocus h' ?L r R" "sframe A h h'"
          using st SN 3 A by auto
        then show ?thesis
          using spl_post_trans [OF less.hyps [of r h' ?L R]] A' unf gt t SN 3 by simp
      qed
    qed
  next
    case eq
    then show ?thesis using unf t f by (simp add: spl_post_def)
  qed
qed

lemma splay_loop_ok:
  assumes "sfocus h L t R" "t \<noteq> SL"
  shows "spl_post (saddrs L t R) h (spl cmp e L t R) (splay_loop cmp e (lcell L) (rcell R) h)"
proof (rule spl_post_step [OF _ assms refl])
  fix L l a r R h
  assume "sfocus h L (SN l a r) R"
  then have "sph_root h = Ref a" by (simp add: sfocus_def)
  then show "splay_loop cmp e (lcell L) (rcell R) h =
      (if cmp e a < 0
       then (case splay_left (\<lambda>t. cmp e t < 0) (Elm a) (rcell R) h of
               None \<Rightarrow> None
             | Some (Inl h) \<Rightarrow> Some (lcell L, rcell R, h)
             | Some (Inr (right, h)) \<Rightarrow> splay_loop cmp e (lcell L) right h)
       else if cmp e a > 0
       then (case splay_right (\<lambda>t. cmp e t > 0) (Elm a) (lcell L) h of
               None \<Rightarrow> None
             | Some (Inl h) \<Rightarrow> Some (lcell L, rcell R, h)
             | Some (Inr (left, h)) \<Rightarrow> splay_loop cmp e left (rcell R) h)
       else Some (lcell L, rcell R, h))"
    by (subst splay_loop.simps) simp
qed

lemma splay_minmax_loop_ok:
  assumes "sfocus h L t R" "t \<noteq> SL" "v \<noteq> 0"
  shows "spl_post (saddrs L t R) h (spl (\<lambda>_ _. v) e L t R) (splay_minmax_loop v (lcell L) (rcell R) h)"
proof (rule spl_post_step [OF _ assms(1,2) refl])
  fix L l a r R h
  assume "sfocus h L (SN l a r) R"
  then have "sph_root h = Ref a" by (simp add: sfocus_def)
  then show "splay_minmax_loop v (lcell L) (rcell R) h =
      (if v < 0
       then (case splay_left (\<lambda>t. v < 0) (Elm a) (rcell R) h of
               None \<Rightarrow> None
             | Some (Inl h) \<Rightarrow> Some (lcell L, rcell R, h)
             | Some (Inr (right, h)) \<Rightarrow> splay_minmax_loop v (lcell L) right h)
       else if v > 0
       then (case splay_right (\<lambda>t. v > 0) (Elm a) (lcell L) h of
               None \<Rightarrow> None
             | Some (Inl h) \<Rightarrow> Some (lcell L, rcell R, h)
             | Some (Inr (left, h)) \<Rightarrow> splay_minmax_loop v left (rcell R) h)
       else Some (lcell L, rcell R, h))"
    using assms(3) by (subst splay_minmax_loop.simps) simp
qed

section \<open>Assembly\<close>

lemma lrep_assemble:
  "lrep h L \<Longrightarrow> spe_right h (lcell L) = sroot t \<Longrightarrow> srep h t \<Longrightarrow>
     spe_right h Dummy = sroot (asm_left L t) \<and> srep h (asm_left L t)"
  by (induction L t rule: asm_left.induct) auto

lemma rrep_assemble:
  "rrep h R \<Longrightarrow> spe_left h (rcell R) = sroot t \<Longrightarrow> srep h t \<Longrightarrow>
     spe_left h Dummy = sroot (asm_right R t) \<and> srep h (asm_right R t)"
  by (induction R t rule: asm_right.induct) auto

lemma assemble_ok:
  assumes f: "sfocus h L (SN l a r) R"
  shows "\<exists>h'. SPLAY_ASSEMBLE (lcell L) (rcell R) h = Some h'
    \<and> srepr h' (SN (asm_left L l) a (asm_right R r)) \<and> sframe (saddrs L (SN l a r) R) h h'"
proof -
  note f' = f [unfolded sfocus_alt]
  have out: "\<not> cell_in (rcell R) (set (linorder L))" "\<not> cell_in (rcell R) (set (sinorder l))"
    "\<not> cell_in (rcell R) (set (sinorder r))" "rcell R \<noteq> Elm a"
    "\<not> cell_in (lcell L) (set (rinorder R))" "\<not> cell_in (lcell L) (set (sinorder l))"
    "\<not> cell_in (lcell L) (set (sinorder r))" "lcell L \<noteq> Elm a"
    using f' rcell_not_left [of R "set (linorder L)"] rcell_not_left [of R "set (sinorder (SN l a r))"]
      lcell_not_right [of L "set (rinorder R)"] lcell_not_right [of L "set (sinorder (SN l a r))"]
    by auto
  define h1 where "h1 = ssetr (lcell L) (sroot l) h"
  define h2 where "h2 = ssetl (rcell R) (sroot r) h1"
  define h3 where "h3 = ssetl (Elm a) (spe_right h2 Dummy) h2"
  define h4 where "h4 = ssetr (Elm a) (spe_left h3 Dummy) h3"
  have "SPLAY_ASSEMBLE (lcell L) (rcell R) h = Some h4"
    using f' out by (simp add: SPLAY_ASSEMBLE_def Let_def h1_def h2_def h3_def h4_def)
  moreover have L: "spe_right h2 Dummy = sroot (asm_left L l)" "srep h2 (asm_left L l)"
    using lrep_assemble [of h2 L l] f' out lrep_open [of L] by (auto simp: h1_def h2_def)
  moreover have R: "spe_left h2 Dummy = sroot (asm_right R r)" "srep h2 (asm_right R r)"
    using rrep_assemble [of h2 R r] f' out rrep_open [of R] by (auto simp: h1_def h2_def)
  moreover have a: "a \<notin> set (sinorder (asm_left L l))" "a \<notin> set (sinorder (asm_right R r))"
    using f' by (auto simp: sinorder_asm)
  moreover have "sph_root h4 = Ref a" using f' by (simp add: h1_def h2_def h3_def h4_def)
  moreover have "distinct (sinorder (SN (asm_left L l) a (asm_right R r)))"
    using f by (simp add: sfocus_def sinorder_asm)
  moreover have "sframe (saddrs L (SN l a r) R) h h4"
    unfolding h4_def h3_def h2_def h1_def
    by (intro sframe_set(1,2) sframe_refl cell_saddrs) (simp_all add: saddrs_def)
  ultimately show ?thesis by (auto simp: srepr_def h3_def h4_def)
qed

section \<open>The splay operations\<close>

definition splay :: "cmp \<Rightarrow> nat \<Rightarrow> st \<Rightarrow> st" where
  "splay cmp e t = (case spl cmp e [] t [] of
     (L, SN l a r, R) \<Rightarrow> SN (asm_left L l) a (asm_right R r)
   | (L, SL, R) \<Rightarrow> SL)"

lemma init_node_sfocus: "srepr h t \<Longrightarrow> sfocus (init_node h) [] t []"
  by (simp add: srepr_def sfocus_def init_node_def)

lemma SPLAY_ok:
  assumes "srepr h t" "t \<noteq> SL"
  shows "\<exists>h'. SPLAY cmp e h = Some h' \<and> srepr h' (splay cmp e t) \<and> splay cmp e t \<noteq> SL
    \<and> sframe (set (sinorder t)) h h'"
proof -
  obtain L t' R where s: "spl cmp e [] t [] = (L, t', R)" by (metis prod_cases3)
  obtain h1 where h1: "splay_loop cmp e Dummy Dummy (init_node h) = Some (lcell L, rcell R, h1)"
      "sfocus h1 L t' R" "t' \<noteq> SL" "sframe (set (sinorder t)) (init_node h) h1"
    using splay_loop_ok [OF init_node_sfocus [OF assms(1)] assms(2), of cmp e] s
    by (auto simp: spl_post_def saddrs_def)
  then obtain l a r where t': "t' = SN l a r" by (cases t') auto
  obtain h2 where h2: "SPLAY_ASSEMBLE (lcell L) (rcell R) h1 = Some h2"
      "srepr h2 (SN (asm_left L l) a (asm_right R r))" "sframe (saddrs L (SN l a r) R) h1 h2"
    using assemble_ok [OF h1(2) [unfolded t']] by blast
  have "saddrs L (SN l a r) R = set (sinorder t)"
    using arg_cong [OF sinorder_spl [OF s], of set] t' by (auto simp: saddrs_def)
  moreover have "sframe (set (sinorder t)) h (init_node h)"
    unfolding init_node_def by (intro sframe_set sframe_refl) simp_all
  ultimately have "sframe (set (sinorder t)) h h2" using h1(4) h2(3) sframe_trans by metis
  then show ?thesis using h1(1) h2(1,2) s t' by (auto simp: SPLAY_def splay_def)
qed

lemma SPLAY_MINMAX_ok:
  assumes "srepr h t" "t \<noteq> SL" "v \<noteq> 0"
  shows "\<exists>h'. SPLAY_MINMAX v h = Some h' \<and> srepr h' (splay (\<lambda>_ _. v) 0 t)
    \<and> splay (\<lambda>_ _. v) 0 t \<noteq> SL"
proof -
  obtain L t' R where s: "spl (\<lambda>_ _. v) 0 [] t [] = (L, t', R)" by (metis prod_cases3)
  obtain h1 where h1: "splay_minmax_loop v Dummy Dummy (init_node h) = Some (lcell L, rcell R, h1)"
      "sfocus h1 L t' R" "t' \<noteq> SL"
    using splay_minmax_loop_ok [OF init_node_sfocus [OF assms(1)] assms(2,3), of 0] s
    by (auto simp: spl_post_def)
  then obtain l a r where t': "t' = SN l a r" by (cases t') auto
  show ?thesis
    using h1 assemble_ok [OF h1(2) [unfolded t']] s t' by (auto simp: SPLAY_MINMAX_def splay_def)
qed

end
