(* ===== verification/Splay_Ops.thy ===== *)
theory Splay_Ops
  imports Splay_Repr
begin

text \<open>
  The order of the elements under the splay operations, the interface
  \<open>ordered_tree\<close> for the \<open>SPLAY_*\<close> operations, and their properties.
\<close>

section \<open>What splaying brings to the root\<close>

lemma sinorder_splay: "t \<noteq> SL \<Longrightarrow> splay cmp e t \<noteq> SL \<Longrightarrow> sinorder (splay cmp e t) = sinorder t"
proof -
  assume "splay cmp e t \<noteq> SL"
  obtain L t' R where s: "spl cmp e [] t [] = (L, t', R)" by (metis prod_cases3)
  then show ?thesis
    using sinorder_spl [OF s] \<open>splay cmp e t \<noteq> SL\<close>
    by (auto simp: splay_def sinorder_asm split: st.splits)
qed

text \<open>The state at the end of the loop: the root compares equal, or it has no child in the
  direction of the key.\<close>

lemma spl_final:
  "spl cmp e L t R = (L', SN l a r, R') \<Longrightarrow>
     cmp e a = 0 \<or> cmp e a < 0 \<and> l = SL \<or> cmp e a > 0 \<and> r = SL"
proof (induction "size t" arbitrary: L t R rule: less_induct)
  case less
  show ?case
  proof (cases t)
    case (SN l a r)
    then show ?thesis using less by (cases rule: spl_cases [of cmp e L l a r R]) auto
  qed (use less.prems in simp)
qed

lemma sorted_splits:
  assumes "total_cmp cmp" "cmp_sorted cmp (A @ a # B)"
  shows "cmp e a < 0 \<Longrightarrow> \<forall>x \<in> set B. cmp e x < 0" "0 < cmp e a \<Longrightarrow> \<forall>x \<in> set A. 0 < cmp e x"
  using between_below [OF assms, of e] between_above [OF assms, of e] by auto

lemma spl_between:
  assumes "total_cmp cmp"
  shows "cmp_sorted cmp (linorder L @ sinorder t @ rinorder R) \<Longrightarrow>
     between cmp e (linorder L) (rinorder R) \<Longrightarrow> spl cmp e L t R = (L', t', R') \<Longrightarrow>
     between cmp e (linorder L') (rinorder R')"
proof (induction "size t" arbitrary: L t R rule: less_induct)
  case less
  show ?case
  proof (cases t)
    case (SN l a r)
    show ?thesis
    proof (cases rule: spl_cases [of cmp e L l a r R])
      case stop
      then show ?thesis using less.prems SN by auto
    next
      case (left u b v)
      have t: "sinorder t = sinorder u @ b # sinorder v" unfolding SN by (rule left(3))
      then have so: "cmp_sorted cmp ((linorder L @ sinorder u) @ b # (sinorder v @ rinorder R))"
        using less.prems(1) by simp
      from sorted_splits(1) [OF assms so left(4)] have "between cmp e (linorder L) (rinorder ((b, v) # R))"
        using less.prems(2) left(4) by (auto simp: between_def)
      then show ?thesis using less.hyps [of u L "(b, v) # R"] less.prems(3) SN left(1,2) so by simp
    next
      case (right v b u)
      have t: "sinorder t = sinorder v @ b # sinorder u" unfolding SN by (rule right(3))
      then have so: "cmp_sorted cmp ((linorder L @ sinorder v) @ b # (sinorder u @ rinorder R))"
        using less.prems(1) by simp
      from sorted_splits(2) [OF assms so right(4)] have "between cmp e (linorder ((v, b) # L)) (rinorder R)"
        using less.prems(2) right(4) by (auto simp: between_def)
      then show ?thesis using less.hyps [of u "(v, b) # L" R] less.prems(3) SN right(1,2) so by simp
    qed
  qed (use less.prems in simp)
qed

lemma splay_root:
  assumes "total_cmp cmp" "cmp_sorted cmp (sinorder t)" "splay cmp e t = SN l a r"
  shows "cmp e a = 0
    \<or> cmp e a < 0 \<and> between cmp e (sinorder l) (a # sinorder r)
    \<or> cmp e a > 0 \<and> between cmp e (sinorder l @ [a]) (sinorder r)"
proof -
  obtain L t' R where s: "spl cmp e [] t [] = (L, t', R)" by (metis prod_cases3)
  then obtain l' r' where t': "t' = SN l' a r'" "l = asm_left L l'" "r = asm_right R r'"
    using assms(3) by (auto simp: splay_def split: st.splits)
  have b: "between cmp e (linorder L) (rinorder R)"
    by (rule spl_between [OF assms(1) _ _ s]) (use assms(2) in \<open>simp_all add: between_def\<close>)
  have "sinorder t = linorder L @ sinorder t' @ rinorder R" using sinorder_spl [OF s] by simp
  then have so: "cmp_sorted cmp ((linorder L @ sinorder l') @ a # (sinorder r' @ rinorder R))"
    using assms(2) t'(1) by simp
  from spl_final [OF s [unfolded t'(1)]] show ?thesis
  proof (elim disjE conjE)
    assume "cmp e a < 0" "l' = SL"
    then show ?thesis
      using sorted_splits(1) [OF assms(1) so, of e] b t' by (auto simp: sinorder_asm between_def)
  next
    assume "cmp e a > 0" "r' = SL"
    then show ?thesis
      using sorted_splits(2) [OF assms(1) so, of e] b t' by (auto simp: sinorder_asm between_def)
  qed simp
qed

text \<open>With a constant direction the outermost element comes to the root.\<close>

lemma spl_min:
  "v < 0 \<Longrightarrow> spl (\<lambda>_ _. v) e L t R = (L', t', R') \<Longrightarrow> L' = L"
proof (induction "size t" arbitrary: L t R rule: less_induct)
  case less
  show ?case
  proof (cases t)
    case (SN l a r)
    then show ?thesis using less by (cases rule: spl_cases [of "\<lambda>_ _. v" e L l a r R]) auto
  qed (use less.prems in simp)
qed

lemma spl_max:
  "v > 0 \<Longrightarrow> spl (\<lambda>_ _. v) e L t R = (L', t', R') \<Longrightarrow> R' = R"
proof (induction "size t" arbitrary: L t R rule: less_induct)
  case less
  show ?case
  proof (cases t)
    case (SN l a r)
    then show ?thesis using less by (cases rule: spl_cases [of "\<lambda>_ _. v" e L l a r R]) auto
  qed (use less.prems in simp)
qed

lemma splay_min:
  assumes "splay (\<lambda>_ _. v) e t = SN l a r" "v < 0"
  shows "l = SL"
proof -
  obtain L t' R where s: "spl (\<lambda>_ _. v) e [] t [] = (L, t', R)" by (metis prod_cases3)
  then obtain l' r' where t': "t' = SN l' a r'" "l = asm_left L l'"
    using assms(1) by (auto simp: splay_def split: st.splits)
  then show ?thesis using spl_min [OF assms(2) s] spl_final [OF s [unfolded t'(1)]] assms(2) by auto
qed

lemma splay_max:
  assumes "splay (\<lambda>_ _. v) e t = SN l a r" "v > 0"
  shows "r = SL"
proof -
  obtain L t' R where s: "spl (\<lambda>_ _. v) e [] t [] = (L, t', R)" by (metis prod_cases3)
  then obtain l' r' where t': "t' = SN l' a r'" "r = asm_right R r'"
    using assms(1) by (auto simp: splay_def split: st.splits)
  then show ?thesis using spl_max [OF assms(2) s] spl_final [OF s [unfolded t'(1)]] assms(2) by auto
qed

section \<open>The operations\<close>

definition splay_holds :: "cmp \<Rightarrow> splay_heap \<Rightarrow> nat list \<Rightarrow> bool" where
  "splay_holds cmp h xs \<longleftrightarrow> (\<exists>t. srepr h t \<and> sinorder t = xs) \<and> cmp_sorted cmp xs"

lemma splay_holds_empty: "splay_holds cmp h xs \<Longrightarrow> SPLAY_EMPTY h \<longleftrightarrow> xs = []"
proof -
  assume "splay_holds cmp h xs"
  then obtain t where "srepr h t" "sinorder t = xs" by (auto simp: splay_holds_def)
  then show ?thesis by (cases t) (auto simp: SPLAY_EMPTY_def srepr_def)
qed

lemma SPLAY_holds:
  assumes "splay_holds cmp h xs" "total_cmp cmp" "xs \<noteq> []"
  obtains h' l a r where "SPLAY cmp e h = Some h'" "srepr h' (SN l a r)" "sph_root h' = Ref a"
    "xs = sinorder l @ a # sinorder r" "cmp_sorted cmp (sinorder l @ a # sinorder r)"
    "cmp e a = 0 \<or> cmp e a < 0 \<and> between cmp e (sinorder l) (a # sinorder r)
     \<or> cmp e a > 0 \<and> between cmp e (sinorder l @ [a]) (sinorder r)"
    "sframe (set xs) h h'"
proof -
  obtain t where t: "srepr h t" "sinorder t = xs" "cmp_sorted cmp xs"
    using assms(1) by (auto simp: splay_holds_def)
  then have nl: "t \<noteq> SL" using assms(3) by auto
  obtain h' where h': "SPLAY cmp e h = Some h'" "srepr h' (splay cmp e t)" "splay cmp e t \<noteq> SL"
      "sframe (set xs) h h'"
    using SPLAY_ok [OF t(1) nl, of cmp e] t(2) by blast
  obtain l a r where s: "splay cmp e t = SN l a r" using h'(3) by (cases "splay cmp e t") auto
  have i: "xs = sinorder l @ a # sinorder r"
    using sinorder_splay [OF nl h'(3)] s t(2) by simp
  show ?thesis
    using that [of h' l a r] h' s i t splay_root [OF assms(2), of t e l a r]
    by (auto simp: srepr_def)
qed

lemma lookup_splayed:
  assumes "total_cmp cmp" "cmp_sorted cmp (A @ a # B)"
    and "cmp e a = 0 \<or> cmp e a < 0 \<and> between cmp e A (a # B) \<or> cmp e a > 0 \<and> between cmp e (A @ [a]) B"
  shows "lookup cmp e (A @ a # B) = (if cmp e a = 0 then Ref a else Null)"
  using assms lookup_hit [OF assms(1,2), of e] lookup_miss [of cmp e A "a # B"]
    lookup_miss [of cmp e "A @ [a]" B] by auto

lemma splay_find_step:
  assumes "splay_holds cmp h xs" "total_cmp cmp"
  shows "\<exists>h'. SPLAY_FIND cmp e h = Some (lookup cmp e xs, h') \<and> splay_holds cmp h' xs"
proof (cases "xs = []")
  case True
  then show ?thesis
    using splay_holds_empty [OF assms(1)] assms(1) by (simp add: SPLAY_FIND_def lookup_def)
next
  case False
  obtain h' l a r where s: "SPLAY cmp e h = Some h'" "srepr h' (SN l a r)" "sph_root h' = Ref a"
    "xs = sinorder l @ a # sinorder r" "cmp_sorted cmp (sinorder l @ a # sinorder r)"
    "cmp e a = 0 \<or> cmp e a < 0 \<and> between cmp e (sinorder l) (a # sinorder r)
     \<or> cmp e a > 0 \<and> between cmp e (sinorder l @ [a]) (sinorder r)"
    using SPLAY_holds [OF assms False, of e] by metis
  have "splay_holds cmp h' xs"
    using s(2,4,5) by (auto simp: splay_holds_def intro!: exI [of _ "SN l a r"])
  then show ?thesis
    using s(1,3) splay_holds_empty [OF assms(1)] False lookup_splayed [OF assms(2) s(5,6)] s(4)
    by (simp add: SPLAY_FIND_def)
qed

lemma splay_insert_step:
  assumes "splay_holds cmp h xs" "total_cmp cmp" "e \<notin> set xs"
  shows "\<exists>h'. SPLAY_INSERT cmp e h = Some (fst (abs_insert cmp e xs), h')
    \<and> splay_holds cmp h' (snd (abs_insert cmp e xs))"
proof (cases "xs = []")
  case True
  have "srepr (sset_root (Ref e) (ssetl (Elm e) Null (ssetr (Elm e) Null h))) (SN SL e SL)"
    by (simp add: srepr_def)
  then have "splay_holds cmp (sset_root (Ref e) (ssetl (Elm e) Null (ssetr (Elm e) Null h))) [e]"
    by (auto simp: splay_holds_def intro!: exI [of _ "SN SL e SL"])
  then show ?thesis
    using splay_holds_empty [OF assms(1)] True
    by (simp add: SPLAY_INSERT_def abs_insert_def lookup_def Let_def)
next
  case False
  obtain h' l a r where s: "SPLAY cmp e h = Some h'" "srepr h' (SN l a r)" "sph_root h' = Ref a"
    "xs = sinorder l @ a # sinorder r" "cmp_sorted cmp (sinorder l @ a # sinorder r)"
    "cmp e a = 0 \<or> cmp e a < 0 \<and> between cmp e (sinorder l) (a # sinorder r)
     \<or> cmp e a > 0 \<and> between cmp e (sinorder l @ [a]) (sinorder r)"
    using SPLAY_holds [OF assms(1,2) False, of e] by metis
  note lk = lookup_splayed [OF assms(2) s(5,6)]
  note ne = splay_holds_empty [OF assms(1)] False
  have e: "e \<notin> set (sinorder l)" "e \<notin> set (sinorder r)" "e \<noteq> a" using assms(3) s(4) by auto
  consider (lt) "cmp e a < 0" | (gt) "cmp e a > 0" | (eq) "cmp e a = 0" by linarith
  then show ?thesis
  proof cases
    case lt
    then have b: "between cmp e (sinorder l) (a # sinorder r)" using s(6) by auto
    let ?h = "sset_root (Ref e) (ssetl (Elm a) Null (ssetr (Elm e) (Ref a) (ssetl (Elm e) (sroot l) h')))"
    have "SPLAY_INSERT cmp e h = Some (Null, ?h)"
      using ne s(1-3) lt by (simp add: SPLAY_INSERT_def Let_def srepr_def)
    moreover have "srepr ?h (SN l e (SN SL a r))" using s(2) e by (auto simp: srepr_def)
    moreover have "cmp_sorted cmp (sinorder l @ e # a # sinorder r)"
      by (rule sorted_between [OF assms(2) s(5) b])
    ultimately show ?thesis
      using lk lt s(4) insort_between [OF b]
      by (auto simp: abs_insert_def splay_holds_def intro!: exI [of _ "SN l e (SN SL a r)"])
  next
    case gt
    then have b: "between cmp e (sinorder l @ [a]) (sinorder r)" using s(6) by auto
    let ?h = "sset_root (Ref e) (ssetr (Elm a) Null (ssetl (Elm e) (Ref a) (ssetr (Elm e) (sroot r) h')))"
    have "SPLAY_INSERT cmp e h = Some (Null, ?h)"
      using ne s(1-3) gt by (simp add: SPLAY_INSERT_def Let_def srepr_def)
    moreover have "srepr ?h (SN (SN l a SL) e r)" using s(2) e by (auto simp: srepr_def)
    moreover have "cmp_sorted cmp ((sinorder l @ [a]) @ e # sinorder r)"
      by (rule sorted_between [OF assms(2) _ b]) (use s(5) in simp)
    ultimately show ?thesis
      using lk gt s(4) insort_between [OF b]
      by (auto simp: abs_insert_def splay_holds_def intro!: exI [of _ "SN (SN l a SL) e r"])
  next
    case eq
    have "splay_holds cmp h' xs"
      using s(2,4,5) by (auto simp: splay_holds_def intro!: exI [of _ "SN l a r"])
    then show ?thesis using ne s(1,3,4) lk eq by (simp add: SPLAY_INSERT_def abs_insert_def)
  qed
qed

lemma sorted_same:
  assumes "total_cmp cmp" "cmp_sorted cmp (A @ a # B)" "e \<in> set (A @ a # B)" "cmp e a = 0"
  shows "e = a"
proof (rule ccontr)
  assume "e \<noteq> a"
  then have "e \<in> set A \<or> e \<in> set B" using assms(3) by auto
  moreover have "cmp e e = 0" using cmp_swap(1) [OF assms(1), of e e] by linarith
  ultimately show False
    using between_below [OF assms(1,2), of e] between_above [OF assms(1,2), of e] assms(4) by auto
qed

text \<open>The second splay of \<open>SPLAY_REMOVE\<close> brings the predecessor up, without a right
  child.\<close>

lemma splay_predecessor:
  assumes "splay_holds cmp h xs" "total_cmp cmp" "xs \<noteq> []" "\<forall>x \<in> set xs. 0 < cmp e x"
  obtains h' l b where "SPLAY cmp e h = Some h'" "srepr h' (SN l b SL)" "xs = sinorder l @ [b]"
    "sframe (set xs) h h'"
proof -
  obtain h' l b r where s: "SPLAY cmp e h = Some h'" "srepr h' (SN l b r)"
    "xs = sinorder l @ b # sinorder r"
    "cmp e b = 0 \<or> cmp e b < 0 \<and> between cmp e (sinorder l) (b # sinorder r)
     \<or> cmp e b > 0 \<and> between cmp e (sinorder l @ [b]) (sinorder r)" "sframe (set xs) h h'"
    using SPLAY_holds [OF assms(1-3), of e] by metis
  from s(4) have "sinorder r = []"
  proof (elim disjE conjE)
    assume "between cmp e (sinorder l @ [b]) (sinorder r)"
    then have "\<forall>x \<in> set (sinorder r). cmp e x < 0 \<and> 0 < cmp e x"
      using assms(4) s(3) by (simp add: between_def)
    then show ?thesis by (cases "sinorder r") auto
  qed (use assms(4) s(3) in simp_all)
  then have "r = SL" by (cases r) auto
  then show ?thesis using that s by simp
qed

lemma splay_remove_step:
  assumes "splay_holds cmp h xs" "total_cmp cmp" "e \<in> set xs"
  shows "\<exists>h'. SPLAY_REMOVE cmp e h = Some (Ref e, h') \<and> splay_holds cmp h' (remove1 e xs)"
proof -
  have nx: "xs \<noteq> []" using assms(3) by auto
  obtain h' l a r where s: "SPLAY cmp e h = Some h'" "srepr h' (SN l a r)" "sph_root h' = Ref a"
    "xs = sinorder l @ a # sinorder r" "cmp_sorted cmp (sinorder l @ a # sinorder r)"
    "cmp e a = 0 \<or> cmp e a < 0 \<and> between cmp e (sinorder l) (a # sinorder r)
     \<or> cmp e a > 0 \<and> between cmp e (sinorder l @ [a]) (sinorder r)"
    using SPLAY_holds [OF assms(1,2) nx, of e] by metis
  have ee: "cmp e e = 0" using cmp_swap(1) [OF assms(2), of e e] by linarith
  have ea: "cmp e a = 0"
    using s(6) assms(3) ee unfolding s(4) by (auto simp: between_def)
  have a: "a = e" using sorted_same [OF assms(2) s(5) _ ea] assms(3) s(4) by simp
  have d: "distinct xs" using s(2,4) by (simp add: srepr_def)
  have rm: "remove1 e xs = sinorder l @ sinorder r"
    using d unfolding s(4) a by (simp add: remove1_append)
  have so: "cmp_sorted cmp (sinorder l @ sinorder r)" using s(5) by (simp add: sorted_wrt_append)
  note ne = splay_holds_empty [OF assms(1)] nx
  show ?thesis
  proof (cases "l = SL")
    case True
    have "srepr (sset_root (sroot r) h') r" using s(2) by (simp add: srepr_def)
    then have "splay_holds cmp (sset_root (sroot r) h') (remove1 e xs)"
      using so rm True by (auto simp: splay_holds_def)
    then show ?thesis using ne s(1-3) ea True by (simp add: SPLAY_REMOVE_def srepr_def)
  next
    case False
    let ?h = "sset_root (sroot l) h'"
    have "srepr ?h l" using s(2) by (simp add: srepr_def)
    moreover have "cmp_sorted cmp (sinorder l)" using so by (simp add: sorted_wrt_append)
    ultimately have hl: "splay_holds cmp ?h (sinorder l)" by (auto simp: splay_holds_def)
    have nl: "sinorder l \<noteq> []" using False by (cases l) auto
    obtain h2 l2 b where p: "SPLAY cmp e ?h = Some h2" "srepr h2 (SN l2 b SL)"
        "sinorder l = sinorder l2 @ [b]" "sframe (set (sinorder l)) ?h h2"
      by (rule splay_predecessor [OF hl assms(2) nl, of e])
        (use between_above [OF assms(2) s(5), of e] ea in simp_all)
    have dj: "set (sinorder r) \<inter> set (sinorder l) = {}" "b \<notin> set (sinorder r)"
      using s(2) p(3) by (auto simp: srepr_def)
    have "srep h2 r" using srep_frame [OF p(4) dj(1)] s(2) by (simp add: srepr_def)
    then have "srepr (ssetr (Elm b) (sroot r) h2) (SN l2 b r)"
      using p(2,3) dj s(2) by (auto simp: srepr_def)
    then have "splay_holds cmp (ssetr (Elm b) (sroot r) h2) (remove1 e xs)"
      using so rm p(3) by (auto simp: splay_holds_def intro!: exI [of _ "SN l2 b r"])
    moreover have "SPLAY_REMOVE cmp e h = Some (Ref e, ssetr (Elm b) (sroot r) h2)"
      using ne s(1-3) ea False p(1,2) by (simp add: SPLAY_REMOVE_def srepr_def)
    ultimately show ?thesis by simp
  qed
qed

lemma splay_min_step:
  assumes "splay_holds cmp h xs"
  shows "\<exists>h'. SPLAY_MIN h = Some (first_ptr xs, h') \<and> splay_holds cmp h' xs"
    and "\<exists>h'. SPLAY_MAX h = Some (first_ptr (rev xs), h') \<and> splay_holds cmp h' xs"
proof -
  obtain t where t: "srepr h t" "sinorder t = xs" "cmp_sorted cmp xs"
    using assms by (auto simp: splay_holds_def)
  have "\<exists>h'. SPLAY_MIN h = Some (first_ptr xs, h') \<and> splay_holds cmp h' xs"
    "\<exists>h'. SPLAY_MAX h = Some (first_ptr (rev xs), h') \<and> splay_holds cmp h' xs" if "xs \<noteq> []"
  proof -
    have nl: "t \<noteq> SL" using t that by auto
    have mm: "\<exists>h' l a r. SPLAY_MINMAX v h = Some h' \<and> srepr h' (SN l a r) \<and> sph_root h' = Ref a
        \<and> xs = sinorder l @ a # sinorder r \<and> splay (\<lambda>_ _. v) 0 t = SN l a r
        \<and> splay_holds cmp h' xs" if v: "v \<noteq> 0" for v
    proof -
      obtain h' where h': "SPLAY_MINMAX v h = Some h'" "srepr h' (splay (\<lambda>_ _. v) 0 t)"
          "splay (\<lambda>_ _. v) 0 t \<noteq> SL"
        using SPLAY_MINMAX_ok [OF t(1) nl v] by blast
      then obtain l a r where s: "splay (\<lambda>_ _. v) 0 t = SN l a r"
        by (cases "splay (\<lambda>_ _. v) 0 t") auto
      have "xs = sinorder l @ a # sinorder r" using sinorder_splay [OF nl h'(3)] s t(2) by simp
      then show ?thesis
        using h' s t(3) by (auto simp: srepr_def splay_holds_def intro!: exI [of _ "SN l a r"])
    qed
    show "\<exists>h'. SPLAY_MIN h = Some (first_ptr xs, h') \<and> splay_holds cmp h' xs"
      using mm [of "-1"] splay_min [of "-1" 0 t] splay_holds_empty [OF assms] that
      by (fastforce simp: SPLAY_MIN_def SPLAY_MIN_MAX_def)
    show "\<exists>h'. SPLAY_MAX h = Some (first_ptr (rev xs), h') \<and> splay_holds cmp h' xs"
      using mm [of 1] splay_max [of 1 0 t] splay_holds_empty [OF assms] that
      by (fastforce simp: SPLAY_MAX_def SPLAY_MIN_MAX_def)
  qed
  then show "\<exists>h'. SPLAY_MIN h = Some (first_ptr xs, h') \<and> splay_holds cmp h' xs"
    "\<exists>h'. SPLAY_MAX h = Some (first_ptr (rev xs), h') \<and> splay_holds cmp h' xs"
    using splay_holds_empty [OF assms] assms
    by (cases "xs = []"; simp add: SPLAY_MIN_def SPLAY_MAX_def)+
qed

lemma splay_at:
  assumes "splay_holds cmp h xs" "total_cmp cmp" "xs = ls @ e # rs"
  obtains h' l r where "SPLAY cmp e h = Some h'" "srepr h' (SN l e r)" "sinorder l = ls" "sinorder r = rs"
    "splay_holds cmp h' xs"
proof -
  have nx: "xs \<noteq> []" and ex: "e \<in> set xs" using assms(3) by auto
  obtain h' l a r where s: "SPLAY cmp e h = Some h'" "srepr h' (SN l a r)" "sph_root h' = Ref a"
    "xs = sinorder l @ a # sinorder r" "cmp_sorted cmp (sinorder l @ a # sinorder r)"
    "cmp e a = 0 \<or> cmp e a < 0 \<and> between cmp e (sinorder l) (a # sinorder r)
     \<or> cmp e a > 0 \<and> between cmp e (sinorder l @ [a]) (sinorder r)"
    using SPLAY_holds [OF assms(1,2) nx, of e] by metis
  have ee: "cmp e e = 0" using cmp_swap(1) [OF assms(2), of e e] by linarith
  have ea: "cmp e a = 0" using s(6) ex ee unfolding s(4) by (auto simp: between_def)
  have a: "a = e" using sorted_same [OF assms(2) s(5) _ ea] ex s(4) by simp
  have d: "distinct (ls @ e # rs)" using s(2,4) assms(3) by (simp add: srepr_def)
  have "ls @ e # rs = sinorder l @ e # sinorder r" using s(4) assms(3) a by simp
  from distinct_split [OF d this] have i: "sinorder l = ls" "sinorder r = rs" by auto
  have "splay_holds cmp h' xs"
    using s(2,4,5) by (auto simp: splay_holds_def intro!: exI [of _ "SN l a r"])
  then show ?thesis using that s(1,2) i a by blast
qed

lemma splay_leftmost_ok:
  "srep h (SN l a r) \<Longrightarrow> splay_leftmost a h = Some (first_ptr (sinorder (SN l a r)))"
proof (induction l arbitrary: a r)
  case SL
  then show ?case by (simp add: splay_leftmost.simps [of a])
next
  case (SN l b m)
  then have "splay_leftmost b h = Some (first_ptr (sinorder (SN l b m)))" by simp
  moreover have "first_ptr (sinorder (SN (SN l b m) a r)) = first_ptr (sinorder (SN l b m))"
    using first_ptr_append [of "sinorder (SN l b m)" "a # sinorder r"] by simp
  ultimately show ?case using SN.prems by (simp add: splay_leftmost.simps [of a])
qed

lemma SPLAY_NEXT_ok:
  assumes "splay_holds cmp h (ls @ e # rs)" "total_cmp cmp"
  shows "\<exists>h'. SPLAY_NEXT cmp e h = Some (first_ptr rs, h') \<and> splay_holds cmp h' (ls @ e # rs)"
proof -
  obtain h' l r where s: "SPLAY cmp e h = Some h'" "srepr h' (SN l e r)" "sinorder r = rs"
      "splay_holds cmp h' (ls @ e # rs)"
    using splay_at [OF assms refl] by metis
  show ?thesis
  proof (cases r)
    case SL
    then show ?thesis using s by (auto simp: SPLAY_NEXT_def srepr_def)
  next
    case (SN u b v)
    then have "splay_leftmost b h' = Some (first_ptr rs)"
      using splay_leftmost_ok [of h' u b v] s(2,3) by (simp add: srepr_def)
    then show ?thesis using s SN by (auto simp: SPLAY_NEXT_def srepr_def)
  qed
qed

lemma splay_foreach_loop_ok:
  assumes "total_cmp cmp"
  shows "splay_holds cmp h (ls @ rs) \<Longrightarrow>
    \<exists>h'. splay_foreach_loop cmp (first_ptr rs) h = Some (rs, h') \<and> splay_holds cmp h' (ls @ rs)"
proof (induction rs arbitrary: h ls)
  case Nil
  then show ?case by (simp add: splay_foreach_loop.simps)
next
  case (Cons e rs)
  obtain h1 where h1: "SPLAY_NEXT cmp e h = Some (first_ptr rs, h1)" "splay_holds cmp h1 (ls @ e # rs)"
    using SPLAY_NEXT_ok [OF Cons.prems assms] by blast
  with Cons.IH [of h1 "ls @ [e]"] obtain h2 where
      "splay_foreach_loop cmp (first_ptr rs) h1 = Some (rs, h2)" "splay_holds cmp h2 (ls @ e # rs)"
    by auto
  then show ?case using h1 by (simp add: splay_foreach_loop.simps [of cmp "Ref e"])
qed

section \<open>The interface\<close>

fun splay_step :: "cmp \<Rightarrow> tree_op \<Rightarrow> splay_heap \<Rightarrow> (ptr \<times> splay_heap) option" where
  "splay_step cmp (Insert e) h = SPLAY_INSERT cmp e h"
| "splay_step cmp (Find e) h = SPLAY_FIND cmp e h"
| "splay_step cmp (Remove e) h = SPLAY_REMOVE cmp e h"
| "splay_step cmp Min h = SPLAY_MIN h"
| "splay_step cmp Max h = SPLAY_MAX h"

interpretation spt: ordered_tree splay_holds splay_step
proof
  fix cmp :: cmp and h xs
  assume "splay_holds cmp h xs"
  then show "cmp_sorted cmp xs" by (simp add: splay_holds_def)
next
  fix cmp :: cmp and h xs op
  assume h: "splay_holds cmp h xs" and tc: "total_cmp cmp" and ok: "allowed op xs"
  show "\<exists>h'. splay_step cmp op h = Some (fst (abs_step cmp op xs), h')
    \<and> splay_holds cmp h' (snd (abs_step cmp op xs))"
    using splay_insert_step [OF h tc] splay_find_step [OF h tc] splay_remove_step [OF h tc]
      splay_min_step [OF h] ok
    by (cases op) (simp_all add: abs_find_def abs_remove_def)
qed

section \<open>Properties\<close>

definition splay_empty :: splay_heap where
  "splay_empty = SPLAY_INIT \<lparr>sph_root = Ref 0, spe_left = (\<lambda>_. Null), spe_right = (\<lambda>_. Null)\<rparr>"

lemma splay_empty_holds: "splay_holds cmp splay_empty []"
  by (auto simp: splay_holds_def srepr_def splay_empty_def SPLAY_INIT_def intro!: exI [of _ SL])

definition splay_two :: splay_heap where
  "splay_two = \<lparr>sph_root = Ref 2, spe_left = (\<lambda>_. Null)(Elm 2 := Ref 1), spe_right = (\<lambda>_. Null)\<rparr>"

lemma splay_two_holds: "splay_holds addr_cmp splay_two [1, 2]"
  by (auto simp: splay_holds_def srepr_def splay_two_def addr_cmp_def
      intro!: exI [of _ "SN (SN SL 1 SL) 2 SL"])

text \<open>C10. Splay trees: any sequence of insertions of unlinked elements, removals of linked ones,
  searches and minimum and maximum queries, from any splay tree in order, is defined, ends,
  returns what the same operations on the sorted list of elements return (the answers of a
  red-black tree), and leaves a splay tree with the resulting elements in order.\<close>

theorem splay_operations_refine_sorted_set:
  assumes "total_cmp cmp" "splay_holds cmp h xs" "abs_run cmp ops xs = Some (rs, ys)"
  shows "\<exists>h'. run_ops splay_step cmp ops h = Some (rs, h') \<and> splay_holds cmp h' ys"
  using assms by (rule spt.run_refines)

theorem splay_operations_refine_sorted_set_witness:
  "\<exists>h'. run_ops splay_step addr_cmp demo_ops splay_empty = Some ([Null, Null, Null, Ref 2, Ref 3], h')
     \<and> splay_holds addr_cmp h' [1, 3]"
  by (rule splay_operations_refine_sorted_set [OF addr_cmp_total splay_empty_holds demo_ops_run])

text \<open>C24. \<open>SPLAY\<close> keeps the elements in order and brings to the root the element equal to the
  key if there is one, and otherwise a neighbour of the place the key would have.\<close>

theorem splay_brings_key_to_root:
  assumes "total_cmp cmp" "splay_holds cmp h xs" "xs \<noteq> []"
  shows "\<exists>h' a ls rs. SPLAY cmp e h = Some h' \<and> splay_holds cmp h' xs \<and> sph_root h' = Ref a
    \<and> xs = ls @ a # rs
    \<and> (cmp e a = 0 \<or> (\<forall>x \<in> set ls. 0 < cmp e x) \<and> (\<forall>x \<in> set rs. cmp e x < 0))"
proof -
  obtain h' l a r where s: "SPLAY cmp e h = Some h'" "srepr h' (SN l a r)" "sph_root h' = Ref a"
    "xs = sinorder l @ a # sinorder r" "cmp_sorted cmp (sinorder l @ a # sinorder r)"
    "cmp e a = 0 \<or> cmp e a < 0 \<and> between cmp e (sinorder l) (a # sinorder r)
     \<or> cmp e a > 0 \<and> between cmp e (sinorder l @ [a]) (sinorder r)"
    using SPLAY_holds [OF assms(2,1,3), of e] by metis
  have "splay_holds cmp h' xs"
    using s(2,4,5) by (auto simp: splay_holds_def intro!: exI [of _ "SN l a r"])
  then show ?thesis
    using s(1,3,4,6)
    by (intro exI [of _ h'] exI [of _ a] exI [of _ "sinorder l"] exI [of _ "sinorder r"])
      (auto simp: between_def)
qed

theorem splay_brings_key_to_root_witness:
  "\<exists>h' a ls rs. SPLAY addr_cmp 1 splay_two = Some h' \<and> splay_holds addr_cmp h' [1, 2]
    \<and> sph_root h' = Ref a \<and> [1, 2] = ls @ a # rs
    \<and> (addr_cmp 1 a = 0
       \<or> (\<forall>x \<in> set ls. 0 < addr_cmp 1 x) \<and> (\<forall>x \<in> set rs. addr_cmp 1 x < 0))"
  by (rule splay_brings_key_to_root [OF addr_cmp_total splay_two_holds]) simp

text \<open>C36. \<open>SPLAY_FOREACH\<close> ends and visits every element once in ascending order, although
  every step of it splays the tree.\<close>

theorem splay_foreach_in_order:
  assumes "total_cmp cmp" "splay_holds cmp h xs"
  shows "\<exists>h'. SPLAY_FOREACH cmp h = Some (xs, h') \<and> splay_holds cmp h' xs"
proof -
  obtain h1 where "SPLAY_MIN h = Some (first_ptr xs, h1)" "splay_holds cmp h1 xs"
    using splay_min_step(1) [OF assms(2)] by blast
  then show ?thesis using splay_foreach_loop_ok [OF assms(1), of h1 "[]" xs] by (simp add: SPLAY_FOREACH_def)
qed

theorem splay_foreach_in_order_witness:
  "\<exists>h'. SPLAY_FOREACH addr_cmp splay_two = Some ([1, 2], h') \<and> splay_holds addr_cmp h' [1, 2]"
  by (rule splay_foreach_in_order [OF addr_cmp_total splay_two_holds])

end
