(* ===== verification/Queue_Spec.thy ===== *)
theory Queue_Spec
  imports Compat_Prelude
begin

text \<open>
  The contract of the list and queue macros of \<open>include/compat/sys/queue.h\<close>: what each
  operation does to the sequence of linked elements, the interface \<open>linked_sequence\<close>
  that the five kinds of list implement, and the first-in-first-out interface of the three that
  are queues.
\<close>

section \<open>Operations on sequences\<close>

datatype 'a list_op =
    Ins_head 'a | Ins_tail 'a | Ins_after 'a 'a | Ins_before 'a 'a
  | Rem_head | Rem_after 'a | Rem 'a | Repl 'a 'a

fun ins_after :: "'a \<Rightarrow> 'a \<Rightarrow> 'a list \<Rightarrow> 'a list" where
  "ins_after a e [] = []"
| "ins_after a e (x # xs) = (if x = a then x # e # xs else x # ins_after a e xs)"

fun ins_before :: "'a \<Rightarrow> 'a \<Rightarrow> 'a list \<Rightarrow> 'a list" where
  "ins_before a e [] = []"
| "ins_before a e (x # xs) = (if x = a then e # x # xs else x # ins_before a e xs)"

fun rem_after :: "'a \<Rightarrow> 'a list \<Rightarrow> 'a list" where
  "rem_after a [] = []"
| "rem_after a (x # xs) = (if x = a then x # tl xs else x # rem_after a xs)"

fun repl :: "'a \<Rightarrow> 'a \<Rightarrow> 'a list \<Rightarrow> 'a list" where
  "repl a b [] = []"
| "repl a b (x # xs) = (if x = a then b # xs else x # repl a b xs)"

fun seq_step :: "'a list_op \<Rightarrow> 'a list \<Rightarrow> 'a list" where
  "seq_step (Ins_head e) xs = e # xs"
| "seq_step (Ins_tail e) xs = xs @ [e]"
| "seq_step (Ins_after a e) xs = ins_after a e xs"
| "seq_step (Ins_before a e) xs = ins_before a e xs"
| "seq_step Rem_head xs = tl xs"
| "seq_step (Rem_after a) xs = rem_after a xs"
| "seq_step (Rem a) xs = remove1 a xs"
| "seq_step (Repl a b) xs = repl a b xs"

text \<open>What a caller may do: insert elements that are not linked, at places that are, and remove
  what is there.\<close>

fun seq_allowed :: "'a list_op \<Rightarrow> 'a list \<Rightarrow> bool" where
  "seq_allowed (Ins_head e) xs \<longleftrightarrow> e \<notin> set xs"
| "seq_allowed (Ins_tail e) xs \<longleftrightarrow> e \<notin> set xs"
| "seq_allowed (Ins_after a e) xs \<longleftrightarrow> a \<in> set xs \<and> e \<notin> set xs"
| "seq_allowed (Ins_before a e) xs \<longleftrightarrow> a \<in> set xs \<and> e \<notin> set xs"
| "seq_allowed Rem_head xs \<longleftrightarrow> xs \<noteq> []"
| "seq_allowed (Rem_after a) xs \<longleftrightarrow> a \<in> set (butlast xs)"
| "seq_allowed (Rem a) xs \<longleftrightarrow> a \<in> set xs"
| "seq_allowed (Repl a b) xs \<longleftrightarrow> a \<in> set xs \<and> b \<notin> set xs"

lemma ins_after_split: "a \<notin> set ls \<Longrightarrow> ins_after a e (ls @ a # rs) = ls @ a # e # rs"
  by (induction ls) auto

lemma ins_before_split: "a \<notin> set ls \<Longrightarrow> ins_before a e (ls @ a # rs) = ls @ e # a # rs"
  by (induction ls) auto

lemma rem_after_split: "a \<notin> set ls \<Longrightarrow> rem_after a (ls @ a # rs) = ls @ a # tl rs"
  by (induction ls) auto

lemma repl_split: "a \<notin> set ls \<Longrightarrow> repl a b (ls @ a # rs) = ls @ b # rs"
  by (induction ls) auto

lemma remove1_split: "a \<notin> set ls \<Longrightarrow> remove1 a (ls @ a # rs) = ls @ rs"
  by (simp add: remove1_append)

lemma butlast_split:
  assumes "distinct xs" "a \<in> set (butlast xs)"
  obtains ls b rs where "xs = ls @ a # b # rs"
proof -
  have "xs \<noteq> []" using assms(2) by auto
  obtain ls rs where "butlast xs = ls @ a # rs" using split_list [OF assms(2)] by blast
  then have "xs = ls @ a # (rs @ [last xs])" using append_butlast_last_id [OF \<open>xs \<noteq> []\<close>] by simp
  then show ?thesis using that by (cases rs) auto
qed

lemmas seq_split_simps = ins_after_split ins_before_split rem_after_split repl_split remove1_split

text \<open>Every allowed operation acts at one place of the sequence.\<close>

lemma distinct_seq_step:
  assumes "distinct xs" "seq_allowed op xs"
  shows "distinct (seq_step op xs)"
proof (cases op)
  case (Rem_after a)
  obtain ls b rs where "xs = ls @ a # b # rs"
    using butlast_split [OF assms(1), of a] assms(2) Rem_after by auto
  then show ?thesis using assms(1) Rem_after by (auto simp: seq_split_simps)
qed (use assms in \<open>auto simp: distinct_tl seq_split_simps dest!: split_list\<close>)

section \<open>The interface\<close>

fun seq_run :: "('a list_op \<Rightarrow> bool) \<Rightarrow> 'a list_op list \<Rightarrow> 'a list \<Rightarrow> 'a list option" where
  "seq_run ok [] xs = Some xs"
| "seq_run ok (op # ops) xs =
     (if ok op \<and> seq_allowed op xs then seq_run ok ops (seq_step op xs) else None)"

fun run_list_ops :: "('a list_op \<Rightarrow> 'h \<Rightarrow> 'h option) \<Rightarrow> 'a list_op list \<Rightarrow> 'h \<Rightarrow> 'h option" where
  "run_list_ops step [] h = Some h"
| "run_list_ops step (op # ops) h =
     (case step op h of None \<Rightarrow> None | Some h' \<Rightarrow> run_list_ops step ops h')"

text \<open>\<open>holds h xs\<close>: the list in \<open>h\<close> is well formed and links \<open>xs\<close>;
  \<open>ok\<close>: the operations the list provides; \<open>walk\<close>: its \<open>FOREACH\<close> loop.\<close>

locale linked_sequence =
  fixes holds :: "'h \<Rightarrow> 'a list \<Rightarrow> bool"
    and ok :: "'a list_op \<Rightarrow> bool"
    and step :: "'a list_op \<Rightarrow> 'h \<Rightarrow> 'h option"
    and walk :: "'h \<Rightarrow> 'a list option"
  assumes holds_distinct: "holds h xs \<Longrightarrow> distinct xs"
    and step_seq: "holds h xs \<Longrightarrow> ok op \<Longrightarrow> seq_allowed op xs \<Longrightarrow>
      \<exists>h'. step op h = Some h' \<and> holds h' (seq_step op xs)"
    and walk_seq: "holds h xs \<Longrightarrow> walk h = Some xs"
begin

lemma run_seq:
  assumes "holds h xs" "seq_run ok ops xs = Some ys"
  shows "\<exists>h'. run_list_ops step ops h = Some h' \<and> holds h' ys \<and> walk h' = Some ys"
  using assms
proof (induction ops arbitrary: h xs)
  case Nil
  then show ?case using walk_seq by simp
next
  case (Cons op ops)
  then obtain h' where "step op h = Some h'" "holds h' (seq_step op xs)"
    using step_seq [of h xs op] by (auto split: if_splits)
  then show ?case using Cons.IH [of h' "seq_step op xs"] Cons.prems(2) by (auto split: if_splits)
qed

end

text \<open>A queue: elements go in at the tail and leave at the head.\<close>

locale fifo_queue = linked_sequence +
  assumes rem_head_ok: "ok Rem_head"
begin

lemma seq_run_tail:
  "\<lbrakk>\<forall>e \<in> set es. ok (Ins_tail e); distinct (xs @ es)\<rbrakk> \<Longrightarrow>
     seq_run ok (map Ins_tail es) xs = Some (xs @ es)"
proof (induction es arbitrary: xs)
  case (Cons e es)
  then show ?case using Cons.IH [of "xs @ [e]"] by auto
qed simp

lemma seq_run_rem: "seq_run ok (replicate (length xs) Rem_head) (xs @ ys) = Some ys"
  by (induction xs) (auto simp: rem_head_ok)

lemma seq_run_append:
  "seq_run ok ops xs = Some ys \<Longrightarrow> seq_run ok (ops @ ops') xs = seq_run ok ops' ys"
  by (induction ops arbitrary: xs) (auto split: if_splits)

text \<open>First in, first out: elements appended to a queue leave it after those before them and in
  the order they came.\<close>

lemma fifo:
  assumes "holds h xs" "\<forall>e \<in> set es. ok (Ins_tail e)" "distinct (xs @ es)"
  shows "\<exists>h'. run_list_ops step (map Ins_tail es @ replicate (length xs) Rem_head) h = Some h'
    \<and> holds h' es \<and> walk h' = Some es"
proof (rule run_seq [OF assms(1)])
  show "seq_run ok (map Ins_tail es @ replicate (length xs) Rem_head) xs = Some es"
    using seq_run_append [OF seq_run_tail [OF assms(2,3)]] seq_run_rem by simp
qed

end

section \<open>Traversal\<close>

text \<open>The two forms of the \<open>FOREACH\<close> loops, for the \<open>NEXT\<close> (or \<open>PREV\<close>) of
  a list.\<close>

partial_function (option) for_each ::
    "(nat \<Rightarrow> 'h \<Rightarrow> ptr option) \<Rightarrow> ptr \<Rightarrow> 'h \<Rightarrow> nat list option" where
  "for_each nxt var h =
     (case var of
        Null \<Rightarrow> Some []
      | Ref a \<Rightarrow> do { v \<leftarrow> nxt a h; xs \<leftarrow> for_each nxt v h; Some (a # xs) })"

partial_function (option) for_each_safe ::
    "(nat \<Rightarrow> 'h \<Rightarrow> ptr option) \<Rightarrow> (nat \<Rightarrow> 'h \<Rightarrow> 'h option) \<Rightarrow> ptr \<Rightarrow> 'h \<Rightarrow> 'h option" where
  "for_each_safe nxt body var h =
     (case var of
        Null \<Rightarrow> Some h
      | Ref a \<Rightarrow> do { tvar \<leftarrow> nxt a h; h \<leftarrow> body a h; for_each_safe nxt body tvar h })"

text \<open>A list whose elements can be removed wherever they are, with a \<open>NEXT\<close>: its safe
  traversal can remove the element it is at, and give its memory away (\<open>scrap\<close>).\<close>

locale removable_sequence = linked_sequence holds ok step walk
  for holds :: "'h \<Rightarrow> nat list \<Rightarrow> bool" and ok step walk +
  fixes nxt :: "nat \<Rightarrow> 'h \<Rightarrow> ptr option"
    and scrap :: "nat \<Rightarrow> 'h \<Rightarrow> 'h"
  assumes nxt_seq: "holds h (ls @ a # rs) \<Longrightarrow> nxt a h = Some (first_ptr rs)"
    and rem_ok: "ok (Rem a)"
    and scrap_seq: "holds h xs \<Longrightarrow> a \<notin> set xs \<Longrightarrow> holds (scrap a h) xs"
begin

lemma for_each_seq: "holds h (ls @ rs) \<Longrightarrow> for_each nxt (first_ptr rs) h = Some rs"
proof (induction rs arbitrary: ls)
  case Nil
  then show ?case by (simp add: for_each.simps)
next
  case (Cons a rs)
  then show ?case
    using nxt_seq [OF Cons.prems] Cons.IH [of "ls @ [a]"] by (simp add: for_each.simps [of _ "Ref a"])
qed

lemma body_seq:
  assumes "holds h (ls @ a # rs)"
  shows "\<exists>h'. (if P a then map_option (scrap a) (step (Rem a) h) else Some h) = Some h'
    \<and> holds h' (ls @ filter (\<lambda>x. \<not> P x) [a] @ rs)"
proof (cases "P a")
  case True
  have a: "a \<notin> set ls" "a \<notin> set (ls @ rs)" using holds_distinct [OF assms] by auto
  obtain h' where "step (Rem a) h = Some h'" "holds h' (ls @ rs)"
    using step_seq [OF assms rem_ok [of a]] a(1) by (auto simp: remove1_split)
  then show ?thesis using scrap_seq [OF _ a(2)] True by simp
qed (use assms in simp)

lemma for_each_safe_seq:
  "holds h (ls @ rs) \<Longrightarrow>
     \<exists>h'. for_each_safe nxt (\<lambda>a h. if P a then map_option (scrap a) (step (Rem a) h) else Some h) (first_ptr rs) h = Some h'
       \<and> holds h' (ls @ filter (\<lambda>x. \<not> P x) rs)"
proof (induction rs arbitrary: h ls)
  case Nil
  then show ?case by (simp add: for_each_safe.simps)
next
  case (Cons a rs)
  obtain h1 where h1: "(if P a then map_option (scrap a) (step (Rem a) h) else Some h) = Some h1"
      "holds h1 (ls @ filter (\<lambda>x. \<not> P x) [a] @ rs)"
    using body_seq [OF Cons.prems] by blast
  obtain h2 where "for_each_safe nxt (\<lambda>a h. if P a then map_option (scrap a) (step (Rem a) h) else Some h) (first_ptr rs) h1 = Some h2"
      "holds h2 (ls @ filter (\<lambda>x. \<not> P x) (a # rs))"
    using Cons.IH [of h1 "ls @ filter (\<lambda>x. \<not> P x) [a]"] h1(2) by (auto split: if_splits)
  then show ?case
    using nxt_seq [OF Cons.prems] h1(1) by (simp add: for_each_safe.simps [of _ _ "Ref a"])
qed

end

end
