(* ===== verification/Queue_Heap.thy ===== *)
theory Queue_Heap
  imports Queue_Spec
begin

text \<open>
  The macros \<open>SLIST_*\<close>, \<open>LIST_*\<close>, \<open>SIMPLEQ_*\<close> and \<open>TAILQ_*\<close> of
  \<open>include/compat/sys/queue.h\<close> on an explicit heap.

  The lists of this header are linked through the addresses of pointers: \<open>le_prev\<close>,
  \<open>tqe_prev\<close>, \<open>sqh_last\<close> and \<open>tqh_last\<close> hold the address of a next pointer or
  of the first pointer of a head. Such an address is a \<open>slot\<close>; \<open>cell\<close> is the
  contents of all the slots. An address that was never set is \<open>None\<close>, and storing through it
  is undefined. \<open>_Q_INVALIDATE\<close> has its definition outside of debugging builds, which is
  empty; \<open>Queue_Debug\<close> has the other one.
\<close>

section \<open>Heads, entries and slots\<close>

datatype slot = First nat | Next nat

record qheap =
  cell :: "slot \<Rightarrow> ptr"
  prevs :: "nat \<Rightarrow> slot option"
  lasts :: "nat \<Rightarrow> slot option"

definition set_cell :: "slot \<Rightarrow> ptr \<Rightarrow> qheap \<Rightarrow> qheap" where
  [simp]: "set_cell s v h = h\<lparr>cell := (cell h)(s := v)\<rparr>"

definition set_prev :: "nat \<Rightarrow> slot option \<Rightarrow> qheap \<Rightarrow> qheap" where
  [simp]: "set_prev e s h = h\<lparr>prevs := (prevs h)(e := s)\<rparr>"

definition set_last :: "nat \<Rightarrow> slot option \<Rightarrow> qheap \<Rightarrow> qheap" where
  [simp]: "set_last k s h = h\<lparr>lasts := (lasts h)(k := s)\<rparr>"

text \<open>\<open>p->field.next\<close> for a pointer \<open>p\<close>, undefined at null, and the two stores through
  pointers.\<close>

fun next_of :: "ptr \<Rightarrow> qheap \<Rightarrow> ptr option" where
  "next_of Null h = None"
| "next_of (Ref a) h = Some (cell h (Next a))"

fun store_prev :: "ptr \<Rightarrow> slot option \<Rightarrow> qheap \<Rightarrow> qheap option" where
  "store_prev Null s h = None"
| "store_prev (Ref a) s h = Some (set_prev a s h)"

fun store_slot :: "slot option \<Rightarrow> ptr \<Rightarrow> qheap \<Rightarrow> qheap option" where
  "store_slot None v h = None"
| "store_slot (Some s) v h = Some (set_cell s v h)"

section \<open>Singly-linked lists\<close>

definition SLIST_FIRST :: "nat \<Rightarrow> qheap \<Rightarrow> ptr" where
  "SLIST_FIRST k h = cell h (First k)"

definition SLIST_EMPTY :: "nat \<Rightarrow> qheap \<Rightarrow> bool" where
  "SLIST_EMPTY k h \<longleftrightarrow> SLIST_FIRST k h = Null"

definition SLIST_NEXT :: "nat \<Rightarrow> qheap \<Rightarrow> ptr option" where
  "SLIST_NEXT elm h = Some (cell h (Next elm))"

definition SLIST_FOREACH :: "nat \<Rightarrow> qheap \<Rightarrow> nat list option" where
  "SLIST_FOREACH k h = for_each SLIST_NEXT (SLIST_FIRST k h) h"

definition SLIST_FOREACH_SAFE :: "nat \<Rightarrow> (nat \<Rightarrow> qheap \<Rightarrow> qheap option) \<Rightarrow> qheap \<Rightarrow> qheap option" where
  "SLIST_FOREACH_SAFE k body h = for_each_safe SLIST_NEXT body (SLIST_FIRST k h) h"

definition SLIST_INIT :: "nat \<Rightarrow> qheap \<Rightarrow> qheap" where
  "SLIST_INIT k h = set_cell (First k) Null h"

definition SLIST_INSERT_AFTER :: "nat \<Rightarrow> nat \<Rightarrow> qheap \<Rightarrow> qheap option" where
  "SLIST_INSERT_AFTER slistelm elm h =
     (let h = set_cell (Next elm) (cell h (Next slistelm)) h
      in Some (set_cell (Next slistelm) (Ref elm) h))"

definition SLIST_INSERT_HEAD :: "nat \<Rightarrow> nat \<Rightarrow> qheap \<Rightarrow> qheap option" where
  "SLIST_INSERT_HEAD k elm h =
     (let h = set_cell (Next elm) (cell h (First k)) h
      in Some (set_cell (First k) (Ref elm) h))"

definition SLIST_REMOVE_AFTER :: "nat \<Rightarrow> qheap \<Rightarrow> qheap option" where
  "SLIST_REMOVE_AFTER elm h = do {
     n \<leftarrow> next_of (cell h (Next elm)) h;
     Some (set_cell (Next elm) n h)
   }"

definition SLIST_REMOVE_HEAD :: "nat \<Rightarrow> qheap \<Rightarrow> qheap option" where
  "SLIST_REMOVE_HEAD k h = do {
     n \<leftarrow> next_of (cell h (First k)) h;
     Some (set_cell (First k) n h)
   }"

text \<open>The search for the predecessor in \<open>SLIST_REMOVE\<close>.\<close>

partial_function (option) slist_pred :: "nat \<Rightarrow> ptr \<Rightarrow> qheap \<Rightarrow> nat option" where
  "slist_pred elm curelm h =
     (case curelm of
        Null \<Rightarrow> None
      | Ref a \<Rightarrow>
          if cell h (Next a) \<noteq> Ref elm then slist_pred elm (cell h (Next a)) h else Some a)"

definition SLIST_REMOVE :: "nat \<Rightarrow> nat \<Rightarrow> qheap \<Rightarrow> qheap option" where
  "SLIST_REMOVE k elm h =
     (if cell h (First k) = Ref elm then SLIST_REMOVE_HEAD k h
      else do {
        curelm \<leftarrow> slist_pred elm (cell h (First k)) h;
        n \<leftarrow> next_of (cell h (Next curelm)) h;
        Some (set_cell (Next curelm) n h)
      })"

section \<open>Lists\<close>

definition LIST_FIRST :: "nat \<Rightarrow> qheap \<Rightarrow> ptr" where
  "LIST_FIRST k h = cell h (First k)"

definition LIST_EMPTY :: "nat \<Rightarrow> qheap \<Rightarrow> bool" where
  "LIST_EMPTY k h \<longleftrightarrow> LIST_FIRST k h = Null"

definition LIST_NEXT :: "nat \<Rightarrow> qheap \<Rightarrow> ptr option" where
  "LIST_NEXT elm h = Some (cell h (Next elm))"

definition LIST_FOREACH :: "nat \<Rightarrow> qheap \<Rightarrow> nat list option" where
  "LIST_FOREACH k h = for_each LIST_NEXT (LIST_FIRST k h) h"

definition LIST_FOREACH_SAFE :: "nat \<Rightarrow> (nat \<Rightarrow> qheap \<Rightarrow> qheap option) \<Rightarrow> qheap \<Rightarrow> qheap option" where
  "LIST_FOREACH_SAFE k body h = for_each_safe LIST_NEXT body (LIST_FIRST k h) h"

definition LIST_INIT :: "nat \<Rightarrow> qheap \<Rightarrow> qheap" where
  "LIST_INIT k h = set_cell (First k) Null h"

definition LIST_INSERT_AFTER :: "nat \<Rightarrow> nat \<Rightarrow> qheap \<Rightarrow> qheap option" where
  "LIST_INSERT_AFTER listelm elm h = do {
     let n = cell h (Next listelm);
     let h = set_cell (Next elm) n h;
     h \<leftarrow> (if n \<noteq> Null then store_prev (cell h (Next listelm)) (Some (Next elm)) h else Some h);
     let h = set_cell (Next listelm) (Ref elm) h;
     Some (set_prev elm (Some (Next listelm)) h)
   }"

definition LIST_INSERT_BEFORE :: "nat \<Rightarrow> nat \<Rightarrow> qheap \<Rightarrow> qheap option" where
  "LIST_INSERT_BEFORE listelm elm h = do {
     let h = set_prev elm (prevs h listelm) h;
     let h = set_cell (Next elm) (Ref listelm) h;
     h \<leftarrow> store_slot (prevs h listelm) (Ref elm) h;
     Some (set_prev listelm (Some (Next elm)) h)
   }"

definition LIST_INSERT_HEAD :: "nat \<Rightarrow> nat \<Rightarrow> qheap \<Rightarrow> qheap option" where
  "LIST_INSERT_HEAD k elm h = do {
     let n = cell h (First k);
     let h = set_cell (Next elm) n h;
     h \<leftarrow> (if n \<noteq> Null then store_prev (cell h (First k)) (Some (Next elm)) h else Some h);
     let h = set_cell (First k) (Ref elm) h;
     Some (set_prev elm (Some (First k)) h)
   }"

definition LIST_REMOVE :: "nat \<Rightarrow> qheap \<Rightarrow> qheap option" where
  "LIST_REMOVE elm h = do {
     h \<leftarrow> (if cell h (Next elm) \<noteq> Null then store_prev (cell h (Next elm)) (prevs h elm) h
          else Some h);
     store_slot (prevs h elm) (cell h (Next elm)) h
   }"

definition LIST_REPLACE :: "nat \<Rightarrow> nat \<Rightarrow> qheap \<Rightarrow> qheap option" where
  "LIST_REPLACE elm elm2 h = do {
     let n = cell h (Next elm);
     let h = set_cell (Next elm2) n h;
     h \<leftarrow> (if n \<noteq> Null then store_prev (cell h (Next elm2)) (Some (Next elm2)) h else Some h);
     let h = set_prev elm2 (prevs h elm) h;
     store_slot (prevs h elm2) (Ref elm2) h
   }"

section \<open>Simple queues\<close>

definition SIMPLEQ_FIRST :: "nat \<Rightarrow> qheap \<Rightarrow> ptr" where
  "SIMPLEQ_FIRST k h = cell h (First k)"

definition SIMPLEQ_EMPTY :: "nat \<Rightarrow> qheap \<Rightarrow> bool" where
  "SIMPLEQ_EMPTY k h \<longleftrightarrow> SIMPLEQ_FIRST k h = Null"

definition SIMPLEQ_NEXT :: "nat \<Rightarrow> qheap \<Rightarrow> ptr option" where
  "SIMPLEQ_NEXT elm h = Some (cell h (Next elm))"

definition SIMPLEQ_FOREACH :: "nat \<Rightarrow> qheap \<Rightarrow> nat list option" where
  "SIMPLEQ_FOREACH k h = for_each SIMPLEQ_NEXT (SIMPLEQ_FIRST k h) h"

definition SIMPLEQ_FOREACH_SAFE :: "nat \<Rightarrow> (nat \<Rightarrow> qheap \<Rightarrow> qheap option) \<Rightarrow> qheap \<Rightarrow> qheap option" where
  "SIMPLEQ_FOREACH_SAFE k body h = for_each_safe SIMPLEQ_NEXT body (SIMPLEQ_FIRST k h) h"

definition SIMPLEQ_INIT :: "nat \<Rightarrow> qheap \<Rightarrow> qheap" where
  "SIMPLEQ_INIT k h = set_last k (Some (First k)) (set_cell (First k) Null h)"

definition SIMPLEQ_INSERT_HEAD :: "nat \<Rightarrow> nat \<Rightarrow> qheap \<Rightarrow> qheap option" where
  "SIMPLEQ_INSERT_HEAD k elm h =
     (let n = cell h (First k);
          h = set_cell (Next elm) n h;
          h = (if n = Null then set_last k (Some (Next elm)) h else h)
      in Some (set_cell (First k) (Ref elm) h))"

definition SIMPLEQ_INSERT_TAIL :: "nat \<Rightarrow> nat \<Rightarrow> qheap \<Rightarrow> qheap option" where
  "SIMPLEQ_INSERT_TAIL k elm h = do {
     let h = set_cell (Next elm) Null h;
     h \<leftarrow> store_slot (lasts h k) (Ref elm) h;
     Some (set_last k (Some (Next elm)) h)
   }"

definition SIMPLEQ_INSERT_AFTER :: "nat \<Rightarrow> nat \<Rightarrow> nat \<Rightarrow> qheap \<Rightarrow> qheap option" where
  "SIMPLEQ_INSERT_AFTER k listelm elm h =
     (let n = cell h (Next listelm);
          h = set_cell (Next elm) n h;
          h = (if n = Null then set_last k (Some (Next elm)) h else h)
      in Some (set_cell (Next listelm) (Ref elm) h))"

definition SIMPLEQ_REMOVE_HEAD :: "nat \<Rightarrow> qheap \<Rightarrow> qheap option" where
  "SIMPLEQ_REMOVE_HEAD k h = do {
     n \<leftarrow> next_of (cell h (First k)) h;
     let h = set_cell (First k) n h;
     Some (if n = Null then set_last k (Some (First k)) h else h)
   }"

definition SIMPLEQ_REMOVE_AFTER :: "nat \<Rightarrow> nat \<Rightarrow> qheap \<Rightarrow> qheap option" where
  "SIMPLEQ_REMOVE_AFTER k elm h = do {
     n \<leftarrow> next_of (cell h (Next elm)) h;
     let h = set_cell (Next elm) n h;
     Some (if n = Null then set_last k (Some (Next elm)) h else h)
   }"

definition SIMPLEQ_CONCAT :: "nat \<Rightarrow> nat \<Rightarrow> qheap \<Rightarrow> qheap option" where
  "SIMPLEQ_CONCAT k1 k2 h =
     (if \<not> SIMPLEQ_EMPTY k2 h
      then do {
        h \<leftarrow> store_slot (lasts h k1) (cell h (First k2)) h;
        let h = set_last k1 (lasts h k2) h;
        Some (SIMPLEQ_INIT k2 h)
      }
      else Some h)"

section \<open>Tail queues\<close>

definition TAILQ_FIRST :: "nat \<Rightarrow> qheap \<Rightarrow> ptr" where
  "TAILQ_FIRST k h = cell h (First k)"

definition TAILQ_NEXT :: "nat \<Rightarrow> qheap \<Rightarrow> ptr option" where
  "TAILQ_NEXT elm h = Some (cell h (Next elm))"

text \<open>\<open>TAILQ_LAST\<close> and \<open>TAILQ_PREV\<close> read an entry as if it were a head: both structures
  hold a pointer and the address of a pointer, so that \<open>tqh_last\<close> of the entry whose next
  pointer has the address is its \<open>tqe_prev\<close>.\<close>

fun as_head_last :: "slot \<Rightarrow> qheap \<Rightarrow> slot option" where
  "as_head_last (First k) h = lasts h k"
| "as_head_last (Next a) h = prevs h a"

definition TAILQ_LAST :: "nat \<Rightarrow> qheap \<Rightarrow> ptr option" where
  "TAILQ_LAST k h = do {
     s \<leftarrow> lasts h k;
     t \<leftarrow> as_head_last s h;
     Some (cell h t)
   }"

definition TAILQ_PREV :: "nat \<Rightarrow> qheap \<Rightarrow> ptr option" where
  "TAILQ_PREV elm h = do {
     s \<leftarrow> prevs h elm;
     t \<leftarrow> as_head_last s h;
     Some (cell h t)
   }"

definition TAILQ_EMPTY :: "nat \<Rightarrow> qheap \<Rightarrow> bool" where
  "TAILQ_EMPTY k h \<longleftrightarrow> TAILQ_FIRST k h = Null"

definition TAILQ_FOREACH :: "nat \<Rightarrow> qheap \<Rightarrow> nat list option" where
  "TAILQ_FOREACH k h = for_each TAILQ_NEXT (TAILQ_FIRST k h) h"

definition TAILQ_FOREACH_SAFE :: "nat \<Rightarrow> (nat \<Rightarrow> qheap \<Rightarrow> qheap option) \<Rightarrow> qheap \<Rightarrow> qheap option" where
  "TAILQ_FOREACH_SAFE k body h = for_each_safe TAILQ_NEXT body (TAILQ_FIRST k h) h"

definition TAILQ_FOREACH_REVERSE :: "nat \<Rightarrow> qheap \<Rightarrow> nat list option" where
  "TAILQ_FOREACH_REVERSE k h = do { v \<leftarrow> TAILQ_LAST k h; for_each TAILQ_PREV v h }"

definition TAILQ_FOREACH_REVERSE_SAFE ::
    "nat \<Rightarrow> (nat \<Rightarrow> qheap \<Rightarrow> qheap option) \<Rightarrow> qheap \<Rightarrow> qheap option" where
  "TAILQ_FOREACH_REVERSE_SAFE k body h =
     do { v \<leftarrow> TAILQ_LAST k h; for_each_safe TAILQ_PREV body v h }"

definition TAILQ_INIT :: "nat \<Rightarrow> qheap \<Rightarrow> qheap" where
  "TAILQ_INIT k h = set_last k (Some (First k)) (set_cell (First k) Null h)"

definition TAILQ_INSERT_HEAD :: "nat \<Rightarrow> nat \<Rightarrow> qheap \<Rightarrow> qheap option" where
  "TAILQ_INSERT_HEAD k elm h = do {
     let n = cell h (First k);
     let h = set_cell (Next elm) n h;
     h \<leftarrow> (if n \<noteq> Null then store_prev (cell h (First k)) (Some (Next elm)) h
          else Some (set_last k (Some (Next elm)) h));
     let h = set_cell (First k) (Ref elm) h;
     Some (set_prev elm (Some (First k)) h)
   }"

definition TAILQ_INSERT_TAIL :: "nat \<Rightarrow> nat \<Rightarrow> qheap \<Rightarrow> qheap option" where
  "TAILQ_INSERT_TAIL k elm h = do {
     let h = set_cell (Next elm) Null h;
     let h = set_prev elm (lasts h k) h;
     h \<leftarrow> store_slot (lasts h k) (Ref elm) h;
     Some (set_last k (Some (Next elm)) h)
   }"

definition TAILQ_INSERT_AFTER :: "nat \<Rightarrow> nat \<Rightarrow> nat \<Rightarrow> qheap \<Rightarrow> qheap option" where
  "TAILQ_INSERT_AFTER k listelm elm h = do {
     let n = cell h (Next listelm);
     let h = set_cell (Next elm) n h;
     h \<leftarrow> (if n \<noteq> Null then store_prev (cell h (Next elm)) (Some (Next elm)) h
          else Some (set_last k (Some (Next elm)) h));
     let h = set_cell (Next listelm) (Ref elm) h;
     Some (set_prev elm (Some (Next listelm)) h)
   }"

definition TAILQ_INSERT_BEFORE :: "nat \<Rightarrow> nat \<Rightarrow> qheap \<Rightarrow> qheap option" where
  "TAILQ_INSERT_BEFORE listelm elm h = do {
     let h = set_prev elm (prevs h listelm) h;
     let h = set_cell (Next elm) (Ref listelm) h;
     h \<leftarrow> store_slot (prevs h listelm) (Ref elm) h;
     Some (set_prev listelm (Some (Next elm)) h)
   }"

definition TAILQ_REMOVE :: "nat \<Rightarrow> nat \<Rightarrow> qheap \<Rightarrow> qheap option" where
  "TAILQ_REMOVE k elm h = do {
     h \<leftarrow> (if cell h (Next elm) \<noteq> Null then store_prev (cell h (Next elm)) (prevs h elm) h
          else Some (set_last k (prevs h elm) h));
     store_slot (prevs h elm) (cell h (Next elm)) h
   }"

definition TAILQ_REPLACE :: "nat \<Rightarrow> nat \<Rightarrow> nat \<Rightarrow> qheap \<Rightarrow> qheap option" where
  "TAILQ_REPLACE k elm elm2 h = do {
     let n = cell h (Next elm);
     let h = set_cell (Next elm2) n h;
     h \<leftarrow> (if n \<noteq> Null then store_prev (cell h (Next elm2)) (Some (Next elm2)) h
          else Some (set_last k (Some (Next elm2)) h));
     let h = set_prev elm2 (prevs h elm) h;
     store_slot (prevs h elm2) (Ref elm2) h
   }"

definition TAILQ_CONCAT :: "nat \<Rightarrow> nat \<Rightarrow> qheap \<Rightarrow> qheap option" where
  "TAILQ_CONCAT k1 k2 h =
     (if \<not> TAILQ_EMPTY k2 h
      then do {
        h \<leftarrow> store_slot (lasts h k1) (cell h (First k2)) h;
        h \<leftarrow> store_prev (cell h (First k2)) (lasts h k1) h;
        let h = set_last k1 (lasts h k2) h;
        Some (TAILQ_INIT k2 h)
      }
      else Some h)"

end
