(* ===== verification/Queue_Lists.thy ===== *)
theory Queue_Lists
  imports Queue_Heap
begin

text \<open>
  The representation of a sequence by linked cells, and the lists and queues of
  \<open>Queue_Heap\<close> as implementations of \<open>linked_sequence\<close>.
\<close>

section \<open>Chains of cells\<close>

definition last_slot :: "slot \<Rightarrow> nat list \<Rightarrow> slot" where
  "last_slot s xs = (if xs = [] then s else Next (last xs))"

lemma last_slot_simps [simp]:
  "last_slot s [] = s" "last_slot s (x # xs) = last_slot (Next x) xs"
  "last_slot s (xs @ ys) = last_slot (last_slot s xs) ys"
  by (auto simp: last_slot_def)

lemma last_slot_neq [simp]:
  "a \<notin> set xs \<Longrightarrow> last_slot (First k) xs \<noteq> Next a"
  "a \<notin> set xs \<Longrightarrow> a \<noteq> b \<Longrightarrow> last_slot (Next b) xs \<noteq> Next a"
  "k \<noteq> j \<Longrightarrow> last_slot (First k) xs \<noteq> First j"
  "last_slot (Next b) xs \<noteq> First j"
  using last_in_set by (auto simp: last_slot_def)

lemma last_slot_neq' [simp]:
  "a \<notin> set xs \<Longrightarrow> Next a \<noteq> last_slot (First k) xs"
  "a \<notin> set xs \<Longrightarrow> a \<noteq> b \<Longrightarrow> Next a \<noteq> last_slot (Next b) xs"
  "k \<noteq> j \<Longrightarrow> First j \<noteq> last_slot (First k) xs"
  "First j \<noteq> last_slot (Next b) xs"
  using last_slot_neq by metis+

lemma Next_image [simp]: "First k \<notin> Next ` A" "Next a \<in> Next ` A \<longleftrightarrow> a \<in> A"
  by auto

lemma last_slot_image [simp]:
  "set ls \<inter> A = {} \<Longrightarrow> last_slot (First k) ls \<notin> Next ` A"
  "set ls \<inter> A = {} \<Longrightarrow> a \<notin> A \<Longrightarrow> last_slot (Next a) ls \<notin> Next ` A"
  using last_in_set [of ls] by (auto simp: last_slot_def disjoint_iff)

lemma last_slot_disjoint [simp]:
  "a \<notin> set xs \<Longrightarrow> set xs \<inter> set ys = {} \<Longrightarrow> last_slot (Next a) ys \<noteq> last_slot (First k) xs"
  using last_in_set [of xs] last_in_set [of ys]
  unfolding last_slot_def by (metis disjoint_iff slot.distinct(1) slot.inject(2))

text \<open>The cells from \<open>s\<close> on link \<open>xs\<close> (\<open>links\<close>), and end with null
  (\<open>chain\<close>).\<close>

fun links :: "(slot \<Rightarrow> ptr) \<Rightarrow> slot \<Rightarrow> nat list \<Rightarrow> bool" where
  "links c s [] \<longleftrightarrow> True"
| "links c s (x # xs) \<longleftrightarrow> c s = Ref x \<and> links c (Next x) xs"

fun chain :: "(slot \<Rightarrow> ptr) \<Rightarrow> slot \<Rightarrow> nat list \<Rightarrow> bool" where
  "chain c s [] \<longleftrightarrow> c s = Null"
| "chain c s (x # xs) \<longleftrightarrow> c s = Ref x \<and> chain c (Next x) xs"

lemma links_append [simp]: "links c s (xs @ ys) \<longleftrightarrow> links c s xs \<and> links c (last_slot s xs) ys"
  by (induction xs arbitrary: s) auto

lemma chain_append [simp]: "chain c s (xs @ ys) \<longleftrightarrow> links c s xs \<and> chain c (last_slot s xs) ys"
  by (induction xs arbitrary: s) auto

lemma chain_links: "chain c s xs \<longleftrightarrow> links c s xs \<and> c (last_slot s xs) = Null"
  using chain_append [of c s xs "[]"] by simp

lemma links_frame [simp]:
  "t \<noteq> s \<Longrightarrow> t \<notin> Next ` set xs \<Longrightarrow> links (c(t := v)) s xs = links c s xs"
  by (induction xs arbitrary: s) auto

lemma chain_frame [simp]:
  "t \<noteq> s \<Longrightarrow> t \<notin> Next ` set xs \<Longrightarrow> chain (c(t := v)) s xs = chain c s xs"
  by (induction xs arbitrary: s) auto

lemma links_last [simp]:
  "distinct xs \<Longrightarrow> s \<notin> Next ` set xs \<Longrightarrow> links (c(last_slot s xs := v)) s xs = links c s xs"
proof (induction xs arbitrary: s)
  case (Cons x xs)
  have "last_slot (Next x) xs \<in> Next ` set (x # xs)" by (simp add: last_slot_def)
  then have "s \<noteq> last_slot (Next x) xs" using Cons.prems(2) by metis
  moreover have "links (c(last_slot (Next x) xs := v)) (Next x) xs = links c (Next x) xs"
    by (rule Cons.IH) (use Cons.prems in auto)
  ultimately show ?case by (simp add: fun_upd_def)
qed simp

lemma chain_last [simp]:
  "distinct xs \<Longrightarrow> s \<notin> Next ` set xs \<Longrightarrow> chain (c(last_slot s xs := Null)) s xs = links c s xs"
  by (simp add: chain_links)

text \<open>A chain seen from another cell with the same contents.\<close>

lemma chain_move:
  "chain c s rs \<Longrightarrow> t \<notin> Next ` set rs \<Longrightarrow> v = c s \<Longrightarrow> chain (c(t := v)) t rs"
  by (cases rs) auto

text \<open>The back addresses of the elements.\<close>

fun backs :: "(nat \<Rightarrow> slot option) \<Rightarrow> slot \<Rightarrow> nat list \<Rightarrow> bool" where
  "backs p s [] \<longleftrightarrow> True"
| "backs p s (x # xs) \<longleftrightarrow> p x = Some s \<and> backs p (Next x) xs"

lemma backs_append [simp]: "backs p s (xs @ ys) \<longleftrightarrow> backs p s xs \<and> backs p (last_slot s xs) ys"
  by (induction xs arbitrary: s) auto

lemma backs_frame [simp]: "e \<notin> set xs \<Longrightarrow> backs (p(e := v)) s xs = backs p s xs"
  by (induction xs arbitrary: s) auto

text \<open>The traversals.\<close>

lemma for_each_chain:
  assumes "\<And>a h. nxt a h = Some (cell h (Next a))"
  shows "chain (cell h) s xs \<Longrightarrow> for_each nxt (cell h s) h = Some xs"
proof (induction xs arbitrary: s)
  case Nil
  then show ?case by (simp add: for_each.simps)
next
  case (Cons x xs)
  then show ?case by (simp add: for_each.simps [of _ "Ref x"] assms)
qed

section \<open>Singly-linked lists\<close>

definition slist_holds :: "nat \<Rightarrow> qheap \<Rightarrow> nat list \<Rightarrow> bool" where
  "slist_holds k h xs \<longleftrightarrow> chain (cell h) (First k) xs \<and> distinct xs"

fun slist_ok :: "nat list_op \<Rightarrow> bool" where
  "slist_ok (Ins_tail e) = False"
| "slist_ok (Ins_before a e) = False"
| "slist_ok (Repl a b) = False"
| "slist_ok _ = True"

fun slist_step :: "nat \<Rightarrow> nat list_op \<Rightarrow> qheap \<Rightarrow> qheap option" where
  "slist_step k (Ins_head e) h = SLIST_INSERT_HEAD k e h"
| "slist_step k (Ins_after a e) h = SLIST_INSERT_AFTER a e h"
| "slist_step k Rem_head h = SLIST_REMOVE_HEAD k h"
| "slist_step k (Rem_after a) h = SLIST_REMOVE_AFTER a h"
| "slist_step k (Rem a) h = SLIST_REMOVE k a h"
| "slist_step k _ h = None"

lemma slist_pred_ok:
  "links (cell h) s (b # ls) \<Longrightarrow> distinct (b # ls @ [a]) \<Longrightarrow>
     cell h (last_slot s (b # ls)) = Ref a \<Longrightarrow> slist_pred a (Ref b) h = Some (last (b # ls))"
proof (induction ls arbitrary: b s)
  case Nil
  then show ?case by (simp add: slist_pred.simps)
next
  case (Cons c ls)
  have "slist_pred a (Ref c) h = Some (last (c # ls))"
    using Cons.IH [of "Next b" c] Cons.prems by simp
  then show ?case using Cons.prems by (simp add: slist_pred.simps [of _ "Ref b"])
qed

lemma slist_remove_ok:
  assumes "slist_holds k h (ls @ a # rs)"
  shows "\<exists>h'. SLIST_REMOVE k a h = Some h' \<and> slist_holds k h' (ls @ rs)"
proof (cases ls rule: rev_cases)
  case Nil
  then show ?thesis
    using assms by (auto simp: slist_holds_def SLIST_REMOVE_def SLIST_REMOVE_HEAD_def intro!: chain_move)
next
  case (snoc ls' b)
  have l: "links (cell h) (First k) ls" "cell h (last_slot (First k) ls) = Ref a" "distinct (ls @ [a])"
    using assms by (auto simp: slist_holds_def)
  obtain c ms where cm: "ls = c # ms" using snoc by (metis append_is_Nil_conv neq_Nil_conv)
  have b: "last (c # ms) = b" using cm snoc by (metis last_snoc)
  have p: "slist_pred a (cell h (First k)) h = Some b"
    using slist_pred_ok [of h "First k" c ms a] l cm unfolding b by simp
  have ne: "cell h (First k) \<noteq> Ref a" using l cm by auto
  have s: "last_slot (First k) ls = Next b" using snoc by simp
  have "chain ((cell h)(Next b := cell h (Next a))) (Next b) rs"
    using assms snoc by (intro chain_move) (auto simp: slist_holds_def)
  moreover have "links ((cell h)(Next b := cell h (Next a))) (First k) ls"
    using links_last [of ls "First k" "cell h"] l s by auto
  ultimately show ?thesis
    using assms p ne l(2) s by (auto simp: slist_holds_def SLIST_REMOVE_def)
qed

interpretation slist: linked_sequence "slist_holds k" slist_ok "slist_step k" "SLIST_FOREACH k" for k
proof
  fix h xs
  assume h: "slist_holds k h xs"
  then show d: "distinct xs" by (simp add: slist_holds_def)
  show "SLIST_FOREACH k h = Some xs"
    using h for_each_chain [of SLIST_NEXT h "First k" xs]
    by (simp add: SLIST_FOREACH_def SLIST_FIRST_def SLIST_NEXT_def slist_holds_def)
next
  fix h xs and op :: "nat list_op"
  assume h: "slist_holds k h xs" and ok: "slist_ok op" "seq_allowed op xs"
  have d: "distinct xs" using h by (simp add: slist_holds_def)
  show "\<exists>h'. slist_step k op h = Some h' \<and> slist_holds k h' (seq_step op xs)"
  proof (cases op)
    case (Ins_head e)
    then show ?thesis
      using h ok by (auto simp: slist_holds_def SLIST_INSERT_HEAD_def Let_def intro!: chain_move)
  next
    case (Ins_after a e)
    then obtain ls rs where "xs = ls @ a # rs" "e \<notin> set xs" using ok by (auto dest: split_list)
    then show ?thesis
      using h Ins_after
      by (auto simp: slist_holds_def SLIST_INSERT_AFTER_def Let_def seq_split_simps intro!: chain_move)
  next
    case Rem_head
    then show ?thesis
      using h ok by (cases xs) (auto simp: slist_holds_def SLIST_REMOVE_HEAD_def intro!: chain_move)
  next
    case (Rem_after a)
    obtain ls b rs where "xs = ls @ a # b # rs"
      by (rule butlast_split [OF d, of a]) (use ok Rem_after in auto)
    then show ?thesis
      using h Rem_after
      by (auto simp: slist_holds_def SLIST_REMOVE_AFTER_def seq_split_simps intro!: chain_move)
  next
    case (Rem a)
    then obtain ls rs where "xs = ls @ a # rs" "a \<notin> set ls" using ok d by (auto dest: split_list)
    then show ?thesis using slist_remove_ok [of k h ls a rs] h Rem by (simp add: seq_split_simps)
  qed (use ok in auto)
qed

section \<open>Lists\<close>

definition list_holds :: "nat \<Rightarrow> qheap \<Rightarrow> nat list \<Rightarrow> bool" where
  "list_holds k h xs \<longleftrightarrow> chain (cell h) (First k) xs \<and> backs (prevs h) (First k) xs \<and> distinct xs"

fun list_ok :: "nat list_op \<Rightarrow> bool" where
  "list_ok (Ins_tail e) = False"
| "list_ok Rem_head = False"
| "list_ok (Rem_after a) = False"
| "list_ok _ = True"

fun list_step :: "nat \<Rightarrow> nat list_op \<Rightarrow> qheap \<Rightarrow> qheap option" where
  "list_step k (Ins_head e) h = LIST_INSERT_HEAD k e h"
| "list_step k (Ins_after a e) h = LIST_INSERT_AFTER a e h"
| "list_step k (Ins_before a e) h = LIST_INSERT_BEFORE a e h"
| "list_step k (Rem a) h = LIST_REMOVE a h"
| "list_step k (Repl a b) h = LIST_REPLACE a b h"
| "list_step k _ h = None"

lemma links_last_frame:
  assumes "distinct ls" "e \<notin> set ls"
  shows "links (c(Next e := u, last_slot (First k) ls := v)) (First k) ls = links c (First k) ls"
  using assms by (subst links_last) auto

interpretation lst: linked_sequence "list_holds k" list_ok "list_step k" "LIST_FOREACH k" for k
proof
  fix h xs
  assume h: "list_holds k h xs"
  then show d: "distinct xs" by (simp add: list_holds_def)
  show "LIST_FOREACH k h = Some xs"
    using h for_each_chain [of LIST_NEXT h "First k" xs]
    by (simp add: LIST_FOREACH_def LIST_FIRST_def LIST_NEXT_def list_holds_def)
next
  fix h xs and op :: "nat list_op"
  assume h: "list_holds k h xs" and ok: "list_ok op" "seq_allowed op xs"
  have d: "distinct xs" using h by (simp add: list_holds_def)
  show "\<exists>h'. list_step k op h = Some h' \<and> list_holds k h' (seq_step op xs)"
  proof (cases op)
    case (Ins_head e)
    then show ?thesis
      using h ok by (cases xs) (auto simp: list_holds_def LIST_INSERT_HEAD_def Let_def intro!: chain_move)
  next
    case (Ins_after a e)
    then obtain ls rs where "xs = ls @ a # rs" "e \<notin> set xs" using ok by (auto dest: split_list)
    then show ?thesis
      using h Ins_after
      by (cases rs) (auto simp: list_holds_def LIST_INSERT_AFTER_def Let_def seq_split_simps intro!: chain_move)
  next
    case (Ins_before a e)
    then obtain ls rs where "xs = ls @ a # rs" "e \<notin> set xs" using ok by (auto dest: split_list)
    then show ?thesis
      using h Ins_before
      by (auto simp: list_holds_def LIST_INSERT_BEFORE_def Let_def seq_split_simps links_last_frame intro!: chain_move)
  next
    case (Rem a)
    then obtain ls rs where "xs = ls @ a # rs" "a \<notin> set ls" using ok d by (auto dest: split_list)
    then show ?thesis
      using h Rem
      by (cases rs) (auto simp: list_holds_def LIST_REMOVE_def seq_split_simps intro!: chain_move)
  next
    case (Repl a b)
    then obtain ls rs where "xs = ls @ a # rs" "b \<notin> set xs" using ok by (auto dest: split_list)
    then show ?thesis
      using h Repl
      by (cases rs) (auto simp: list_holds_def LIST_REPLACE_def Let_def seq_split_simps links_last_frame intro!: chain_move)
  qed (use ok in auto)
qed

section \<open>Simple queues\<close>

definition simpleq_holds :: "nat \<Rightarrow> qheap \<Rightarrow> nat list \<Rightarrow> bool" where
  "simpleq_holds k h xs \<longleftrightarrow>
     chain (cell h) (First k) xs \<and> lasts h k = Some (last_slot (First k) xs) \<and> distinct xs"

fun simpleq_ok :: "nat list_op \<Rightarrow> bool" where
  "simpleq_ok (Ins_before a e) = False"
| "simpleq_ok (Rem a) = False"
| "simpleq_ok (Repl a b) = False"
| "simpleq_ok _ = True"

fun simpleq_step :: "nat \<Rightarrow> nat list_op \<Rightarrow> qheap \<Rightarrow> qheap option" where
  "simpleq_step k (Ins_head e) h = SIMPLEQ_INSERT_HEAD k e h"
| "simpleq_step k (Ins_tail e) h = SIMPLEQ_INSERT_TAIL k e h"
| "simpleq_step k (Ins_after a e) h = SIMPLEQ_INSERT_AFTER k a e h"
| "simpleq_step k Rem_head h = SIMPLEQ_REMOVE_HEAD k h"
| "simpleq_step k (Rem_after a) h = SIMPLEQ_REMOVE_AFTER k a h"
| "simpleq_step k _ h = None"

interpretation simpleq: fifo_queue "simpleq_holds k" simpleq_ok "simpleq_step k" "SIMPLEQ_FOREACH k" for k
proof
  fix h xs
  assume h: "simpleq_holds k h xs"
  then show d: "distinct xs" by (simp add: simpleq_holds_def)
  show "SIMPLEQ_FOREACH k h = Some xs"
    using h for_each_chain [of SIMPLEQ_NEXT h "First k" xs]
    by (simp add: SIMPLEQ_FOREACH_def SIMPLEQ_FIRST_def SIMPLEQ_NEXT_def simpleq_holds_def)
next
  fix h xs and op :: "nat list_op"
  assume h: "simpleq_holds k h xs" and ok: "simpleq_ok op" "seq_allowed op xs"
  have d: "distinct xs" using h by (simp add: simpleq_holds_def)
  show "\<exists>h'. simpleq_step k op h = Some h' \<and> simpleq_holds k h' (seq_step op xs)"
  proof (cases op)
    case (Ins_head e)
    then show ?thesis
      using h ok by (cases xs) (auto simp: simpleq_holds_def SIMPLEQ_INSERT_HEAD_def Let_def)
  next
    case (Ins_tail e)
    then show ?thesis
      using h ok by (auto simp: simpleq_holds_def SIMPLEQ_INSERT_TAIL_def Let_def links_last_frame chain_links)
  next
    case (Ins_after a e)
    then obtain ls rs where "xs = ls @ a # rs" "e \<notin> set xs" using ok by (auto dest: split_list)
    then show ?thesis
      using h Ins_after
      by (cases rs) (auto simp: simpleq_holds_def SIMPLEQ_INSERT_AFTER_def Let_def seq_split_simps)
  next
    case Rem_head
    then obtain x ys where "xs = x # ys" using ok by (cases xs) auto
    then show ?thesis
      using h Rem_head by (cases ys) (auto simp: simpleq_holds_def SIMPLEQ_REMOVE_HEAD_def)
  next
    case (Rem_after a)
    obtain ls b rs where "xs = ls @ a # b # rs"
      by (rule butlast_split [OF d, of a]) (use ok Rem_after in auto)
    then show ?thesis
      using h Rem_after
      by (cases rs) (auto simp: simpleq_holds_def SIMPLEQ_REMOVE_AFTER_def seq_split_simps)
  qed (use ok in auto)
next
  show "simpleq_ok Rem_head" by simp
qed

section \<open>Tail queues\<close>

definition tailq_holds :: "nat \<Rightarrow> qheap \<Rightarrow> nat list \<Rightarrow> bool" where
  "tailq_holds k h xs \<longleftrightarrow> chain (cell h) (First k) xs \<and> backs (prevs h) (First k) xs
     \<and> lasts h k = Some (last_slot (First k) xs) \<and> distinct xs"

fun tailq_ok :: "nat list_op \<Rightarrow> bool" where
  "tailq_ok (Rem_after a) = False"
| "tailq_ok _ = True"

text \<open>A tail queue has no macro that removes its head: callers remove its first element.\<close>

fun tailq_step :: "nat \<Rightarrow> nat list_op \<Rightarrow> qheap \<Rightarrow> qheap option" where
  "tailq_step k (Ins_head e) h = TAILQ_INSERT_HEAD k e h"
| "tailq_step k (Ins_tail e) h = TAILQ_INSERT_TAIL k e h"
| "tailq_step k (Ins_after a e) h = TAILQ_INSERT_AFTER k a e h"
| "tailq_step k (Ins_before a e) h = TAILQ_INSERT_BEFORE a e h"
| "tailq_step k Rem_head h =
     (case TAILQ_FIRST k h of Null \<Rightarrow> None | Ref a \<Rightarrow> TAILQ_REMOVE k a h)"
| "tailq_step k (Rem a) h = TAILQ_REMOVE k a h"
| "tailq_step k (Repl a b) h = TAILQ_REPLACE k a b h"
| "tailq_step k _ h = None"

lemma tailq_remove_ok:
  assumes "tailq_holds k h (ls @ a # rs)"
  shows "\<exists>h'. TAILQ_REMOVE k a h = Some h' \<and> tailq_holds k h' (ls @ rs)"
  using assms by (cases rs) (auto simp: tailq_holds_def TAILQ_REMOVE_def)

interpretation tailq: fifo_queue "tailq_holds k" tailq_ok "tailq_step k" "TAILQ_FOREACH k" for k
proof
  fix h xs
  assume h: "tailq_holds k h xs"
  then show d: "distinct xs" by (simp add: tailq_holds_def)
  show "TAILQ_FOREACH k h = Some xs"
    using h for_each_chain [of TAILQ_NEXT h "First k" xs]
    by (simp add: TAILQ_FOREACH_def TAILQ_FIRST_def TAILQ_NEXT_def tailq_holds_def)
next
  fix h xs and op :: "nat list_op"
  assume h: "tailq_holds k h xs" and ok: "tailq_ok op" "seq_allowed op xs"
  have d: "distinct xs" using h by (simp add: tailq_holds_def)
  show "\<exists>h'. tailq_step k op h = Some h' \<and> tailq_holds k h' (seq_step op xs)"
  proof (cases op)
    case (Ins_head e)
    then show ?thesis
      using h ok by (cases xs) (auto simp: tailq_holds_def TAILQ_INSERT_HEAD_def Let_def)
  next
    case (Ins_tail e)
    then show ?thesis
      using h ok by (auto simp: tailq_holds_def TAILQ_INSERT_TAIL_def Let_def links_last_frame chain_links)
  next
    case (Ins_after a e)
    then obtain ls rs where "xs = ls @ a # rs" "e \<notin> set xs" using ok by (auto dest: split_list)
    then show ?thesis
      using h Ins_after
      by (cases rs) (auto simp: tailq_holds_def TAILQ_INSERT_AFTER_def Let_def seq_split_simps)
  next
    case (Ins_before a e)
    then obtain ls rs where "xs = ls @ a # rs" "e \<notin> set xs" using ok by (auto dest: split_list)
    then show ?thesis
      using h Ins_before
      by (auto simp: tailq_holds_def TAILQ_INSERT_BEFORE_def Let_def seq_split_simps links_last_frame)
  next
    case Rem_head
    then obtain x ys where xs: "xs = x # ys" using ok by (cases xs) auto
    then show ?thesis
      using h Rem_head tailq_remove_ok [of k h "[]" x ys] by (simp add: TAILQ_FIRST_def tailq_holds_def)
  next
    case (Rem a)
    then obtain ls rs where "xs = ls @ a # rs" "a \<notin> set ls" using ok d by (auto dest: split_list)
    then show ?thesis using tailq_remove_ok [of k h ls a rs] h Rem by (simp add: seq_split_simps)
  next
    case (Repl a b)
    then obtain ls rs where "xs = ls @ a # rs" "b \<notin> set xs" using ok by (auto dest: split_list)
    then show ?thesis
      using h Repl
      by (cases rs) (auto simp: tailq_holds_def TAILQ_REPLACE_def Let_def seq_split_simps links_last_frame)
  qed (use ok in auto)
next
  show "tailq_ok Rem_head" by simp
qed

end
