(* ===== verification/Queue_Debug.thy ===== *)
theory Queue_Debug
  imports Queue_Lists
begin

text \<open>
  The lists and queues of \<open>include/compat/sys/queue.h\<close> when it is built for debugging: then
  \<open>_Q_INVALIDATE\<close> overwrites the pointers of an element that was removed or replaced with
  \<open>_Q_INVALID\<close>, which is -1. The operations do the same to the list; only a use of the pointers of
  the element that is gone differs. The macros without it are those of \<open>Queue_Heap\<close>.

  \<open>bad\<close> stands for -1 as a pointer to an element; as the address of a pointer it is one that was
  never set.
\<close>

section \<open>The macros\<close>

definition invalidate_next :: "nat \<Rightarrow> nat \<Rightarrow> qheap \<Rightarrow> qheap" where
  "invalidate_next bad elm h = set_cell (Next elm) (Ref bad) h"

definition invalidate_prev :: "nat \<Rightarrow> qheap \<Rightarrow> qheap" where
  "invalidate_prev elm h = set_prev elm None h"

definition SLIST_REMOVE_debug :: "nat \<Rightarrow> nat \<Rightarrow> nat \<Rightarrow> qheap \<Rightarrow> qheap option" where
  "SLIST_REMOVE_debug bad k elm h = do {
     h \<leftarrow> SLIST_REMOVE k elm h;
     Some (invalidate_next bad elm h)
   }"

definition LIST_REMOVE_debug :: "nat \<Rightarrow> nat \<Rightarrow> qheap \<Rightarrow> qheap option" where
  "LIST_REMOVE_debug bad elm h = do {
     h \<leftarrow> LIST_REMOVE elm h;
     Some (invalidate_next bad elm (invalidate_prev elm h))
   }"

definition LIST_REPLACE_debug :: "nat \<Rightarrow> nat \<Rightarrow> nat \<Rightarrow> qheap \<Rightarrow> qheap option" where
  "LIST_REPLACE_debug bad elm elm2 h = do {
     h \<leftarrow> LIST_REPLACE elm elm2 h;
     Some (invalidate_next bad elm (invalidate_prev elm h))
   }"

definition TAILQ_REMOVE_debug :: "nat \<Rightarrow> nat \<Rightarrow> nat \<Rightarrow> qheap \<Rightarrow> qheap option" where
  "TAILQ_REMOVE_debug bad k elm h = do {
     h \<leftarrow> TAILQ_REMOVE k elm h;
     Some (invalidate_next bad elm (invalidate_prev elm h))
   }"

definition TAILQ_REPLACE_debug :: "nat \<Rightarrow> nat \<Rightarrow> nat \<Rightarrow> nat \<Rightarrow> qheap \<Rightarrow> qheap option" where
  "TAILQ_REPLACE_debug bad k elm elm2 h = do {
     h \<leftarrow> TAILQ_REPLACE k elm elm2 h;
     Some (invalidate_next bad elm (invalidate_prev elm h))
   }"

section \<open>The same sequences\<close>

fun slist_step_debug :: "nat \<Rightarrow> nat \<Rightarrow> nat list_op \<Rightarrow> qheap \<Rightarrow> qheap option" where
  "slist_step_debug bad k (Rem a) h = SLIST_REMOVE_debug bad k a h"
| "slist_step_debug bad k op h = slist_step k op h"

fun list_step_debug :: "nat \<Rightarrow> nat \<Rightarrow> nat list_op \<Rightarrow> qheap \<Rightarrow> qheap option" where
  "list_step_debug bad k (Rem a) h = LIST_REMOVE_debug bad a h"
| "list_step_debug bad k (Repl a b) h = LIST_REPLACE_debug bad a b h"
| "list_step_debug bad k op h = list_step k op h"

fun tailq_step_debug :: "nat \<Rightarrow> nat \<Rightarrow> nat list_op \<Rightarrow> qheap \<Rightarrow> qheap option" where
  "tailq_step_debug bad k (Rem a) h = TAILQ_REMOVE_debug bad k a h"
| "tailq_step_debug bad k (Repl a b) h = TAILQ_REPLACE_debug bad k a b h"
| "tailq_step_debug bad k Rem_head h =
     (case TAILQ_FIRST k h of Null \<Rightarrow> None | Ref a \<Rightarrow> TAILQ_REMOVE_debug bad k a h)"
| "tailq_step_debug bad k op h = tailq_step k op h"

text \<open>The pointers of an element that is not linked do not matter.\<close>

lemma unlinked_frame:
  "a \<notin> set ys \<Longrightarrow> slist_holds k (invalidate_next bad a h) ys = slist_holds k h ys"
  "a \<notin> set ys \<Longrightarrow> list_holds k (invalidate_next bad a (invalidate_prev a h)) ys = list_holds k h ys"
  "a \<notin> set ys \<Longrightarrow> tailq_holds k (invalidate_next bad a (invalidate_prev a h)) ys = tailq_holds k h ys"
  by (auto simp: slist_holds_def list_holds_def tailq_holds_def invalidate_next_def invalidate_prev_def)

lemma gone:
  "distinct xs \<Longrightarrow> a \<notin> set (seq_step (Rem a) xs)"
  "distinct xs \<Longrightarrow> seq_allowed (Repl a b) xs \<Longrightarrow> a \<notin> set (seq_step (Repl a b) xs)"
proof -
  assume d: "distinct xs"
  then show "a \<notin> set (seq_step (Rem a) xs)" by simp
  assume ok: "seq_allowed (Repl a b) xs"
  then obtain ls rs where xs: "xs = ls @ a # rs" by (auto dest: split_list)
  then have "seq_step (Repl a b) xs = ls @ b # rs" using d by (simp add: repl_split)
  then show "a \<notin> set (seq_step (Repl a b) xs)" using d ok xs by auto
qed

lemmas debug_defs = SLIST_REMOVE_debug_def LIST_REMOVE_debug_def LIST_REPLACE_debug_def
  TAILQ_REMOVE_debug_def TAILQ_REPLACE_debug_def

interpretation slist_debug: linked_sequence "slist_holds k" slist_ok "slist_step_debug bad k" "SLIST_FOREACH k" for bad k
proof
  fix h xs and op :: "nat list_op"
  assume h: "slist_holds k h xs" and ok: "slist_ok op" "seq_allowed op xs"
  obtain h' where h': "slist_step k op h = Some h'" "slist_holds k h' (seq_step op xs)"
    using slist.step_seq [OF h ok] by blast
  note g = gone(1) [OF slist.holds_distinct [OF h]]
  show "\<exists>h'. slist_step_debug bad k op h = Some h' \<and> slist_holds k h' (seq_step op xs)"
    using h' by (cases op) (simp_all add: debug_defs unlinked_frame g del: seq_step.simps)
qed (simp_all add: slist.holds_distinct slist.walk_seq)

interpretation list_debug: linked_sequence "list_holds k" list_ok "list_step_debug bad k" "LIST_FOREACH k" for bad k
proof
  fix h xs and op :: "nat list_op"
  assume h: "list_holds k h xs" and ok: "list_ok op" "seq_allowed op xs"
  obtain h' where h': "list_step k op h = Some h'" "list_holds k h' (seq_step op xs)"
    using lst.step_seq [OF h ok] by blast
  note g = gone [OF lst.holds_distinct [OF h]]
  show "\<exists>h'. list_step_debug bad k op h = Some h' \<and> list_holds k h' (seq_step op xs)"
    using h' ok(2) by (cases op) (simp_all add: debug_defs unlinked_frame g del: seq_step.simps seq_allowed.simps)
qed (simp_all add: lst.holds_distinct lst.walk_seq)

interpretation tailq_debug: linked_sequence "tailq_holds k" tailq_ok "tailq_step_debug bad k" "TAILQ_FOREACH k" for bad k
proof
  fix h xs and op :: "nat list_op"
  assume h: "tailq_holds k h xs" and ok: "tailq_ok op" "seq_allowed op xs"
  obtain h' where h': "tailq_step k op h = Some h'" "tailq_holds k h' (seq_step op xs)"
    using tailq.step_seq [OF h ok] by blast
  note d = tailq.holds_distinct [OF h]
  show "\<exists>h'. tailq_step_debug bad k op h = Some h' \<and> tailq_holds k h' (seq_step op xs)"
  proof (cases "op = Rem_head")
    case True
    then obtain x ys where xs: "xs = x # ys" using ok(2) by (cases xs) auto
    then have f: "TAILQ_FIRST k h = Ref x" using h by (simp add: TAILQ_FIRST_def tailq_holds_def)
    then show ?thesis using h' d True xs by (simp add: debug_defs unlinked_frame)
  next
    case False
    then show ?thesis using h' ok(2) gone [OF d]
      by (cases op) (simp_all add: debug_defs unlinked_frame del: seq_step.simps seq_allowed.simps)
  qed
qed (simp_all add: tailq.holds_distinct tailq.walk_seq)

text \<open>Built for debugging or not, any sequence of operations leaves the same elements linked in the
  same order.\<close>

theorem debug_operations_refine_sequence:
  "(seq_run slist_ok ops [] = Some ys \<longrightarrow>
      (\<exists>h'. run_list_ops (slist_step_debug bad k) ops (SLIST_INIT k h) = Some h' \<and> SLIST_FOREACH k h' = Some ys))
   \<and> (seq_run list_ok ops [] = Some ys \<longrightarrow>
      (\<exists>h'. run_list_ops (list_step_debug bad k) ops (LIST_INIT k h) = Some h' \<and> LIST_FOREACH k h' = Some ys))
   \<and> (seq_run tailq_ok ops [] = Some ys \<longrightarrow>
      (\<exists>h'. run_list_ops (tailq_step_debug bad k) ops (TAILQ_INIT k h) = Some h' \<and> TAILQ_FOREACH k h' = Some ys))"
proof -
  have "slist_holds k (SLIST_INIT k h) []" "list_holds k (LIST_INIT k h) []" "tailq_holds k (TAILQ_INIT k h) []"
    by (simp_all add: slist_holds_def SLIST_INIT_def list_holds_def LIST_INIT_def tailq_holds_def TAILQ_INIT_def)
  then show ?thesis using slist_debug.run_seq list_debug.run_seq tailq_debug.run_seq by blast
qed

text \<open>What debugging shows: a traversal that goes on from an element its body has removed reads
  \<open>_Q_INVALID\<close>.\<close>

lemma removed_next_invalid:
  "TAILQ_REMOVE_debug bad k a h = Some h' \<Longrightarrow> TAILQ_NEXT a h' = Some (Ref bad)"
  "LIST_REMOVE_debug bad a h = Some h' \<Longrightarrow> LIST_NEXT a h' = Some (Ref bad)"
  "SLIST_REMOVE_debug bad k a h = Some h' \<Longrightarrow> SLIST_NEXT a h' = Some (Ref bad)"
  by (auto simp: debug_defs invalidate_next_def TAILQ_NEXT_def LIST_NEXT_def SLIST_NEXT_def bind_eq_Some_conv)

end
