(* ===== verification/Queue_Props.thy ===== *)
theory Queue_Props
  imports Queue_Lists
begin

text \<open>
  Traversal in both directions, removal during a traversal, concatenation, and the properties of
  the lists and queues of \<open>Queue_Heap\<close>.
\<close>

section \<open>Neighbours\<close>

lemma chain_first: "chain c s xs \<Longrightarrow> c s = first_ptr xs"
  by (cases xs) auto

text \<open>Reading the address before the last slot finds the last element.\<close>

lemma tailq_as_head:
  assumes "tailq_holds k h (ls @ rs)" "ls \<noteq> [] \<or> rs = []"
  shows "\<exists>t. as_head_last (last_slot (First k) ls) h = Some t \<and> cell h t = first_ptr (rev ls)"
  using assms by (cases ls rule: rev_cases) (auto simp: tailq_holds_def)

lemma TAILQ_LAST_ok:
  assumes "tailq_holds k h xs"
  shows "TAILQ_LAST k h = Some (first_ptr (rev xs))"
  using tailq_as_head [of k h xs "[]"] assms by (auto simp: TAILQ_LAST_def tailq_holds_def)

lemma TAILQ_PREV_ok:
  assumes "tailq_holds k h (ls @ a # rs)"
  shows "TAILQ_PREV a h = Some (first_ptr (rev ls))"
proof (cases ls rule: rev_cases)
  case Nil
  then have "cell h (last_slot (Next a) rs) = Null" "lasts h k = Some (last_slot (Next a) rs)"
    using assms by (auto simp: tailq_holds_def chain_links)
  then show ?thesis using assms Nil by (auto simp: tailq_holds_def TAILQ_PREV_def)
next
  case (snoc ls' b)
  then show ?thesis using assms by (auto simp: tailq_holds_def TAILQ_PREV_def)
qed

section \<open>Safe traversal\<close>

text \<open>What freeing an element does to its links: the memory has a new owner, and holds anything. \<open>v\<close> and
  \<open>p\<close> say what.\<close>

definition freed :: "(nat \<Rightarrow> qheap \<Rightarrow> ptr) \<Rightarrow> (nat \<Rightarrow> qheap \<Rightarrow> slot option) \<Rightarrow> nat \<Rightarrow> qheap \<Rightarrow> qheap" where
  "freed v p a h = h\<lparr>cell := (cell h)(Next a := v a h), prevs := (prevs h)(a := p a h)\<rparr>"

lemma freed_frame:
  "slist_holds k h xs \<Longrightarrow> a \<notin> set xs \<Longrightarrow> slist_holds k (freed v p a h) xs"
  "list_holds k h xs \<Longrightarrow> a \<notin> set xs \<Longrightarrow> list_holds k (freed v p a h) xs"
  "simpleq_holds k h xs \<Longrightarrow> a \<notin> set xs \<Longrightarrow> simpleq_holds k (freed v p a h) xs"
  "tailq_holds k h xs \<Longrightarrow> a \<notin> set xs \<Longrightarrow> tailq_holds k (freed v p a h) xs"
  by (auto simp: freed_def slist_holds_def list_holds_def simpleq_holds_def tailq_holds_def)

interpretation slist_rm: removable_sequence "slist_holds k" slist_ok "slist_step k" "SLIST_FOREACH k" SLIST_NEXT "freed v p"
  for k v p
proof
  show "SLIST_NEXT a h = Some (first_ptr rs)" if "slist_holds k h (ls @ a # rs)" for h ls a rs
    using that by (auto simp: SLIST_NEXT_def slist_holds_def dest: chain_first)
qed (simp_all add: freed_frame)

interpretation list_rm: removable_sequence "list_holds k" list_ok "list_step k" "LIST_FOREACH k" LIST_NEXT "freed v p"
  for k v p
proof
  show "LIST_NEXT a h = Some (first_ptr rs)" if "list_holds k h (ls @ a # rs)" for h ls a rs
    using that by (auto simp: LIST_NEXT_def list_holds_def dest: chain_first)
qed (simp_all add: freed_frame)

interpretation tailq_rm: removable_sequence "tailq_holds k" tailq_ok "tailq_step k" "TAILQ_FOREACH k" TAILQ_NEXT "freed v p"
  for k v p
proof
  show "TAILQ_NEXT a h = Some (first_ptr rs)" if "tailq_holds k h (ls @ a # rs)" for h ls a rs
    using that by (auto simp: TAILQ_NEXT_def tailq_holds_def dest: chain_first)
qed (simp_all add: freed_frame)

text \<open>A tail queue read backwards is a sequence of its own, from which elements can be
  removed.\<close>

definition tailq_rev_holds :: "nat \<Rightarrow> qheap \<Rightarrow> nat list \<Rightarrow> bool" where
  "tailq_rev_holds k h xs \<longleftrightarrow> tailq_holds k h (rev xs)"

fun is_rem :: "nat list_op \<Rightarrow> bool" where
  "is_rem (Rem a) = True"
| "is_rem _ = False"

lemma for_each_prev: "tailq_holds k h (rev ls @ rs) \<Longrightarrow> for_each TAILQ_PREV (first_ptr ls) h = Some ls"
proof (induction ls arbitrary: rs)
  case Nil
  then show ?case by (simp add: for_each.simps)
next
  case (Cons a ls)
  then show ?case
    using TAILQ_PREV_ok [of k h "rev ls" a rs] Cons.IH [of "a # rs"]
    by (simp add: for_each.simps [of _ "Ref a"])
qed

interpretation tailq_rev: removable_sequence "tailq_rev_holds k" is_rem "tailq_step k"
  "TAILQ_FOREACH_REVERSE k" TAILQ_PREV "freed v p"
  for k v p
proof
  fix h xs
  assume h: "tailq_rev_holds k h xs"
  then show "distinct xs" by (simp add: tailq_rev_holds_def tailq_holds_def)
  show "TAILQ_FOREACH_REVERSE k h = Some xs"
    using h TAILQ_LAST_ok [of k h "rev xs"] for_each_prev [of k h xs "[]"]
    by (simp add: TAILQ_FOREACH_REVERSE_def tailq_rev_holds_def)
next
  fix h xs and op :: "nat list_op"
  assume h: "tailq_rev_holds k h xs" and ok: "is_rem op" "seq_allowed op xs"
  then obtain a where op: "op = Rem a" by (cases op) auto
  then obtain ls rs where xs: "xs = ls @ a # rs" "a \<notin> set ls"
    using ok h by (auto simp: tailq_rev_holds_def tailq_holds_def dest: split_list)
  then show "\<exists>h'. tailq_step k op h = Some h' \<and> tailq_rev_holds k h' (seq_step op xs)"
    using h op tailq_remove_ok [of k h "rev rs" a "rev ls"]
    by (simp add: tailq_rev_holds_def remove1_split)
next
  fix h ls a rs
  assume "tailq_rev_holds k h (ls @ a # rs)"
  then show "TAILQ_PREV a h = Some (first_ptr rs)"
    using TAILQ_PREV_ok [of k h "rev rs" a "rev ls"] by (simp add: tailq_rev_holds_def)
qed (simp_all add: tailq_rev_holds_def freed_frame)

text \<open>A simple queue is emptied at its head.\<close>

lemma simpleq_drain:
  "simpleq_holds k h xs \<Longrightarrow>
     \<exists>h'. for_each_safe SIMPLEQ_NEXT (\<lambda>a h. map_option (freed v p a) (SIMPLEQ_REMOVE_HEAD k h)) (first_ptr xs) h = Some h'
       \<and> simpleq_holds k h' []"
proof (induction xs arbitrary: h)
  case Nil
  then show ?case by (simp add: for_each_safe.simps)
next
  case (Cons a xs)
  have n: "SIMPLEQ_NEXT a h = Some (first_ptr xs)"
    using Cons.prems by (auto simp: SIMPLEQ_NEXT_def simpleq_holds_def dest: chain_first)
  obtain h1 where h1: "SIMPLEQ_REMOVE_HEAD k h = Some h1" "simpleq_holds k h1 xs"
    using simpleq.step_seq [OF Cons.prems, of Rem_head] by auto
  have "a \<notin> set xs" using simpleq.holds_distinct [OF Cons.prems] by simp
  from Cons.IH [OF freed_frame(3) [OF h1(2) this]] show ?case
    using n h1(1) by (simp add: for_each_safe.simps [of _ _ "Ref a"])
qed

section \<open>Properties\<close>

text \<open>Memory before anything is linked.\<close>

definition qheap0 :: qheap where
  "qheap0 = \<lparr>cell = (\<lambda>_. Ref 99), prevs = (\<lambda>_. None), lasts = (\<lambda>_. None)\<rparr>"

text \<open>A tail queue and a simple queue with three elements.\<close>

definition qheap3 :: qheap where
  "qheap3 = \<lparr>cell = (\<lambda>_. Null)(First 0 := Ref 1, Next 1 := Ref 2, Next 2 := Ref 3),
     prevs = (\<lambda>_. None)(1 := Some (First 0), 2 := Some (Next 1), 3 := Some (Next 2)),
     lasts = (\<lambda>_. None)(0 := Some (Next 3), 1 := Some (First 1))\<rparr>"

lemma qheap3_holds:
  "tailq_holds 0 qheap3 [1, 2, 3]" "tailq_holds 1 qheap3 []" "list_holds 0 qheap3 [1, 2, 3]"
  "simpleq_holds 0 qheap3 [1, 2, 3]" "simpleq_holds 1 qheap3 []" "slist_holds 0 qheap3 [1, 2, 3]"
  by (simp_all add: tailq_holds_def list_holds_def simpleq_holds_def slist_holds_def qheap3_def)

text \<open>C3. Tail queues: after \<open>TAILQ_INIT\<close>, any sequence of insertions at the head, at the tail,
  before or after a linked element, of removals and of replacements is defined, does to the
  sequence of linked elements what the operation says, and both traversals then yield that
  sequence, forwards and backwards.\<close>

theorem tailq_operations_refine_sequence:
  assumes "seq_run tailq_ok ops [] = Some ys"
  shows "\<exists>h'. run_list_ops (tailq_step k) ops (TAILQ_INIT k h) = Some h' \<and> tailq_holds k h' ys
    \<and> TAILQ_FOREACH k h' = Some ys \<and> TAILQ_FOREACH_REVERSE k h' = Some (rev ys)"
proof -
  have "tailq_holds k (TAILQ_INIT k h) []" by (simp add: tailq_holds_def TAILQ_INIT_def)
  then obtain h' where "run_list_ops (tailq_step k) ops (TAILQ_INIT k h) = Some h'"
      "tailq_holds k h' ys" "TAILQ_FOREACH k h' = Some ys"
    using tailq.run_seq assms by blast
  then show ?thesis using tailq_rev.walk_seq [of k h' "rev ys"] by (simp add: tailq_rev_holds_def)
qed

theorem tailq_operations_refine_sequence_witness:
  "\<exists>h'. run_list_ops (tailq_step 0) [Ins_tail 1, Ins_head 2, Ins_before 1 3, Repl 2 4, Rem 1] (TAILQ_INIT 0 qheap0)
       = Some h' \<and> tailq_holds 0 h' [4, 3]
    \<and> TAILQ_FOREACH 0 h' = Some [4, 3] \<and> TAILQ_FOREACH_REVERSE 0 h' = Some (rev [4, 3])"
  by (rule tailq_operations_refine_sequence) simp

text \<open>C11. The singly-linked lists, lists and simple queues: after initialisation, any sequence of
  the operations each provides is defined and does to the sequence of linked elements what the
  operation says; \<open>SLIST_REMOVE\<close> finds the predecessor and ends.\<close>

theorem list_operations_refine_sequence:
  "(seq_run slist_ok ops [] = Some ys \<longrightarrow>
      (\<exists>h'. run_list_ops (slist_step k) ops (SLIST_INIT k h) = Some h' \<and> SLIST_FOREACH k h' = Some ys))
   \<and> (seq_run list_ok ops [] = Some ys \<longrightarrow>
      (\<exists>h'. run_list_ops (list_step k) ops (LIST_INIT k h) = Some h' \<and> LIST_FOREACH k h' = Some ys))
   \<and> (seq_run simpleq_ok ops [] = Some ys \<longrightarrow>
      (\<exists>h'. run_list_ops (simpleq_step k) ops (SIMPLEQ_INIT k h) = Some h' \<and> SIMPLEQ_FOREACH k h' = Some ys))"
proof -
  have "slist_holds k (SLIST_INIT k h) []" "list_holds k (LIST_INIT k h) []"
    "simpleq_holds k (SIMPLEQ_INIT k h) []"
    by (simp_all add: slist_holds_def SLIST_INIT_def list_holds_def LIST_INIT_def simpleq_holds_def SIMPLEQ_INIT_def)
  then show ?thesis using slist.run_seq lst.run_seq simpleq.run_seq by blast
qed

theorem list_operations_refine_sequence_witness:
  "(\<exists>h'. run_list_ops (slist_step 0) [Ins_head 1, Ins_head 2, Ins_after 1 3, Rem 1] (SLIST_INIT 0 qheap0) = Some h'
      \<and> SLIST_FOREACH 0 h' = Some [2, 3])
   \<and> (\<exists>h'. run_list_ops (list_step 0) [Ins_head 1, Ins_before 1 2, Repl 1 5] (LIST_INIT 0 qheap0) = Some h'
      \<and> LIST_FOREACH 0 h' = Some [2, 5])
   \<and> (\<exists>h'. run_list_ops (simpleq_step 0) [Ins_tail 1, Ins_tail 2, Rem_head] (SIMPLEQ_INIT 0 qheap0) = Some h'
      \<and> SIMPLEQ_FOREACH 0 h' = Some [2])"
  by (intro conjI list_operations_refine_sequence [THEN conjunct1, THEN mp]
      list_operations_refine_sequence [THEN conjunct2, THEN conjunct1, THEN mp]
      list_operations_refine_sequence [THEN conjunct2, THEN conjunct2, THEN mp]) simp_all

text \<open>First in, first out: elements appended with \<open>SIMPLEQ_INSERT_TAIL\<close> or
  \<open>TAILQ_INSERT_TAIL\<close> leave from the head after the elements that were there and in the order
  they came.\<close>

theorem queue_fifo:
  assumes "distinct (xs @ es)"
  shows "(simpleq_holds k h xs \<longrightarrow>
      (\<exists>h'. run_list_ops (simpleq_step k) (map Ins_tail es @ replicate (length xs) Rem_head) h = Some h'
        \<and> simpleq_holds k h' es \<and> SIMPLEQ_FOREACH k h' = Some es))
    \<and> (tailq_holds k h xs \<longrightarrow>
      (\<exists>h'. run_list_ops (tailq_step k) (map Ins_tail es @ replicate (length xs) Rem_head) h = Some h'
        \<and> tailq_holds k h' es \<and> TAILQ_FOREACH k h' = Some es))"
  using simpleq.fifo [of k h xs es] tailq.fifo [of k h xs es] assms by simp

theorem queue_fifo_witness:
  "(\<exists>h'. run_list_ops (simpleq_step 0) (map Ins_tail [7, 8] @ replicate 3 Rem_head) qheap3
      = Some h' \<and> simpleq_holds 0 h' [7, 8] \<and> SIMPLEQ_FOREACH 0 h' = Some [7, 8])
   \<and> (\<exists>h'. run_list_ops (tailq_step 0) (map Ins_tail [7, 8] @ replicate 3 Rem_head) qheap3
      = Some h' \<and> tailq_holds 0 h' [7, 8] \<and> TAILQ_FOREACH 0 h' = Some [7, 8])"
proof -
  have "distinct ([1, 2, 3] @ [7, 8 :: nat])" "length [1, 2, 3 :: nat] = 3" by simp_all
  then show ?thesis
    using queue_fifo [of "[1, 2, 3]" "[7, 8]" 0 qheap3] qheap3_holds by metis
qed

text \<open>\<open>TAILQ_CONCAT\<close> and \<open>SIMPLEQ_CONCAT\<close> move all the elements of the second queue, in
  order, behind those of the first and leave the second empty and usable.\<close>

theorem queue_concat:
  assumes "k1 \<noteq> k2" "set xs \<inter> set ys = {}"
  shows "(tailq_holds k1 h xs \<and> tailq_holds k2 h ys \<longrightarrow>
      (\<exists>h'. TAILQ_CONCAT k1 k2 h = Some h' \<and> tailq_holds k1 h' (xs @ ys) \<and> tailq_holds k2 h' []))
    \<and> (simpleq_holds k1 h xs \<and> simpleq_holds k2 h ys \<longrightarrow>
      (\<exists>h'. SIMPLEQ_CONCAT k1 k2 h = Some h' \<and> simpleq_holds k1 h' (xs @ ys) \<and> simpleq_holds k2 h' []))"
proof (intro conjI impI; elim conjE)
  have disj: "y \<notin> set xs" if "y \<in> set ys" for y using assms(2) that by auto
  show "\<exists>h'. TAILQ_CONCAT k1 k2 h = Some h' \<and> tailq_holds k1 h' (xs @ ys) \<and> tailq_holds k2 h' []"
    if "tailq_holds k1 h xs" "tailq_holds k2 h ys"
    using that assms disj
    by (cases ys) (auto simp: tailq_holds_def TAILQ_CONCAT_def TAILQ_EMPTY_def TAILQ_FIRST_def TAILQ_INIT_def
        Let_def chain_links)
  show "\<exists>h'. SIMPLEQ_CONCAT k1 k2 h = Some h' \<and> simpleq_holds k1 h' (xs @ ys) \<and> simpleq_holds k2 h' []"
    if "simpleq_holds k1 h xs" "simpleq_holds k2 h ys"
    using that assms disj
    by (cases ys) (auto simp: simpleq_holds_def SIMPLEQ_CONCAT_def SIMPLEQ_EMPTY_def SIMPLEQ_FIRST_def
        SIMPLEQ_INIT_def Let_def chain_links)
qed

theorem queue_concat_witness:
  "(\<exists>h'. TAILQ_CONCAT 1 0 qheap3 = Some h' \<and> tailq_holds 1 h' [1, 2, 3] \<and> tailq_holds 0 h' [])
   \<and> (\<exists>h'. SIMPLEQ_CONCAT 1 0 qheap3 = Some h' \<and> simpleq_holds 1 h' [1, 2, 3] \<and> simpleq_holds 0 h' [])"
  using queue_concat [of 1 0 "[]" "[1, 2, 3]" qheap3] qheap3_holds by simp

text \<open>C34. The safe traversals of lists, simple queues and tail queues, backwards too, survive that the body
  removes the element they are at and frees it, whatever is then stored in the memory of its links
  (\<open>v\<close>, \<open>p\<close>): all elements are visited, and removing every one that satisfies a condition leaves exactly
  the others, linked in order. Elements leave a simple queue at its head.\<close>

theorem foreach_safe_removes:
  "(slist_holds k h xs \<longrightarrow>
      (\<exists>h'. SLIST_FOREACH_SAFE k (\<lambda>a h. if P a then map_option (freed v p a) (SLIST_REMOVE k a h) else Some h) h = Some h'
        \<and> slist_holds k h' (filter (\<lambda>x. \<not> P x) xs)))
   \<and> (list_holds k h xs \<longrightarrow>
      (\<exists>h'. LIST_FOREACH_SAFE k (\<lambda>a h. if P a then map_option (freed v p a) (LIST_REMOVE a h) else Some h) h = Some h'
        \<and> list_holds k h' (filter (\<lambda>x. \<not> P x) xs)))
   \<and> (simpleq_holds k h xs \<longrightarrow>
      (\<exists>h'. SIMPLEQ_FOREACH_SAFE k (\<lambda>a h. map_option (freed v p a) (SIMPLEQ_REMOVE_HEAD k h)) h = Some h'
        \<and> simpleq_holds k h' []))
   \<and> (tailq_holds k h xs \<longrightarrow>
      (\<exists>h'. TAILQ_FOREACH_SAFE k (\<lambda>a h. if P a then map_option (freed v p a) (TAILQ_REMOVE k a h) else Some h) h = Some h'
        \<and> tailq_holds k h' (filter (\<lambda>x. \<not> P x) xs))
      \<and> (\<exists>h'. TAILQ_FOREACH_REVERSE_SAFE k (\<lambda>a h. if P a then map_option (freed v p a) (TAILQ_REMOVE k a h) else Some h) h
          = Some h'
        \<and> tailq_holds k h' (filter (\<lambda>x. \<not> P x) xs)))"
proof (intro conjI impI)
  assume h: "slist_holds k h xs"
  then have "SLIST_FIRST k h = first_ptr xs" by (simp add: SLIST_FIRST_def slist_holds_def chain_first)
  with slist_rm.for_each_safe_seq [where ls = "[]" and rs = xs] h
  show "\<exists>h'. SLIST_FOREACH_SAFE k (\<lambda>a h. if P a then map_option (freed v p a) (SLIST_REMOVE k a h) else Some h) h = Some h'
        \<and> slist_holds k h' (filter (\<lambda>x. \<not> P x) xs)"
    by (simp add: SLIST_FOREACH_SAFE_def cong: if_cong)
next
  assume h: "list_holds k h xs"
  then have "LIST_FIRST k h = first_ptr xs" by (simp add: LIST_FIRST_def list_holds_def chain_first)
  with list_rm.for_each_safe_seq [where ls = "[]" and rs = xs] h
  show "\<exists>h'. LIST_FOREACH_SAFE k (\<lambda>a h. if P a then map_option (freed v p a) (LIST_REMOVE a h) else Some h) h = Some h'
        \<and> list_holds k h' (filter (\<lambda>x. \<not> P x) xs)"
    by (simp add: LIST_FOREACH_SAFE_def cong: if_cong)
next
  assume h: "simpleq_holds k h xs"
  then have "SIMPLEQ_FIRST k h = first_ptr xs" by (simp add: SIMPLEQ_FIRST_def simpleq_holds_def chain_first)
  with simpleq_drain [OF h]
  show "\<exists>h'. SIMPLEQ_FOREACH_SAFE k (\<lambda>a h. map_option (freed v p a) (SIMPLEQ_REMOVE_HEAD k h)) h = Some h'
        \<and> simpleq_holds k h' []"
    by (simp add: SIMPLEQ_FOREACH_SAFE_def)
next
  assume h: "tailq_holds k h xs"
  then have "TAILQ_FIRST k h = first_ptr xs" by (simp add: TAILQ_FIRST_def tailq_holds_def chain_first)
  with tailq_rm.for_each_safe_seq [where ls = "[]" and rs = xs] h
  show "\<exists>h'. TAILQ_FOREACH_SAFE k (\<lambda>a h. if P a then map_option (freed v p a) (TAILQ_REMOVE k a h) else Some h) h = Some h'
        \<and> tailq_holds k h' (filter (\<lambda>x. \<not> P x) xs)"
    by (simp add: TAILQ_FOREACH_SAFE_def cong: if_cong)
  from TAILQ_LAST_ok [OF h] tailq_rev.for_each_safe_seq [where ls = "[]" and rs = "rev xs"] h
  show "\<exists>h'. TAILQ_FOREACH_REVERSE_SAFE k (\<lambda>a h. if P a then map_option (freed v p a) (TAILQ_REMOVE k a h) else Some h) h
          = Some h'
        \<and> tailq_holds k h' (filter (\<lambda>x. \<not> P x) xs)"
    by (simp add: TAILQ_FOREACH_REVERSE_SAFE_def tailq_rev_holds_def rev_filter cong: if_cong)
qed

text \<open>The odd ones of three elements are freed; their memory is cleared, or filled with a pointer to nothing.\<close>

theorem foreach_safe_removes_witness:
  "(\<exists>h'. LIST_FOREACH_SAFE 0 (\<lambda>a h. if odd a then map_option (freed (\<lambda>_ _. Null) (\<lambda>_ _. None) a) (LIST_REMOVE a h)
        else Some h) qheap3 = Some h' \<and> list_holds 0 h' [2])
   \<and> (\<exists>h'. TAILQ_FOREACH_REVERSE_SAFE 0 (\<lambda>a h. if odd a then map_option (freed (\<lambda>_ _. Ref 77) (\<lambda>_ _. None) a)
        (TAILQ_REMOVE 0 a h) else Some h) qheap3 = Some h' \<and> tailq_holds 0 h' [2])"
  using foreach_safe_removes [of 0 qheap3 "[1, 2, 3]" odd "\<lambda>_ _. Null" "\<lambda>_ _. None"]
    foreach_safe_removes [of 0 qheap3 "[1, 2, 3]" odd "\<lambda>_ _. Ref 77" "\<lambda>_ _. None"] qheap3_holds by simp

end
