(* ===== verification/Xor_Queue.thy ===== *)
theory Xor_Queue
  imports Queue_Props
begin

text \<open>
  The macros \<open>XSIMPLEQ_*\<close> of \<open>include/compat/sys/queue.h\<close>: a simple queue whose
  pointers are all stored exclusive-or'ed with a random cookie.

  Pointers are 64-bit words here, as \<open>unsigned long\<close> holds them on an LP64 platform.
  \<open>head\<close> is the address of the head, which is that of its \<open>sqx_first\<close>, \<open>off\<close> the
  offset of \<open>field.sqx_next\<close> in an element. An access through a null pointer is undefined.
\<close>

section \<open>Model\<close>

type_synonym addr = "64 word"

record xqueue =
  sqx_first :: addr
  sqx_last :: addr
  sqx_cookie :: addr
  sqx_next :: "addr \<Rightarrow> addr"

definition XSIMPLEQ_XOR :: "xqueue \<Rightarrow> addr \<Rightarrow> addr" where
  "XSIMPLEQ_XOR h p = sqx_cookie h XOR p"

text \<open>\<open>*p = v\<close> for the address \<open>p\<close> of a pointer of the queue, and
  \<open>p->field.sqx_next\<close>.\<close>

definition store_at :: "addr \<Rightarrow> addr \<Rightarrow> addr \<Rightarrow> addr \<Rightarrow> xqueue \<Rightarrow> xqueue option" where
  "store_at head off p v h =
     (if p = 0 then None
      else if p = head then Some (h\<lparr>sqx_first := v\<rparr>)
      else Some (h\<lparr>sqx_next := (sqx_next h)(p - off := v)\<rparr>))"

definition next_at :: "addr \<Rightarrow> xqueue \<Rightarrow> addr option" where
  "next_at p h = (if p = 0 then None else Some (sqx_next h p))"

definition XSIMPLEQ_FIRST :: "xqueue \<Rightarrow> addr" where
  "XSIMPLEQ_FIRST h = XSIMPLEQ_XOR h (sqx_first h)"

definition XSIMPLEQ_EMPTY :: "xqueue \<Rightarrow> bool" where
  "XSIMPLEQ_EMPTY h \<longleftrightarrow> XSIMPLEQ_FIRST h = 0"

definition XSIMPLEQ_NEXT :: "addr \<Rightarrow> xqueue \<Rightarrow> addr" where
  "XSIMPLEQ_NEXT elm h = XSIMPLEQ_XOR h (sqx_next h elm)"

partial_function (option) xfor_each :: "addr \<Rightarrow> xqueue \<Rightarrow> addr list option" where
  "xfor_each var h =
     (if var = 0 then Some []
      else do { xs \<leftarrow> xfor_each (XSIMPLEQ_NEXT var h) h; Some (var # xs) })"

definition XSIMPLEQ_FOREACH :: "xqueue \<Rightarrow> addr list option" where
  "XSIMPLEQ_FOREACH h = xfor_each (XSIMPLEQ_FIRST h) h"

partial_function (option) xfor_each_safe ::
    "(addr \<Rightarrow> xqueue \<Rightarrow> xqueue option) \<Rightarrow> addr \<Rightarrow> xqueue \<Rightarrow> xqueue option" where
  "xfor_each_safe body var h =
     (if var = 0 then Some h
      else do {
        let tvar = XSIMPLEQ_NEXT var h;
        h \<leftarrow> body var h;
        xfor_each_safe body tvar h
      })"

definition XSIMPLEQ_FOREACH_SAFE :: "(addr \<Rightarrow> xqueue \<Rightarrow> xqueue option) \<Rightarrow> xqueue \<Rightarrow> xqueue option" where
  "XSIMPLEQ_FOREACH_SAFE body h = xfor_each_safe body (XSIMPLEQ_FIRST h) h"

text \<open>The cookie is what \<open>arc4random_buf\<close> wrote.\<close>

definition XSIMPLEQ_INIT :: "addr \<Rightarrow> addr \<Rightarrow> xqueue \<Rightarrow> xqueue" where
  "XSIMPLEQ_INIT head cookie h =
     (let h = h\<lparr>sqx_cookie := cookie\<rparr>;
          h = h\<lparr>sqx_first := XSIMPLEQ_XOR h 0\<rparr>
      in h\<lparr>sqx_last := XSIMPLEQ_XOR h head\<rparr>)"

definition XSIMPLEQ_INSERT_HEAD :: "addr \<Rightarrow> addr \<Rightarrow> xqueue \<Rightarrow> xqueue option" where
  "XSIMPLEQ_INSERT_HEAD off elm h =
     (let n = sqx_first h;
          h = h\<lparr>sqx_next := (sqx_next h)(elm := n)\<rparr>;
          h = (if n = XSIMPLEQ_XOR h 0 then h\<lparr>sqx_last := XSIMPLEQ_XOR h (elm + off)\<rparr> else h)
      in Some (h\<lparr>sqx_first := XSIMPLEQ_XOR h elm\<rparr>))"

definition XSIMPLEQ_INSERT_TAIL :: "addr \<Rightarrow> addr \<Rightarrow> addr \<Rightarrow> xqueue \<Rightarrow> xqueue option" where
  "XSIMPLEQ_INSERT_TAIL head off elm h = do {
     let h = h\<lparr>sqx_next := (sqx_next h)(elm := XSIMPLEQ_XOR h 0)\<rparr>;
     h \<leftarrow> store_at head off (XSIMPLEQ_XOR h (sqx_last h)) (XSIMPLEQ_XOR h elm) h;
     Some (h\<lparr>sqx_last := XSIMPLEQ_XOR h (elm + off)\<rparr>)
   }"

definition XSIMPLEQ_INSERT_AFTER :: "addr \<Rightarrow> addr \<Rightarrow> addr \<Rightarrow> xqueue \<Rightarrow> xqueue option" where
  "XSIMPLEQ_INSERT_AFTER off listelm elm h =
     (let n = sqx_next h listelm;
          h = h\<lparr>sqx_next := (sqx_next h)(elm := n)\<rparr>;
          h = (if n = XSIMPLEQ_XOR h 0 then h\<lparr>sqx_last := XSIMPLEQ_XOR h (elm + off)\<rparr> else h)
      in Some (h\<lparr>sqx_next := (sqx_next h)(listelm := XSIMPLEQ_XOR h elm)\<rparr>))"

definition XSIMPLEQ_REMOVE_HEAD :: "addr \<Rightarrow> xqueue \<Rightarrow> xqueue option" where
  "XSIMPLEQ_REMOVE_HEAD head h = do {
     n \<leftarrow> next_at (XSIMPLEQ_XOR h (sqx_first h)) h;
     let h = h\<lparr>sqx_first := n\<rparr>;
     Some (if n = XSIMPLEQ_XOR h 0 then h\<lparr>sqx_last := XSIMPLEQ_XOR h head\<rparr> else h)
   }"

definition XSIMPLEQ_REMOVE_AFTER :: "addr \<Rightarrow> addr \<Rightarrow> xqueue \<Rightarrow> xqueue option" where
  "XSIMPLEQ_REMOVE_AFTER off elm h = do {
     n \<leftarrow> next_at (XSIMPLEQ_XOR h (sqx_next h elm)) h;
     let h = h\<lparr>sqx_next := (sqx_next h)(elm := n)\<rparr>;
     Some (if n = XSIMPLEQ_XOR h 0 then h\<lparr>sqx_last := XSIMPLEQ_XOR h (elm + off)\<rparr> else h)
   }"

section \<open>Representation\<close>

lemma xor_cancel [simp]: "(c :: addr) XOR (c XOR x) = x" "(c XOR x = c XOR y) = (x = y)"
  "(c XOR x = c) = (x = 0)" "(c = c XOR x) = (x = 0)"
proof -
  show c: "c XOR (c XOR x) = x" for x
    by (simp add: bit_eq_iff bit_simps)
  show i: "(c XOR x = c XOR y) = (x = y)" for x y
    using c by metis
  show "(c XOR x = c) = (x = 0)" "(c = c XOR x) = (x = 0)"
    using i [of x 0] i [of 0 x] by auto
qed

fun xend :: "(addr \<Rightarrow> addr) \<Rightarrow> addr \<Rightarrow> addr list \<Rightarrow> addr" where
  "xend nx v [] = v"
| "xend nx v (x # xs) = xend nx (nx x) xs"

fun xpath :: "addr \<Rightarrow> (addr \<Rightarrow> addr) \<Rightarrow> addr \<Rightarrow> addr list \<Rightarrow> bool" where
  "xpath c nx v [] \<longleftrightarrow> True"
| "xpath c nx v (x # xs) \<longleftrightarrow> v = c XOR x \<and> xpath c nx (nx x) xs"

definition xchain :: "addr \<Rightarrow> (addr \<Rightarrow> addr) \<Rightarrow> addr \<Rightarrow> addr list \<Rightarrow> bool" where
  "xchain c nx v xs \<longleftrightarrow> xpath c nx v xs \<and> xend nx v xs = c"

lemma xend_append [simp]: "xend nx v (xs @ ys) = xend nx (xend nx v xs) ys"
  by (induction xs arbitrary: v) auto

lemma xpath_append [simp]: "xpath c nx v (xs @ ys) \<longleftrightarrow> xpath c nx v xs \<and> xpath c nx (xend nx v xs) ys"
  by (induction xs arbitrary: v) auto

lemma xframe [simp]:
  "a \<notin> set xs \<Longrightarrow> xend (nx(a := w)) v xs = xend nx v xs"
  "a \<notin> set xs \<Longrightarrow> xpath c (nx(a := w)) v xs = xpath c nx v xs"
  by (induction xs arbitrary: v) auto

text \<open>Objects a caller may link: not null, and their next pointer is neither null nor the head's
  first pointer.\<close>

definition linkable :: "addr \<Rightarrow> addr \<Rightarrow> addr \<Rightarrow> bool" where
  "linkable head off e \<longleftrightarrow> e \<noteq> 0 \<and> e + off \<noteq> 0 \<and> e + off \<noteq> head"

definition xsimpleq_holds :: "addr \<Rightarrow> addr \<Rightarrow> xqueue \<Rightarrow> addr list \<Rightarrow> bool" where
  "xsimpleq_holds head off h xs \<longleftrightarrow>
     xchain (sqx_cookie h) (sqx_next h) (sqx_first h) xs
     \<and> sqx_last h = sqx_cookie h XOR (if xs = [] then head else last xs + off)
     \<and> distinct xs \<and> (\<forall>x \<in> set xs. linkable head off x) \<and> head \<noteq> 0"

fun xsimpleq_ok :: "addr \<Rightarrow> addr \<Rightarrow> addr list_op \<Rightarrow> bool" where
  "xsimpleq_ok head off (Ins_head e) = linkable head off e"
| "xsimpleq_ok head off (Ins_tail e) = linkable head off e"
| "xsimpleq_ok head off (Ins_after a e) = linkable head off e"
| "xsimpleq_ok head off Rem_head = True"
| "xsimpleq_ok head off (Rem_after a) = True"
| "xsimpleq_ok head off _ = False"

fun xsimpleq_step :: "addr \<Rightarrow> addr \<Rightarrow> addr list_op \<Rightarrow> xqueue \<Rightarrow> xqueue option" where
  "xsimpleq_step head off (Ins_head e) h = XSIMPLEQ_INSERT_HEAD off e h"
| "xsimpleq_step head off (Ins_tail e) h = XSIMPLEQ_INSERT_TAIL head off e h"
| "xsimpleq_step head off (Ins_after a e) h = XSIMPLEQ_INSERT_AFTER off a e h"
| "xsimpleq_step head off Rem_head h = XSIMPLEQ_REMOVE_HEAD head h"
| "xsimpleq_step head off (Rem_after a) h = XSIMPLEQ_REMOVE_AFTER off a h"
| "xsimpleq_step head off _ h = None"

lemmas xsimpleq_defs = xsimpleq_holds_def xchain_def XSIMPLEQ_XOR_def linkable_def next_at_def store_at_def

lemma xfor_each_ok:
  "xchain (sqx_cookie h) (sqx_next h) v xs \<Longrightarrow> 0 \<notin> set xs \<Longrightarrow>
     xfor_each (XSIMPLEQ_XOR h v) h = Some xs"
proof (induction xs arbitrary: v)
  case Nil
  then show ?case by (simp add: xchain_def XSIMPLEQ_XOR_def xfor_each.simps)
next
  case (Cons x xs)
  then have "xfor_each (XSIMPLEQ_NEXT x h) h = Some xs" by (simp add: XSIMPLEQ_NEXT_def xchain_def)
  then show ?case
    using Cons.prems by (simp add: xchain_def XSIMPLEQ_XOR_def xfor_each.simps [of x])
qed

interpretation xsimpleq: fifo_queue "xsimpleq_holds head off" "xsimpleq_ok head off" "xsimpleq_step head off"
  XSIMPLEQ_FOREACH
  for head off
proof
  fix h xs
  assume h: "xsimpleq_holds head off h xs"
  then show d: "distinct xs" by (simp add: xsimpleq_holds_def)
  show "XSIMPLEQ_FOREACH h = Some xs"
    using h xfor_each_ok [of h "sqx_first h" xs]
    by (auto simp: XSIMPLEQ_FOREACH_def XSIMPLEQ_FIRST_def xsimpleq_holds_def linkable_def)
next
  fix h xs and op :: "addr list_op"
  assume h: "xsimpleq_holds head off h xs" and ok: "xsimpleq_ok head off op" "seq_allowed op xs"
  have d: "distinct xs" using h by (simp add: xsimpleq_holds_def)
  show "\<exists>h'. xsimpleq_step head off op h = Some h' \<and> xsimpleq_holds head off h' (seq_step op xs)"
  proof (cases op)
    case (Ins_head e)
    then show ?thesis
      using h ok by (cases xs) (auto simp: xsimpleq_defs XSIMPLEQ_INSERT_HEAD_def Let_def)
  next
    case (Ins_tail e)
    then show ?thesis
      using h ok
      by (cases xs rule: rev_cases) (auto simp: xsimpleq_defs XSIMPLEQ_INSERT_TAIL_def Let_def)
  next
    case (Ins_after a e)
    then obtain ls rs where "xs = ls @ a # rs" "e \<notin> set xs" using ok by (auto dest: split_list)
    then show ?thesis
      using h Ins_after ok
      by (cases rs) (auto simp: xsimpleq_defs XSIMPLEQ_INSERT_AFTER_def Let_def seq_split_simps)
  next
    case Rem_head
    then obtain x ys where "xs = x # ys" using ok by (cases xs) auto
    then show ?thesis
      using h Rem_head by (cases ys) (auto simp: xsimpleq_defs XSIMPLEQ_REMOVE_HEAD_def)
  next
    case (Rem_after a)
    obtain ls b rs where "xs = ls @ a # b # rs"
      by (rule butlast_split [OF d, of a]) (use ok Rem_after in auto)
    then show ?thesis
      using h Rem_after
      by (cases rs) (auto simp: xsimpleq_defs XSIMPLEQ_REMOVE_AFTER_def seq_split_simps)
  qed (use ok in auto)
next
  show "xsimpleq_ok head off Rem_head" by simp
qed

section \<open>Properties\<close>

lemma xfor_each_safe_drain:
  "xsimpleq_holds head off h xs \<Longrightarrow>
     \<exists>h'. xfor_each_safe (\<lambda>_. XSIMPLEQ_REMOVE_HEAD head) (XSIMPLEQ_FIRST h) h = Some h'
       \<and> xsimpleq_holds head off h' []"
proof (induction xs arbitrary: h)
  case Nil
  then have "XSIMPLEQ_FIRST h = 0" by (simp add: XSIMPLEQ_FIRST_def xsimpleq_defs)
  then show ?case using Nil by (simp add: xfor_each_safe.simps)
next
  case (Cons x xs)
  obtain h1 where h1: "XSIMPLEQ_REMOVE_HEAD head h = Some h1" "xsimpleq_holds head off h1 xs"
    using xsimpleq.step_seq [OF Cons.prems, of Rem_head] by auto
  have n: "XSIMPLEQ_FIRST h = x" "x \<noteq> 0" "XSIMPLEQ_NEXT x h = XSIMPLEQ_FIRST h1"
    using Cons.prems h1(1)
    by (auto simp: XSIMPLEQ_FIRST_def XSIMPLEQ_NEXT_def xsimpleq_defs XSIMPLEQ_REMOVE_HEAD_def Let_def
        split: if_splits)
  from Cons.IH [OF h1(2)] show ?case
    using n h1(1) by (simp add: xfor_each_safe.simps [of _ x] Let_def)
qed

definition xqueue0 :: xqueue where
  "xqueue0 = \<lparr>sqx_first = 0, sqx_last = 0, sqx_cookie = 0, sqx_next = (\<lambda>_. 0)\<rparr>"

text \<open>C12. The queue with masked pointers: whatever cookie \<open>XSIMPLEQ_INIT\<close> drew, any sequence
  of insertions of linkable objects and of removals is defined and does to the sequence of linked
  elements what the operation says, with the answers of an ordinary queue.\<close>

theorem xsimpleq_operations_refine_sequence:
  assumes "head \<noteq> 0" "seq_run (xsimpleq_ok head off) ops [] = Some ys"
  shows "\<exists>h'. run_list_ops (xsimpleq_step head off) ops (XSIMPLEQ_INIT head cookie h) = Some h'
    \<and> xsimpleq_holds head off h' ys \<and> XSIMPLEQ_FOREACH h' = Some ys"
proof (rule xsimpleq.run_seq [OF _ assms(2)])
  show "xsimpleq_holds head off (XSIMPLEQ_INIT head cookie h) []"
    using assms(1) by (simp add: xsimpleq_defs XSIMPLEQ_INIT_def Let_def)
qed

theorem xsimpleq_operations_refine_sequence_witness:
  "\<exists>h'. run_list_ops (xsimpleq_step 4096 8)
        [Ins_tail 512, Ins_head 256, Ins_after 256 1024, Rem_head, Rem_after 1024]
        (XSIMPLEQ_INIT 4096 0x5DEECE66D1234567 xqueue0) = Some h'
    \<and> xsimpleq_holds 4096 8 h' [1024] \<and> XSIMPLEQ_FOREACH h' = Some [1024]"
  by (rule xsimpleq_operations_refine_sequence) (simp_all add: linkable_def)

text \<open>Draining: \<open>XSIMPLEQ_FOREACH_SAFE\<close> with a body that removes the head ends and leaves an
  empty queue.\<close>

theorem xsimpleq_drain:
  assumes "xsimpleq_holds head off h xs"
  shows "\<exists>h'. XSIMPLEQ_FOREACH_SAFE (\<lambda>_. XSIMPLEQ_REMOVE_HEAD head) h = Some h'
    \<and> xsimpleq_holds head off h' [] \<and> XSIMPLEQ_EMPTY h'"
proof -
  obtain h' where "XSIMPLEQ_FOREACH_SAFE (\<lambda>_. XSIMPLEQ_REMOVE_HEAD head) h = Some h'"
      "xsimpleq_holds head off h' []"
    using xfor_each_safe_drain [OF assms] by (auto simp: XSIMPLEQ_FOREACH_SAFE_def)
  then show ?thesis by (auto simp: XSIMPLEQ_EMPTY_def XSIMPLEQ_FIRST_def xsimpleq_defs)
qed

definition xqueue1 :: xqueue where
  "xqueue1 = \<lparr>sqx_first = 5 XOR 512, sqx_last = 5 XOR 520, sqx_cookie = 5, sqx_next = (\<lambda>_. 5)\<rparr>"

theorem xsimpleq_drain_witness:
  "\<exists>h'. XSIMPLEQ_FOREACH_SAFE (\<lambda>_. XSIMPLEQ_REMOVE_HEAD 4096) xqueue1 = Some h'
    \<and> xsimpleq_holds 4096 8 h' [] \<and> XSIMPLEQ_EMPTY h'"
  by (rule xsimpleq_drain [where xs = "[512]"]) (simp add: xsimpleq_defs xqueue1_def)

end
