(* ===== verification/C_Runtime.thy ===== *)
theory C_Runtime
  imports Compat_Prelude
begin

text \<open>
  What the sources use of the C runtime: \<open>errno\<close>, the allocator, and byte buffers.

  The heap maps the number of a live block to its bytes. Whether the next request fails
  (\<open>oom\<close>) and what a fresh block contains (\<open>junk\<close>) is up to the environment, for each
  request by its number. Freeing a block that is not live, and an access outside a live block,
  are undefined. \<open>released\<close> records the bytes of the blocks when they were freed.
\<close>

datatype errno =
    ENOENT | EACCES | EEXIST | EXDEV | ENOTEMPTY | ENOMEM | EINVAL | EIO | EPERM | EFAULT | EINTR
  | EINPROGRESS | EAGAIN | ENOTSUP | EFBIG | ENOTSOCK | ENOPROTOOPT | ECONNREFUSED | EAFNOSUPPORT
  | EBADF | EPIPE | EOVERFLOW | ENOTTY | ENOTDIR

record crt =
  errno :: "errno option"
  heap :: "nat \<Rightarrow> char list option"
  allocs :: nat
  oom :: "nat \<Rightarrow> bool"
  junk :: "nat \<Rightarrow> nat \<Rightarrow> char"
  released :: "char list list"

definition set_errno :: "errno \<Rightarrow> crt \<Rightarrow> crt" where
  [simp]: "set_errno e s = s\<lparr>errno := Some e\<rparr>"

definition SIZE_MAX :: nat where
  "SIZE_MAX = 2 ^ 64 - 1"

definition INT_MAX :: int where
  "INT_MAX = 2 ^ 31 - 1"

text \<open>The invariant of the allocator: fresh numbers are not in use.\<close>

definition crt_ok :: "crt \<Rightarrow> bool" where
  "crt_ok s \<longleftrightarrow> (\<forall>a. heap s a \<noteq> None \<longrightarrow> a < allocs s)"

definition fresh_bytes :: "crt \<Rightarrow> nat \<Rightarrow> nat \<Rightarrow> char list" where
  "fresh_bytes s m n = map (junk s (allocs s)) [m ..< n]"

lemma length_fresh_bytes [simp]: "length (fresh_bytes s m n) = n - m"
  by (simp add: fresh_bytes_def)

definition malloc :: "nat \<Rightarrow> crt \<Rightarrow> ptr \<times> crt" where
  "malloc n s =
     (if oom s (allocs s) then (Null, s\<lparr>allocs := Suc (allocs s)\<rparr>)
      else (Ref (allocs s), s\<lparr>heap := (heap s)(allocs s \<mapsto> fresh_bytes s 0 n), allocs := Suc (allocs s)\<rparr>))"

fun free :: "ptr \<Rightarrow> crt \<Rightarrow> crt option" where
  "free Null s = Some s"
| "free (Ref a) s =
     (case heap s a of
        None \<Rightarrow> None
      | Some bs \<Rightarrow> Some (s\<lparr>heap := (heap s)(a := None), released := bs # released s\<rparr>))"

text \<open>A failed \<open>realloc\<close> leaves the block as it was; a successful one moves its bytes to a
  new block.\<close>

fun realloc :: "ptr \<Rightarrow> nat \<Rightarrow> crt \<Rightarrow> (ptr \<times> crt) option" where
  "realloc Null n s = Some (malloc n s)"
| "realloc (Ref a) n s =
     (case heap s a of
        None \<Rightarrow> None
      | Some bs \<Rightarrow>
          if oom s (allocs s) then Some (Null, s\<lparr>allocs := Suc (allocs s)\<rparr>)
          else Some (Ref (allocs s), s\<lparr>
            heap := (heap s)(a := None, allocs s \<mapsto> take n bs @ fresh_bytes s (length bs) n),
            allocs := Suc (allocs s), released := bs # released s\<rparr>))"

text \<open>Storing bytes at an offset of a block.\<close>

fun store_bytes :: "ptr \<Rightarrow> nat \<Rightarrow> char list \<Rightarrow> crt \<Rightarrow> crt option" where
  "store_bytes Null i cs s = None"
| "store_bytes (Ref a) i cs s =
     (case heap s a of
        None \<Rightarrow> None
      | Some bs \<Rightarrow>
          if i + length cs \<le> length bs
          then Some (s\<lparr>heap := (heap s)(a \<mapsto> take i bs @ cs @ drop (i + length cs) bs)\<rparr>)
          else None)"

fun bytes_of :: "ptr \<Rightarrow> crt \<Rightarrow> char list option" where
  "bytes_of Null s = None"
| "bytes_of (Ref a) s = heap s a"

lemma bytes_of_update [simp]:
  "bytes_of p (s\<lparr>errno := e\<rparr>) = bytes_of p s" "crt_ok (s\<lparr>errno := e\<rparr>) = crt_ok s"
  by (cases p; simp) (simp add: crt_ok_def)

lemma crt_ok_fresh: "crt_ok s \<Longrightarrow> heap s (allocs s) = None"
  by (auto simp: crt_ok_def)

lemma malloc_ok:
  assumes "crt_ok s" "malloc n s = (p, s')"
  shows "crt_ok s'"
  using assms by (auto simp: malloc_def crt_ok_def less_Suc_eq split: if_splits)

lemma free_ok: "crt_ok s \<Longrightarrow> free p s = Some s' \<Longrightarrow> crt_ok s'"
  by (cases p) (auto simp: crt_ok_def split: option.splits if_splits)

lemma realloc_ok:
  assumes "crt_ok s" "realloc p n s = Some (q, s')"
  shows "crt_ok s'"
proof (cases p)
  case Null
  then show ?thesis using assms malloc_ok by simp
next
  case (Ref a)
  then show ?thesis
    using assms by (auto simp: crt_ok_def less_Suc_eq split: option.splits if_splits)
qed

lemma store_bytes_ok: "crt_ok s \<Longrightarrow> store_bytes p i cs s = Some s' \<Longrightarrow> crt_ok s'"
  by (cases p) (auto simp: crt_ok_def split: option.splits if_splits)

lemmas crt_invariant = malloc_ok free_ok realloc_ok store_bytes_ok

section \<open>Memory that is cleared before it is freed\<close>

text \<open>\<open>explicit_bzero\<close> (\<open>crypto/compat/explicit_bzero_win.c\<close>) and \<open>freezero\<close>
  (\<open>crypto/compat/freezero.c\<close>).\<close>

definition explicit_bzero :: "ptr \<Rightarrow> nat \<Rightarrow> crt \<Rightarrow> crt option" where
  "explicit_bzero buf len s = store_bytes buf 0 (replicate len NUL) s"

definition freezero :: "ptr \<Rightarrow> nat \<Rightarrow> crt \<Rightarrow> crt option" where
  "freezero p sz s =
     (if p = Null then Some s
      else do {
        s \<leftarrow> explicit_bzero p sz s;
        free p s
      })"

text \<open>A concrete environment for the witnesses: every request succeeds.\<close>

definition crt0 :: crt where
  "crt0 = \<lparr>errno = None, heap = (\<lambda>_. None)(0 \<mapsto> ''secret''), allocs = 1, oom = (\<lambda>_. False),
     junk = (\<lambda>_ _. CHR ''?''), released = []\<rparr>"

text \<open>\<open>freezero\<close> of a whole block gives nothing of its contents back to the allocator: the
  block that is released holds only zeros. It is defined for every live block, and for null.\<close>

theorem freezero_releases_zeros:
  assumes "bytes_of p s = Some bs" "sz \<le> length bs"
  shows "\<exists>s'. freezero p sz s = Some s' \<and> bytes_of p s' = None
    \<and> released s' = (replicate sz NUL @ drop sz bs) # released s"
proof (cases p)
  case (Ref a)
  then show ?thesis using assms by (simp add: freezero_def explicit_bzero_def)
qed (use assms in simp)

theorem freezero_releases_zeros_witness:
  "\<exists>s'. freezero (Ref 0) 6 crt0 = Some s' \<and> bytes_of (Ref 0) s' = None
    \<and> released s' = (replicate 6 NUL @ drop 6 ''secret'') # released crt0"
  by (rule freezero_releases_zeros) (simp_all add: crt0_def)

end
