(* ===== verification/Asprintf.thy ===== *)
theory Asprintf
  imports C_Runtime
begin

text \<open>
  \<open>vasprintf\<close> and \<open>asprintf\<close> of \<open>crypto/compat/bsd-asprintf.c\<close>.

  \<open>vsn n\<close> stands for \<open>vsnprintf(buffer, n, fmt, ap)\<close> of the C library on a fresh copy of
  the argument list: its return value and the bytes it stores from the start of the buffer.
\<close>

definition INIT_SZ :: nat where
  "INIT_SZ = 128"

text \<open>The label \<open>fail:\<close>; the triple is the result, \<open>*str\<close> and the runtime.\<close>

definition asprintf_fail :: "crt \<Rightarrow> int \<times> ptr \<times> crt" where
  "asprintf_fail s = (-1, Null, set_errno ENOMEM s)"

definition vasprintf :: "(nat \<Rightarrow> int \<times> char list) \<Rightarrow> crt \<Rightarrow> (int \<times> ptr \<times> crt) option" where
  "vasprintf vsn s =
     (case malloc INIT_SZ s of (p, s) \<Rightarrow>
      if p = Null then Some (asprintf_fail s)
      else case vsn INIT_SZ of (ret, out) \<Rightarrow> do {
        s \<leftarrow> store_bytes p 0 out s;
        if ret \<ge> 0 \<and> ret < int INIT_SZ then Some (ret, p, s)
        else if ret = INT_MAX \<or> ret < 0 then do {
          s \<leftarrow> free p s;
          Some (asprintf_fail s)
        }
        else do {
          let len = nat ret + 1;
          (newstr, s) \<leftarrow> realloc p len s;
          if newstr = Null then do {
            s \<leftarrow> free p s;
            Some (asprintf_fail s)
          }
          else case vsn len of (ret, out) \<Rightarrow> do {
            s \<leftarrow> store_bytes newstr 0 out s;
            if ret < 0 \<or> nat ret \<ge> len then do {
              s \<leftarrow> free newstr s;
              Some (asprintf_fail s)
            }
            else Some (ret, newstr, s)
          }
        }
      })"

text \<open>\<open>asprintf\<close> sets \<open>*str\<close> to null first and returns what \<open>vasprintf\<close> returns.\<close>

definition asprintf :: "(nat \<Rightarrow> int \<times> char list) \<Rightarrow> crt \<Rightarrow> (int \<times> ptr \<times> crt) option" where
  "asprintf vsn s = vasprintf vsn s"

section \<open>Correctness\<close>

text \<open>What C says of \<open>vsnprintf\<close>: it never stores more than \<open>n\<close> bytes; when formatting
  succeeds it returns the length of the whole output and stores as much of it as fits, with a
  terminating NUL.\<close>

definition vsn_bounded :: "(nat \<Rightarrow> int \<times> char list) \<Rightarrow> bool" where
  "vsn_bounded vsn \<longleftrightarrow> (\<forall>n. length (snd (vsn n)) \<le> n)"

definition vsn_formats :: "(nat \<Rightarrow> int \<times> char list) \<Rightarrow> char list \<Rightarrow> bool" where
  "vsn_formats vsn out \<longleftrightarrow> (\<forall>n > 0. vsn n = (int (length out), take (n - 1) out @ [NUL]))"

lemma heap_trip: "h a = None \<Longrightarrow> h(a := None) = (h :: nat \<Rightarrow> 'b option)"
  by (auto simp: fun_upd_def)

text \<open>\<open>p\<close> is a new block, of a size for which \<open>vsnprintf\<close> returned \<open>ret\<close> and did
  not truncate, and holds what it stored.\<close>

definition formatted_in ::
    "(nat \<Rightarrow> int \<times> char list) \<Rightarrow> (nat \<Rightarrow> char list option) \<Rightarrow> int \<Rightarrow> ptr \<Rightarrow> (nat \<Rightarrow> char list option) \<Rightarrow> bool" where
  "formatted_in vsn h ret p h' \<longleftrightarrow>
     (\<exists>a bs. p = Ref a \<and> h a = None \<and> h' = h(a \<mapsto> bs) \<and> 0 \<le> ret \<and> nat ret < length bs
        \<and> fst (vsn (length bs)) = ret
        \<and> take (length (snd (vsn (length bs)))) bs = snd (vsn (length bs)))"

lemma formatted_inI:
  assumes "h a = None" "length bs = n" "vsn n = (ret, out)" "take (length out) bs = out" "0 \<le> ret" "nat ret < n"
  shows "formatted_in vsn h ret (Ref a) (h(a \<mapsto> bs))"
  using assms unfolding formatted_in_def by (intro exI [of _ a] exI [of _ bs]) auto

text \<open>The second attempt, in a block of the right size.\<close>

lemma vasprintf_long:
  assumes "crt_ok s" "vsn INIT_SZ = (ret, out)" "length out \<le> INIT_SZ"
    "vsn (nat ret + 1) = (ret2, out2)" "length out2 \<le> nat ret + 1"
    "\<not> oom s (allocs s)" "ret \<ge> int INIT_SZ" "ret \<noteq> INT_MAX" "\<not> oom s (Suc (allocs s))"
  shows "\<exists>ret p s'. vasprintf vsn s = Some (ret, p, s') \<and> crt_ok s'
    \<and> (ret = -1 \<and> p = Null \<and> errno s' = Some ENOMEM \<and> heap s' = heap s
       \<or> formatted_in vsn (heap s) ret p (heap s'))"
proof -
  let ?a = "allocs s"
  note v = assms(2) and out = assms(3) and v2 = assms(4) and out2 = assms(5) and long = assms(6-9)
  have fr: "heap s ?a = None" "heap s (Suc ?a) = None" using assms(1) by (auto simp: crt_ok_def)
  have okh: "crt_ok (s\<lparr>heap := (heap s)(Suc ?a := x), allocs := Suc (Suc ?a), released := r\<rparr>)"
    "crt_ok (s\<lparr>allocs := Suc (Suc ?a), released := r\<rparr>)" for x r
    using assms(1) by (auto simp: crt_ok_def less_Suc_eq)
  let ?b = "out @ drop (length out) (fresh_bytes s 0 INIT_SZ)"
  let ?s = "s\<lparr>heap := (heap s)(?a \<mapsto> ?b), allocs := Suc ?a\<rparr>"
  let ?n = "nat ret + 1"
  let ?bs = "out2 @ drop (length out2) (take ?n ?b @ fresh_bytes ?s (length ?b) ?n)"
  let ?s2 = "s\<lparr>heap := (heap s)(Suc ?a \<mapsto> ?bs), allocs := Suc (Suc ?a), released := ?b # released s\<rparr>"
  have pos: "\<not> (ret \<ge> 0 \<and> ret < int INIT_SZ)" "\<not> ret < 0" using long by (auto simp: INIT_SZ_def)
  have len: "length ?b = INIT_SZ" "length ?bs = ?n" using out out2 long(2) by auto
  have h: "(heap s)(?a := None) = heap s" "(heap s)(Suc ?a := None) = heap s"
    using heap_trip [of "heap s"] fr by auto
  let ?m = "take ?n ?b @ fresh_bytes ?s (length ?b) ?n"
  let ?s1 = "s\<lparr>heap := (heap s)(Suc ?a \<mapsto> ?m), allocs := Suc (Suc ?a), released := ?b # released s\<rparr>"
  have 1: "malloc INIT_SZ s = (Ref ?a, s\<lparr>heap := (heap s)(?a \<mapsto> fresh_bytes s 0 INIT_SZ), allocs := Suc ?a\<rparr>)"
    "store_bytes (Ref ?a) 0 out (s\<lparr>heap := (heap s)(?a \<mapsto> fresh_bytes s 0 INIT_SZ), allocs := Suc ?a\<rparr>) = Some ?s"
    using long(1) out by (simp_all add: malloc_def)
  have 2: "realloc (Ref ?a) ?n ?s = Some (Ref (Suc ?a), ?s1)"
    using long(4) h(1) by simp
  have "length ?m = ?n" using len(1) long(2) by simp
  then have 3: "store_bytes (Ref (Suc ?a)) 0 out2 ?s1 = Some ?s2"
    using out2 by (simp del: length_append length_take)
  have 4: "free (Ref (Suc ?a)) ?s2 = Some (s\<lparr>allocs := Suc (Suc ?a), released := ?bs # ?b # released s\<rparr>)"
    using h(2) by simp
  have run: "vasprintf vsn s =
      (if ret2 < 0 \<or> nat ret2 \<ge> ?n then Some (asprintf_fail s4) else Some (ret2, Ref (Suc ?a), s3))"
    if "malloc INIT_SZ s = (Ref ?a, s0)" "store_bytes (Ref ?a) 0 out s0 = Some s1"
      "realloc (Ref ?a) ?n s1 = Some (Ref (Suc ?a), s2)" "store_bytes (Ref (Suc ?a)) 0 out2 s2 = Some s3"
      "free (Ref (Suc ?a)) s3 = Some s4" for s0 s1 s2 s3 s4
    unfolding vasprintf_def using that v v2 pos long(3)
    by (simp del: store_bytes.simps realloc.simps free.simps)
  have f: "formatted_in vsn (heap s) ret2 (Ref (Suc ?a)) ((heap s)(Suc ?a \<mapsto> ?bs))"
    if "\<not> (ret2 < 0 \<or> nat ret2 \<ge> ?n)"
    by (rule formatted_inI [of "heap s" "Suc ?a" ?bs ?n vsn ret2 out2, OF fr(2) len(2) v2]) (use that in auto)
  show ?thesis
  proof (cases "ret2 < 0 \<or> nat ret2 \<ge> ?n")
    case True
    then show ?thesis using run [OF 1 2 3 4] okh(2) by (simp add: asprintf_fail_def)
  next
    case False
    then have "vasprintf vsn s = Some (ret2, Ref (Suc ?a), ?s2)" using run [OF 1 2 3 4] by metis
    then show ?thesis using f [OF False] okh(1) by fastforce
  qed
qed

lemma vasprintf_defined:
  assumes "crt_ok s" "vsn_bounded vsn"
  shows "\<exists>ret p s'. vasprintf vsn s = Some (ret, p, s') \<and> crt_ok s'
    \<and> (ret = -1 \<and> p = Null \<and> errno s' = Some ENOMEM \<and> heap s' = heap s
       \<or> formatted_in vsn (heap s) ret p (heap s'))"
proof -
  let ?a = "allocs s"
  have fr: "heap s ?a = None" "heap s (Suc ?a) = None" using assms(1) by (auto simp: crt_ok_def)
  obtain ret out where v: "vsn INIT_SZ = (ret, out)" by fastforce
  then have out: "length out \<le> INIT_SZ" using assms(2) by (metis vsn_bounded_def snd_conv)
  obtain ret2 out2 where v2: "vsn (nat ret + 1) = (ret2, out2)" by fastforce
  then have out2: "length out2 \<le> nat ret + 1" using assms(2) by (metis vsn_bounded_def snd_conv)
  have ok: "crt_ok (s\<lparr>allocs := n\<rparr>)" "crt_ok (s\<lparr>allocs := n, released := r\<rparr>)" if "?a \<le> n" for n r
    using assms(1) that by (auto simp: crt_ok_def)
  have okh: "crt_ok (s\<lparr>heap := (heap s)(?a := x), allocs := Suc ?a\<rparr>)" for x
    using assms(1) by (auto simp: crt_ok_def less_Suc_eq)
  consider (oom1) "oom s ?a" | (fits) "\<not> oom s ?a" "ret \<ge> 0" "ret < int INIT_SZ"
    | (bad) "\<not> oom s ?a" "ret = INT_MAX \<or> ret < 0"
    | (oom2) "\<not> oom s ?a" "ret \<ge> int INIT_SZ" "ret \<noteq> INT_MAX" "oom s (Suc ?a)"
    | (long) "\<not> oom s ?a" "ret \<ge> int INIT_SZ" "ret \<noteq> INT_MAX" "\<not> oom s (Suc ?a)"
    by linarith
  then show ?thesis
  proof cases
    case oom1
    then show ?thesis using ok by (simp add: vasprintf_def malloc_def asprintf_fail_def)
  next
    case fits
    let ?bs = "out @ drop (length out) (fresh_bytes s 0 INIT_SZ)"
    let ?s = "s\<lparr>heap := (heap s)(?a \<mapsto> ?bs), allocs := Suc ?a\<rparr>"
    have "vasprintf vsn s = Some (ret, Ref ?a, ?s)"
      using fits v out by (simp add: vasprintf_def malloc_def)
    moreover have "length ?bs = INIT_SZ" using out by simp
    ultimately show ?thesis
      using formatted_inI [of "heap s" ?a ?bs INIT_SZ vsn ret out] fr fits v okh by auto
  next
    case bad
    then show ?thesis
      using v out fr ok INIT_SZ_def
      by (auto simp: vasprintf_def malloc_def asprintf_fail_def heap_trip INT_MAX_def)
  next
    case oom2
    then show ?thesis
      using v out fr ok INIT_SZ_def
      by (auto simp: vasprintf_def malloc_def asprintf_fail_def heap_trip)
  next
    case long
    then show ?thesis using vasprintf_long [OF assms(1) v out v2 out2] by blast
  qed
qed

text \<open>\<open>vsnprintf\<close> for a format that is a string argument, as \<open>"%sb"\<close>.\<close>

definition snprintf_text :: "char list \<Rightarrow> nat \<Rightarrow> int \<times> char list" where
  "snprintf_text out n = (int (length out), if n = 0 then [] else take (n - 1) out @ [NUL])"

lemma snprintf_text_ok: "vsn_bounded (snprintf_text out)" "vsn_formats (snprintf_text out) out"
  by (auto simp: vsn_bounded_def vsn_formats_def snprintf_text_def)

lemma formatted_in_text:
  assumes "formatted_in vsn h ret p h'" "vsn_formats vsn out"
  shows "ret = int (length out)
    \<and> (\<exists>a bs. p = Ref a \<and> h a = None \<and> h' = h(a \<mapsto> bs) \<and> take (length out + 1) bs = out @ [NUL])"
proof -
  obtain a bs where f: "p = Ref a" "h a = None" "h' = h(a \<mapsto> bs)" "nat ret < length bs"
      "fst (vsn (length bs)) = ret" "take (length (snd (vsn (length bs)))) bs = snd (vsn (length bs))"
    using assms(1) by (auto simp: formatted_in_def)
  then have "vsn (length bs) = (int (length out), take (length bs - 1) out @ [NUL])"
    using assms(2) f(4) unfolding vsn_formats_def by (metis less_nat_zero_code neq0_conv)
  moreover from this have "length out < length bs" using f(4,5) by simp
  ultimately show ?thesis using f by (intro conjI exI [of _ a] exI [of _ bs]) auto
qed

lemma vasprintf_success:
  assumes "\<forall>k. \<not> oom s k" "vsn_formats vsn out" "int (length out) < INT_MAX" "crt_ok s"
    "vasprintf vsn s = Some (ret, p, s')" "vsn_bounded vsn"
  shows "ret \<noteq> -1"
proof
  assume r: "ret = -1"
  have v: "fst (vsn n) = int (length out)" "length out < n \<Longrightarrow> length (snd (vsn n)) = Suc (length out)"
    if "n > 0" for n
    using assms(2) that by (auto simp: vsn_formats_def)
  have i: "vsn INIT_SZ = (int (length out), snd (vsn INIT_SZ))" "length (snd (vsn INIT_SZ)) \<le> INIT_SZ"
    "vsn (Suc (length out)) = (int (length out), snd (vsn (Suc (length out))))"
    using v [of INIT_SZ] v [of "Suc (length out)"] assms(6)
    by (simp_all add: INIT_SZ_def vsn_bounded_def prod_eq_iff)
  obtain o1 o2 where oo: "vsn INIT_SZ = (int (length out), o1)" "length o1 \<le> INIT_SZ"
      "vsn (Suc (length out)) = (int (length out), o2)" "length o2 = Suc (length out)"
    using i v(2) [of "Suc (length out)"] by auto
  show False
    using assms(1,3,5) oo r
    by (auto simp: vasprintf_def malloc_def INT_MAX_def asprintf_fail_def split: if_splits)
qed

text \<open>C20. \<open>vasprintf\<close> is defined for every \<open>vsnprintf\<close> that keeps to its buffer. Either it
  returns -1 with \<open>*str\<close> null, \<open>errno\<close> set and every block it allocated freed, or
  \<open>*str\<close> is one new block that holds the untruncated output. When no allocation fails, the
  result is the length of the output, and the block holds the output and its NUL.\<close>

theorem vasprintf_formats_or_fails_clean:
  assumes "crt_ok s" "vsn_bounded vsn"
  shows "\<exists>ret p s'. vasprintf vsn s = Some (ret, p, s') \<and> crt_ok s'
    \<and> (ret = -1 \<and> p = Null \<and> errno s' = Some ENOMEM \<and> heap s' = heap s
       \<or> formatted_in vsn (heap s) ret p (heap s'))
    \<and> (\<forall>out. vsn_formats vsn out \<and> int (length out) < INT_MAX \<and> (\<forall>k. \<not> oom s k) \<longrightarrow>
         ret = int (length out)
         \<and> (\<exists>bs. bytes_of p s' = Some bs \<and> take (length out + 1) bs = out @ [NUL]))"
proof -
  obtain ret p s' where r: "vasprintf vsn s = Some (ret, p, s')" "crt_ok s'"
      "ret = -1 \<and> p = Null \<and> errno s' = Some ENOMEM \<and> heap s' = heap s
       \<or> formatted_in vsn (heap s) ret p (heap s')"
    using vasprintf_defined [OF assms] by blast
  have "ret = int (length out) \<and> (\<exists>bs. bytes_of p s' = Some bs \<and> take (length out + 1) bs = out @ [NUL])"
    if o: "vsn_formats vsn out" "int (length out) < INT_MAX" "\<forall>k. \<not> oom s k" for out
  proof -
    have "ret \<noteq> -1" by (rule vasprintf_success [OF o(3,1,2) assms(1) r(1) assms(2)])
    then show ?thesis using r(3) formatted_in_text [OF _ o(1)] by fastforce
  qed
  then show ?thesis using r by blast
qed

theorem vasprintf_formats_or_fails_clean_witness:
  "\<exists>p s'. vasprintf (snprintf_text ''rb'') crt0 = Some (2, p, s')
    \<and> (\<exists>bs. bytes_of p s' = Some bs \<and> take 3 bs = [CHR ''r'', CHR ''b'', NUL])"
proof -
  have ok: "crt_ok crt0" "\<forall>k. \<not> oom crt0 k" by (simp_all add: crt_ok_def crt0_def)
  have n: "int (length ''rb'') < INT_MAX" "length ''rb'' + 1 = 3" by (simp_all add: INT_MAX_def)
  obtain ret p s' where r: "vasprintf (snprintf_text ''rb'') crt0 = Some (ret, p, s')"
      "\<forall>out. vsn_formats (snprintf_text ''rb'') out \<and> int (length out) < INT_MAX \<and> (\<forall>k. \<not> oom crt0 k) \<longrightarrow>
         ret = int (length out) \<and> (\<exists>bs. bytes_of p s' = Some bs \<and> take (length out + 1) bs = out @ [NUL])"
    using vasprintf_formats_or_fails_clean [OF ok(1) snprintf_text_ok(1) [of "''rb''"]] by blast
  from r(2) [rule_format, of "''rb''"] have "ret = int (length ''rb'')
      \<and> (\<exists>bs. bytes_of p s' = Some bs \<and> take (length ''rb'' + 1) bs = ''rb'' @ [NUL])"
    using snprintf_text_ok(2) ok(2) n(1) by blast
  then show ?thesis using r(1) unfolding n(2) by auto
qed

end
