(* ===== verification/Getdelim.thy ===== *)
theory Getdelim
  imports C_Runtime
begin

text \<open>
  \<open>getdelim\<close> and \<open>getline\<close> of \<open>crypto/compat/getdelim.c\<close> and \<open>getline.c\<close>.

  A stream is the bytes not yet read and whether it ends with a read error instead of the end of
  the file. \<open>BUFSIZ\<close> is a parameter of the platform. The state of the function is the
  caller's \<open>*buf\<close> and \<open>*bufsiz\<close>, the stream and the runtime.
\<close>

record stream =
  unread :: "char list"
  read_error :: bool

record gd_state =
  buf :: ptr
  bufsiz :: nat
  fp :: stream
  rt :: crt

definition byte :: "char \<Rightarrow> int" where
  "byte c = int (of_char c)"

text \<open>Growing the buffer, the part from \<open>nbufsiz = *bufsiz * 2\<close> on (and the first
  allocation).\<close>

definition grow :: "nat \<Rightarrow> gd_state \<Rightarrow> (bool \<times> gd_state) option" where
  "grow nbufsiz g = do {
     (nbuf, s) \<leftarrow> realloc (buf g) nbufsiz (rt g);
     if nbuf = Null then Some (False, g\<lparr>rt := s\<rparr>)
     else Some (True, g\<lparr>buf := nbuf, bufsiz := nbufsiz, rt := s\<rparr>)
   }"

definition put_char :: "nat \<Rightarrow> char \<Rightarrow> gd_state \<Rightarrow> gd_state option" where
  "put_char pos c g = do { s \<leftarrow> store_bytes (buf g) pos [c] (rt g); Some (g\<lparr>rt := s\<rparr>) }"

text \<open>The loop; \<open>pos\<close> is \<open>ptr - *buf\<close>. The result of the function comes with the final
  state.\<close>

fun getdelim_loop :: "int \<Rightarrow> char list \<Rightarrow> nat \<Rightarrow> gd_state \<Rightarrow> (int \<times> gd_state) option" where
  "getdelim_loop delimiter [] pos g =
     (if \<not> read_error (fp g) \<and> pos \<noteq> 0
      then do { g \<leftarrow> put_char pos NUL g; Some (int pos, g) }
      else Some (-1, g))"
| "getdelim_loop delimiter (c # cs) pos g = do {
     let g = g\<lparr>fp := (fp g)\<lparr>unread := cs\<rparr>\<rparr>;
     g \<leftarrow> put_char pos c g;
     let pos = pos + 1;
     if byte c = delimiter
     then do { g \<leftarrow> put_char pos NUL g; Some (int pos, g) }
     else if pos + 2 \<ge> bufsiz g
     then
       if bufsiz g > SIZE_MAX div 2
       then Some (-1, g\<lparr>rt := set_errno EOVERFLOW (rt g)\<rparr>)
       else do {
         (ok, g) \<leftarrow> grow (bufsiz g * 2) g;
         if ok then getdelim_loop delimiter cs pos g else Some (-1, g)
       }
     else getdelim_loop delimiter cs pos g
   }"

definition getdelim :: "nat \<Rightarrow> int \<Rightarrow> gd_state \<Rightarrow> (int \<times> gd_state) option" where
  "getdelim BUFSIZ delimiter g =
     (if buf g = Null \<or> bufsiz g < 2
      then do {
        (ok, g) \<leftarrow> grow BUFSIZ g;
        if ok then getdelim_loop delimiter (unread (fp g)) 0 g else Some (-1, g)
      }
      else getdelim_loop delimiter (unread (fp g)) 0 g)"

definition getline :: "nat \<Rightarrow> gd_state \<Rightarrow> (int \<times> gd_state) option" where
  "getline BUFSIZ g = getdelim BUFSIZ (byte (CHR 0x0A)) g"

section \<open>Correctness\<close>

text \<open>The caller's side of the contract: a null buffer, or one whose size is
  \<open>*bufsiz\<close>.\<close>

definition gd_ok :: "gd_state \<Rightarrow> bool" where
  "gd_ok g \<longleftrightarrow> crt_ok (rt g)
     \<and> (buf g = Null \<or> (\<exists>bs. bytes_of (buf g) (rt g) = Some bs \<and> length bs = bufsiz g))"

text \<open>At the head of the loop, the buffer holds what was read and has room for two more
  bytes.\<close>

definition gd_at :: "char list \<Rightarrow> gd_state \<Rightarrow> bool" where
  "gd_at pre g \<longleftrightarrow> crt_ok (rt g) \<and> length pre + 2 \<le> bufsiz g
     \<and> (\<exists>bs. bytes_of (buf g) (rt g) = Some bs \<and> length bs = bufsiz g \<and> take (length pre) bs = pre)"

definition gd_result :: "char list \<Rightarrow> gd_state \<Rightarrow> bool" where
  "gd_result line g \<longleftrightarrow> gd_ok g \<and>
     (\<exists>bs. bytes_of (buf g) (rt g) = Some bs \<and> take (length line + 1) bs = line @ [NUL])"

lemma put_char_ok:
  assumes "crt_ok (rt g)" "bytes_of (buf g) (rt g) = Some bs" "length bs = bufsiz g" "pos < bufsiz g"
    "take pos bs = pre" "length pre = pos"
  shows "\<exists>g' bs'. put_char pos c g = Some g' \<and> crt_ok (rt g') \<and> bytes_of (buf g') (rt g') = Some bs'
    \<and> length bs' = bufsiz g' \<and> take (pos + 1) bs' = pre @ [c]
    \<and> buf g' = buf g \<and> bufsiz g' = bufsiz g \<and> fp g' = fp g \<and> oom (rt g') = oom (rt g)"
proof (cases "buf g")
  case (Ref a)
  then have "heap (rt g) a = Some bs" using assms(2) by simp
  moreover have "crt_ok ((rt g)\<lparr>heap := (heap (rt g))(a \<mapsto> take pos bs @ [c] @ drop (pos + 1) bs)\<rparr>)"
    using store_bytes_ok [OF assms(1), of "Ref a" pos "[c]"] calculation assms(3,4) by simp
  ultimately show ?thesis using Ref assms by (simp add: put_char_def)
qed (use assms in simp)

lemma grow_ok:
  assumes "crt_ok (rt g)"
    "buf g = Null \<and> pre = [] \<or> (\<exists>bs. bytes_of (buf g) (rt g) = Some bs \<and> length bs = bufsiz g \<and> take (length pre) bs = pre)"
    "length pre + 2 \<le> n" "bufsiz g \<le> n \<or> pre = []"
  shows "\<exists>ok g'. grow n g = Some (ok, g') \<and> (ok \<longrightarrow> gd_at pre g') \<and> fp g' = fp g
    \<and> oom (rt g') = oom (rt g) \<and> ((\<forall>k. \<not> oom (rt g) k) \<longrightarrow> ok)
    \<and> (\<not> ok \<longrightarrow> crt_ok (rt g') \<and> buf g' = buf g \<and> bufsiz g' = bufsiz g
         \<and> bytes_of (buf g') (rt g') = bytes_of (buf g) (rt g))"
proof (cases "buf g")
  case Null
  then show ?thesis
    using assms malloc_ok [OF assms(1), of n] by (auto simp: grow_def malloc_def gd_at_def)
next
  case (Ref a)
  then obtain bs where bs: "heap (rt g) a = Some bs" "length bs = bufsiz g" "take (length pre) bs = pre"
    using assms(2) by auto
  have ok: "crt_ok s'" if "realloc (Ref a) n (rt g) = Some (q, s')" for q s'
    using realloc_ok [OF assms(1) that] .
  have len: "length pre \<le> bufsiz g" using bs by (metis length_take min.absorb_iff2 min.commute)
  have "take (length pre) (take n bs @ fresh_bytes (rt g) (length bs) n) = pre"
    using bs assms(3) len by (simp add: min_def)
  then show ?thesis
    using bs ok Ref assms(3,4) by (auto simp: grow_def gd_at_def)
qed

text \<open>The bytes up to and including the first delimiter.\<close>

fun delim_line :: "int \<Rightarrow> char list \<Rightarrow> char list" where
  "delim_line d [] = []"
| "delim_line d (c # cs) = c # (if byte c = d then [] else delim_line d cs)"

lemma getdelim_loop_defined:
  "gd_at pre g \<Longrightarrow> cs = unread (fp g) \<Longrightarrow>
     \<exists>r g'. getdelim_loop d cs (length pre) g = Some (r, g') \<and> gd_ok g'
       \<and> read_error (fp g') = read_error (fp g) \<and> oom (rt g') = oom (rt g)
       \<and> (r \<noteq> -1 \<longrightarrow> r = int (length (pre @ delim_line d cs)) \<and> gd_result (pre @ delim_line d cs) g'
            \<and> unread (fp g') = drop (length (delim_line d cs)) cs)
       \<and> ((\<forall>k. \<not> oom (rt g) k) \<and> length pre + length cs + 3 \<le> SIZE_MAX div 2 \<longrightarrow>
            (r = -1 \<longleftrightarrow> pre @ cs = [] \<or> read_error (fp g) \<and> d \<notin> byte ` set cs))"
proof (induction cs arbitrary: pre g)
  case Nil
  then obtain bs where bs: "crt_ok (rt g)" "bytes_of (buf g) (rt g) = Some bs" "length bs = bufsiz g"
      "length pre < bufsiz g" "take (length pre) bs = pre"
    by (auto simp: gd_at_def)
  obtain g' bs' where g': "put_char (length pre) NUL g = Some g'" "crt_ok (rt g')"
      "bytes_of (buf g') (rt g') = Some bs'" "length bs' = bufsiz g'"
      "take (length pre + 1) bs' = pre @ [NUL]" "fp g' = fp g" "oom (rt g') = oom (rt g)"
    using put_char_ok [OF bs refl] by blast
  then show ?case using bs Nil.prems by (auto simp: gd_ok_def gd_result_def)
next
  case (Cons c cs)
  let ?g = "g\<lparr>fp := (fp g)\<lparr>unread := cs\<rparr>\<rparr>"
  obtain bs where bs: "crt_ok (rt ?g)" "bytes_of (buf ?g) (rt ?g) = Some bs" "length bs = bufsiz ?g"
      "length pre < bufsiz ?g" "take (length pre) bs = pre" and room: "length pre + 2 \<le> bufsiz g"
    using Cons.prems(1) by (auto simp: gd_at_def)
  obtain g1 b1 where g1: "put_char (length pre) c ?g = Some g1" "crt_ok (rt g1)"
      "bytes_of (buf g1) (rt g1) = Some b1" "length b1 = bufsiz g1"
      "take (length pre + 1) b1 = pre @ [c]" "fp g1 = fp ?g" "bufsiz g1 = bufsiz g"
      "oom (rt g1) = oom (rt g)"
    using put_char_ok [OF bs refl, of c] by auto
  have at: "length (pre @ [c]) < bufsiz g1" "take (length (pre @ [c])) b1 = pre @ [c]"
    using g1(5,7) room by simp_all
  consider (delim) "byte c = d"
    | (full) "byte c \<noteq> d" "length pre + 3 \<ge> bufsiz g1" "bufsiz g1 > SIZE_MAX div 2"
    | (grow) "byte c \<noteq> d" "length pre + 3 \<ge> bufsiz g1" "bufsiz g1 \<le> SIZE_MAX div 2"
    | (more) "byte c \<noteq> d" "length pre + 3 < bufsiz g1"
    by linarith
  then show ?case
  proof cases
    case delim
    obtain g2 b2 where g2: "put_char (length (pre @ [c])) NUL g1 = Some g2" "crt_ok (rt g2)"
        "bytes_of (buf g2) (rt g2) = Some b2" "length b2 = bufsiz g2"
        "take (length (pre @ [c]) + 1) b2 = (pre @ [c]) @ [NUL]" "fp g2 = fp g1"
        "oom (rt g2) = oom (rt g1)"
      using put_char_ok [OF g1(2-4) at refl] by blast
    then have "gd_ok g2" "gd_result (pre @ [c]) g2" by (auto simp: gd_ok_def gd_result_def)
    then show ?thesis using g1(1,6,8) g2(1,6,7) delim by auto
  next
    case full
    then have "gd_ok (g1\<lparr>rt := set_errno EOVERFLOW (rt g1)\<rparr>)" using g1(2-4) by (auto simp: gd_ok_def)
    then show ?thesis using full g1(1,6,8) by auto
  next
    case grow
    obtain ok g2 where g2: "Getdelim.grow (bufsiz g1 * 2) g1 = Some (ok, g2)" "ok \<longrightarrow> gd_at (pre @ [c]) g2"
        "fp g2 = fp g1" "oom (rt g2) = oom (rt g1)" "(\<forall>k. \<not> oom (rt g1) k) \<longrightarrow> ok"
        "\<not> ok \<longrightarrow> crt_ok (rt g2) \<and> buf g2 = buf g1 \<and> bufsiz g2 = bufsiz g1
          \<and> bytes_of (buf g2) (rt g2) = bytes_of (buf g1) (rt g1)"
      using grow_ok [of g1 "pre @ [c]" "bufsiz g1 * 2"] g1(2-4) at room g1(7) by fastforce
    show ?thesis
    proof (cases ok)
      case True
      from Cons.IH [of "pre @ [c]" g2] show ?thesis
        using True g2(1-4) g1(1,6,8) grow by auto
    next
      case False
      then have "gd_ok g2" using g2(6) g1(3,4) by (auto simp: gd_ok_def)
      then show ?thesis using False g2(1,3,4,5) g1(1,6,8) grow by auto
    qed
  next
    case more
    have "gd_at (pre @ [c]) g1" using g1(2-4) at more by (auto simp: gd_at_def)
    from Cons.IH [OF this] show ?thesis using g1(1,6,8) more by auto
  qed
qed

section \<open>Properties\<close>

text \<open>An environment with a stream of two lines, the second one without a newline.\<close>

definition gd0 :: gd_state where
  "gd0 = \<lparr>buf = Null, bufsiz = 0,
     fp = \<lparr>unread = [CHR ''a'', CHR 0x0A, CHR ''b''], read_error = False\<rparr>, rt = crt0\<rparr>"

lemma gd0_ok: "gd_ok gd0"
  by (simp add: gd_ok_def gd0_def crt_ok_def crt0_def)

lemma getdelim_correct:
  assumes "gd_ok g" "2 \<le> BUFSIZ"
  shows "\<exists>r g'. getdelim BUFSIZ d g = Some (r, g') \<and> gd_ok g'
    \<and> read_error (fp g') = read_error (fp g) \<and> oom (rt g') = oom (rt g)
    \<and> (r \<noteq> -1 \<longrightarrow> r = int (length (delim_line d (unread (fp g))))
        \<and> gd_result (delim_line d (unread (fp g))) g'
        \<and> unread (fp g') = drop (length (delim_line d (unread (fp g)))) (unread (fp g)))
    \<and> ((\<forall>k. \<not> oom (rt g) k) \<and> length (unread (fp g)) + 3 \<le> SIZE_MAX div 2 \<longrightarrow>
        (r = -1 \<longleftrightarrow> unread (fp g) = [] \<or> read_error (fp g) \<and> d \<notin> byte ` set (unread (fp g))))"
proof (cases "buf g = Null \<or> bufsiz g < 2")
  case True
  have "buf g = Null \<and> [] = [] \<or> (\<exists>bs. bytes_of (buf g) (rt g) = Some bs \<and> length bs = bufsiz g
      \<and> take (length []) bs = ([] :: char list))"
    using assms(1) by (auto simp: gd_ok_def)
  then obtain ok g1 where g1: "grow BUFSIZ g = Some (ok, g1)" "ok \<longrightarrow> gd_at [] g1" "fp g1 = fp g"
      "oom (rt g1) = oom (rt g)" "(\<forall>k. \<not> oom (rt g) k) \<longrightarrow> ok"
      "\<not> ok \<longrightarrow> crt_ok (rt g1) \<and> buf g1 = buf g \<and> bufsiz g1 = bufsiz g
         \<and> bytes_of (buf g1) (rt g1) = bytes_of (buf g) (rt g)"
    using grow_ok [of g "[]" BUFSIZ] assms unfolding gd_ok_def by auto
  show ?thesis
  proof (cases ok)
    case True': True
    then show ?thesis
      using getdelim_loop_defined [of "[]" g1 "unread (fp g)" d] g1 True by (simp add: getdelim_def)
  next
    case False
    then have "gd_ok g1" using g1(6) assms(1) by (auto simp: gd_ok_def)
    then show ?thesis using g1 False True by (auto simp: getdelim_def)
  qed
next
  case False
  then have "gd_at [] g" using assms(1) by (auto simp: gd_ok_def gd_at_def)
  then show ?thesis
    using getdelim_loop_defined [of "[]" g "unread (fp g)" d] False by (simp add: getdelim_def)
qed

text \<open>C9. \<open>getdelim\<close> never writes outside the buffer, whatever allocations fail, and leaves a
  buffer whose size is \<open>*bufsiz\<close>. A result other than -1 is the length of the bytes up to and
  including the first delimiter (or the end of the file), which the buffer holds with a terminating
  NUL and which are exactly what was consumed. With enough memory -1 is returned only at the end
  of the file with nothing read, or on a read error before a delimiter.\<close>

theorem getdelim_reads_line:
  assumes "gd_ok g" "2 \<le> BUFSIZ"
  shows "\<exists>r g'. getdelim BUFSIZ d g = Some (r, g') \<and> gd_ok g'
    \<and> read_error (fp g') = read_error (fp g) \<and> oom (rt g') = oom (rt g)
    \<and> (r \<noteq> -1 \<longrightarrow> r = int (length (delim_line d (unread (fp g))))
        \<and> gd_result (delim_line d (unread (fp g))) g'
        \<and> unread (fp g') = drop (length (delim_line d (unread (fp g)))) (unread (fp g)))
    \<and> ((\<forall>k. \<not> oom (rt g) k) \<and> length (unread (fp g)) + 3 \<le> SIZE_MAX div 2 \<longrightarrow>
        (r = -1 \<longleftrightarrow> unread (fp g) = [] \<or> read_error (fp g) \<and> d \<notin> byte ` set (unread (fp g))))"
  using assms by (rule getdelim_correct)

theorem getdelim_reads_line_witness:
  "\<exists>g'. getdelim 16 10 gd0 = Some (2, g') \<and> unread (fp g') = ''b''"
proof -
  have l: "delim_line 10 (unread (fp gd0)) = [CHR ''a'', CHR 0x0A]"
    by (simp add: gd0_def byte_def)
  have n: "\<forall>k. \<not> oom (rt gd0) k" "length (unread (fp gd0)) + 3 \<le> SIZE_MAX div 2"
    "unread (fp gd0) \<noteq> []" "\<not> read_error (fp gd0)"
    by (simp_all add: gd0_def crt0_def SIZE_MAX_def)
  have d: "drop (length [CHR ''a'', CHR 0x0A]) (unread (fp gd0)) = ''b''" by (simp add: gd0_def)
  have b: "2 \<le> (16 :: nat)" by simp
  obtain r g' where r: "getdelim 16 10 gd0 = Some (r, g')"
      "r \<noteq> -1 \<longrightarrow> r = int (length [CHR ''a'', CHR 0x0A])
        \<and> unread (fp g') = drop (length [CHR ''a'', CHR 0x0A]) (unread (fp gd0))"
      "r = -1 \<longleftrightarrow> unread (fp gd0) = [] \<or> read_error (fp gd0) \<and> 10 \<notin> byte ` set (unread (fp gd0))"
    using getdelim_reads_line [OF gd0_ok b, of 10] n(1,2) unfolding l by blast
  then show ?thesis using n(3,4) d by auto
qed

text \<open>Reading a whole stream line by line.\<close>

partial_function (option) getline_all :: "nat \<Rightarrow> gd_state \<Rightarrow> (char list list \<times> gd_state) option" where
  "getline_all BUFSIZ g = do {
     (r, g) \<leftarrow> getline BUFSIZ g;
     if r = -1 then Some ([], g)
     else do {
       bs \<leftarrow> bytes_of (buf g) (rt g);
       (ls, g') \<leftarrow> getline_all BUFSIZ g;
       Some (take (nat r) bs # ls, g')
     }
   }"

lemma delim_line_split: "delim_line d cs @ drop (length (delim_line d cs)) cs = cs"
  by (induction cs) auto

lemma delim_line_eq_Nil [simp]: "delim_line d cs = [] \<longleftrightarrow> cs = []"
  by (cases cs) auto

text \<open>The lines of a stream: every one but the last ends with the delimiter and has no other.\<close>

function lines_of :: "int \<Rightarrow> char list \<Rightarrow> char list list" where
  "lines_of d [] = []"
| "lines_of d (c # cs) =
     delim_line d (c # cs) # lines_of d (drop (length (delim_line d (c # cs))) (c # cs))"
  by pat_completeness auto
termination
  by (relation "measure (length \<circ> snd)") auto

lemma concat_lines_of: "concat (lines_of d cs) = cs"
proof (induction d cs rule: lines_of.induct)
  case (2 d c cs)
  then show ?case using delim_line_split [of d "c # cs"] by simp
qed simp

lemma getline_all_correct:
  assumes "2 \<le> BUFSIZ"
  shows "gd_ok g \<Longrightarrow> \<forall>k. \<not> oom (rt g) k \<Longrightarrow> \<not> read_error (fp g) \<Longrightarrow>
    length (unread (fp g)) + 3 \<le> SIZE_MAX div 2 \<Longrightarrow>
    \<exists>g'. getline_all BUFSIZ g = Some (lines_of 10 (unread (fp g)), g') \<and> gd_ok g'"
proof (induction "length (unread (fp g))" arbitrary: g rule: less_induct)
  case less
  let ?l = "delim_line 10 (unread (fp g))"
  obtain r g1 where g1: "getdelim BUFSIZ 10 g = Some (r, g1)" "gd_ok g1"
      "read_error (fp g1) = read_error (fp g)" "oom (rt g1) = oom (rt g)"
      "r \<noteq> -1 \<longrightarrow> r = int (length ?l) \<and> gd_result ?l g1 \<and> unread (fp g1) = drop (length ?l) (unread (fp g))"
      "r = -1 \<longleftrightarrow> unread (fp g) = []"
    using getdelim_correct [OF less.prems(1) assms, of 10] less.prems(2-4) by blast
  have b: "byte (CHR 0x0A) = 10" by (simp add: byte_def)
  show ?case
  proof (cases "unread (fp g)")
    case Nil
    then show ?thesis using g1(1,2,6) by (simp add: getline_all.simps [of _ g] getline_def b)
  next
    case (Cons c cs)
    then have g2: "r = int (length ?l)" "gd_result ?l g1" "unread (fp g1) = drop (length ?l) (unread (fp g))"
      using g1(5,6) by auto
    have lt: "length (unread (fp g1)) < length (unread (fp g))"
      using g2(3) Cons by simp
    obtain bs where bs: "bytes_of (buf g1) (rt g1) = Some bs" "take (length ?l + 1) bs = ?l @ [NUL]"
      using g2(2) by (auto simp: gd_result_def)
    then have "take (length ?l) (take (length ?l + 1) bs) = ?l" by simp
    then have tk: "take (length ?l) bs = ?l" by (simp add: min_def)
    obtain g3 where "getline_all BUFSIZ g1 = Some (lines_of 10 (unread (fp g1)), g3)" "gd_ok g3"
      using less.hyps [OF lt g1(2)] less.prems g1(3,4) lt by auto
    moreover have "lines_of 10 (unread (fp g)) = ?l # lines_of 10 (unread (fp g1))"
      unfolding g2(3) Cons by simp
    ultimately show ?thesis
      using g1(1) g2(1) bs(1) tk by (simp add: getline_all.simps [of _ g] getline_def b)
  qed
qed

text \<open>C22. Reading a stream with \<open>getline\<close> until -1 ends, and yields exactly the lines of the
  stream: their concatenation is the stream.\<close>

theorem getline_loop_reads_stream:
  assumes "gd_ok g" "2 \<le> BUFSIZ" "\<forall>k. \<not> oom (rt g) k" "\<not> read_error (fp g)"
    "length (unread (fp g)) + 3 \<le> SIZE_MAX div 2"
  shows "\<exists>ls g'. getline_all BUFSIZ g = Some (ls, g') \<and> gd_ok g'
    \<and> ls = lines_of (byte (CHR 0x0A)) (unread (fp g)) \<and> concat ls = unread (fp g)"
proof -
  have "byte (CHR 0x0A) = 10" by (simp add: byte_def)
  then show ?thesis using getline_all_correct [OF assms(2,1,3-5)] concat_lines_of by auto
qed

theorem getline_loop_reads_stream_witness:
  "\<exists>ls g'. getline_all 16 gd0 = Some (ls, g') \<and> gd_ok g'
    \<and> ls = lines_of (byte (CHR 0x0A)) (unread (fp gd0)) \<and> concat ls = unread (fp gd0)"
  by (rule getline_loop_reads_stream [OF gd0_ok]) (simp_all add: gd0_def crt0_def SIZE_MAX_def)

end
