(* ===== verification/Posix_Win.thy ===== *)
theory Posix_Win
  imports Asprintf Getdelim
begin

text \<open>
  \<open>crypto/compat/posix_win.c\<close>: POSIX descriptors, files, sockets and \<open>errno\<close> over the
  C runtime of Windows and Winsock.

  Both libraries are parameters: the fields of \<open>winapi\<close> are their functions on the state
  \<open>osys\<close>, \<open>errno\<close> and everything else they know (\<open>'w\<close>). Descriptors are 32-bit
  words, as C ints. Error codes are the names the source switches on, with \<open>WSA_other\<close> and
  \<open>WIN_other\<close> for the rest.
\<close>

section \<open>Parameters\<close>

datatype wsa_error =
    WSAENOBUFS | WSAEACCES | WSANOTINITIALISED | WSAEHOSTUNREACH | WSAENETDOWN | WSAEFAULT | WSAEINTR
  | WSAEINVAL | WSAEINPROGRESS | WSAEWOULDBLOCK | WSAEOPNOTSUPP | WSAEMSGSIZE | WSAENOTSOCK
  | WSAENOPROTOOPT | WSAECONNREFUSED | WSAEAFNOSUPPORT | WSAEBADF | WSAENETRESET | WSAENOTCONN
  | WSAECONNABORTED | WSAECONNRESET | WSAESHUTDOWN | WSAETIMEDOUT | WSA_other nat

datatype win32_error =
    ERROR_FILE_NOT_FOUND | ERROR_PATH_NOT_FOUND | ERROR_BAD_PATHNAME | ERROR_FILENAME_EXCED_RANGE
  | ERROR_ACCESS_DENIED | ERROR_SHARING_VIOLATION | ERROR_LOCK_VIOLATION | ERROR_FILE_EXISTS
  | ERROR_ALREADY_EXISTS | ERROR_NOT_SAME_DEVICE | ERROR_DIR_NOT_EMPTY | ERROR_NOT_ENOUGH_MEMORY
  | ERROR_INVALID_PARAMETER | WIN_other nat

type_synonym fd = "32 word"

record 'w osys =
  oserr :: "errno option"
  world :: 'w

record 'w winapi =
  w_connect :: "fd \<Rightarrow> char list \<Rightarrow> 'w osys \<Rightarrow> int \<times> 'w osys"
  w_closesocket :: "fd \<Rightarrow> 'w osys \<Rightarrow> int \<times> 'w osys"
  w_recv :: "fd \<Rightarrow> nat \<Rightarrow> 'w osys \<Rightarrow> (int \<times> char list) \<times> 'w osys"
  w_send :: "fd \<Rightarrow> char list \<Rightarrow> nat \<Rightarrow> 'w osys \<Rightarrow> int \<times> 'w osys"
  w_getsockopt :: "fd \<Rightarrow> int \<Rightarrow> int \<Rightarrow> nat \<Rightarrow> 'w osys \<Rightarrow> (int \<times> char list) \<times> 'w osys"
  w_setsockopt :: "fd \<Rightarrow> int \<Rightarrow> int \<Rightarrow> char list \<Rightarrow> 'w osys \<Rightarrow> int \<times> 'w osys"
  WSAGetLastError :: "'w osys \<Rightarrow> wsa_error"
  MoveFileEx :: "string \<Rightarrow> string \<Rightarrow> 'w osys \<Rightarrow> bool \<times> 'w osys"
  GetLastError :: "'w osys \<Rightarrow> win32_error"
  c_open :: "string \<Rightarrow> 32 word \<Rightarrow> 32 word \<Rightarrow> 'w osys \<Rightarrow> fd \<times> 'w osys"
  c_close :: "fd \<Rightarrow> 'w osys \<Rightarrow> int \<times> 'w osys"
  c_read :: "fd \<Rightarrow> nat \<Rightarrow> 'w osys \<Rightarrow> (int \<times> char list) \<times> 'w osys"
  c_write :: "fd \<Rightarrow> char list \<Rightarrow> nat \<Rightarrow> 'w osys \<Rightarrow> int \<times> 'w osys"
  c_fopen :: "string \<Rightarrow> string \<Rightarrow> 'w osys \<Rightarrow> ptr \<times> 'w osys"
  c_fdopen :: "fd \<Rightarrow> string \<Rightarrow> 'w osys \<Rightarrow> ptr \<times> 'w osys"
  c_fstat :: "fd \<Rightarrow> 'w osys \<Rightarrow> (int \<times> nat) \<times> 'w osys"
  c_chsize :: "fd \<Rightarrow> int \<Rightarrow> 'w osys \<Rightarrow> int \<times> 'w osys"

definition SOCKET_ERROR :: int where
  [simp]: "SOCKET_ERROR = -1"

definition set_oserr :: "errno \<Rightarrow> 'w osys \<Rightarrow> 'w osys" where
  [simp]: "set_oserr e s = s\<lparr>oserr := Some e\<rparr>"

section \<open>Descriptors\<close>

definition is_socket :: "fd \<Rightarrow> bool" where
  "is_socket fd \<longleftrightarrow> \<not> (sint fd < 3) \<and> fd AND 0x80000000 = 0"

definition get_real_fd :: "fd \<Rightarrow> fd" where
  "get_real_fd fd = fd AND 0x7FFFFFFF"

definition posix_fdopen :: "'w winapi \<Rightarrow> fd \<Rightarrow> string \<Rightarrow> 'w osys \<Rightarrow> ptr \<times> 'w osys" where
  "posix_fdopen api fd mode s = c_fdopen api (get_real_fd fd) mode s"

definition libressl_fstat :: "'w winapi \<Rightarrow> fd \<Rightarrow> 'w osys \<Rightarrow> (int \<times> nat) \<times> 'w osys" where
  "libressl_fstat api fd s = c_fstat api (get_real_fd fd) s"

definition ftruncate :: "'w winapi \<Rightarrow> fd \<Rightarrow> int \<Rightarrow> 'w osys \<Rightarrow> int \<times> 'w osys" where
  "ftruncate api fd len s = c_chsize api (get_real_fd fd) len s"

text \<open>The flags of \<open>fcntl.h\<close>: those the repository defines have their values, those of the
  Windows header are parameters.\<close>

definition O_NONBLOCK :: "32 word" where "O_NONBLOCK = 0x100000"
definition O_CLOEXEC :: "32 word" where "O_CLOEXEC = 0x200000"

record open_flags =
  O_BINARY :: "32 word"
  O_NOINHERIT :: "32 word"
  O_CREAT :: "32 word"

definition win_flags :: "open_flags \<Rightarrow> 32 word \<Rightarrow> 32 word" where
  "win_flags k flags =
     (let flags = flags OR O_BINARY k;
          flags = (if flags AND O_CLOEXEC \<noteq> 0
                   then (flags AND NOT O_CLOEXEC) OR O_NOINHERIT k
                   else flags)
      in flags AND NOT O_NONBLOCK)"

text \<open>\<open>arg\<close> is the third argument of the call, read only with \<open>O_CREAT\<close>.\<close>

definition posix_open ::
    "'w winapi \<Rightarrow> open_flags \<Rightarrow> string \<Rightarrow> 32 word \<Rightarrow> 32 word \<Rightarrow> 'w osys \<Rightarrow> fd \<times> 'w osys" where
  "posix_open api k path flags arg s =
     (let mode = (if flags AND O_CREAT k \<noteq> 0 then arg else 0)
      in case c_open api path (win_flags k flags) mode s of (fh, s) \<Rightarrow>
           if fh = -1 then (fh, s) else (fh + 0x80000000, s))"

section \<open>Files\<close>

definition c_string :: "char list \<Rightarrow> string" where
  "c_string bs = takeWhile (\<lambda>c. c \<noteq> NUL) bs"

text \<open>\<open>posix_fopen\<close> works on the heap of the runtime as well, for the string it builds; an
  allocation failure leaves its \<open>errno\<close>.\<close>

definition posix_fopen :: "'w winapi \<Rightarrow> string \<Rightarrow> string \<Rightarrow> crt \<Rightarrow> 'w osys \<Rightarrow> (ptr \<times> crt \<times> 'w osys) option" where
  "posix_fopen api path mode m s =
     (if strchr mode (CHR ''b'') = None
      then do {
        (ret, bin_mode, m) \<leftarrow> asprintf (snprintf_text (mode @ ''b'')) m;
        if ret = -1 then Some (Null, m, s\<lparr>oserr := errno m\<rparr>)
        else do {
          bs \<leftarrow> bytes_of bin_mode m;
          let (f, s) = c_fopen api path (c_string bs) s;
          m \<leftarrow> free bin_mode m;
          Some (f, m, s)
        }
      }
      else (case c_fopen api path mode s of (f, s) \<Rightarrow> Some (f, m, s)))"

text \<open>\<open>fgets\<close> of the C library on the bytes of a stream: at most \<open>size - 1\<close> bytes, up to
  and including a newline, null at the end of the stream.\<close>

fun fgets_bytes :: "nat \<Rightarrow> char list \<Rightarrow> char list" where
  "fgets_bytes 0 cs = []"
| "fgets_bytes (Suc n) [] = []"
| "fgets_bytes (Suc n) (c # cs) = c # (if c = CHR 0x0A then [] else fgets_bytes n cs)"

definition fgets :: "nat \<Rightarrow> char list \<Rightarrow> char list option \<times> char list" where
  "fgets bufsize cs =
     (let l = fgets_bytes (bufsize - 1) cs
      in (if l = [] then None else Some l, drop (length l) cs))"

text \<open>The result of \<open>posix_fgets\<close> is the C string in the buffer, with the bytes it reads and
  writes checked against the buffer.\<close>

definition posix_fgets :: "nat \<Rightarrow> char list \<Rightarrow> (char list option \<times> char list) option" where
  "posix_fgets bufsize cs =
     (case fgets bufsize cs of
        (None, cs) \<Rightarrow> Some (None, cs)
      | (Some l, cs) \<Rightarrow> do {
          let ret = l @ [NUL];
          let eos = length (c_string ret);
          if eos \<ge> 2
          then do {
            a \<leftarrow> aget ret (int eos - 2);
            b \<leftarrow> aget ret (int eos - 1);
            if a = CHR 0x0D \<and> b = CHR 0x0A
            then do {
              ret \<leftarrow> aset ret (int eos - 2) (CHR 0x0A);
              ret \<leftarrow> aset ret (int eos - 1) NUL;
              Some (Some (c_string ret), cs)
            }
            else Some (Some (c_string ret), cs)
          }
          else Some (Some (c_string ret), cs)
        })"

fun win32_errno :: "win32_error \<Rightarrow> 'w osys \<Rightarrow> int \<times> 'w osys" where
  "win32_errno ERROR_FILE_NOT_FOUND s = (-1, set_oserr ENOENT s)"
| "win32_errno ERROR_PATH_NOT_FOUND s = (-1, set_oserr ENOENT s)"
| "win32_errno ERROR_BAD_PATHNAME s = (-1, set_oserr ENOENT s)"
| "win32_errno ERROR_FILENAME_EXCED_RANGE s = (-1, set_oserr ENOENT s)"
| "win32_errno ERROR_ACCESS_DENIED s = (-1, set_oserr EACCES s)"
| "win32_errno ERROR_SHARING_VIOLATION s = (-1, set_oserr EACCES s)"
| "win32_errno ERROR_LOCK_VIOLATION s = (-1, set_oserr EACCES s)"
| "win32_errno ERROR_FILE_EXISTS s = (-1, set_oserr EEXIST s)"
| "win32_errno ERROR_ALREADY_EXISTS s = (-1, set_oserr EEXIST s)"
| "win32_errno ERROR_NOT_SAME_DEVICE s = (-1, set_oserr EXDEV s)"
| "win32_errno ERROR_DIR_NOT_EMPTY s = (-1, set_oserr ENOTEMPTY s)"
| "win32_errno ERROR_NOT_ENOUGH_MEMORY s = (-1, set_oserr ENOMEM s)"
| "win32_errno ERROR_INVALID_PARAMETER s = (-1, set_oserr EINVAL s)"
| "win32_errno (WIN_other n) s = (-1, set_oserr EIO s)"

definition posix_rename :: "'w winapi \<Rightarrow> string \<Rightarrow> string \<Rightarrow> 'w osys \<Rightarrow> int \<times> 'w osys" where
  "posix_rename api oldpath newpath s =
     (case MoveFileEx api oldpath newpath s of (ok, s) \<Rightarrow>
        if \<not> ok then win32_errno (GetLastError api s) s else (0, s))"

section \<open>Sockets\<close>

fun wsa_errno :: "wsa_error \<Rightarrow> 'w osys \<Rightarrow> int \<times> 'w osys" where
  "wsa_errno WSAENOBUFS s = (-1, set_oserr ENOMEM s)"
| "wsa_errno WSAEACCES s = (-1, set_oserr EACCES s)"
| "wsa_errno WSANOTINITIALISED s = (-1, set_oserr EPERM s)"
| "wsa_errno WSAEHOSTUNREACH s = (-1, set_oserr EIO s)"
| "wsa_errno WSAENETDOWN s = (-1, set_oserr EIO s)"
| "wsa_errno WSAEFAULT s = (-1, set_oserr EFAULT s)"
| "wsa_errno WSAEINTR s = (-1, set_oserr EINTR s)"
| "wsa_errno WSAEINVAL s = (-1, set_oserr EINVAL s)"
| "wsa_errno WSAEINPROGRESS s = (-1, set_oserr EINPROGRESS s)"
| "wsa_errno WSAEWOULDBLOCK s = (-1, set_oserr EAGAIN s)"
| "wsa_errno WSAEOPNOTSUPP s = (-1, set_oserr ENOTSUP s)"
| "wsa_errno WSAEMSGSIZE s = (-1, set_oserr EFBIG s)"
| "wsa_errno WSAENOTSOCK s = (-1, set_oserr ENOTSOCK s)"
| "wsa_errno WSAENOPROTOOPT s = (-1, set_oserr ENOPROTOOPT s)"
| "wsa_errno WSAECONNREFUSED s = (-1, set_oserr ECONNREFUSED s)"
| "wsa_errno WSAEAFNOSUPPORT s = (-1, set_oserr EAFNOSUPPORT s)"
| "wsa_errno WSAEBADF s = (-1, set_oserr EBADF s)"
| "wsa_errno WSAENETRESET s = (-1, set_oserr EPIPE s)"
| "wsa_errno WSAENOTCONN s = (-1, set_oserr EPIPE s)"
| "wsa_errno WSAECONNABORTED s = (-1, set_oserr EPIPE s)"
| "wsa_errno WSAECONNRESET s = (-1, set_oserr EPIPE s)"
| "wsa_errno WSAESHUTDOWN s = (-1, set_oserr EPIPE s)"
| "wsa_errno WSAETIMEDOUT s = (-1, set_oserr EPIPE s)"
| "wsa_errno (WSA_other n) s = (-1, set_oserr EIO s)"

definition posix_connect :: "'w winapi \<Rightarrow> fd \<Rightarrow> char list \<Rightarrow> 'w osys \<Rightarrow> int \<times> 'w osys" where
  "posix_connect api sockfd addr s =
     (case w_connect api sockfd addr s of (rc, s) \<Rightarrow>
        if rc = SOCKET_ERROR
        then
          (let err = WSAGetLastError api s
           in if err = WSAEWOULDBLOCK then (-1, set_oserr EINPROGRESS s) else wsa_errno err s)
        else (rc, s))"

definition posix_close :: "'w winapi \<Rightarrow> fd \<Rightarrow> 'w osys \<Rightarrow> int \<times> 'w osys" where
  "posix_close api fd s =
     (if is_socket fd
      then (case w_closesocket api fd s of (rc, s) \<Rightarrow>
              if rc = SOCKET_ERROR then wsa_errno (WSAGetLastError api s) s else (rc, s))
      else c_close api (get_real_fd fd) s)"

definition clamp_count :: "nat \<Rightarrow> nat" where
  "clamp_count cnt = (if int cnt > INT_MAX then nat INT_MAX else cnt)"

definition posix_read :: "'w winapi \<Rightarrow> fd \<Rightarrow> nat \<Rightarrow> 'w osys \<Rightarrow> (int \<times> char list) \<times> 'w osys" where
  "posix_read api fd cnt s =
     (let cnt = clamp_count cnt
      in if is_socket fd
         then (case w_recv api fd cnt s of ((rc, bs), s) \<Rightarrow>
                 if rc = SOCKET_ERROR
                 then (case wsa_errno (WSAGetLastError api s) s of (rc, s) \<Rightarrow> ((rc, bs), s))
                 else ((rc, bs), s))
         else c_read api (get_real_fd fd) cnt s)"

definition posix_write :: "'w winapi \<Rightarrow> fd \<Rightarrow> char list \<Rightarrow> nat \<Rightarrow> 'w osys \<Rightarrow> int \<times> 'w osys" where
  "posix_write api fd bs cnt s =
     (let cnt = clamp_count cnt
      in if is_socket fd
         then (case w_send api fd bs cnt s of (rc, s) \<Rightarrow>
                 if rc = SOCKET_ERROR then wsa_errno (WSAGetLastError api s) s else (rc, s))
         else c_write api (get_real_fd fd) bs cnt s)"

definition posix_getsockopt ::
    "'w winapi \<Rightarrow> fd \<Rightarrow> int \<Rightarrow> int \<Rightarrow> nat \<Rightarrow> 'w osys \<Rightarrow> (int \<times> char list) \<times> 'w osys" where
  "posix_getsockopt api sockfd level optname optlen s =
     (if is_socket sockfd
      then (case w_getsockopt api sockfd level optname optlen s of ((rc, v), s) \<Rightarrow>
              if rc \<noteq> 0
              then (case wsa_errno (WSAGetLastError api s) s of (rc, s) \<Rightarrow> ((rc, v), s))
              else ((rc, v), s))
      else ((-1, []), s))"

definition posix_setsockopt ::
    "'w winapi \<Rightarrow> fd \<Rightarrow> int \<Rightarrow> int \<Rightarrow> char list \<Rightarrow> 'w osys \<Rightarrow> int \<times> 'w osys" where
  "posix_setsockopt api sockfd level optname optval s =
     (if is_socket sockfd
      then (case w_setsockopt api sockfd level optname optval s of (rc, s) \<Rightarrow>
              if rc \<noteq> 0 then wsa_errno (WSAGetLastError api s) s else (rc, s))
      else (-1, s))"

definition getuid :: nat where
  "getuid = 0"

section \<open>Time\<close>

text \<open>\<open>gettimeofday\<close> from the two halves of the file time and the milliseconds of the system
  time; \<open>long\<close> has 32 bits on Windows.\<close>

record timeval =
  tv_sec :: "32 word"
  tv_usec :: "32 word"

definition EPOCH :: "64 word" where
  "EPOCH = 116444736000000000"

definition gettimeofday :: "32 word \<Rightarrow> 32 word \<Rightarrow> 16 word \<Rightarrow> timeval" where
  "gettimeofday low high wMilliseconds =
     (let time = (ucast low :: 64 word);
          time = time + push_bit 32 (ucast high)
      in \<lparr>tv_sec = ucast ((time - EPOCH) div 10000000),
          tv_usec = ucast wMilliseconds * 1000\<rparr>)"

section \<open>Properties\<close>

lemma bit_high:
  "bit (0x80000000 :: 32 word) n \<longleftrightarrow> n = 31" "bit (0x80000000 :: int) n \<longleftrightarrow> n = 31"
proof -
  have "(0x80000000 :: 32 word) = 2 ^ 31" "(0x80000000 :: int) = 2 ^ 31" by simp_all
  then show "bit (0x80000000 :: 32 word) n \<longleftrightarrow> n = 31" "bit (0x80000000 :: int) n \<longleftrightarrow> n = 31"
    by (simp_all only: bit_exp_iff) (auto simp: possible_bit_def)
qed

lemma bit_low:
  "bit (0x7FFFFFFF :: 32 word) n \<longleftrightarrow> n < 31" "bit (0x7FFFFFFF :: int) n \<longleftrightarrow> n < 31"
proof -
  have "(0x7FFFFFFF :: 32 word) = mask 31" "(0x7FFFFFFF :: int) = mask 31" by (simp_all add: mask_numeral)
  then show "bit (0x7FFFFFFF :: 32 word) n \<longleftrightarrow> n < 31" "bit (0x7FFFFFFF :: int) n \<longleftrightarrow> n < 31"
    by (simp_all only: bit_mask_iff) (auto simp: possible_bit_def)
qed

lemma high_bit: "fd AND 0x80000000 = 0 \<longleftrightarrow> 0 \<le> sint fd" for fd :: "32 word"
proof -
  have "fd AND 0x80000000 = 0 \<longleftrightarrow> \<not> bit fd 31"
    by (auto simp: bit_eq_iff [where 'a = "32 word"] bit_simps bit_high dest: spec [of _ 31])
  then show ?thesis using bit_last_iff [of fd] by (simp add: not_less)
qed

text \<open>The test of the high bit adds nothing to the comparison of the signed value.\<close>

lemma is_socket_iff: "is_socket fd \<longleftrightarrow> 3 \<le> sint fd"
  by (auto simp: is_socket_def high_bit)

lemma get_real_fd_id: "0 \<le> sint fd \<Longrightarrow> get_real_fd fd = fd"
proof -
  assume "0 \<le> sint fd"
  then have "\<not> bit fd 31" using bit_last_iff [of fd] by simp
  then have "bit fd n \<Longrightarrow> n < 31" for n
    using bit_imp_le_length [of fd n] by (cases "n = 31") auto
  then show ?thesis by (auto simp: get_real_fd_def bit_eq_iff [where 'a = "32 word"] bit_simps bit_low)
qed

text \<open>Marking a handle and taking the mark off again.\<close>

lemma marked_fd:
  assumes "0 \<le> sint fh"
  shows "sint (fh + 0x80000000) = sint fh - 2 ^ 31" "get_real_fd (fh + 0x80000000) = fh"
    "\<not> is_socket (fh + 0x80000000)"
proof -
  have nb: "\<not> bit fh 31" using assms bit_last_iff [of fh] by simp
  have dis: "fh AND 0x80000000 = 0" using assms by (simp add: high_bit)
  then have o: "fh + 0x80000000 = fh OR 0x80000000"
    by (simp add: disjunctive_add bit_eq_iff [where 'a = "32 word"] bit_simps)
  have "bit fh n \<Longrightarrow> n < 31" for n
    using bit_imp_le_length [of fh n] nb by (cases "n = 31") auto
  then show g: "get_real_fd (fh + 0x80000000) = fh"
    unfolding o by (auto simp: get_real_fd_def bit_eq_iff [where 'a = "32 word"] bit_simps bit_low bit_high)
  have neg: "sint (fh + 0x80000000) < 0"
    using bit_last_iff [of "fh + 0x80000000"] unfolding o by (simp add: bit_simps bit_high)
  then show "\<not> is_socket (fh + 0x80000000)" by (simp add: is_socket_iff)
  show "sint (fh + 0x80000000) = sint fh - 2 ^ 31"
    using neg assms sint_lt [of fh] by (simp add: sint_word_ariths signed_take_bit_int_eq_self)
qed

text \<open>A concrete system for the witnesses: one file is open as 3, every socket call fails with
  \<open>WSAEWOULDBLOCK\<close>, every other call succeeds.\<close>

definition demo_api :: "unit winapi" where
  "demo_api = \<lparr>w_connect = (\<lambda>_ _ s. (-1, s)), w_closesocket = (\<lambda>_ s. (-1, s)),
     w_recv = (\<lambda>_ _ s. ((-1, []), s)), w_send = (\<lambda>_ _ _ s. (-1, s)),
     w_getsockopt = (\<lambda>_ _ _ _ s. ((-1, []), s)), w_setsockopt = (\<lambda>_ _ _ _ s. (-1, s)),
     WSAGetLastError = (\<lambda>_. WSAEWOULDBLOCK), MoveFileEx = (\<lambda>_ _ s. (True, s)),
     GetLastError = (\<lambda>_. WIN_other 0), c_open = (\<lambda>_ _ _ s. (3, s)), c_close = (\<lambda>_ s. (0, s)),
     c_read = (\<lambda>_ n s. ((0, []), s)), c_write = (\<lambda>_ _ n s. (int n, s)), c_fopen = (\<lambda>_ _ s. (Ref 7, s)),
     c_fdopen = (\<lambda>_ _ s. (Ref 7, s)), c_fstat = (\<lambda>_ s. ((0, 0), s)), c_chsize = (\<lambda>_ _ s. (0, s))\<rparr>"

definition demo_flags :: open_flags where
  "demo_flags = \<lparr>O_BINARY = 0x8000, O_NOINHERIT = 0x80, O_CREAT = 0x100\<rparr>"

definition osys0 :: "unit osys" where
  "osys0 = \<lparr>oserr = None, world = ()\<rparr>"

text \<open>C14. A file opened by \<open>posix_open\<close> has a descriptor with the high bit set, which is never
  taken for a socket: reading, writing, closing and the other file operations on it call the C
  runtime with exactly the handle that was opened, with counts cut to \<open>INT_MAX\<close>. Descriptors
  from 3 on without the bit are sockets.\<close>

theorem posix_open_descriptor_roundtrip:
  assumes "posix_open api k path flags arg s = (fd, s')"
    and "fst (c_open api path (win_flags k flags) (if flags AND O_CREAT k \<noteq> 0 then arg else 0) s) = fh"
    and "0 \<le> sint fh"
  shows "sint fd = sint fh - 2 ^ 31 \<and> \<not> is_socket fd \<and> get_real_fd fd = fh
    \<and> posix_read api fd n t = c_read api fh (min n (2 ^ 31 - 1)) t
    \<and> posix_write api fd bs n t = c_write api fh bs (min n (2 ^ 31 - 1)) t
    \<and> posix_close api fd t = c_close api fh t
    \<and> posix_fdopen api fd mode t = c_fdopen api fh mode t
    \<and> libressl_fstat api fd t = c_fstat api fh t \<and> ftruncate api fd len t = c_chsize api fh len t"
proof -
  have "fh \<noteq> -1" using assms(3) by auto
  then have fd: "fd = fh + 0x80000000"
    using assms(1,2) by (auto simp: posix_open_def Let_def split: prod.splits)
  have "clamp_count n = min n (2 ^ 31 - 1)" by (simp add: clamp_count_def INT_MAX_def min_def)
  then show ?thesis
    using marked_fd [OF assms(3)]
    by (simp add: fd posix_read_def posix_write_def posix_close_def posix_fdopen_def libressl_fstat_def
        ftruncate_def)
qed

theorem posix_open_descriptor_roundtrip_witness:
  "posix_read demo_api (fst (posix_open demo_api demo_flags ''f'' 0 0 osys0)) 10 osys0
     = c_read demo_api 3 10 osys0"
  using posix_open_descriptor_roundtrip [of demo_api demo_flags "''f''" 0 0 osys0
      "fst (posix_open demo_api demo_flags ''f'' 0 0 osys0)"
      "snd (posix_open demo_api demo_flags ''f'' 0 0 osys0)" 3 10 osys0]
  by (simp add: demo_api_def)

text \<open>What the caller of a socket operation sees: the result of Winsock when it succeeded, with
  \<open>errno\<close> untouched, and otherwise -1 with an \<open>errno\<close>, and nothing else changed.\<close>

definition reports :: "int \<times> 'w osys \<Rightarrow> int \<times> 'w osys \<Rightarrow> bool" where
  "reports r r' \<longleftrightarrow>
     (if fst r = -1 then fst r' = -1 \<and> (\<exists>e. snd r' = (snd r)\<lparr>oserr := Some e\<rparr>) else r' = r)"

lemma wsa_errno_reports: "fst r = -1 \<Longrightarrow> reports r (wsa_errno err (snd r))"
  by (cases err) (auto simp: reports_def)

lemma wsa_errno_EAGAIN: "oserr (snd (wsa_errno err s)) = Some EAGAIN \<longleftrightarrow> err = WSAEWOULDBLOCK"
  by (cases err) auto

text \<open>Socket errors: connecting, reading, writing and closing report a failure of Winsock as -1
  with \<open>errno\<close> set, and its success unchanged. A connection in progress is
  \<open>EINPROGRESS\<close>, never \<open>EAGAIN\<close>; for the other operations \<open>EAGAIN\<close> is exactly
  \<open>WSAEWOULDBLOCK\<close>.\<close>

theorem posix_socket_errors:
  assumes "3 \<le> sint sd"
  shows "reports (w_closesocket api sd s) (posix_close api sd s)
    \<and> reports (w_send api sd bs (clamp_count n) s) (posix_write api sd bs n s)
    \<and> reports (apfst fst (w_recv api sd (clamp_count n) s)) (apfst fst (posix_read api sd n s))
    \<and> reports (w_connect api sd addr s) (posix_connect api sd addr s)
    \<and> (fst (w_connect api sd addr s) = -1 \<longrightarrow>
         oserr (snd (posix_connect api sd addr s)) \<noteq> Some EAGAIN
         \<and> (WSAGetLastError api (snd (w_connect api sd addr s)) = WSAEWOULDBLOCK \<longrightarrow>
              oserr (snd (posix_connect api sd addr s)) = Some EINPROGRESS))
    \<and> (fst (w_send api sd bs (clamp_count n) s) = -1 \<longrightarrow>
         (oserr (snd (posix_write api sd bs n s)) = Some EAGAIN \<longleftrightarrow>
          WSAGetLastError api (snd (w_send api sd bs (clamp_count n) s)) = WSAEWOULDBLOCK))"
proof (intro conjI)
  note sock = is_socket_iff [THEN iffD2, OF assms]
  show "reports (w_closesocket api sd s) (posix_close api sd s)"
    using wsa_errno_reports [of "w_closesocket api sd s"] sock
    by (auto simp: posix_close_def reports_def split: prod.splits)
  show "reports (w_send api sd bs (clamp_count n) s) (posix_write api sd bs n s)"
    using wsa_errno_reports [of "w_send api sd bs (clamp_count n) s"] sock
    by (auto simp: posix_write_def reports_def split: prod.splits)
  show "reports (apfst fst (w_recv api sd (clamp_count n) s)) (apfst fst (posix_read api sd n s))"
    using wsa_errno_reports [of "apfst fst (w_recv api sd (clamp_count n) s)"] sock
    by (cases "w_recv api sd (clamp_count n) s") (auto simp: posix_read_def reports_def case_prod_beta)
  show "reports (w_connect api sd addr s) (posix_connect api sd addr s)"
    using wsa_errno_reports [of "w_connect api sd addr s"]
    by (auto simp: posix_connect_def reports_def Let_def split: prod.splits)
  show "fst (w_connect api sd addr s) = -1 \<longrightarrow>
         oserr (snd (posix_connect api sd addr s)) \<noteq> Some EAGAIN
         \<and> (WSAGetLastError api (snd (w_connect api sd addr s)) = WSAEWOULDBLOCK \<longrightarrow>
              oserr (snd (posix_connect api sd addr s)) = Some EINPROGRESS)"
    by (auto simp: posix_connect_def Let_def wsa_errno_EAGAIN split: prod.splits)
  show "fst (w_send api sd bs (clamp_count n) s) = -1 \<longrightarrow>
         (oserr (snd (posix_write api sd bs n s)) = Some EAGAIN \<longleftrightarrow>
          WSAGetLastError api (snd (w_send api sd bs (clamp_count n) s)) = WSAEWOULDBLOCK)"
    using sock by (auto simp: posix_write_def wsa_errno_EAGAIN split: prod.splits)
qed

theorem posix_socket_errors_witness:
  "oserr (snd (posix_connect demo_api 5 ''addr'' osys0)) = Some EINPROGRESS
    \<and> oserr (snd (posix_write demo_api 5 ''x'' 1 osys0)) = Some EAGAIN"
  using posix_socket_errors [of 5 demo_api osys0 "''x''" 1 "''addr''"] by (simp add: demo_api_def)

lemma win_flags_eq:
  assumes "O_BINARY k AND O_CLOEXEC = 0" "O_BINARY k AND O_NONBLOCK = 0" "O_NOINHERIT k AND O_NONBLOCK = 0"
  shows "win_flags k flags = ((flags AND NOT (O_CLOEXEC OR O_NONBLOCK)) OR O_BINARY k)
    OR (if flags AND O_CLOEXEC \<noteq> 0 then O_NOINHERIT k else 0)"
proof -
  have bits: "\<not> (bit (O_BINARY k) n \<and> bit O_CLOEXEC n)" "\<not> (bit (O_BINARY k) n \<and> bit O_NONBLOCK n)"
    "\<not> (bit (O_NOINHERIT k) n \<and> bit O_NONBLOCK n)" for n
    using assms by (metis bit_and_iff bit_0_eq bot_apply bot_bool_def)+
  have "(flags OR O_BINARY k) AND O_CLOEXEC = flags AND O_CLOEXEC"
    by (rule bit_word_eqI) (use bits in \<open>auto simp: bit_simps\<close>)
  moreover have "((flags OR O_BINARY k) AND NOT O_CLOEXEC OR O_NOINHERIT k) AND NOT O_NONBLOCK
      = ((flags AND NOT (O_CLOEXEC OR O_NONBLOCK)) OR O_BINARY k) OR O_NOINHERIT k"
    by (rule bit_word_eqI) (use bits in \<open>auto simp: bit_simps\<close>)
  moreover have "flags AND O_CLOEXEC = 0 \<Longrightarrow> (flags OR O_BINARY k) AND NOT O_NONBLOCK
      = ((flags AND NOT (O_CLOEXEC OR O_NONBLOCK)) OR O_BINARY k)"
  proof -
    assume "flags AND O_CLOEXEC = 0"
    then have "\<not> (bit flags n \<and> bit O_CLOEXEC n)" for n by (metis bit_and_iff bit_0_eq bot_apply bot_bool_def)
    then show ?thesis by (intro bit_word_eqI) (use bits in \<open>auto simp: bit_simps\<close>)
  qed
  ultimately show ?thesis by (simp add: win_flags_def Let_def)
qed

lemma c_string_append_NUL: "NUL \<notin> set cs \<Longrightarrow> c_string (cs @ NUL # rest) = cs"
  by (auto simp: c_string_def takeWhile_append)

lemma posix_fopen_text:
  assumes "crt_ok m" "NUL \<notin> set mode" "CHR ''b'' \<notin> set mode" "\<forall>n. \<not> oom m n" "int (length mode) + 1 < INT_MAX"
  shows "\<exists>m'. posix_fopen api path mode m s =
      Some (fst (c_fopen api path (mode @ ''b'') s), m', snd (c_fopen api path (mode @ ''b'') s))
    \<and> heap m' = heap m"
proof -
  let ?vsn = "snprintf_text (mode @ ''b'')"
  obtain ret p m1 where v: "vasprintf ?vsn m = Some (ret, p, m1)"
      "ret = -1 \<and> p = Null \<and> errno m1 = Some ENOMEM \<and> heap m1 = heap m \<or> formatted_in ?vsn (heap m) ret p (heap m1)"
    using vasprintf_defined [OF assms(1) snprintf_text_ok(1)] by blast
  have "ret \<noteq> -1"
    by (rule vasprintf_success [OF assms(4) snprintf_text_ok(2) _ assms(1) v(1) snprintf_text_ok(1)])
      (use assms(5) in simp)
  with v(2) obtain a bs where f: "p = Ref a" "heap m a = None" "heap m1 = (heap m)(a \<mapsto> bs)"
      "nat ret < length bs" "fst (?vsn (length bs)) = ret" "take (length (snd (?vsn (length bs)))) bs = snd (?vsn (length bs))"
    by (auto simp: formatted_in_def)
  then have "length (mode @ ''b'') < length bs" by (auto simp: snprintf_text_def)
  then have "snd (?vsn (length bs)) = (mode @ ''b'') @ [NUL]" by (auto simp: snprintf_text_def)
  then have "take (length ((mode @ ''b'') @ [NUL])) bs = (mode @ ''b'') @ [NUL]" using f(6) by metis
  then obtain rest where "bs = (mode @ ''b'') @ NUL # rest"
    by (metis append.assoc append_Cons append_Nil append_take_drop_id)
  then have "c_string bs = mode @ ''b''" using c_string_append_NUL [of "mode @ ''b''"] assms(2) by simp
  moreover have "strchr mode (CHR ''b'') = None" using assms(3) by (simp add: strchr_None)
  moreover have "(heap m)(a := None) = heap m" using heap_trip [of "heap m" a] f(2) by simp
  ultimately show ?thesis
    using v(1) \<open>ret \<noteq> -1\<close> f(1-3) by (simp add: posix_fopen_def asprintf_def case_prod_beta)
qed

text \<open>Files are opened in binary mode and not inherited as text: \<open>posix_open\<close> passes the
  flags with \<open>O_BINARY\<close>, without the POSIX-only \<open>O_CLOEXEC\<close> and \<open>O_NONBLOCK\<close>, with
  \<open>O_NOINHERIT\<close> exactly for \<open>O_CLOEXEC\<close>, and every other flag as it was;
  \<open>posix_fopen\<close> adds the missing \<open>b\<close> to the mode and leaves no block allocated.\<close>

theorem posix_opens_binary:
  assumes "O_BINARY k AND O_CLOEXEC = 0" "O_BINARY k AND O_NONBLOCK = 0" "O_NOINHERIT k AND O_NONBLOCK = 0"
    and "crt_ok m" "NUL \<notin> set mode" "CHR ''b'' \<notin> set mode" "\<forall>n. \<not> oom m n" "int (length mode) + 1 < INT_MAX"
  shows "win_flags k flags = ((flags AND NOT (O_CLOEXEC OR O_NONBLOCK)) OR O_BINARY k)
      OR (if flags AND O_CLOEXEC \<noteq> 0 then O_NOINHERIT k else 0)
    \<and> (\<exists>m'. posix_fopen api path mode m s =
          Some (fst (c_fopen api path (mode @ ''b'') s), m', snd (c_fopen api path (mode @ ''b'') s))
        \<and> heap m' = heap m)"
  using win_flags_eq [OF assms(1-3)] posix_fopen_text [OF assms(4-8)] by blast

theorem posix_opens_binary_witness:
  "win_flags demo_flags 0x200000 = ((0x200000 AND NOT (O_CLOEXEC OR O_NONBLOCK)) OR O_BINARY demo_flags)
      OR (if 0x200000 AND O_CLOEXEC \<noteq> 0 then O_NOINHERIT demo_flags else 0)
    \<and> (\<exists>m'. posix_fopen demo_api ''f'' ''r'' crt0 osys0 =
          Some (fst (c_fopen demo_api ''f'' (''r'' @ ''b'') osys0), m', snd (c_fopen demo_api ''f'' (''r'' @ ''b'') osys0))
        \<and> heap m' = heap crt0)"
  by (rule posix_opens_binary)
    (simp_all add: demo_flags_def O_CLOEXEC_def O_NONBLOCK_def crt_ok_def crt0_def INT_MAX_def)

lemma fgets_bytes_line:
  "CHR 0x0A \<notin> set l \<Longrightarrow> length l < n \<Longrightarrow> fgets_bytes n (l @ CHR 0x0A # cs) = l @ [CHR 0x0A]"
proof (induction l arbitrary: n)
  case Nil
  then show ?case by (cases n) auto
next
  case (Cons c l)
  then show ?case by (cases n) auto
qed

lemma c_string_id: "NUL \<notin> set cs \<Longrightarrow> c_string (cs @ [NUL]) = cs"
  using c_string_append_NUL [of cs "[]"] by simp

text \<open>\<open>posix_fgets\<close> is always defined, and turns a line that ends with a carriage return and
  a newline into one that ends with the newline alone; a line that ends with a newline alone is
  returned as it is.\<close>

theorem posix_fgets_strips_cr:
  assumes "CHR 0x0A \<notin> set l" "NUL \<notin> set l" "length l + 2 < n"
  shows "posix_fgets n (l @ CHR 0x0D # CHR 0x0A # cs) = Some (Some (l @ [CHR 0x0A]), cs)
    \<and> (l = [] \<or> last l \<noteq> CHR 0x0D \<longrightarrow> posix_fgets n (l @ CHR 0x0A # cs) = Some (Some (l @ [CHR 0x0A]), cs))"
proof (intro conjI impI)
  have f: "fgets n (l @ CHR 0x0D # CHR 0x0A # cs) = (Some (l @ [CHR 0x0D, CHR 0x0A]), cs)"
    using fgets_bytes_line [of "l @ [CHR 0x0D]" "n - 1" cs] assms by (simp add: fgets_def)
  have c: "c_string (l @ [CHR 0x0D, CHR 0x0A, NUL]) = l @ [CHR 0x0D, CHR 0x0A]"
    "c_string (l @ [CHR 0x0A, NUL, NUL]) = l @ [CHR 0x0A]"
    using c_string_append_NUL [of "l @ [CHR 0x0D, CHR 0x0A]" "[]"]
      c_string_append_NUL [of "l @ [CHR 0x0A]" "[NUL]"] assms(2) by simp_all
  have "aget (l @ [CHR 0x0D, CHR 0x0A, NUL]) (int (length l)) = Some (CHR 0x0D)"
    "aget (l @ [CHR 0x0D, CHR 0x0A, NUL]) (1 + int (length l)) = Some (CHR 0x0A)"
    "aset (l @ [CHR 0x0D, CHR 0x0A, NUL]) (int (length l)) (CHR 0x0A) = Some (l @ [CHR 0x0A, CHR 0x0A, NUL])"
    "aset (l @ [CHR 0x0A, CHR 0x0A, NUL]) (1 + int (length l)) NUL = Some (l @ [CHR 0x0A, NUL, NUL])"
    by (auto simp: aget_def aset_def in_range_def nth_append list_update_append nat_add_distrib)
  then show "posix_fgets n (l @ CHR 0x0D # CHR 0x0A # cs) = Some (Some (l @ [CHR 0x0A]), cs)"
    using f c by (simp add: posix_fgets_def Let_def)
next
  assume l: "l = [] \<or> last l \<noteq> CHR 0x0D"
  have f: "fgets n (l @ CHR 0x0A # cs) = (Some (l @ [CHR 0x0A]), cs)"
    using fgets_bytes_line [of l "n - 1" cs] assms by (simp add: fgets_def)
  have c: "c_string (l @ [CHR 0x0A, NUL]) = l @ [CHR 0x0A]"
    using c_string_id [of "l @ [CHR 0x0A]"] assms(2) by simp
  show "posix_fgets n (l @ CHR 0x0A # cs) = Some (Some (l @ [CHR 0x0A]), cs)"
  proof (cases l rule: rev_cases)
    case Nil
    then show ?thesis using f c by (simp add: posix_fgets_def Let_def)
  next
    case (snoc l' x)
    then have "aget (l @ [CHR 0x0A, NUL]) (int (length l) - 1) = Some x"
      "aget (l @ [CHR 0x0A, NUL]) (int (length l)) = Some (CHR 0x0A)"
      by (auto simp: aget_def in_range_def nth_append)
    then show ?thesis using f c l snoc by (simp add: posix_fgets_def Let_def)
  qed
qed

theorem posix_fgets_strips_cr_witness:
  "posix_fgets 80 (''key'' @ CHR 0x0D # CHR 0x0A # ''next'') = Some (Some (''key'' @ [CHR 0x0A]), ''next'')"
  using posix_fgets_strips_cr [of "''key''" 80 "''next''"] by simp

text \<open>\<open>gettimeofday\<close>: for a file time of \<open>t\<close> seconds and \<open>ms\<close> milliseconds after the
  Unix epoch, before 2038, the result is \<open>t\<close> seconds and \<open>1000 ms\<close> microseconds.\<close>

theorem gettimeofday_unix_time:
  assumes "unat high * 2 ^ 32 + unat low = 116444736000000000 + t * 10000000 + unat ms * 10000"
    and "t < 2 ^ 31" "unat ms < 1000"
  shows "sint (tv_sec (gettimeofday low high ms)) = int t
    \<and> unat (tv_usec (gettimeofday low high ms)) = unat ms * 1000
    \<and> unat (tv_usec (gettimeofday low high ms)) < 1000000"
proof -
  let ?time = "(ucast low :: 64 word) + push_bit 32 (ucast high)"
  have lt: "unat high * 2 ^ 32 + unat low < 2 ^ 64"
    using assms by simp
  have "unat (ucast low :: 64 word) = unat low" "unat (ucast high :: 64 word) = unat high"
    using unsigned_less [of low, where ?'a = nat] unsigned_less [of high, where ?'a = nat]
    by (simp_all add: unsigned_ucast_eq take_bit_nat_eq_self_iff)
  moreover have "push_bit 32 (ucast high :: 64 word) = ucast high * 0x100000000"
    by (simp add: push_bit_eq_mult)
  moreover from calculation have "unat (ucast high * 0x100000000 :: 64 word) = unat high * 0x100000000"
    using lt unat_mult_lem [of "ucast high :: 64 word" "0x100000000"] by simp
  ultimately have "unat ?time = unat high * 2 ^ 32 + unat low"
    using lt unat_add_lem [of "ucast low :: 64 word" "ucast high * 0x100000000"] by simp
  then have ut: "unat ?time = 116444736000000000 + t * 10000000 + unat ms * 10000"
    using assms(1) by simp
  have "unat (?time - EPOCH) = t * 10000000 + unat ms * 10000"
    using ut by (simp add: EPOCH_def unat_sub word_le_nat_alt)
  then have d: "unat ((?time - EPOCH) div 10000000) = t"
    using assms(3) by (simp add: unat_div)
  then have "unat (tv_sec (gettimeofday low high ms)) = t"
    using assms(2) by (simp add: gettimeofday_def Let_def unsigned_ucast_eq take_bit_nat_eq_self_iff)
  moreover have "unat (tv_usec (gettimeofday low high ms)) = unat ms * 1000"
    using assms(3) by (simp add: gettimeofday_def Let_def unat_word_ariths unsigned_ucast_eq take_bit_nat_eq_self)
  ultimately show ?thesis using assms(2,3) by (simp add: sint_uint uint_nat signed_take_bit_int_eq_self)
qed

theorem gettimeofday_unix_time_witness:
  "sint (tv_sec (gettimeofday 0xD53E8000 0x019DB1DE 0)) = 0"
  using gettimeofday_unix_time [of "0x019DB1DE" "0xD53E8000" 0 0] by simp

end
