(* ===== verification/Poll_Win.thy ===== *)
theory Poll_Win
  imports Posix_Win
begin

text \<open>
  \<open>poll\<close> for Windows (\<open>apps/openssl/compat/poll_win.c\<close>, \<open>include/compat/poll.h\<close>), which
  alternates between \<open>WaitForMultipleObjects\<close> for files and \<open>select\<close> for sockets.

  The functions of Windows are the fields of \<open>pollapi\<close>. Wait codes are 32-bit words, as
  \<open>DWORD\<close>; the event flags fit in 16 bits, as \<open>short\<close>. A descriptor set holds at most
  \<open>FD_SETSIZE\<close> sockets, as in Winsock. An index outside \<open>handles\<close> and an overflow of
  \<open>int\<close> are undefined, and so is a call that never returns.
\<close>

section \<open>Parameters and data\<close>

record 'w pollapi =
  p_recv_peek :: "fd \<Rightarrow> bool \<Rightarrow> 'w osys \<Rightarrow> int \<times> 'w osys"
  p_WSAGetLastError :: "'w osys \<Rightarrow> wsa_error"
  p_WSAEnumNetworkEvents :: "fd \<Rightarrow> 'w osys \<Rightarrow> int \<times> 'w osys"
  p_select :: "fd list \<Rightarrow> fd list \<Rightarrow> fd list \<Rightarrow> int \<Rightarrow> 'w osys
    \<Rightarrow> (int \<times> fd list \<times> fd list \<times> fd list) \<times> 'w osys"
  p_WaitForMultipleObjects :: "nat list \<Rightarrow> 'w osys \<Rightarrow> 32 word \<times> 'w osys"
  p_get_osfhandle :: "fd \<Rightarrow> 'w osys \<Rightarrow> nat"
  p_std_input :: "'w osys \<Rightarrow> nat"
  p_PeekConsoleInput :: "nat \<Rightarrow> 'w osys \<Rightarrow> (bool \<times> bool) \<times> 'w osys"
  p_ReadConsoleInput :: "nat \<Rightarrow> 'w osys \<Rightarrow> 'w osys"

record pollfd =
  pfd :: fd
  events :: "16 word"
  revents :: "16 word"

definition POLLIN :: "16 word" where "POLLIN = 0x001"
definition POLLPRI :: "16 word" where "POLLPRI = 0x002"
definition POLLOUT :: "16 word" where "POLLOUT = 0x004"
definition POLLERR :: "16 word" where "POLLERR = 0x008"
definition POLLHUP :: "16 word" where "POLLHUP = 0x010"
definition POLLRDNORM :: "16 word" where "POLLRDNORM = 0x040"
definition POLLRDBAND :: "16 word" where "POLLRDBAND = 0x080"
definition POLLWRNORM :: "16 word" where "POLLWRNORM = 0x100"
definition POLLWRBAND :: "16 word" where "POLLWRBAND = 0x200"

definition WAIT_FAILED :: "32 word" where "WAIT_FAILED = 0xFFFFFFFF"

definition chk_int :: "int \<Rightarrow> int option" where
  "chk_int x = (if - (2 ^ 31) \<le> x \<and> x < 2 ^ 31 then Some x else None)"

definition FD_SET :: "nat \<Rightarrow> fd \<Rightarrow> fd list \<Rightarrow> fd list" where
  "FD_SET setsize fd fds =
     (if fd \<in> set fds then fds else if length fds < setsize then fds @ [fd] else fds)"

section \<open>The state of one descriptor\<close>

definition conn_is_closed :: "'w pollapi \<Rightarrow> fd \<Rightarrow> 'w osys \<Rightarrow> bool \<times> 'w osys" where
  "conn_is_closed api fd s =
     (case p_recv_peek api fd False s of (ret, s) \<Rightarrow>
        (ret = -1 \<and> p_WSAGetLastError api s \<in> {WSAECONNABORTED, WSAECONNRESET, WSAENETRESET, WSAESHUTDOWN}, s))"

definition conn_has_oob_data :: "'w pollapi \<Rightarrow> fd \<Rightarrow> 'w osys \<Rightarrow> bool \<times> 'w osys" where
  "conn_has_oob_data api fd s = (case p_recv_peek api fd True s of (ret, s) \<Rightarrow> (ret = 1, s))"

definition poll_is_socket :: "'w pollapi \<Rightarrow> fd \<Rightarrow> 'w osys \<Rightarrow> bool \<times> 'w osys" where
  "poll_is_socket api fd s =
     (if sint fd < 3 then (False, s)
      else case p_WSAEnumNetworkEvents api fd s of (rc, s) \<Rightarrow> (rc = 0, s))"

definition wants_read :: "16 word \<Rightarrow> bool" where
  "wants_read ev \<longleftrightarrow> ev AND (POLLIN OR POLLRDNORM OR POLLRDBAND) \<noteq> 0"

definition wants_write :: "16 word \<Rightarrow> bool" where
  "wants_write ev \<longleftrightarrow> ev AND (POLLOUT OR POLLWRNORM OR POLLWRBAND) \<noteq> 0"

definition compute_select_revents ::
    "'w pollapi \<Rightarrow> fd \<Rightarrow> 16 word \<Rightarrow> fd list \<Rightarrow> fd list \<Rightarrow> fd list \<Rightarrow> 'w osys \<Rightarrow> 16 word \<times> 'w osys" where
  "compute_select_revents api fd ev rfds wfds efds s =
     (let rc = 0;
          (rc, s) = (if wants_read ev \<and> fd \<in> set rfds
                     then (case conn_is_closed api fd s of (closed, s) \<Rightarrow>
                             (if closed then rc OR POLLHUP else rc OR (POLLIN OR POLLRDNORM), s))
                     else (rc, s));
          rc = (if wants_write ev \<and> fd \<in> set wfds then rc OR POLLOUT else rc)
      in if fd \<in> set efds
         then (case conn_is_closed api fd s of (closed, s) \<Rightarrow>
                 if closed then (rc OR POLLHUP, s)
                 else case conn_has_oob_data api fd s of (oob, s) \<Rightarrow>
                        (if oob then rc OR (POLLRDBAND OR POLLPRI) else rc OR POLLERR, s))
         else (rc, s))"

text \<open>\<open>wait_rc\<close> is compared as an unsigned value with \<open>WAIT_OBJECT_0\<close>, which is 0.\<close>

definition compute_wait_revents ::
    "'w pollapi \<Rightarrow> nat \<Rightarrow> 16 word \<Rightarrow> nat \<Rightarrow> 32 word \<Rightarrow> 'w osys \<Rightarrow> 16 word \<times> 'w osys" where
  "compute_wait_revents api h ev object wait_rc s =
     (let rc = 0;
          rc = (if ev AND (POLLOUT OR POLLWRNORM) \<noteq> 0 then rc OR POLLOUT else rc)
      in if of_nat object = wait_rc \<and> ev AND (POLLIN OR POLLRDNORM) \<noteq> 0
         then
           if h = p_std_input api s
           then (case p_PeekConsoleInput api h s of ((ok, key_down), s) \<Rightarrow>
                   if ok
                   then if key_down then (rc OR POLLIN, s) else (rc, p_ReadConsoleInput api h s)
                   else (rc OR POLLIN, s))
           else (rc OR POLLIN, s)
         else (rc, s))"

fun wsa_select_errno :: "wsa_error \<Rightarrow> 'w osys \<Rightarrow> int \<times> 'w osys" where
  "wsa_select_errno WSAEINTR s = (-1, set_oserr EINTR s)"
| "wsa_select_errno WSAEINPROGRESS s = (-1, set_oserr EINTR s)"
| "wsa_select_errno WSAEFAULT s = (-1, set_oserr EFAULT s)"
| "wsa_select_errno WSAEINVAL s = (-1, set_oserr EINVAL s)"
| "wsa_select_errno WSANOTINITIALISED s = (-1, set_oserr EPERM s)"
| "wsa_select_errno WSAENETDOWN s = (-1, set_oserr ENOMEM s)"
| "wsa_select_errno _ s = (-1, set_oserr EIO s)"

section \<open>The three parts of poll\<close>

record poll_sets =
  rfds :: "fd list"
  wfds :: "fd list"
  efds :: "fd list"
  num_sockets :: nat
  handles :: "nat list"

definition no_sets :: poll_sets where
  "no_sets = \<lparr>rfds = [], wfds = [], efds = [], num_sockets = 0, handles = []\<rparr>"

definition add_socket :: "nat \<Rightarrow> pollfd \<Rightarrow> poll_sets \<Rightarrow> poll_sets" where
  "add_socket setsize p k =
     (let k = k\<lparr>efds := FD_SET setsize (pfd p) (efds k)\<rparr>;
          k = (if wants_read (events p) then k\<lparr>rfds := FD_SET setsize (pfd p) (rfds k)\<rparr> else k);
          k = (if wants_write (events p) then k\<lparr>wfds := FD_SET setsize (pfd p) (wfds k)\<rparr> else k)
      in k\<lparr>num_sockets := num_sockets k + 1\<rparr>)"

text \<open>The first loop; \<open>None\<close> is the return with \<open>EINVAL\<close>.\<close>

fun poll_setup :: "'w pollapi \<Rightarrow> nat \<Rightarrow> pollfd list \<Rightarrow> poll_sets \<Rightarrow> 'w osys \<Rightarrow> poll_sets option \<times> 'w osys" where
  "poll_setup api setsize [] k s = (Some k, s)"
| "poll_setup api setsize (p # ps) k s =
     (if sint (pfd p) < 0 then poll_setup api setsize ps k s
      else case poll_is_socket api (pfd p) s of (sock, s) \<Rightarrow>
        if sock
        then
          if num_sockets k \<ge> setsize then (None, set_oserr EINVAL s)
          else poll_setup api setsize ps (add_socket setsize p k) s
        else
          if length (handles k) \<ge> setsize then (None, set_oserr EINVAL s)
          else poll_setup api setsize ps (k\<lparr>handles := handles k @ [p_get_osfhandle api (pfd p) s]\<rparr>) s)"

text \<open>One pass of the waiting loop. \<open>Inl\<close> leaves the loop: with a return from the function
  (\<open>Inl\<close>), or with \<open>wait_rc\<close> and the sets that \<open>select\<close> left (\<open>Inr\<close>). \<open>Inr\<close> is
  another pass, with \<open>timespent_ms\<close>, \<open>looptime_ms\<close> and \<open>wait_rc\<close>.\<close>

type_synonym poll_out = "int + 32 word \<times> fd list \<times> fd list \<times> fd list"

definition poll_pass ::
    "'w pollapi \<Rightarrow> poll_sets \<Rightarrow> int \<Rightarrow> int \<Rightarrow> int \<Rightarrow> 32 word \<Rightarrow> 'w osys
     \<Rightarrow> ((poll_out + int \<times> int \<times> 32 word) \<times> 'w osys) option" where
  "poll_pass api k timeout_ms timespent_ms looptime_ms wait_rc s = do {
     let looptime_ms =
       (if timeout_ms \<noteq> -1 \<and> timeout_ms - timespent_ms < looptime_ms
        then timeout_ms - timespent_ms else looptime_ms);
     tv_usec \<leftarrow> chk_int (looptime_ms * 1000);
     let (wait_rc, s) =
       (if handles k \<noteq> [] then p_WaitForMultipleObjects api (handles k) s else (wait_rc, s));
     if handles k \<noteq> [] \<and> wait_rc = WAIT_FAILED
     then Some (Inl (Inl (-1)), set_oserr ENOMEM s)
     else do {
       let handle_signaled = (handles k \<noteq> [] \<and> wait_rc \<le> of_nat (length (handles k)) - 1);
       let tv_usec = (if handle_signaled then 0 else tv_usec);
       let ((rc, r, w, e), s) = p_select api (rfds k) (wfds k) (efds k) tv_usec s;
       if \<not> handle_signaled \<and> rc = SOCKET_ERROR
       then (case wsa_select_errno (p_WSAGetLastError api s) s of (rc, s) \<Rightarrow> Some (Inl (Inl rc), s))
       else if handle_signaled \<or> num_sockets k \<noteq> 0 \<and> rc > 0
       then Some (Inl (Inr (wait_rc, r, w, e)), s)
       else do {
         timespent_ms \<leftarrow> chk_int (timespent_ms + looptime_ms);
         if timeout_ms = -1 \<or> timespent_ms < timeout_ms
         then Some (Inr (timespent_ms, looptime_ms, wait_rc), s)
         else Some (Inl (Inr (wait_rc, r, w, e)), s)
       }
     }
   }"

partial_function (option) poll_loop ::
    "'w pollapi \<Rightarrow> poll_sets \<Rightarrow> int \<Rightarrow> int \<Rightarrow> int \<Rightarrow> 32 word \<Rightarrow> 'w osys \<Rightarrow> (poll_out \<times> 'w osys) option" where
  "poll_loop api k timeout_ms timespent_ms looptime_ms wait_rc s = do {
     (out, s) \<leftarrow> poll_pass api k timeout_ms timespent_ms looptime_ms wait_rc s;
     case out of
       Inl r \<Rightarrow> Some (r, s)
     | Inr (timespent_ms, looptime_ms, wait_rc) \<Rightarrow>
         poll_loop api k timeout_ms timespent_ms looptime_ms wait_rc s
   }"

text \<open>The last loop; \<open>n\<close> is \<open>num_handles\<close>. The result is the updated array and the number
  of descriptors with events.\<close>

fun poll_results ::
    "'w pollapi \<Rightarrow> nat list \<Rightarrow> 32 word \<times> fd list \<times> fd list \<times> fd list \<Rightarrow> pollfd list \<Rightarrow> nat \<Rightarrow> 'w osys
     \<Rightarrow> (int \<times> pollfd list \<times> 'w osys) option" where
  "poll_results api hs (wait_rc, r, w, e) [] n s = Some (0, [], s)"
| "poll_results api hs (wait_rc, r, w, e) (p # ps) n s =
     (let p = p\<lparr>revents := 0\<rparr>
      in if sint (pfd p) < 0
         then do {
           (rc, ps, s) \<leftarrow> poll_results api hs (wait_rc, r, w, e) ps n s;
           Some (rc, p # ps, s)
         }
         else case poll_is_socket api (pfd p) s of (sock, s) \<Rightarrow>
           if sock
           then (case compute_select_revents api (pfd p) (events p) r w e s of (ev, s) \<Rightarrow> do {
             (rc, ps, s) \<leftarrow> poll_results api hs (wait_rc, r, w, e) ps n s;
             Some (if ev \<noteq> 0 then rc + 1 else rc, p\<lparr>revents := ev\<rparr> # ps, s)
           })
           else if n < length hs
           then (case compute_wait_revents api (hs ! n) (events p) n wait_rc s of (ev, s) \<Rightarrow> do {
             (rc, ps, s) \<leftarrow> poll_results api hs (wait_rc, r, w, e) ps (n + 1) s;
             Some (if ev \<noteq> 0 then rc + 1 else rc, p\<lparr>revents := ev\<rparr> # ps, s)
           })
           else None)"

text \<open>\<open>pfds\<close> is \<open>None\<close> for a null pointer, otherwise the \<open>nfds\<close> entries.\<close>

definition poll ::
    "'w pollapi \<Rightarrow> nat \<Rightarrow> pollfd list option \<Rightarrow> int \<Rightarrow> 'w osys \<Rightarrow> (int \<times> pollfd list \<times> 'w osys) option" where
  "poll api setsize pfds timeout_ms s =
     (case pfds of
        None \<Rightarrow> Some (-1, [], set_oserr EINVAL s)
      | Some ps \<Rightarrow>
          if ps = [] then Some (0, [], s)
          else case poll_setup api setsize ps no_sets s of
            (None, s) \<Rightarrow> Some (-1, ps, s)
          | (Some k, s) \<Rightarrow> do {
              let looptime_ms = (if timeout_ms > 100 \<or> timeout_ms = -1 then 100 else timeout_ms);
              (out, s) \<leftarrow> poll_loop api k timeout_ms 0 looptime_ms WAIT_FAILED s;
              case out of
                Inl rc \<Rightarrow> Some (rc, ps, s)
              | Inr sets \<Rightarrow> poll_results api (handles k) sets ps 0 s
            })"

section \<open>The waiting loop\<close>

text \<open>A function of the state that measures the time spent blocked: \<open>select\<close> blocks for at
  most its timeout, the other calls do not block.\<close>

definition clock_ok :: "'w pollapi \<Rightarrow> ('w osys \<Rightarrow> int) \<Rightarrow> bool" where
  "clock_ok api clk \<longleftrightarrow>
     (\<forall>s e. clk (s\<lparr>oserr := e\<rparr>) = clk s)
     \<and> (\<forall>r w e tv s. 0 \<le> tv \<longrightarrow> clk s \<le> clk (snd (p_select api r w e tv s))
          \<and> clk (snd (p_select api r w e tv s)) \<le> clk s + tv)
     \<and> (\<forall>hs s. clk (snd (p_WaitForMultipleObjects api hs s)) = clk s)
     \<and> (\<forall>fd s. clk (snd (p_WSAEnumNetworkEvents api fd s)) = clk s)
     \<and> (\<forall>fd b s. clk (snd (p_recv_peek api fd b s)) = clk s)
     \<and> (\<forall>h s. clk (snd (p_PeekConsoleInput api h s)) = clk s)
     \<and> (\<forall>h s. clk (p_ReadConsoleInput api h s) = clk s)"

lemma wsa_select_errno_result:
  "\<exists>e. wsa_select_errno err s = (-1, s\<lparr>oserr := Some e\<rparr>)"
  by (cases err) auto

definition pass_ok :: "int \<Rightarrow> int \<Rightarrow> int \<Rightarrow> poll_out + int \<times> int \<times> 32 word \<Rightarrow> 'w osys \<Rightarrow> bool" where
  "pass_ok timeout ts lt out s' \<longleftrightarrow>
     (case out of
        Inl (Inl rc) \<Rightarrow> rc = -1 \<and> oserr s' \<noteq> None
      | Inl (Inr _) \<Rightarrow> True
      | Inr (ts', lt', _) \<Rightarrow> ts' = ts + lt \<and> lt' = lt \<and> ts' < timeout)"

lemma poll_pass_ok:
  assumes "0 \<le> ts" "ts \<le> timeout" "0 \<le> looptime" "looptime \<le> 100" "timeout < 2 ^ 31"
    and lt: "lt = min looptime (timeout - ts)"
  shows "\<exists>out s'. poll_pass api k timeout ts looptime wait_rc s = Some (out, s') \<and> pass_ok timeout ts lt out s'
    \<and> (clock_ok api clk \<longrightarrow> clk s' \<le> clk s + lt * 1000)"
proof -
  have b: "0 \<le> lt" "lt \<le> 100" "ts + lt \<le> timeout" using assms by auto
  have l: "(if timeout \<noteq> -1 \<and> timeout - ts < looptime then timeout - ts else looptime) = lt"
    using assms by auto
  have c: "chk_int (lt * 1000) = Some (lt * 1000)" "chk_int (ts + lt) = Some (ts + lt)"
    using b assms(1,5) by (auto simp: chk_int_def)
  obtain w s1 where w: "(if handles k \<noteq> [] then p_WaitForMultipleObjects api (handles k) s else (wait_rc, s)) = (w, s1)"
    by fastforce
  have s1: "clock_ok api clk \<longrightarrow> clk s1 = clk s"
    using w unfolding clock_ok_def by (metis snd_conv)
  let ?sig = "handles k \<noteq> [] \<and> w \<le> of_nat (length (handles k)) - 1"
  let ?tv = "if ?sig then 0 else lt * 1000"
  obtain rc r wr e s2 where sel: "p_select api (rfds k) (wfds k) (efds k) ?tv s1 = ((rc, r, wr, e), s2)"
    by (metis prod_cases4 surj_pair)
  have s2: "clock_ok api clk \<longrightarrow> clk s2 \<le> clk s + lt * 1000"
  proof
    assume ck: "clock_ok api clk"
    have "0 \<le> ?tv" "?tv \<le> lt * 1000" using b by auto
    moreover have "clk s2 \<le> clk s1 + ?tv"
      using ck sel calculation(1) unfolding clock_ok_def by (metis snd_conv)
    ultimately show "clk s2 \<le> clk s + lt * 1000" using s1 ck by simp
  qed
  obtain err where err: "wsa_select_errno (p_WSAGetLastError api s2) s2 = (-1, s2\<lparr>oserr := Some err\<rparr>)"
    using wsa_select_errno_result by blast
  have nt: "timeout \<noteq> -1" using assms(1,2) by linarith
  have upd: "clock_ok api clk \<longrightarrow> clk (t\<lparr>oserr := x\<rparr>) = clk t" for t x by (simp add: clock_ok_def)
  show ?thesis
    unfolding poll_pass_def Let_def l c bind.bind_lunit w
    using s1 s2 upd b err nt
    by (auto simp: sel c pass_ok_def split: if_splits)
qed

definition out_ok :: "poll_out \<Rightarrow> 'w osys \<Rightarrow> bool" where
  "out_ok out s' \<longleftrightarrow> (case out of Inl rc \<Rightarrow> rc = -1 \<and> oserr s' \<noteq> None | Inr _ \<Rightarrow> True)"

lemma poll_loop_ok:
  "\<lbrakk>0 \<le> ts; ts \<le> timeout; 0 \<le> looptime; looptime \<le> 100; 0 < looptime \<or> ts = timeout; timeout < 2 ^ 31\<rbrakk> \<Longrightarrow>
   \<exists>out s'. poll_loop api k timeout ts looptime wait_rc s = Some (out, s') \<and> out_ok out s'
     \<and> (clock_ok api clk \<longrightarrow> clk s' \<le> clk s + (timeout - ts) * 1000)"
proof (induction "nat (timeout - ts)" arbitrary: ts looptime wait_rc s rule: less_induct)
  case less
  define lt where "lt = min looptime (timeout - ts)"
  obtain out s1 where p: "poll_pass api k timeout ts looptime wait_rc s = Some (out, s1)"
      "pass_ok timeout ts lt out s1" "clock_ok api clk \<longrightarrow> clk s1 \<le> clk s + lt * 1000"
    using poll_pass_ok [OF less.prems(1-4,6) lt_def] by blast
  have lt: "lt \<le> timeout - ts" "0 \<le> lt" "lt \<le> 100" using less.prems by (auto simp: lt_def)
  show ?case
  proof (cases out)
    case (Inl r)
    then have "out_ok r s1" using p(2) by (cases r) (auto simp: pass_ok_def out_ok_def)
    then show ?thesis using p(1,3) Inl lt by (subst poll_loop.simps) auto
  next
    case (Inr x)
    obtain ts' lt' w where x: "x = (ts', lt', w)" by (cases x)
    then have n: "ts' = ts + lt" "lt' = lt" "ts + lt < timeout" using p(2) Inr by (auto simp: pass_ok_def)
    have "0 < lt" using n(3) less.prems(5) lt by (auto simp: lt_def)
    then have "nat (timeout - (ts + lt)) < nat (timeout - ts)" using lt by linarith
    from less.hyps [OF this, of lt w s1] obtain out2 s2 where
        "poll_loop api k timeout (ts + lt) lt w s1 = Some (out2, s2)" "out_ok out2 s2"
        "clock_ok api clk \<longrightarrow> clk s2 \<le> clk s1 + (timeout - (ts + lt)) * 1000"
      using less.prems \<open>0 < lt\<close> lt n(3) by auto
    then show ?thesis using p(1,3) Inr x n by (subst poll_loop.simps) auto
  qed
qed

section \<open>Setting up and reporting\<close>

text \<open>Whether a descriptor is a socket does not change during the call.\<close>

definition stable :: "'w pollapi \<Rightarrow> (fd \<Rightarrow> bool) \<Rightarrow> bool" where
  "stable api S \<longleftrightarrow> (\<forall>fd s. fst (poll_is_socket api fd s) = S fd)"

lemma stable_socket: "stable api S \<Longrightarrow> poll_is_socket api fd s = (sock, s1) \<Longrightarrow> S fd = sock"
  by (metis fst_conv stable_def)

definition file_entries :: "(fd \<Rightarrow> bool) \<Rightarrow> pollfd list \<Rightarrow> pollfd list" where
  "file_entries S ps = filter (\<lambda>p. 0 \<le> sint (pfd p) \<and> \<not> S (pfd p)) ps"

lemma handles_add_socket [simp]: "handles (add_socket n p k) = handles k"
  by (simp add: add_socket_def Let_def)

lemma poll_is_socket_clk: "clock_ok api clk \<Longrightarrow> clk (snd (poll_is_socket api fd s)) = clk s"
  by (auto simp: poll_is_socket_def clock_ok_def case_prod_beta)

lemma poll_setup_handles:
  assumes "stable api S"
  shows "poll_setup api setsize ps k s = (r, s') \<Longrightarrow>
    (case r of None \<Rightarrow> oserr s' = Some EINVAL
     | Some k' \<Rightarrow> length (handles k') = length (handles k) + length (file_entries S ps))"
proof (induction ps arbitrary: k s)
  case Nil
  then show ?case by (auto simp: file_entries_def)
next
  case (Cons p ps)
  obtain sock s1 where sk: "poll_is_socket api (pfd p) s = (sock, s1)" by fastforce
  then have S: "S (pfd p) = sock" using stable_socket [OF assms] by blast
  show ?case
  proof (cases "sint (pfd p) < 0")
    case True
    then show ?thesis using Cons by (auto simp: file_entries_def split: option.splits)
  next
    case False
    then show ?thesis
      using Cons.IH [of "add_socket setsize p k" s1]
        Cons.IH [of "k\<lparr>handles := handles k @ [p_get_osfhandle api (pfd p) s1]\<rparr>" s1]
        Cons.prems sk S
      by (auto simp: file_entries_def split: if_splits option.splits)
  qed
qed

lemma poll_setup_clk:
  assumes "clock_ok api clk"
  shows "poll_setup api setsize ps k s = (r, s') \<Longrightarrow> clk s' = clk s"
proof (induction ps arbitrary: k s)
  case (Cons p ps)
  obtain sock s1 where sk: "poll_is_socket api (pfd p) s = (sock, s1)" by fastforce
  then have "clk s1 = clk s" "\<And>t e. clk (t\<lparr>oserr := e\<rparr>) = clk t"
    using poll_is_socket_clk [OF assms, of "pfd p" s] assms by (auto simp: clock_ok_def)
  then show ?case using Cons sk by (auto split: if_splits)
qed simp

lemma compute_revents_clk:
  assumes "clock_ok api clk"
  shows "clk (snd (compute_select_revents api fd ev r w e s)) = clk s"
    and "clk (snd (compute_wait_revents api h ev n wait_rc s)) = clk s"
  using assms
  by (auto simp: compute_select_revents_def compute_wait_revents_def conn_is_closed_def conn_has_oob_data_def
      clock_ok_def Let_def case_prod_beta)

definition reported :: "pollfd list \<Rightarrow> int \<Rightarrow> pollfd list \<Rightarrow> bool" where
  "reported ps rc ps' \<longleftrightarrow>
     map pfd ps' = map pfd ps \<and> map events ps' = map events ps
     \<and> rc = int (length (filter (\<lambda>p. revents p \<noteq> 0) ps'))
     \<and> (\<forall>p \<in> set ps'. sint (pfd p) < 0 \<longrightarrow> revents p = 0)"

lemma poll_results_ok:
  assumes "stable api S"
  shows "n + length (file_entries S ps) \<le> length hs \<Longrightarrow>
    \<exists>rc ps' s'. poll_results api hs sets ps n s = Some (rc, ps', s') \<and> reported ps rc ps'
      \<and> (clock_ok api clk \<longrightarrow> clk s' = clk s)"
proof (induction ps arbitrary: n s)
  case Nil
  then show ?case by (cases sets) (auto simp: reported_def)
next
  case (Cons p ps)
  obtain wr r w e where sets: "sets = (wr, r, w, e)" by (cases sets)
  obtain sock s1 where sk: "poll_is_socket api (pfd p) s = (sock, s1)" by fastforce
  then have S: "S (pfd p) = sock" using stable_socket [OF assms] by blast
  have c1: "clock_ok api clk \<longrightarrow> clk s1 = clk s" using poll_is_socket_clk [of api clk "pfd p" s] sk by simp
  consider (neg) "sint (pfd p) < 0" | (skt) "0 \<le> sint (pfd p)" "sock"
    | (fil) "0 \<le> sint (pfd p)" "\<not> sock"
    by linarith
  then show ?case
  proof cases
    case neg
    obtain rc ps' s' where "poll_results api hs sets ps n s = Some (rc, ps', s')" "reported ps rc ps'"
        "clock_ok api clk \<longrightarrow> clk s' = clk s"
      using Cons.IH [of n s] Cons.prems neg by (auto simp: file_entries_def)
    then show ?thesis using neg sets by (auto simp: reported_def Let_def)
  next
    case skt
    obtain ev s2 where c: "compute_select_revents api (pfd p) (events p) r w e s1 = (ev, s2)" by fastforce
    then have c2: "clock_ok api clk \<longrightarrow> clk s2 = clk s1" using compute_revents_clk(1) by (metis snd_conv)
    obtain rc ps' s' where "poll_results api hs sets ps n s2 = Some (rc, ps', s')" "reported ps rc ps'"
        "clock_ok api clk \<longrightarrow> clk s' = clk s2"
      using Cons.IH [of n s2] Cons.prems skt S by (auto simp: file_entries_def)
    then show ?thesis using skt sets sk c c1 c2 by (auto simp: reported_def Let_def)
  next
    case fil
    then have n: "n < length hs" "n + 1 + length (file_entries S ps) \<le> length hs"
      using Cons.prems S by (auto simp: file_entries_def)
    obtain ev s2 where c: "compute_wait_revents api (hs ! n) (events p) n wr s1 = (ev, s2)" by fastforce
    then have c2: "clock_ok api clk \<longrightarrow> clk s2 = clk s1" using compute_revents_clk(2) by (metis snd_conv)
    obtain rc ps' s' where "poll_results api hs sets ps (n + 1) s2 = Some (rc, ps', s')" "reported ps rc ps'"
        "clock_ok api clk \<longrightarrow> clk s' = clk s2"
      using Cons.IH [OF n(2), of s2] by auto
    then show ?thesis using fil sets sk c c1 c2 n(1) by (auto simp: reported_def Let_def)
  qed
qed

text \<open>Without sockets the sets stay empty.\<close>

lemma poll_setup_files:
  assumes "stable api S" "\<forall>p \<in> set ps. \<not> S (pfd p)"
  shows "length (handles k) + length ps \<le> setsize \<Longrightarrow>
    \<exists>hs s'. poll_setup api setsize ps k s = (Some (k\<lparr>handles := hs\<rparr>), s')
      \<and> length hs \<le> length (handles k) + length ps"
  using assms(2)
proof (induction ps arbitrary: k s)
  case Nil
  then show ?case by (auto intro!: exI [of _ "handles k"])
next
  case (Cons p ps)
  obtain sock s1 where sk: "poll_is_socket api (pfd p) s = (sock, s1)" by fastforce
  then have "\<not> sock" using stable_socket [OF assms(1)] Cons.prems(2) by auto
  then show ?case
    using Cons.IH [of k s] Cons.IH [of "k\<lparr>handles := handles k @ [p_get_osfhandle api (pfd p) s1]\<rparr>" s1]
      Cons.prems sk by (cases "sint (pfd p) < 0") fastforce+
qed

lemma poll_pass_select_fails:
  assumes "(if timeout \<noteq> -1 \<and> timeout - ts < looptime then timeout - ts else looptime) = lt"
    "chk_int (lt * 1000) = Some tv"
    "(if handles k \<noteq> [] then p_WaitForMultipleObjects api (handles k) s else (wr, s)) = (w, s2)"
    "\<not> (handles k \<noteq> [] \<and> w = WAIT_FAILED)" "\<not> (handles k \<noteq> [] \<and> w \<le> of_nat (length (handles k)) - 1)"
    "p_select api (rfds k) (wfds k) (efds k) tv s2 = ((-1, x), s3)"
  shows "poll_pass api k timeout ts looptime wr s =
    (case wsa_select_errno (p_WSAGetLastError api s3) s3 of (rc, s) \<Rightarrow> Some (Inl (Inl rc), s))"
  unfolding poll_pass_def assms(1) Let_def using assms(2-6)
  by (cases x) (auto simp: case_prod_beta)

section \<open>Properties\<close>

text \<open>A system for the witnesses: descriptors from 3 on are sockets, nothing is ever ready,
  \<open>select\<close> waits for its whole timeout and rejects empty sets, and the state is the time in
  microseconds.\<close>

definition demo_poll :: "int pollapi" where
  "demo_poll = \<lparr>p_recv_peek = (\<lambda>_ _ s. (0, s)), p_WSAGetLastError = (\<lambda>_. WSAEINVAL),
     p_WSAEnumNetworkEvents = (\<lambda>_ s. (0, s)),
     p_select = (\<lambda>r w e tv s. if r = [] \<and> w = [] \<and> e = [] then ((-1, [], [], []), s)
       else ((0, [], [], []), s\<lparr>world := world s + tv\<rparr>)),
     p_WaitForMultipleObjects = (\<lambda>_ s. (258, s)), p_get_osfhandle = (\<lambda>fd _. unat fd),
     p_std_input = (\<lambda>_. 0), p_PeekConsoleInput = (\<lambda>_ s. ((False, False), s)),
     p_ReadConsoleInput = (\<lambda>_ s. s)\<rparr>"

lemma demo_poll_stable: "stable demo_poll (\<lambda>fd. 3 \<le> sint fd)"
  by (auto simp: stable_def poll_is_socket_def demo_poll_def)

lemma demo_poll_clock: "clock_ok demo_poll world"
  by (simp add: clock_ok_def demo_poll_def)

definition time0 :: "int osys" where
  "time0 = \<lparr>oserr = None, world = 0\<rparr>"

lemma poll_returns:
  assumes "stable api S" "0 \<le> timeout" "timeout < 2 ^ 31"
  shows "\<exists>rc ps' s'. poll api setsize (Some ps) timeout s = Some (rc, ps', s')
    \<and> (rc = -1 \<and> ps' = ps \<and> oserr s' \<noteq> None \<or> reported ps rc ps')"
proof (cases "ps = []")
  case True
  then show ?thesis by (auto simp: poll_def reported_def)
next
  case False
  obtain r s1 where st: "poll_setup api setsize ps no_sets s = (r, s1)" by fastforce
  show ?thesis
  proof (cases r)
    case None
    then show ?thesis using False st poll_setup_handles [OF assms(1) st] by (simp add: poll_def)
  next
    case (Some k)
    then have h: "0 + length (file_entries S ps) \<le> length (handles k)"
      using poll_setup_handles [OF assms(1) st] by (simp add: no_sets_def)
    let ?l = "if timeout > 100 \<or> timeout = -1 then 100 else timeout"
    have lb: "0 \<le> ?l" "?l \<le> 100" "0 < ?l \<or> 0 = timeout" using assms(2) by auto
    obtain out s2 where o: "poll_loop api k timeout 0 ?l WAIT_FAILED s1 = Some (out, s2)" "out_ok out s2"
      using poll_loop_ok [OF order_refl assms(2) lb assms(3), of api k WAIT_FAILED s1] by blast
    show ?thesis
    proof (cases out)
      case (Inl rc)
      then show ?thesis using False st Some o by (simp add: poll_def out_ok_def)
    next
      case (Inr sets)
      obtain rc ps' s' where "poll_results api (handles k) sets ps 0 s2 = Some (rc, ps', s')" "reported ps rc ps'"
        using poll_results_ok [OF assms(1) h, of sets s2 "\<lambda>_. 0"] by blast
      then show ?thesis using False st Some o Inr by (auto simp: poll_def)
    qed
  qed
qed

text \<open>With a timeout of 0 or more \<open>poll\<close> always returns, without undefined behaviour.
  Either it returns -1 with an \<open>errno\<close> and the array as it was, or the number of entries whose
  \<open>revents\<close> is not 0; the descriptors and the requested events are as they were, and entries
  with a negative descriptor have no events.\<close>

theorem poll_returns_count:
  assumes "stable api S" "0 \<le> timeout" "timeout < 2 ^ 31"
  shows "\<exists>rc ps' s'. poll api setsize (Some ps) timeout s = Some (rc, ps', s')
    \<and> (rc = -1 \<and> ps' = ps \<and> oserr s' \<noteq> None \<or> reported ps rc ps')"
  using assms by (rule poll_returns)

theorem poll_returns_count_witness:
  "\<exists>rc ps' s'. poll demo_poll 64 (Some [\<lparr>pfd = 5, events = POLLIN, revents = 0\<rparr>]) 250 time0 = Some (rc, ps', s')
    \<and> (rc = -1 \<and> ps' = [\<lparr>pfd = 5, events = POLLIN, revents = 0\<rparr>] \<and> oserr s' \<noteq> None
       \<or> reported [\<lparr>pfd = 5, events = POLLIN, revents = 0\<rparr>] rc ps')"
  by (rule poll_returns_count [OF demo_poll_stable]) simp_all

text \<open>C28. \<open>poll\<close> does not wait longer than its timeout: whatever \<open>select\<close> and the other calls
  return, the total time \<open>select\<close> is allowed to block is at most \<open>timeout_ms\<close>
  milliseconds.\<close>

theorem poll_respects_timeout:
  assumes "stable api S" "clock_ok api clk" "0 \<le> timeout" "timeout < 2 ^ 31"
    and "poll api setsize (Some ps) timeout s = Some (rc, ps', s')"
  shows "clk s' \<le> clk s + timeout * 1000"
proof (cases "ps = []")
  case True
  then show ?thesis using assms(3,5) by (simp add: poll_def)
next
  case False
  obtain r s1 where st: "poll_setup api setsize ps no_sets s = (r, s1)" by fastforce
  have c1: "clk s1 = clk s" by (rule poll_setup_clk [OF assms(2) st])
  show ?thesis
  proof (cases r)
    case None
    then show ?thesis using False st assms(3,5) c1 by (simp add: poll_def)
  next
    case (Some k)
    then have h: "0 + length (file_entries S ps) \<le> length (handles k)"
      using poll_setup_handles [OF assms(1) st] by (simp add: no_sets_def)
    let ?l = "if timeout > 100 \<or> timeout = -1 then 100 else timeout"
    have lb: "0 \<le> ?l" "?l \<le> 100" "0 < ?l \<or> 0 = timeout" using assms(3) by auto
    obtain out s2 where o: "poll_loop api k timeout 0 ?l WAIT_FAILED s1 = Some (out, s2)"
        "clk s2 \<le> clk s1 + timeout * 1000"
      using poll_loop_ok [OF _ assms(3) lb assms(4), of api k WAIT_FAILED s1 clk] assms(2) by auto
    show ?thesis
    proof (cases out)
      case (Inl rc')
      then show ?thesis using False st Some o assms(5) c1 by (simp add: poll_def)
    next
      case (Inr sets)
      then show ?thesis
        using False st Some o assms(2,5) c1 poll_results_ok [OF assms(1) h, of sets s2 clk]
        by (auto simp: poll_def)
    qed
  qed
qed

theorem poll_respects_timeout_witness:
  "\<exists>rc ps' s'. poll demo_poll 64 (Some [\<lparr>pfd = 5, events = POLLIN, revents = 0\<rparr>]) 250 time0 = Some (rc, ps', s')
    \<and> world s' \<le> world time0 + 250 * 1000"
proof -
  obtain rc ps' s' where
      "poll demo_poll 64 (Some [\<lparr>pfd = 5, events = POLLIN, revents = 0\<rparr>]) 250 time0 = Some (rc, ps', s')"
    using poll_returns [OF demo_poll_stable, of 250 64 "[\<lparr>pfd = 5, events = POLLIN, revents = 0\<rparr>]" time0] by auto
  then show ?thesis
    using poll_respects_timeout [OF demo_poll_stable demo_poll_clock, of 250] by fastforce
qed

text \<open>Polling only files: since \<open>select\<close> of Windows rejects three empty sets with
  \<open>WSAEINVAL\<close>, a \<open>poll\<close> with no socket among its descriptors and no file ready fails with
  \<open>EINVAL\<close> at once, for every timeout, instead of waiting and returning 0.\<close>

theorem poll_files_only_fails:
  assumes "stable api S" "\<forall>p \<in> set ps. \<not> S (pfd p)" "ps \<noteq> []" "length ps \<le> setsize"
    and "\<And>tv t. fst (fst (p_select api [] [] [] tv t)) = -1
          \<and> p_WSAGetLastError api (snd (p_select api [] [] [] tv t)) = WSAEINVAL"
    and "\<And>hs t. length hs \<le> setsize \<Longrightarrow> hs \<noteq> [] \<Longrightarrow>
          of_nat (length hs) - 1 < fst (p_WaitForMultipleObjects api hs t)
          \<and> fst (p_WaitForMultipleObjects api hs t) \<noteq> WAIT_FAILED"
    and "0 \<le> timeout" "timeout < 2 ^ 31"
  shows "\<exists>s'. poll api setsize (Some ps) timeout s = Some (-1, ps, s') \<and> oserr s' = Some EINVAL"
proof -
  obtain hs s1 where st: "poll_setup api setsize ps no_sets s = (Some (no_sets\<lparr>handles := hs\<rparr>), s1)"
      and len: "length hs \<le> setsize"
    using poll_setup_files [OF assms(1,2), of no_sets setsize s] assms(4) by (auto simp: no_sets_def)
  let ?l = "if timeout > 100 \<or> timeout = -1 then 100 else timeout"
  let ?k = "no_sets\<lparr>handles := hs\<rparr>"
  obtain w s2 where w: "(if handles ?k \<noteq> [] then p_WaitForMultipleObjects api (handles ?k) s1 else (WAIT_FAILED, s1)) = (w, s2)"
    by fastforce
  then have nw: "\<not> (handles ?k \<noteq> [] \<and> w = WAIT_FAILED)"
    "\<not> (handles ?k \<noteq> [] \<and> w \<le> of_nat (length (handles ?k)) - 1)"
    using assms(6) [OF len, of s1] by (auto split: if_splits)
  have l: "(if timeout \<noteq> -1 \<and> timeout - 0 < ?l then timeout - 0 else ?l) = ?l" "chk_int (?l * 1000) = Some (?l * 1000)"
    using assms(7) by (auto simp: chk_int_def)
  have "fst (fst (p_select api [] [] [] (?l * 1000) s2)) = -1"
    "p_WSAGetLastError api (snd (p_select api [] [] [] (?l * 1000) s2)) = WSAEINVAL"
    using assms(5) by blast+
  then obtain x s3 where sel: "p_select api (rfds ?k) (wfds ?k) (efds ?k) (?l * 1000) s2 = ((-1, x), s3)"
      "p_WSAGetLastError api s3 = WSAEINVAL"
    by (cases "p_select api [] [] [] (?l * 1000) s2") (auto simp: no_sets_def)
  have "poll_pass api ?k timeout 0 ?l WAIT_FAILED s1 = Some (Inl (Inl (-1)), set_oserr EINVAL s3)"
    using poll_pass_select_fails [OF l w nw sel(1)] sel(2) by simp
  then have "poll_loop api ?k timeout 0 ?l WAIT_FAILED s1 = Some (Inl (-1), set_oserr EINVAL s3)"
    by (subst poll_loop.simps) (simp only: bind.bind_lunit, simp)
  then show ?thesis using st assms(3) by (simp add: poll_def)
qed

theorem poll_files_only_fails_witness:
  "\<exists>s'. poll demo_poll 64 (Some [\<lparr>pfd = 0, events = POLLIN, revents = 0\<rparr>]) 5000 time0
      = Some (-1, [\<lparr>pfd = 0, events = POLLIN, revents = 0\<rparr>], s') \<and> oserr s' = Some EINVAL"
proof (rule poll_files_only_fails [OF demo_poll_stable])
  fix hs :: "nat list" and t
  assume "length hs \<le> 64" "hs \<noteq> []"
  then have "(of_nat (length hs) :: 32 word) - 1 = of_nat (length hs - 1)" by (cases hs) auto
  then show "of_nat (length hs) - 1 < fst (p_WaitForMultipleObjects demo_poll hs t)
      \<and> fst (p_WaitForMultipleObjects demo_poll hs t) \<noteq> WAIT_FAILED"
    using \<open>length hs \<le> 64\<close>
    by (simp add: demo_poll_def WAIT_FAILED_def word_less_nat_alt unsigned_of_nat take_bit_nat_eq_self)
qed (simp_all add: demo_poll_def)

end
