(* ===== verification/Poll_Ready.thy ===== *)
theory Poll_Ready
  imports Poll_Win
begin

text \<open>
  What \<open>poll\<close> (\<open>apps/openssl/compat/poll_win.c\<close>) reports: the sets it asks \<open>select\<close> for, the
  entries it marks from the answer, and that it wakes up when a socket becomes readable, also
  without a timeout. The definitions are those of \<open>Poll_Win\<close>.
\<close>

unbundle bit_operations_syntax

section \<open>The sets asked for\<close>

definition socket_fds :: "(fd \<Rightarrow> bool) \<Rightarrow> (16 word \<Rightarrow> bool) \<Rightarrow> pollfd list \<Rightarrow> fd set" where
  "socket_fds S wanted ps = {pfd p |p. p \<in> set ps \<and> 0 \<le> sint (pfd p) \<and> S (pfd p) \<and> wanted (events p)}"

definition socket_entries :: "(fd \<Rightarrow> bool) \<Rightarrow> pollfd list \<Rightarrow> pollfd list" where
  "socket_entries S ps = filter (\<lambda>p. 0 \<le> sint (pfd p) \<and> S (pfd p)) ps"

text \<open>A set never holds more descriptors than sockets were seen, so that \<open>FD_SET\<close> drops none.\<close>

definition sets_small :: "poll_sets \<Rightarrow> bool" where
  "sets_small k \<longleftrightarrow> length (rfds k) \<le> num_sockets k \<and> length (wfds k) \<le> num_sockets k
     \<and> length (efds k) \<le> num_sockets k"

lemma FD_SET_small:
  "length fds < n \<Longrightarrow> set (FD_SET n fd fds) = insert fd (set fds) \<and> length (FD_SET n fd fds) \<le> length fds + 1"
  by (auto simp: FD_SET_def)

lemma add_socket_sets:
  assumes "sets_small k" "num_sockets k < setsize"
  shows "sets_small (add_socket setsize p k)"
    and "num_sockets (add_socket setsize p k) = num_sockets k + 1"
    and "set (efds (add_socket setsize p k)) = insert (pfd p) (set (efds k))"
    and "set (rfds (add_socket setsize p k)) = (if wants_read (events p) then insert (pfd p) (set (rfds k)) else set (rfds k))"
    and "set (wfds (add_socket setsize p k)) = (if wants_write (events p) then insert (pfd p) (set (wfds k)) else set (wfds k))"
  using assms FD_SET_small[of "rfds k" setsize "pfd p"] FD_SET_small[of "wfds k" setsize "pfd p"]
    FD_SET_small[of "efds k" setsize "pfd p"]
  by (auto simp: sets_small_def add_socket_def Let_def)

lemma socket_fds_Cons:
  "socket_fds S wanted (p # ps) =
     (if 0 \<le> sint (pfd p) \<and> S (pfd p) \<and> wanted (events p)
      then insert (pfd p) (socket_fds S wanted ps) else socket_fds S wanted ps)"
  by (auto simp: socket_fds_def)

definition asked :: "(fd \<Rightarrow> bool) \<Rightarrow> pollfd list \<Rightarrow> poll_sets \<Rightarrow> poll_sets \<Rightarrow> bool" where
  "asked S ps k k' \<longleftrightarrow>
     set (rfds k') = set (rfds k) \<union> socket_fds S wants_read ps
     \<and> set (wfds k') = set (wfds k) \<union> socket_fds S wants_write ps
     \<and> set (efds k') = set (efds k) \<union> socket_fds S (\<lambda>_. True) ps
     \<and> num_sockets k' = num_sockets k + length (socket_entries S ps)"

lemma poll_setup_asked:
  assumes "stable api S"
  shows "poll_setup api setsize ps k s = (Some k', s') \<Longrightarrow> sets_small k \<Longrightarrow> asked S ps k k'"
proof (induction ps arbitrary: k s)
  case Nil
  then show ?case by (simp add: asked_def socket_fds_def socket_entries_def)
next
  case (Cons p ps)
  obtain sock s1 where sk: "poll_is_socket api (pfd p) s = (sock, s1)" by fastforce
  then have S: "S (pfd p) = sock" using stable_socket [OF assms] by blast
  consider (neg) "sint (pfd p) < 0" | (skt) "0 \<le> sint (pfd p)" "sock"
    | (fil) "0 \<le> sint (pfd p)" "\<not> sock" by linarith
  then show ?case
  proof cases
    case neg
    then show ?thesis using Cons by (simp add: asked_def socket_fds_Cons socket_entries_def)
  next
    case skt
    then have n: "num_sockets k < setsize" using Cons.prems(1) sk by (auto split: if_splits)
    then have "asked S ps (add_socket setsize p k) k'"
      using Cons.IH [of "add_socket setsize p k" s1] Cons.prems sk skt add_socket_sets(1) by simp
    then show ?thesis using skt S add_socket_sets [OF Cons.prems(2) n, of p]
      by (auto simp: asked_def socket_fds_Cons socket_entries_def)
  next
    case fil
    let ?k = "k\<lparr>handles := handles k @ [p_get_osfhandle api (pfd p) s1]\<rparr>"
    have "asked S ps ?k k'"
      using Cons.IH [of ?k s1] Cons.prems sk fil by (auto simp: sets_small_def split: if_splits)
    then show ?thesis using fil S by (simp add: asked_def socket_fds_Cons socket_entries_def)
  qed
qed

section \<open>The entries marked\<close>

text \<open>A socket is marked if and only if it is in the set of the answer for what its entry wants, or
  in the exceptional set; a file only if its entry wants to write, or to read and the file is the
  object whose wait succeeded. \<open>n\<close> is the number of the next file.\<close>

definition socket_ready :: "fd list \<Rightarrow> fd list \<Rightarrow> fd list \<Rightarrow> pollfd \<Rightarrow> bool" where
  "socket_ready r w e p \<longleftrightarrow>
     pfd p \<in> set e \<or> wants_read (events p) \<and> pfd p \<in> set r \<or> wants_write (events p) \<and> pfd p \<in> set w"

definition file_ready :: "32 word \<Rightarrow> nat \<Rightarrow> pollfd \<Rightarrow> bool" where
  "file_ready wait_rc n p \<longleftrightarrow>
     events p AND (POLLOUT OR POLLWRNORM) \<noteq> 0 \<or> of_nat n = wait_rc \<and> events p AND (POLLIN OR POLLRDNORM) \<noteq> 0"

fun marked :: "(fd \<Rightarrow> bool) \<Rightarrow> 32 word \<times> fd list \<times> fd list \<times> fd list \<Rightarrow> nat \<Rightarrow> pollfd list \<Rightarrow> bool" where
  "marked S (wait_rc, r, w, e) n [] = True"
| "marked S (wait_rc, r, w, e) n (p # ps) =
     (if sint (pfd p) < 0 then revents p = 0 \<and> marked S (wait_rc, r, w, e) n ps
      else if S (pfd p) then (revents p \<noteq> 0) = socket_ready r w e p \<and> marked S (wait_rc, r, w, e) n ps
      else (revents p \<noteq> 0 \<longrightarrow> file_ready wait_rc n p) \<and> marked S (wait_rc, r, w, e) (n + 1) ps)"

lemma poll_flags_nonzero:
  "x OR POLLHUP \<noteq> 0" "x OR (POLLIN OR POLLRDNORM) \<noteq> 0" "x OR POLLOUT \<noteq> 0" "x OR POLLERR \<noteq> 0"
  "x OR (POLLRDBAND OR POLLPRI) \<noteq> 0" "x OR POLLIN \<noteq> 0"
  by (simp_all add: or_eq_0_iff POLLHUP_def POLLIN_def POLLRDNORM_def POLLOUT_def POLLERR_def POLLRDBAND_def)

lemmas poll_flag_nonzero = poll_flags_nonzero poll_flags_nonzero[of 0, simplified]

lemma select_revents_nonzero:
  "fst (compute_select_revents api fd ev r w e s) \<noteq> 0 \<longleftrightarrow>
     fd \<in> set e \<or> wants_read ev \<and> fd \<in> set r \<or> wants_write ev \<and> fd \<in> set w"
proof -
  obtain c s1 where c: "conn_is_closed api fd s = (c, s1)" by fastforce
  show ?thesis
  proof (cases "fd \<in> set e")
    case True
    then show ?thesis
      by (simp add: compute_select_revents_def Let_def c poll_flag_nonzero split: prod.split)
  next
    case False
    then show ?thesis
      by (cases "wants_read ev \<and> fd \<in> set r"; cases "wants_write ev \<and> fd \<in> set w")
        (auto simp: compute_select_revents_def Let_def c poll_flag_nonzero)
  qed
qed

lemma wait_revents_nonzero:
  "fst (compute_wait_revents api h ev n wait_rc s) \<noteq> 0 \<Longrightarrow>
     ev AND (POLLOUT OR POLLWRNORM) \<noteq> 0 \<or> of_nat n = wait_rc \<and> ev AND (POLLIN OR POLLRDNORM) \<noteq> 0"
  by (auto simp: compute_wait_revents_def Let_def split: if_splits prod.splits)

lemma poll_results_marked:
  assumes "stable api S"
  shows "poll_results api hs sets ps n s = Some (rc, ps', s') \<Longrightarrow> marked S sets n ps'"
proof (induction ps arbitrary: n s rc ps')
  case Nil
  then show ?case by (cases sets) auto
next
  case (Cons p ps)
  obtain wr r w e where sets: "sets = (wr, r, w, e)" by (cases sets)
  obtain sock s1 where sk: "poll_is_socket api (pfd p) s = (sock, s1)" by fastforce
  then have S: "S (pfd p) = sock" using stable_socket [OF assms] by blast
  obtain ev s2 where c: "compute_select_revents api (pfd p) (events p) r w e s1 = (ev, s2)" by fastforce
  obtain ev' s3 where c': "compute_wait_revents api (hs ! n) (events p) n wr s1 = (ev', s3)" by fastforce
  have ev: "(ev \<noteq> 0) = socket_ready r w e p"
    using select_revents_nonzero [of api "pfd p" "events p" r w e s1] c by (simp add: socket_ready_def)
  have ev': "ev' \<noteq> 0 \<longrightarrow> file_ready wr n p"
    using wait_revents_nonzero [of api "hs ! n" "events p" n wr s1] c' by (simp add: file_ready_def)
  consider (neg) "sint (pfd p) < 0" | (skt) "0 \<le> sint (pfd p)" "sock"
    | (fil) "0 \<le> sint (pfd p)" "\<not> sock" by linarith
  then show ?case
  proof cases
    case neg
    then show ?thesis using Cons.prems Cons.IH by (auto simp: sets Let_def bind_eq_Some_conv)
  next
    case skt
    then show ?thesis using Cons.prems Cons.IH S ev
      by (auto simp: sets sk c Let_def bind_eq_Some_conv socket_ready_def)
  next
    case fil
    then show ?thesis using Cons.prems Cons.IH S ev'
      by (auto simp: sets sk c' Let_def bind_eq_Some_conv file_ready_def split: if_splits)
  qed
qed

text \<open>The sets that the loop leaves are the answer of \<open>select\<close> to the sets asked for.\<close>

definition answers :: "'w pollapi \<Rightarrow> poll_sets \<Rightarrow> fd list \<Rightarrow> fd list \<Rightarrow> fd list \<Rightarrow> bool" where
  "answers api k r w e \<longleftrightarrow> (\<exists>tv t. \<exists>n t'. p_select api (rfds k) (wfds k) (efds k) tv t = ((n, r, w, e), t'))"

lemma poll_pass_answers:
  "poll_pass api k timeout ts lt wr s = Some (Inl (Inr (wait_rc, r, w, e)), s') \<Longrightarrow> answers api k r w e"
proof -
  assume a: "poll_pass api k timeout ts lt wr s = Some (Inl (Inr (wait_rc, r, w, e)), s')"
  define lt' where "lt' = (if timeout \<noteq> -1 \<and> timeout - ts < lt then timeout - ts else lt)"
  obtain u s1 where u: "(if handles k \<noteq> [] then p_WaitForMultipleObjects api (handles k) s else (wr, s)) = (u, s1)"
    by fastforce
  define tv where "tv = (if handles k \<noteq> [] \<and> u \<le> of_nat (length (handles k)) - 1 then 0 else lt' * 1000)"
  obtain n r' w' e' s2 where sel: "p_select api (rfds k) (wfds k) (efds k) tv s1 = ((n, r', w', e'), s2)"
    by (metis prod_cases4 surj_pair)
  obtain err where err: "wsa_select_errno (p_WSAGetLastError api s2) s2 = (-1, s2\<lparr>oserr := Some err\<rparr>)"
    using wsa_select_errno_result by blast
  have "r' = r \<and> w' = w \<and> e' = e"
  proof (cases "handles k \<noteq> [] \<and> u \<le> of_nat (length (handles k)) - 1")
    case True
    then have "p_select api (rfds k) (wfds k) (efds k) 0 s1 = ((n, r', w', e'), s2)" using sel by (simp add: tv_def)
    then show ?thesis using a True unfolding poll_pass_def Let_def lt'_def[symmetric] u
      by (cases "chk_int (lt' * 1000)") (simp_all split: if_splits)
  next
    case False
    then have "tv = lt' * 1000" by (simp only: tv_def if_False)
    then have "chk_int (lt' * 1000) = Some x \<Longrightarrow> p_select api (rfds k) (wfds k) (efds k) x s1 = ((n, r', w', e'), s2)" for x
      using sel by (simp add: chk_int_def split: if_splits)
    then show ?thesis using a False err unfolding poll_pass_def Let_def lt'_def[symmetric] u
      by (cases "chk_int (lt' * 1000)"; cases "chk_int (ts + lt')")
        (simp_all split: if_splits)
  qed
  then show ?thesis using sel by (auto simp: answers_def)
qed

lemma poll_loop_answers:
  "poll_loop api k timeout ts lt wr s = Some (Inr (wait_rc, r, w, e), s') \<Longrightarrow> answers api k r w e"
proof -
  have "case y of (Inr (wait_rc, r, w, e), _) \<Rightarrow> answers api k r w e | _ \<Rightarrow> True"
    if "poll_loop api k timeout ts lt wr s = Some y" for y
  using that
  proof (induction rule: poll_loop.raw_induct [rotated, consumes 1, case_names pass])
    case (pass loop api k timeout ts lt wr s y)
    then obtain out s1 where p: "poll_pass api k timeout ts lt wr s = Some (out, s1)"
      by (auto simp: bind_eq_Some_conv)
    show ?case
    proof (cases out)
      case (Inl r)
      then have "y = (r, s1)" using pass(2) p by simp
      then show ?thesis using p Inl poll_pass_answers by (auto split: sum.split prod.split)
    next
      case (Inr x)
      then obtain ts' lt' wr' where x: "x = (ts', lt', wr')" by (metis prod_cases3)
      then have "loop api k timeout ts' lt' wr' s1 = Some y" using pass(2) p Inr by simp
      then show ?thesis by (rule pass(1))
    qed
  qed
  then show "poll_loop api k timeout ts lt wr s = Some (Inr (wait_rc, r, w, e), s') \<Longrightarrow> answers api k r w e"
    by fastforce
qed

text \<open>The end of \<open>poll\<close>, once the loop is left with the sets \<open>r\<close>, \<open>w\<close>, \<open>e\<close>.\<close>

lemma poll_results_ready:
  assumes "stable api S" "poll_setup api setsize ps no_sets s = (Some k, s1)"
    and "poll_loop api k timeout 0 lt WAIT_FAILED s1 = Some (Inr (wr, r, w, e), s2)"
  shows "asked S ps no_sets k \<and> answers api k r w e
    \<and> (\<exists>rc ps' s'. poll_results api (handles k) (wr, r, w, e) ps 0 s2 = Some (rc, ps', s')
         \<and> reported ps rc ps' \<and> marked S (wr, r, w, e) 0 ps' \<and> (clock_ok api clk \<longrightarrow> clk s' = clk s2))"
proof -
  have "0 + length (file_entries S ps) \<le> length (handles k)"
    using poll_setup_handles [OF assms(1,2)] by (simp add: no_sets_def)
  from poll_results_ok [OF assms(1) this, of "(wr, r, w, e)" s2 clk] obtain rc ps' s' where
    p: "poll_results api (handles k) (wr, r, w, e) ps 0 s2 = Some (rc, ps', s')" and
    q: "reported ps rc ps'" "clock_ok api clk \<longrightarrow> clk s' = clk s2" by blast
  moreover have "marked S (wr, r, w, e) 0 ps'" by (rule poll_results_marked [OF assms(1) p])
  moreover have "asked S ps no_sets k"
    by (rule poll_setup_asked [OF assms(1,2)]) (simp add: sets_small_def no_sets_def)
  ultimately show ?thesis using poll_loop_answers [OF assms(3)] by blast
qed

text \<open>C6. With a timeout of 0 or more \<open>poll\<close> always returns, without undefined behaviour. Either it
  returns -1 with an \<open>errno\<close> and the array as it was, or it returns the number of entries whose
  \<open>revents\<close> is not 0 and changed nothing but \<open>revents\<close>. Then it asked \<open>select\<close> for exactly the
  sockets among the entries, each for what its entry wants, and an entry of a socket has events if
  and only if the answer names the socket in one of the sets it is asked for, or as exceptional; an
  entry of a file only if it is for writing, or it is the object that was signaled; entries with a
  negative descriptor have none.\<close>

theorem poll_reports_ready:
  assumes "stable api S" "0 \<le> timeout" "timeout < 2 ^ 31"
  shows "\<exists>rc ps' s'. poll api setsize (Some ps) timeout s = Some (rc, ps', s')
    \<and> (rc = -1 \<and> ps' = ps \<and> oserr s' \<noteq> None
       \<or> reported ps rc ps'
         \<and> (ps = [] \<or> (\<exists>k wr r w e. asked S ps no_sets k \<and> answers api k r w e \<and> marked S (wr, r, w, e) 0 ps')))"
proof (cases "ps = []")
  case True
  then show ?thesis by (auto simp: poll_def reported_def)
next
  case False
  obtain r s1 where st: "poll_setup api setsize ps no_sets s = (r, s1)" by fastforce
  show ?thesis
  proof (cases r)
    case None
    then show ?thesis using False st poll_setup_handles [OF assms(1) st] by (simp add: poll_def)
  next
    case (Some k)
    let ?l = "if timeout > 100 \<or> timeout = -1 then 100 else timeout"
    have lb: "0 \<le> ?l" "?l \<le> 100" "0 < ?l \<or> 0 = timeout" using assms(2) by auto
    obtain out s2 where o: "poll_loop api k timeout 0 ?l WAIT_FAILED s1 = Some (out, s2)" "out_ok out s2"
      using poll_loop_ok [OF order_refl assms(2) lb assms(3), of api k WAIT_FAILED s1] by blast
    show ?thesis
    proof (cases out)
      case (Inl rc)
      then show ?thesis using False st Some o by (simp add: poll_def out_ok_def)
    next
      case (Inr sets)
      obtain wr r' w e where sets: "sets = (wr, r', w, e)" by (cases sets)
      show ?thesis
        using poll_results_ready [OF assms(1) st[unfolded Some] o(1)[unfolded Inr sets], of "\<lambda>_. 0"]
          False st Some o Inr sets
        by (auto simp: poll_def)
    qed
  qed
qed

text \<open>A socket with something to read, one that is not polled for reading, and a negative descriptor.\<close>

definition readable_poll :: "int pollapi" where
  "readable_poll = demo_poll\<lparr>p_select := \<lambda>r w e tv s. ((int (length r), r, [], []), s)\<rparr>"

lemma readable_poll_stable: "stable readable_poll (\<lambda>fd. 3 \<le> sint fd)"
  by (auto simp: stable_def poll_is_socket_def demo_poll_def readable_poll_def)

lemma readable_poll_result:
  "\<exists>ps' s'. poll readable_poll 64 (Some [\<lparr>pfd = 5, events = POLLIN, revents = 0\<rparr>]) 250 time0 = Some (1, ps', s')"
  by (simp add: poll_def poll_loop.simps poll_pass_def chk_int_def readable_poll_def demo_poll_def no_sets_def
      add_socket_def FD_SET_def poll_is_socket_def wants_read_def wants_write_def Let_def POLLIN_def POLLRDNORM_def
      POLLRDBAND_def POLLOUT_def POLLWRNORM_def POLLWRBAND_def compute_select_revents_def conn_is_closed_def)

theorem poll_reports_ready_witness:
  "\<exists>ps' s'. poll readable_poll 64 (Some [\<lparr>pfd = 5, events = POLLIN, revents = 0\<rparr>]) 250 time0 = Some (1, ps', s')
    \<and> list_all (\<lambda>p. pfd p = 5 \<and> revents p \<noteq> 0) ps' \<and> length ps' = 1"
proof -
  let ?ps = "[\<lparr>pfd = 5, events = POLLIN, revents = 0\<rparr>]"
  obtain ps' s' where p: "poll readable_poll 64 (Some ?ps) 250 time0 = Some (1, ps', s')"
    using readable_poll_result by blast
  then obtain k wr r w e where a: "asked (\<lambda>fd. 3 \<le> sint fd) ?ps no_sets k" "answers readable_poll k r w e"
      "marked (\<lambda>fd. 3 \<le> sint fd) (wr, r, w, e) 0 ps'" and m: "reported ?ps 1 ps'"
    using poll_reports_ready [OF readable_poll_stable, of 250 64 ?ps time0] by auto
  have "5 \<in> set r" using a(1,2)
    by (auto simp: asked_def answers_def readable_poll_def no_sets_def socket_fds_def wants_read_def POLLIN_def)
  moreover obtain q where q: "ps' = [q]" "pfd q = 5" "events q = POLLIN" using m by (auto simp: reported_def)
  ultimately show ?thesis using p a(3)
    by (auto simp: socket_ready_def wants_read_def POLLIN_def)
qed

section \<open>Waking up\<close>

text \<open>What \<open>select\<close> documents of a socket \<open>fd\<close> that has something to read from the time \<open>due\<close> on:
  it leaves sockets out of the sets it is given, adds none and counts those that are left; with none
  left it has waited for its whole timeout, and that ends before \<open>due\<close>; otherwise it does not wait
  beyond \<open>due\<close>.\<close>

definition readable_from :: "'w pollapi \<Rightarrow> ('w osys \<Rightarrow> int) \<Rightarrow> fd \<Rightarrow> int \<Rightarrow> bool" where
  "readable_from api clk fd due \<longleftrightarrow>
     (\<forall>r w e tv s. fd \<in> set r \<longrightarrow> 0 \<le> tv \<longrightarrow>
        (case p_select api r w e tv s of ((n, r', w', e'), s') \<Rightarrow>
           n = int (length r' + length w' + length e') \<and> set r' \<subseteq> set r \<and> set w' \<subseteq> set w \<and> set e' \<subseteq> set e
           \<and> (if n = 0 then clk s' = clk s + tv \<and> clk s' < due else clk s \<le> clk s' \<and> clk s' \<le> max (clk s) due)))"

text \<open>The timeouts for which the call lasts until \<open>due\<close>: none, or one that ends later. Without a
  timeout the time spent is counted in an \<open>int\<close> too, so \<open>due\<close> is less than 2^31 milliseconds
  away.\<close>

definition lasts_until :: "int \<Rightarrow> int \<Rightarrow> int \<Rightarrow> bool" where
  "lasts_until timeout start due \<longleftrightarrow>
     timeout = -1 \<and> due \<le> start + 2 ^ 31 * 1000
     \<or> 0 \<le> timeout \<and> timeout < 2 ^ 31 \<and> due \<le> start + timeout * 1000"

definition pass_time :: "int \<Rightarrow> int \<Rightarrow> int \<Rightarrow> int" where
  "pass_time timeout ts lt = (if timeout \<noteq> -1 \<and> timeout - ts < lt then timeout - ts else lt)"

text \<open>With no files among the entries a pass either leaves the loop with the sockets that are ready,
  or has waited and goes on.\<close>

lemma poll_pass_wakes:
  assumes sel: "readable_from api clk fd due" and k: "fd \<in> set (rfds k)" "handles k = []" "num_sockets k \<noteq> 0"
    and t: "lasts_until timeout start due" "clk s = start + ts * 1000" "0 \<le> ts" "0 \<le> lt" "lt \<le> 100"
      "timeout = -1 \<or> ts \<le> timeout"
  shows "(\<exists>wr r w e s' n. poll_pass api k timeout ts lt wait_rc s = Some (Inl (Inr (wr, r, w, e)), s')
        \<and> p_select api (rfds k) (wfds k) (efds k) (pass_time timeout ts lt * 1000) s = ((n, r, w, e), s') \<and> 0 < n)
    \<or> (\<exists>s'. poll_pass api k timeout ts lt wait_rc s
           = Some (Inr (ts + pass_time timeout ts lt, pass_time timeout ts lt, wait_rc), s')
        \<and> clk s' = start + (ts + pass_time timeout ts lt) * 1000 \<and> clk s' < due
        \<and> (timeout = -1 \<or> ts + pass_time timeout ts lt < timeout))"
proof -
  let ?l = "pass_time timeout ts lt"
  have l: "0 \<le> ?l" "?l \<le> 100" using t(1,3-6) by (auto simp: pass_time_def lasts_until_def)
  then have c: "chk_int (?l * 1000) = Some (?l * 1000)" by (simp add: chk_int_def)
  obtain n r w e s' where s: "p_select api (rfds k) (wfds k) (efds k) (?l * 1000) s = ((n, r, w, e), s')"
    by (metis prod_cases4 surj_pair)
  have n: "0 \<le> n" "n = 0 \<Longrightarrow> clk s' = clk s + ?l * 1000 \<and> clk s' < due"
    using sel[unfolded readable_from_def, rule_format, OF k(1), of "?l * 1000" "wfds k" "efds k" s] l s by auto
  have p: "poll_pass api k timeout ts lt wait_rc s =
     (if 0 < n then Some (Inl (Inr (wait_rc, r, w, e)), s')
      else do { ts' \<leftarrow> chk_int (ts + ?l);
        if timeout = -1 \<or> ts' < timeout then Some (Inr (ts', ?l, wait_rc), s')
        else Some (Inl (Inr (wait_rc, r, w, e)), s') })"
    using k n(1) s c by (simp add: poll_pass_def pass_time_def[symmetric] SOCKET_ERROR_def Let_def)
  show ?thesis
  proof (cases "0 < n")
    case True
    then show ?thesis using p s by auto
  next
    case False
    then have e: "clk s' = start + (ts + ?l) * 1000" "clk s' < due" using n t(2) by (auto simp: algebra_simps)
    then have "timeout = -1 \<or> ts + ?l < timeout" "ts + ?l < 2 ^ 31"
      using t(1) by (auto simp: lasts_until_def)
    then show ?thesis using p False e t(3) l by (simp add: chk_int_def)
  qed
qed

lemma poll_loop_wakes:
  assumes sel: "readable_from api clk fd due" and k: "fd \<in> set (rfds k)" "handles k = []" "num_sockets k \<noteq> 0"
    and l: "lasts_until timeout start due"
  shows "\<lbrakk>clk s = start + ts * 1000; 0 \<le> ts; 0 \<le> lt; lt \<le> 100; timeout = -1 \<and> 0 < lt \<or> ts \<le> timeout;
      0 < lt \<or> ts = timeout; clk s \<le> max start due\<rbrakk> \<Longrightarrow>
    \<exists>wr r w e s' n. poll_loop api k timeout ts lt wait_rc s = Some (Inr (wr, r, w, e), s')
      \<and> (\<exists>tv s1. 0 \<le> tv \<and> start \<le> clk s1 \<and> clk s1 \<le> max start due
            \<and> p_select api (rfds k) (wfds k) (efds k) tv s1 = ((n, r, w, e), s')) \<and> 0 < n"
proof (induction "nat (due - clk s)" arbitrary: ts lt wait_rc s rule: less_induct)
  case less
  let ?l = "pass_time timeout ts lt"
  have t: "timeout = -1 \<or> ts \<le> timeout" using less.prems(5) by blast
  have tv: "0 \<le> ?l" "?l \<le> 100" using less.prems l by (auto simp: pass_time_def lasts_until_def)
  have now: "start \<le> clk s" using less.prems(1,2) by simp
  from poll_pass_wakes [OF sel k l less.prems(1-4) t, of wait_rc] consider
    (waited) s' where "poll_pass api k timeout ts lt wait_rc s = Some (Inr (ts + ?l, ?l, wait_rc), s')"
      "clk s' = start + (ts + ?l) * 1000" "clk s' < due" "timeout = -1 \<or> ts + ?l < timeout"
    | (ready) wr r w e s' n where "poll_pass api k timeout ts lt wait_rc s = Some (Inl (Inr (wr, r, w, e)), s')"
      "p_select api (rfds k) (wfds k) (efds k) (?l * 1000) s = ((n, r, w, e), s')" "0 < n"
    by blast
  then show ?case
  proof cases
    case waited
    note p = waited(1) and c = waited(2-)
    have pos: "0 < ?l" using less.prems(2,5,6) c(3) tv(1) by (auto simp: pass_time_def split: if_splits)
    then have "nat (due - clk s') < nat (due - clk s)" using c(1,2) less.prems(1) by auto
    from less.hyps [OF this c(1), of ?l wait_rc] c(2) show ?thesis
      using less.prems(2) tv pos c(3) p by (subst poll_loop.simps) auto
  next
    case ready
    then have "poll_loop api k timeout ts lt wait_rc s = Some (Inr (wr, r, w, e), s')"
      by (subst poll_loop.simps) simp
    then show ?thesis using ready(2,3) tv(1) now less.prems(7)
      by (intro exI[of _ wr] exI[of _ r] exI[of _ w] exI[of _ e] exI[of _ s'] exI[of _ n] conjI
          exI[of _ "?l * 1000"] exI[of _ s]) auto
  qed
qed

lemma poll_setup_sockets:
  assumes "stable api S"
  shows "\<lbrakk>\<forall>q \<in> set ps. 0 \<le> sint (pfd q) \<longrightarrow> S (pfd q); num_sockets k + length ps \<le> setsize\<rbrakk> \<Longrightarrow>
    \<exists>k' s'. poll_setup api setsize ps k s = (Some k', s') \<and> handles k' = handles k"
proof (induction ps arbitrary: k s)
  case (Cons p ps)
  obtain sock s1 where sk: "poll_is_socket api (pfd p) s = (sock, s1)" by fastforce
  then have S: "S (pfd p) = sock" using stable_socket [OF assms] by blast
  have "num_sockets (add_socket setsize p k) = num_sockets k + 1" by (simp add: add_socket_def Let_def)
  then show ?case
    using Cons.IH [of "add_socket setsize p k" s1] Cons.IH [of k s] Cons.prems sk S
    by (cases "sint (pfd p) < 0") auto
qed simp

lemma marked_socket:
  "marked S (wr, r, w, e) n ps \<Longrightarrow> q \<in> set ps \<Longrightarrow> 0 \<le> sint (pfd q) \<Longrightarrow> S (pfd q) \<Longrightarrow>
    (revents q \<noteq> 0) = socket_ready r w e q"
  by (induction ps arbitrary: n) (auto split: if_splits)

text \<open>If the answer names a socket, an entry is reported.\<close>

lemma answer_reported:
  assumes a: "asked S ps no_sets k" and m: "marked S (wr, r, w, e) 0 ps'" and rep: "reported ps rc ps'"
    and sub: "set r \<subseteq> set (rfds k)" "set w \<subseteq> set (wfds k)" "set e \<subseteq> set (efds k)"
    and n: "0 < length r + length w + length e"
  shows "0 < rc"
proof -
  have sets: "set (rfds k) = socket_fds S wants_read ps" "set (wfds k) = socket_fds S wants_write ps"
    "set (efds k) = socket_fds S (\<lambda>_. True) ps"
    using a by (simp_all add: asked_def no_sets_def)
  obtain p where p: "p \<in> set ps" "0 \<le> sint (pfd p)" "S (pfd p)" "socket_ready r w e p"
  proof -
    consider (r) x where "x \<in> set r" | (w) x where "x \<in> set w" | (e) x where "x \<in> set e"
      using n by (metis list.set_sel(1) list.size(3) add_is_0 less_numeral_extra(3))
    then show thesis
      by cases (use sub sets that in \<open>auto simp: socket_fds_def socket_ready_def subset_iff\<close>)
  qed
  obtain i where i: "i < length ps" "ps ! i = p" using p(1) by (auto simp: in_set_conv_nth)
  have m1: "map pfd ps' = map pfd ps" "map events ps' = map events ps" using rep by (auto simp: reported_def)
  then have "length ps' = length ps" by (metis length_map)
  then have q: "ps' ! i \<in> set ps'" "pfd (ps' ! i) = pfd p" "events (ps' ! i) = events p"
    using i m1 by (auto simp: list_eq_iff_nth_eq)
  then have "revents (ps' ! i) \<noteq> 0"
    using marked_socket [OF m q(1)] p by (simp add: socket_ready_def)
  then have "filter (\<lambda>p. revents p \<noteq> 0) ps' \<noteq> []" using q(1) by (auto simp: filter_empty_conv)
  then show ?thesis using rep by (simp add: reported_def)
qed

text \<open>C7. \<open>poll\<close> wakes up: while a socket that is polled for reading has something to read from the
  time \<open>due\<close> on, a call on sockets whose timeout ends later, or that has none, returns with at least
  one entry reported, and not later than \<open>due\<close> (or at once, if that is past), however many passes
  its loop takes until then and whatever other sockets become ready first.\<close>

theorem poll_wakes_up:
  assumes "stable api S" "clock_ok api clk" "readable_from api clk (pfd p) due"
    and p: "p \<in> set ps" "0 \<le> sint (pfd p)" "S (pfd p)" "wants_read (events p)"
    and ps: "\<forall>q \<in> set ps. 0 \<le> sint (pfd q) \<longrightarrow> S (pfd q)" "length ps \<le> setsize"
    and l: "lasts_until timeout (clk s) due"
  shows "\<exists>rc ps' s'. poll api setsize (Some ps) timeout s = Some (rc, ps', s')
    \<and> 0 < rc \<and> reported ps rc ps' \<and> clk s' \<le> max (clk s) due"
proof -
  obtain k s1 where st: "poll_setup api setsize ps no_sets s = (Some k, s1)" "handles k = []"
    using poll_setup_sockets [OF assms(1) ps(1), of no_sets setsize s] ps(2) by (auto simp: no_sets_def)
  have a: "asked S ps no_sets k"
    by (rule poll_setup_asked [OF assms(1) st(1)]) (simp add: sets_small_def no_sets_def)
  have k: "pfd p \<in> set (rfds k)" "num_sockets k \<noteq> 0"
    using a p by (auto simp: asked_def socket_fds_def socket_entries_def no_sets_def filter_empty_conv)
  have c: "clk s1 = clk s" by (rule poll_setup_clk [OF assms(2) st(1)])
  let ?l = "if timeout > 100 \<or> timeout = -1 then 100 else timeout"
  have pre: "clk s1 = clk s + 0 * 1000" "0 \<le> (0 :: int)" "0 \<le> ?l" "?l \<le> 100"
    "timeout = -1 \<and> 0 < ?l \<or> 0 \<le> timeout" "0 < ?l \<or> 0 = timeout" "clk s1 \<le> max (clk s) due"
    using l c by (auto simp: lasts_until_def)
  from poll_loop_wakes [OF assms(3) k(1) st(2) k(2) l pre, of WAIT_FAILED] obtain wr r w e s2 n tv t
    where o: "poll_loop api k timeout 0 ?l WAIT_FAILED s1 = Some (Inr (wr, r, w, e), s2)" and
      tv: "0 \<le> tv" "clk t \<le> max (clk s) due" and
      sel: "p_select api (rfds k) (wfds k) (efds k) tv t = ((n, r, w, e), s2)" "0 < n" by blast
  have w: "set r \<subseteq> set (rfds k)" "set w \<subseteq> set (wfds k)" "set e \<subseteq> set (efds k)"
    "0 < length r + length w + length e" "clk s2 \<le> max (clk s) due"
    using assms(3)[unfolded readable_from_def, rule_format, OF k(1) tv(1), of "wfds k" "efds k" t] sel tv(2)
    by (auto split: if_splits)
  from poll_results_ready [OF assms(1) st(1) o, of clk] assms(2) obtain rc ps' s' where
    r: "poll_results api (handles k) (wr, r, w, e) ps 0 s2 = Some (rc, ps', s')" "reported ps rc ps'"
      "marked S (wr, r, w, e) 0 ps'" "clk s' = clk s2" by blast
  have "poll api setsize (Some ps) timeout s = Some (rc, ps', s')"
    using p(1) st o r(1) by (auto simp: poll_def)
  then show ?thesis using answer_reported [OF a r(3,2) w(1-4)] r(2,4) w(5) by auto
qed

text \<open>A socket that is readable from the time 250000 on, in microseconds; the call has no timeout.\<close>

definition later_poll :: "int pollapi" where
  "later_poll = demo_poll\<lparr>p_select := \<lambda>r w e tv s.
     if r = [] \<and> w = [] \<and> e = [] then ((-1, [], [], []), s)
     else if world s + tv < 250000 then ((0, [], [], []), s\<lparr>world := world s + tv\<rparr>)
     else ((int (length r), r, [], []), s\<lparr>world := max (world s) (min (world s + tv) 250000)\<rparr>)\<rparr>"

theorem poll_wakes_up_witness:
  "\<exists>rc ps' s'. poll later_poll 64 (Some [\<lparr>pfd = 5, events = POLLIN, revents = 0\<rparr>]) (-1) time0 = Some (rc, ps', s')
    \<and> 0 < rc \<and> world s' \<le> 250000"
proof -
  let ?p = "\<lparr>pfd = 5, events = POLLIN, revents = 0\<rparr>"
  have s: "stable later_poll (\<lambda>fd. 3 \<le> sint fd)"
    by (auto simp: stable_def poll_is_socket_def demo_poll_def later_poll_def)
  have c: "clock_ok later_poll world" by (auto simp: clock_ok_def demo_poll_def later_poll_def)
  have r: "readable_from later_poll world (pfd ?p) 250000"
    by (auto simp: readable_from_def later_poll_def)
  show ?thesis
    using poll_wakes_up [OF s c r, of "[?p]" 64 "-1" time0]
    by (auto simp: wants_read_def POLLIN_def lasts_until_def time0_def)
qed

text \<open>The descriptors of \<open>posix_open\<close> (\<open>crypto/compat/posix_win.c\<close>) are negative, and \<open>poll\<close> ignores
  negative descriptors: it never reports a file opened that way, whatever its state.\<close>

lemma poll_ignores_opened_files:
  assumes "posix_open api k path flags arg s = (fd, s')"
    and "fst (c_open api path (win_flags k flags) (if flags AND O_CREAT k \<noteq> 0 then arg else 0) s) = fh" "0 \<le> sint fh"
    and "stable papi S" "0 \<le> timeout" "timeout < 2 ^ 31"
  shows "\<exists>rc ps' t'. poll papi setsize (Some ps) timeout t = Some (rc, ps', t')
    \<and> (rc = -1 \<or> (\<forall>q \<in> set ps'. pfd q = fd \<longrightarrow> revents q = 0))"
proof -
  have "fh \<noteq> -1" using assms(3) by auto
  then have "fd = fh + 0x80000000"
    using assms(1,2) by (auto simp: posix_open_def Let_def split: prod.splits)
  then have neg: "sint fd < 0" using marked_fd [OF assms(3)] sint_lt [of fh] by simp
  obtain rc ps' t' where p: "poll papi setsize (Some ps) timeout t = Some (rc, ps', t')"
      "rc = -1 \<and> ps' = ps \<and> oserr t' \<noteq> None \<or> reported ps rc ps'"
    using poll_returns [OF assms(4-6), of setsize ps t] by blast
  then have "rc = -1 \<or> (\<forall>q \<in> set ps'. pfd q = fd \<longrightarrow> revents q = 0)"
    using neg by (auto simp: reported_def)
  then show ?thesis using p(1) by blast
qed

end
