(* ===== verification/Dirent_Win.thy ===== *)
theory Dirent_Win
  imports C_Runtime
begin

text \<open>
  Directory streams for Windows (\<open>include/compat/dirent_msvc.h\<close>): \<open>opendir\<close>,
  \<open>readdir\<close>, \<open>rewinddir\<close>, \<open>closedir\<close> and their wide-character versions over the
  search functions of Win32.

  The structures live in one store per type (\<open>wdirs\<close>, \<open>dirs\<close>, \<open>patts\<close>) with a common
  count of the requests to \<open>malloc\<close>; \<open>doom\<close> says which requests fail and the \<open>junk\<close> fields
  what fresh memory contains. Win32 and the conversions of the C library are the fields of
  \<open>findapi\<close>, functions on a world \<open>'w\<close>. The use of a structure that is not live, an access
  outside an array and a string without terminator are undefined.
\<close>

section \<open>Data\<close>

type_synonym wchar = "16 word"

definition PATH_MAX :: nat where [simp]: "PATH_MAX = 260"

datatype handle = INVALID_HANDLE_VALUE | Handle nat

record find_data =
  dwFileAttributes :: "32 word"
  cFileName :: "wchar list"
  cAlternateFileName :: "wchar list"

datatype file_type = DT_UNKNOWN | DT_CHR | DT_DIR | DT_REG

text \<open>\<open>struct dirent\<close> and \<open>struct _wdirent\<close> differ in the characters of \<open>d_name\<close>.\<close>

record 'c dirent =
  d_ino :: int
  d_reclen :: nat
  d_namlen :: nat
  d_type :: file_type
  d_name :: "'c list"

type_synonym wdirent = "wchar dirent"

record WDIR =
  ent :: wdirent
  data :: find_data
  cached :: bool
  handle :: handle
  patt :: ptr

record DIR =
  dent :: "char dirent"
  wdirp :: ptr

record 'w dsys =
  derrno :: "errno option"
  wdirs :: "nat \<Rightarrow> WDIR option"
  dirs :: "nat \<Rightarrow> DIR option"
  patts :: "nat \<Rightarrow> wchar list option"
  dallocs :: nat
  doom :: "nat \<Rightarrow> bool"
  junk_wdir :: "nat \<Rightarrow> WDIR"
  junk_dir :: "nat \<Rightarrow> DIR"
  junk_wchar :: "nat \<Rightarrow> wchar"
  win :: 'w

record 'w findapi =
  GetFullPathNameW :: "wchar list \<Rightarrow> nat \<Rightarrow> 'w \<Rightarrow> (nat \<times> wchar list) \<times> 'w"
  FindFirstFileW :: "wchar list \<Rightarrow> 'w \<Rightarrow> (handle \<times> find_data) \<times> 'w"
  FindNextFileW :: "nat \<Rightarrow> 'w \<Rightarrow> (bool \<times> find_data) \<times> 'w"
  FindClose :: "nat \<Rightarrow> 'w \<Rightarrow> 'w"
  mbstowcs_s :: "nat \<Rightarrow> string \<Rightarrow> nat \<Rightarrow> int \<times> nat \<times> wchar list"
  wcstombs_s :: "nat \<Rightarrow> wchar list \<Rightarrow> nat \<Rightarrow> int \<times> nat \<times> char list"

text \<open>The two functions of the header that only call those of the C library.\<close>

definition dirent_mbstowcs_s :: "'w findapi \<Rightarrow> nat \<Rightarrow> string \<Rightarrow> nat \<Rightarrow> int \<times> nat \<times> wchar list" where
  [simp]: "dirent_mbstowcs_s api sizeInWords mbstr n = mbstowcs_s api sizeInWords mbstr n"

definition dirent_wcstombs_s :: "'w findapi \<Rightarrow> nat \<Rightarrow> wchar list \<Rightarrow> nat \<Rightarrow> int \<times> nat \<times> char list" where
  [simp]: "dirent_wcstombs_s api sizeInBytes wcstr n = wcstombs_s api sizeInBytes wcstr n"

text \<open>The string at the start of an array, which has to end within it.\<close>

definition str_of :: "wchar list \<Rightarrow> wchar list option" where
  "str_of cs = (if 0 \<in> set cs then Some (takeWhile (\<lambda>c. c \<noteq> 0) cs) else None)"

fun patt_of :: "ptr \<Rightarrow> 'w dsys \<Rightarrow> wchar list option" where
  "patt_of Null s = None"
| "patt_of (Ref p) s = patts s p"

section \<open>Memory\<close>

definition set_derrno :: "errno \<Rightarrow> 'w dsys \<Rightarrow> 'w dsys" where
  [simp]: "set_derrno e s = s\<lparr>derrno := Some e\<rparr>"

definition malloc_wdir :: "'w dsys \<Rightarrow> ptr \<times> 'w dsys" where
  "malloc_wdir s =
     (let k = dallocs s; s = s\<lparr>dallocs := Suc k\<rparr>
      in if doom s k then (Null, s) else (Ref k, s\<lparr>wdirs := (wdirs s)(k \<mapsto> junk_wdir s k)\<rparr>))"

definition malloc_dir :: "'w dsys \<Rightarrow> ptr \<times> 'w dsys" where
  "malloc_dir s =
     (let k = dallocs s; s = s\<lparr>dallocs := Suc k\<rparr>
      in if doom s k then (Null, s) else (Ref k, s\<lparr>dirs := (dirs s)(k \<mapsto> junk_dir s k)\<rparr>))"

text \<open>A request for bytes, of which a wide character takes two.\<close>

definition malloc_wchars :: "nat \<Rightarrow> 'w dsys \<Rightarrow> ptr \<times> 'w dsys" where
  "malloc_wchars n s =
     (let k = dallocs s; s = s\<lparr>dallocs := Suc k\<rparr>
      in if doom s k then (Null, s)
         else (Ref k, s\<lparr>patts := (patts s)(k \<mapsto> map (junk_wchar s) [0 ..< n div 2])\<rparr>))"

fun free_patt :: "ptr \<Rightarrow> 'w dsys \<Rightarrow> 'w dsys option" where
  "free_patt Null s = Some s"
| "free_patt (Ref p) s =
     (case patts s p of None \<Rightarrow> None | Some _ \<Rightarrow> Some (s\<lparr>patts := (patts s)(p := None)\<rparr>))"

fun store_wchars :: "ptr \<Rightarrow> wchar list \<Rightarrow> 'w dsys \<Rightarrow> 'w dsys option" where
  "store_wchars Null ws s = None"
| "store_wchars (Ref p) ws s =
     (case patts s p of
        None \<Rightarrow> None
      | Some buf \<Rightarrow>
          if length ws \<le> length buf
          then Some (s\<lparr>patts := (patts s)(p \<mapsto> ws @ drop (length ws) buf)\<rparr>)
          else None)"

definition upd_wdir :: "nat \<Rightarrow> (WDIR \<Rightarrow> WDIR) \<Rightarrow> 'w dsys \<Rightarrow> 'w dsys option" where
  "upd_wdir a f s = do { d \<leftarrow> wdirs s a; Some (s\<lparr>wdirs := (wdirs s)(a \<mapsto> f d)\<rparr>) }"

definition upd_dir :: "nat \<Rightarrow> (DIR \<Rightarrow> DIR) \<Rightarrow> 'w dsys \<Rightarrow> 'w dsys option" where
  "upd_dir a f s = do { d \<leftarrow> dirs s a; Some (s\<lparr>dirs := (dirs s)(a \<mapsto> f d)\<rparr>) }"

section \<open>The search\<close>

text \<open>\<open>dirent_first\<close> and \<open>dirent_next\<close> return whether \<open>dirp->data\<close> holds an entry, where
  the source returns its address or null.\<close>

definition dirent_first :: "'w findapi \<Rightarrow> nat \<Rightarrow> 'w dsys \<Rightarrow> (bool \<times> 'w dsys) option" where
  "dirent_first api a s = do {
     d \<leftarrow> wdirs s a;
     buf \<leftarrow> patt_of (patt d) s;
     pat \<leftarrow> str_of buf;
     let ((h, fd), w) = FindFirstFileW api pat (win s);
     let d = d\<lparr>handle := h, data := fd\<rparr>;
     let s = s\<lparr>win := w\<rparr>;
     if h \<noteq> INVALID_HANDLE_VALUE
     then Some (True, s\<lparr>wdirs := (wdirs s)(a \<mapsto> d\<lparr>cached := True\<rparr>)\<rparr>)
     else Some (False, s\<lparr>wdirs := (wdirs s)(a \<mapsto> d\<lparr>cached := False\<rparr>)\<rparr>)
   }"

definition dirent_next :: "'w findapi \<Rightarrow> nat \<Rightarrow> 'w dsys \<Rightarrow> (bool \<times> 'w dsys) option" where
  "dirent_next api a s = do {
     d \<leftarrow> wdirs s a;
     if cached d then Some (True, s\<lparr>wdirs := (wdirs s)(a \<mapsto> d\<lparr>cached := False\<rparr>)\<rparr>)
     else case handle d of
       Handle h \<Rightarrow>
         (case FindNextFileW api h (win s) of ((found, fd), w) \<Rightarrow>
            if found
            then Some (True, s\<lparr>wdirs := (wdirs s)(a \<mapsto> d\<lparr>data := fd\<rparr>), win := w\<rparr>)
            else Some (False, s\<lparr>wdirs := (wdirs s)(a \<mapsto> d\<lparr>data := fd, handle := INVALID_HANDLE_VALUE\<rparr>),
                   win := FindClose api h w\<rparr>))
     | INVALID_HANDLE_VALUE \<Rightarrow> Some (False, s)
   }"

section \<open>Wide-character streams\<close>

text \<open>\<open>_wclosedir\<close>.\<close>

fun wclosedir :: "'w findapi \<Rightarrow> ptr \<Rightarrow> 'w dsys \<Rightarrow> (int \<times> 'w dsys) option" where
  "wclosedir api Null s = Some (-1, set_derrno EBADF s)"
| "wclosedir api (Ref a) s = do {
     d \<leftarrow> wdirs s a;
     let s = (case handle d of
                Handle h \<Rightarrow> s\<lparr>win := FindClose api h (win s)\<rparr>
              | INVALID_HANDLE_VALUE \<Rightarrow> s);
     s \<leftarrow> free_patt (patt d) s;
     Some (0, s\<lparr>wdirs := (wdirs s)(a := None)\<rparr>)
   }"

text \<open>Appending the search pattern to the \<open>len\<close> characters of the path in \<open>buf\<close>.\<close>

definition append_pattern :: "wchar list \<Rightarrow> nat \<Rightarrow> wchar list option" where
  "append_pattern buf len = do {
     (buf, p) \<leftarrow>
       (if 0 < len
        then do {
          c \<leftarrow> aget buf (int len - 1);
          if c = 0x5C \<or> c = 0x2F \<or> c = 0x3A then Some (buf, len)
          else do { buf \<leftarrow> aset buf (int len) 0x5C; Some (buf, len + 1) }
        }
        else Some (buf, len));
     buf \<leftarrow> aset buf (int p) 0x2A;
     aset buf (int p + 1) 0
   }"

text \<open>The body of \<open>_wopendir\<close> once \<open>dirp->patt\<close> is allocated; the result is \<open>error\<close>.\<close>

definition wopendir_path :: "'w findapi \<Rightarrow> nat \<Rightarrow> wchar list \<Rightarrow> nat \<Rightarrow> 'w dsys \<Rightarrow> (bool \<times> 'w dsys) option" where
  "wopendir_path api a dirname n s = do {
     d \<leftarrow> wdirs s a;
     let ((len, out), w) = GetFullPathNameW api dirname n (win s);
     s \<leftarrow> store_wchars (patt d) out (s\<lparr>win := w\<rparr>);
     if 0 < len \<and> len < n
     then do {
       buf \<leftarrow> patt_of (patt d) s;
       buf \<leftarrow> append_pattern buf len;
       s \<leftarrow> store_wchars (patt d) buf s;
       (found, s) \<leftarrow> dirent_first api a s;
       if found then Some (False, s) else Some (True, set_derrno ENOENT s)
     }
     else Some (True, set_derrno ENOENT s)
   }"

text \<open>\<open>_wopendir\<close>; a null \<open>dirname\<close> is \<open>None\<close>.\<close>

definition wopendir :: "'w findapi \<Rightarrow> wchar list option \<Rightarrow> 'w dsys \<Rightarrow> (ptr \<times> 'w dsys) option" where
  "wopendir api dirname s =
     (case dirname of
        None \<Rightarrow> Some (Null, set_derrno ENOENT s)
      | Some name \<Rightarrow>
          if name = [] then Some (Null, set_derrno ENOENT s)
          else case malloc_wdir s of
            (Null, s) \<Rightarrow> Some (Null, s)
          | (Ref a, s) \<Rightarrow> do {
              s \<leftarrow> upd_wdir a (\<lambda>d. d\<lparr>handle := INVALID_HANDLE_VALUE, patt := Null, cached := False\<rparr>) s;
              let ((n, _), w) = GetFullPathNameW api name 0 (win s);
              let (p, s) = (if n \<le> (SIZE_MAX - 16) div 2 then malloc_wchars (2 * n + 16) (s\<lparr>win := w\<rparr>)
                            else (Null, s\<lparr>win := w\<rparr>));
              s \<leftarrow> upd_wdir a (\<lambda>d. d\<lparr>patt := p\<rparr>) s;
              (error, s) \<leftarrow> (if p \<noteq> Null then wopendir_path api a name n s
                             else Some (True, set_derrno ENOMEM s));
              if error
              then do { (_, s) \<leftarrow> wclosedir api (Ref a) s; Some (Null, s) }
              else Some (Ref a, s)
            })"

text \<open>The copy of the file name in \<open>_wreaddir\<close>.\<close>

function copy_name :: "wchar list \<Rightarrow> wchar list \<Rightarrow> nat \<Rightarrow> (wchar list \<times> nat) option" where
  "copy_name src dst n =
     (if n + 1 < PATH_MAX
      then do {
        c \<leftarrow> aget src (int n);
        if c \<noteq> 0 then do { dst \<leftarrow> aset dst (int n) c; copy_name src dst (n + 1) } else Some (dst, n)
      }
      else Some (dst, n))"
  by pat_completeness auto
termination by (relation "measure (\<lambda>(_, _, n). PATH_MAX - n)") auto

declare copy_name.simps [simp del]

definition attr_type :: "32 word \<Rightarrow> file_type" where
  "attr_type attr =
     (if attr AND 0x40 \<noteq> 0 then DT_CHR else if attr AND 0x10 \<noteq> 0 then DT_DIR else DT_REG)"

text \<open>\<open>_wreaddir\<close> returns the address of \<open>dirp->ent\<close> or null; the result here is the entry
  found there.\<close>

definition wreaddir :: "'w findapi \<Rightarrow> nat \<Rightarrow> 'w dsys \<Rightarrow> (wchar dirent option \<times> 'w dsys) option" where
  "wreaddir api a s = do {
     (found, s) \<leftarrow> dirent_next api a s;
     if found
     then do {
       d \<leftarrow> wdirs s a;
       (name, n) \<leftarrow> copy_name (cFileName (data d)) (d_name (ent d)) 0;
       name \<leftarrow> aset name (int n) 0;
       let e = \<lparr>d_ino = 0, d_reclen = 544, d_namlen = n,
                d_type = attr_type (dwFileAttributes (data d)), d_name = name\<rparr>;
       Some (Some e, s\<lparr>wdirs := (wdirs s)(a \<mapsto> d\<lparr>ent := e\<rparr>)\<rparr>)
     }
     else Some (None, s)
   }"

text \<open>\<open>_wrewinddir\<close>.\<close>

fun wrewinddir :: "'w findapi \<Rightarrow> ptr \<Rightarrow> 'w dsys \<Rightarrow> 'w dsys option" where
  "wrewinddir api Null s = Some s"
| "wrewinddir api (Ref a) s = do {
     d \<leftarrow> wdirs s a;
     let s = (case handle d of
                Handle h \<Rightarrow> s\<lparr>win := FindClose api h (win s)\<rparr>
              | INVALID_HANDLE_VALUE \<Rightarrow> s);
     (_, s) \<leftarrow> dirent_first api a s;
     Some s
   }"

section \<open>Multi-byte streams\<close>

text \<open>\<open>opendir\<close>; \<open>wname\<close> has room for \<open>PATH_MAX\<close> wide characters.\<close>

definition opendir :: "'w findapi \<Rightarrow> string option \<Rightarrow> 'w dsys \<Rightarrow> (ptr \<times> 'w dsys) option" where
  "opendir api dirname s =
     (case dirname of
        None \<Rightarrow> Some (Null, set_derrno ENOENT s)
      | Some name \<Rightarrow>
          if name = [] then Some (Null, set_derrno ENOENT s)
          else case malloc_dir s of
            (Null, s) \<Rightarrow> Some (Null, s)
          | (Ref b, s) \<Rightarrow> (
              case dirent_mbstowcs_s api PATH_MAX name PATH_MAX of (err, _, out) \<Rightarrow>
                if length out > PATH_MAX then None
                else do {
                  (error, s) \<leftarrow>
                    (if err = 0
                     then do {
                       wname \<leftarrow> str_of out;
                       (p, s) \<leftarrow> wopendir api (Some wname) s;
                       s \<leftarrow> upd_dir b (\<lambda>d. d\<lparr>wdirp := p\<rparr>) s;
                       Some (p = Null, s)
                     }
                     else Some (True, s));
                  if error then Some (Null, s\<lparr>dirs := (dirs s)(b := None)\<rparr>) else Some (Ref b, s)
                }))"

text \<open>One conversion of a name into \<open>dirp->ent.d_name\<close>: \<open>error\<close>, the count \<open>n\<close> and the
  array after it.\<close>

definition convert_name ::
    "'w findapi \<Rightarrow> wchar list \<Rightarrow> char list \<Rightarrow> (int \<times> nat \<times> char list) option" where
  "convert_name api src dst = do {
     name \<leftarrow> str_of src;
     let (err, n, out) = dirent_wcstombs_s api PATH_MAX name PATH_MAX;
     if length out \<le> length dst then Some (err, n, out @ drop (length out) dst) else None
   }"

definition readdir :: "'w findapi \<Rightarrow> nat \<Rightarrow> 'w dsys \<Rightarrow> (char dirent option \<times> 'w dsys) option" where
  "readdir api b s = do {
     D \<leftarrow> dirs s b;
     a \<leftarrow> (case wdirp D of Ref a \<Rightarrow> Some a | Null \<Rightarrow> None);
     (found, s) \<leftarrow> dirent_next api a s;
     if found
     then do {
       d \<leftarrow> wdirs s a;
       (err, n, name) \<leftarrow> convert_name api (cFileName (data d)) (d_name (dent D));
       (err, n, name) \<leftarrow>
         (if err \<noteq> 0
          then do {
            c \<leftarrow> aget (cAlternateFileName (data d)) 0;
            if c \<noteq> 0 then convert_name api (cAlternateFileName (data d)) name else Some (err, n, name)
          }
          else Some (err, n, name));
       e \<leftarrow>
         (if err = 0
          then Some \<lparr>d_ino = 0, d_reclen = 280, d_namlen = n - 1,
                     d_type = attr_type (dwFileAttributes (data d)), d_name = name\<rparr>
          else do {
            name \<leftarrow> aset name 0 (CHR ''?'');
            name \<leftarrow> aset name 1 NUL;
            Some \<lparr>d_ino = 0, d_reclen = 0, d_namlen = 1, d_type = DT_UNKNOWN, d_name = name\<rparr>
          });
       Some (Some e, s\<lparr>dirs := (dirs s)(b \<mapsto> D\<lparr>dent := e\<rparr>)\<rparr>)
     }
     else Some (None, s)
   }"

fun closedir :: "'w findapi \<Rightarrow> ptr \<Rightarrow> 'w dsys \<Rightarrow> (int \<times> 'w dsys) option" where
  "closedir api Null s = Some (-1, set_derrno EBADF s)"
| "closedir api (Ref b) s = do {
     D \<leftarrow> dirs s b;
     (ok, s) \<leftarrow> wclosedir api (wdirp D) s;
     s \<leftarrow> upd_dir b (\<lambda>D. D\<lparr>wdirp := Null\<rparr>) s;
     Some (ok, s\<lparr>dirs := (dirs s)(b := None)\<rparr>)
   }"

definition rewinddir :: "'w findapi \<Rightarrow> nat \<Rightarrow> 'w dsys \<Rightarrow> 'w dsys option" where
  "rewinddir api b s = do {
     D \<leftarrow> dirs s b;
     wrewinddir api (wdirp D) s
   }"

section \<open>What the search functions promise\<close>

text \<open>
  The documented behaviour of Win32, over a view of the world: \<open>ls w pat\<close> are the files that
  match a pattern, \<open>hs w\<close> maps the open search handles to the files they have yet to return.
  A search finds the first of the files and stays open for the others; the search that finds none
  fails; the arrays of a found file end with a NUL; a call of this library changes no directory.
  \<open>GetFullPathNameW\<close> stores no more characters than it is told.
\<close>

type_synonym 'w listing = "'w \<Rightarrow> wchar list \<Rightarrow> find_data list"
type_synonym 'w searches = "'w \<Rightarrow> nat \<Rightarrow> find_data list option"

definition find_data_ok :: "find_data \<Rightarrow> bool" where
  "find_data_ok fd \<longleftrightarrow> length (cFileName fd) = PATH_MAX \<and> 0 \<in> set (cFileName fd)
     \<and> cAlternateFileName fd \<noteq> [] \<and> 0 \<in> set (cAlternateFileName fd)"

definition first_ok :: "'w findapi \<Rightarrow> 'w listing \<Rightarrow> 'w searches \<Rightarrow> bool" where
  "first_ok api ls hs \<longleftrightarrow> (\<forall>pat w. case FindFirstFileW api pat w of ((h, fd), w') \<Rightarrow>
     ls w' = ls w \<and>
     (case ls w pat of
        [] \<Rightarrow> h = INVALID_HANDLE_VALUE \<and> hs w' = hs w
      | x # xs \<Rightarrow> fd = x \<and> (\<exists>k. h = Handle k \<and> hs w k = None \<and> hs w' = (hs w)(k \<mapsto> xs))))"

definition next_ok :: "'w findapi \<Rightarrow> 'w listing \<Rightarrow> 'w searches \<Rightarrow> bool" where
  "next_ok api ls hs \<longleftrightarrow> (\<forall>h w xs. hs w h = Some xs \<longrightarrow>
     (case FindNextFileW api h w of ((found, fd), w') \<Rightarrow>
        ls w' = ls w \<and>
        (case xs of
           [] \<Rightarrow> \<not> found \<and> hs w' = hs w
         | x # xs \<Rightarrow> found \<and> fd = x \<and> hs w' = (hs w)(h \<mapsto> xs))))"

definition close_ok :: "'w findapi \<Rightarrow> 'w listing \<Rightarrow> 'w searches \<Rightarrow> bool" where
  "close_ok api ls hs \<longleftrightarrow> (\<forall>h w. hs w h \<noteq> None \<longrightarrow>
     ls (FindClose api h w) = ls w \<and> hs (FindClose api h w) = (hs w)(h := None))"

definition path_ok :: "'w findapi \<Rightarrow> 'w listing \<Rightarrow> 'w searches \<Rightarrow> bool" where
  "path_ok api ls hs \<longleftrightarrow> (\<forall>name n w. case GetFullPathNameW api name n w of ((len, out), w') \<Rightarrow>
     length out \<le> n \<and> ls w' = ls w \<and> hs w' = hs w)"

text \<open>\<open>mbstowcs_s\<close> and \<open>wcstombs_s\<close> stay in the buffer and terminate what they store; a
  conversion that succeeds counts the bytes it stored. \<open>mb\<close> is the conversion of a whole name.\<close>

definition conv_ok :: "'w findapi \<Rightarrow> (wchar list \<Rightarrow> string option) \<Rightarrow> bool" where
  "conv_ok api mb \<longleftrightarrow>
     (\<forall>name. case mbstowcs_s api PATH_MAX name PATH_MAX of (err, n, out) \<Rightarrow>
        length out \<le> PATH_MAX \<and> (err = 0 \<longrightarrow> 0 \<in> set out)) \<and>
     (\<forall>name. case wcstombs_s api PATH_MAX name PATH_MAX of (err, n, out) \<Rightarrow>
        (case mb name of
           Some t \<Rightarrow> NUL \<notin> set t \<and>
             (if length t < PATH_MAX then err = 0 \<and> n = length t + 1 \<and> out = t @ [NUL]
              else err \<noteq> 0 \<and> length out \<le> PATH_MAX)
         | None \<Rightarrow> err \<noteq> 0 \<and> length out \<le> PATH_MAX))"

definition find_api_ok :: "'w findapi \<Rightarrow> 'w listing \<Rightarrow> 'w searches \<Rightarrow> (wchar list \<Rightarrow> string option) \<Rightarrow> bool" where
  "find_api_ok api ls hs mb \<longleftrightarrow> first_ok api ls hs \<and> next_ok api ls hs \<and> close_ok api ls hs
     \<and> path_ok api ls hs \<and> conv_ok api mb"

definition files_ok :: "'w listing \<Rightarrow> bool" where
  "files_ok ls \<longleftrightarrow> (\<forall>w pat. \<forall>x \<in> set (ls w pat). find_data_ok x)"

section \<open>The abstraction\<close>

text \<open>\<open>a\<close> is a stream with the files \<open>rest\<close> left to read: the state \<open>s\<close> is the state \<open>s0\<close>
  without the stream, its structure, its pattern buffer \<open>p\<close> and its search handle. The invariant
  ties the cache and the handle of the structure to what the search has left.\<close>

definition wlive ::
    "'w listing \<Rightarrow> 'w searches \<Rightarrow> 'w dsys \<Rightarrow> 'w dsys \<Rightarrow> nat \<Rightarrow> ptr \<Rightarrow> wchar list \<Rightarrow> find_data list \<Rightarrow> bool" where
  "wlive ls hs s0 s a p buf rest \<longleftrightarrow>
     ls (win s) = ls (win s0) \<and> (\<forall>x \<in> set rest. find_data_ok x) \<and> wdirs s0 a = None \<and>
     (case p of Null \<Rightarrow> patts s = patts s0
      | Ref q \<Rightarrow> patts s0 q = None \<and> patts s = (patts s0)(q \<mapsto> buf)) \<and>
     (\<exists>d. wdirs s = (wdirs s0)(a \<mapsto> d) \<and> length (d_name (ent d)) = PATH_MAX \<and> patt d = p \<and>
        (case handle d of
           INVALID_HANDLE_VALUE \<Rightarrow> \<not> cached d \<and> rest = [] \<and> hs (win s) = hs (win s0)
         | Handle h \<Rightarrow> (\<exists>xs. hs (win s0) h = None \<and> hs (win s) = (hs (win s0))(h \<mapsto> xs) \<and>
             rest = (if cached d then data d # xs else xs))))"

lemma wlive_cases:
  assumes "wlive ls hs s0 s a p buf rest"
  obtains (ended) d where "wdirs s = (wdirs s0)(a \<mapsto> d)" "length (d_name (ent d)) = PATH_MAX" "patt d = p"
      "handle d = INVALID_HANDLE_VALUE" "\<not> cached d" "rest = []" "hs (win s) = hs (win s0)"
    | (waiting) d h xs where "wdirs s = (wdirs s0)(a \<mapsto> d)" "length (d_name (ent d)) = PATH_MAX" "patt d = p"
      "handle d = Handle h" "cached d" "rest = data d # xs" "hs (win s0) h = None" "hs (win s) = (hs (win s0))(h \<mapsto> xs)"
    | (searching) d h where "wdirs s = (wdirs s0)(a \<mapsto> d)" "length (d_name (ent d)) = PATH_MAX" "patt d = p"
      "handle d = Handle h" "\<not> cached d" "hs (win s0) h = None" "hs (win s) = (hs (win s0))(h \<mapsto> rest)"
proof -
  from assms obtain d where d: "wdirs s = (wdirs s0)(a \<mapsto> d)" "length (d_name (ent d)) = PATH_MAX" "patt d = p"
    and st: "case handle d of
        INVALID_HANDLE_VALUE \<Rightarrow> \<not> cached d \<and> rest = [] \<and> hs (win s) = hs (win s0)
      | Handle h \<Rightarrow> (\<exists>xs. hs (win s0) h = None \<and> hs (win s) = (hs (win s0))(h \<mapsto> xs) \<and>
          rest = (if cached d then data d # xs else xs))"
    unfolding wlive_def by blast
  show thesis
  proof (cases "handle d")
    case INVALID_HANDLE_VALUE
    then show thesis using d st ended by simp
  next
    case (Handle h)
    with st obtain xs where xs: "hs (win s0) h = None" "hs (win s) = (hs (win s0))(h \<mapsto> xs)"
      "rest = (if cached d then data d # xs else xs)" by auto
    show thesis
      by (cases "cached d") (use d Handle xs waiting searching in simp_all)
  qed
qed

lemma wlive_base:
  assumes "wlive ls hs s0 s a p buf rest"
  shows "ls (win s) = ls (win s0)" "wdirs s0 a = None" "\<forall>x \<in> set rest. find_data_ok x"
    "case p of Null \<Rightarrow> patts s = patts s0 | Ref q \<Rightarrow> patts s0 q = None \<and> patts s = (patts s0)(q \<mapsto> buf)"
  using assms unfolding wlive_def by auto

text \<open>The parts of the state the wide-character operations leave alone.\<close>

definition same_dirs :: "'w dsys \<Rightarrow> 'w dsys \<Rightarrow> bool" where
  "same_dirs s s' \<longleftrightarrow> dirs s' = dirs s \<and> junk_dir s' = junk_dir s \<and> doom s' = doom s"

text \<open>Everything a stream took has been given back.\<close>

definition restored :: "'w listing \<Rightarrow> 'w searches \<Rightarrow> 'w dsys \<Rightarrow> 'w dsys \<Rightarrow> bool" where
  "restored ls hs s0 s \<longleftrightarrow> wdirs s = wdirs s0 \<and> patts s = patts s0 \<and> dirs s = dirs s0
     \<and> hs (win s) = hs (win s0) \<and> ls (win s) = ls (win s0)"

lemma drop_fresh: "h a = None \<Longrightarrow> h(a := None) = (h :: 'a \<Rightarrow> 'b option)"
  by (auto simp: fun_upd_def)

lemma dirent_next_ok:
  assumes "find_api_ok api ls hs mb" "wlive ls hs s0 s a p buf rest"
  shows "\<exists>s' d. dirent_next api a s = Some (rest \<noteq> [], s') \<and> same_dirs s s'
    \<and> wdirs s' a = Some d \<and> wlive ls hs s0 s' a p buf (tl rest) \<and> (rest \<noteq> [] \<longrightarrow> data d = hd rest)"
proof -
  have next': "next_ok api ls hs" and close: "close_ok api ls hs" using assms(1) by (auto simp: find_api_ok_def)
  note base = wlive_base [OF assms(2)]
  show ?thesis
    using assms(2)
  proof (cases rule: wlive_cases)
    case (ended d)
    then show ?thesis
      using assms(2) by (auto simp: dirent_next_def same_dirs_def)
  next
    case (waiting d h xs)
    then show ?thesis
      using base by (auto simp: dirent_next_def same_dirs_def wlive_def split: ptr.splits)
  next
    case (searching d h)
    obtain found fd w where f: "FindNextFileW api h (win s) = ((found, fd), w)"
      by (cases "FindNextFileW api h (win s)") auto
    have n: "ls w = ls (win s)" "case rest of [] \<Rightarrow> \<not> found \<and> hs w = hs (win s)
        | x # xs \<Rightarrow> found \<and> fd = x \<and> hs w = (hs (win s))(h \<mapsto> xs)"
      using next' [unfolded next_ok_def, rule_format, where h = h and w = "win s"] searching f by auto
    show ?thesis
    proof (cases rest)
      case Nil
      have c: "ls (FindClose api h w) = ls w" "hs (FindClose api h w) = (hs w)(h := None)"
        using close searching n Nil by (auto simp: close_ok_def)
      from searching n Nil c base show ?thesis
        by (auto simp: dirent_next_def same_dirs_def wlive_def f drop_fresh split: ptr.splits)
    next
      case (Cons x xs)
      from searching n Cons base show ?thesis
        by (auto simp: dirent_next_def same_dirs_def wlive_def f split: ptr.splits)
    qed
  qed
qed

lemma wclosedir_ok:
  assumes "find_api_ok api ls hs mb" "wlive ls hs s0 s a p buf rest"
  shows "\<exists>s'. wclosedir api (Ref a) s = Some (0, s') \<and> same_dirs s s' \<and> wdirs s' = wdirs s0
    \<and> patts s' = patts s0 \<and> hs (win s') = hs (win s0) \<and> ls (win s') = ls (win s0)"
proof -
  have close: "close_ok api ls hs" using assms(1) by (simp add: find_api_ok_def)
  note base = wlive_base [OF assms(2)]
  have closed: "hs (FindClose api h (win s)) = hs (win s0) \<and> ls (FindClose api h (win s)) = ls (win s0)"
    if "hs (win s0) h = None" "hs (win s) = (hs (win s0))(h \<mapsto> xs)" for h xs
    using close that base by (auto simp: close_ok_def drop_fresh)
  show ?thesis
    using assms(2)
    by (cases rule: wlive_cases; cases p)
      (use base in \<open>auto simp: same_dirs_def drop_fresh dest: closed\<close>)
qed

lemma wlive_handle:
  assumes "wlive ls hs s0 s a p buf rest"
  obtains d where "wdirs s = (wdirs s0)(a \<mapsto> d)" "length (d_name (ent d)) = PATH_MAX" "patt d = p"
    "handle d = INVALID_HANDLE_VALUE \<and> hs (win s) = hs (win s0)
     \<or> (\<exists>h xs. handle d = Handle h \<and> hs (win s0) h = None \<and> hs (win s) = (hs (win s0))(h \<mapsto> xs))"
  using assms by (cases rule: wlive_cases) auto

lemma wlive_waitingI:
  assumes "ls (win s) = ls (win s0)" "\<forall>x \<in> set (data d # xs). find_data_ok x" "wdirs s0 a = None"
    "patts s0 q = None" "patts s = (patts s0)(q \<mapsto> buf)" "wdirs s = (wdirs s0)(a \<mapsto> d)"
    "length (d_name (ent d)) = PATH_MAX" "patt d = Ref q" "handle d = Handle h" "cached d"
    "hs (win s0) h = None" "hs (win s) = (hs (win s0))(h \<mapsto> xs)"
  shows "wlive ls hs s0 s a (Ref q) buf (data d # xs)"
  using assms unfolding wlive_def by (auto intro!: exI [of _ d])

lemma dirent_first_ok:
  assumes "find_api_ok api ls hs mb" "files_ok ls" "wdirs s0 a = None" "wdirs s = (wdirs s0)(a \<mapsto> d)"
    "length (d_name (ent d)) = PATH_MAX" "patt d = Ref p" "patts s0 p = None" "patts s = (patts s0)(p \<mapsto> buf)"
    "str_of buf = Some pat" "hs (win s) = hs (win s0)" "ls (win s) = ls (win s0)"
  shows "\<exists>s'. dirent_first api a s = Some (ls (win s0) pat \<noteq> [], s') \<and> same_dirs s s'
    \<and> wlive ls hs s0 s' a (Ref p) buf (ls (win s0) pat)"
proof -
  obtain h fd w where f: "FindFirstFileW api pat (win s) = ((h, fd), w)"
    by (cases "FindFirstFileW api pat (win s)") auto
  have "first_ok api ls hs" using assms(1) by (simp add: find_api_ok_def)
  from this [unfolded first_ok_def, rule_format, where pat = pat and w = "win s"]
  have n: "ls w = ls (win s)" "case ls (win s) pat of
        [] \<Rightarrow> h = INVALID_HANDLE_VALUE \<and> hs w = hs (win s)
      | x # xs \<Rightarrow> fd = x \<and> (\<exists>k. h = Handle k \<and> hs (win s) k = None \<and> hs w = (hs (win s))(k \<mapsto> xs))"
    by (auto simp: f)
  have files: "\<forall>x \<in> set (ls (win s0) pat). find_data_ok x" using assms(2) by (simp add: files_ok_def)
  show ?thesis
  proof (cases "ls (win s0) pat")
    case Nil
    then show ?thesis using assms n by (auto simp: dirent_first_def f same_dirs_def wlive_def)
  next
    case (Cons x xs)
    then obtain k where k: "fd = x" "h = Handle k" "hs (win s0) k = None" "hs w = (hs (win s0))(k \<mapsto> xs)"
      using n(2) assms(10,11) by auto
    let ?d = "d\<lparr>handle := h, data := fd, cached := True\<rparr>"
    let ?s = "s\<lparr>win := w, wdirs := (wdirs s)(a \<mapsto> ?d)\<rparr>"
    have "wlive ls hs s0 ?s a (Ref p) buf (data ?d # xs)"
      by (rule wlive_waitingI) (use assms n(1) k files Cons in auto)
    then show ?thesis using assms k Cons by (auto simp: dirent_first_def f same_dirs_def)
  qed
qed

lemma wrewinddir_ok:
  assumes "find_api_ok api ls hs mb" "files_ok ls" "wlive ls hs s0 s a (Ref p) buf rest" "str_of buf = Some pat"
  shows "\<exists>s'. wrewinddir api (Ref a) s = Some s' \<and> same_dirs s s'
    \<and> wlive ls hs s0 s' a (Ref p) buf (ls (win s0) pat)"
proof -
  have close: "close_ok api ls hs" using assms(1) by (simp add: find_api_ok_def)
  note base = wlive_base [OF assms(3), simplified]
  obtain d where d: "wdirs s = (wdirs s0)(a \<mapsto> d)" "length (d_name (ent d)) = PATH_MAX" "patt d = Ref p"
    and h: "handle d = INVALID_HANDLE_VALUE \<and> hs (win s) = hs (win s0)
     \<or> (\<exists>h xs. handle d = Handle h \<and> hs (win s0) h = None \<and> hs (win s) = (hs (win s0))(h \<mapsto> xs))"
    by (rule wlive_handle [OF assms(3)])
  let ?s = "case handle d of Handle h \<Rightarrow> s\<lparr>win := FindClose api h (win s)\<rparr> | INVALID_HANDLE_VALUE \<Rightarrow> s"
  have "hs (win ?s) = hs (win s0)" "ls (win ?s) = ls (win s0)"
    using h close base(1) by (auto simp: close_ok_def drop_fresh)
  moreover have "wdirs ?s = wdirs s" "patts ?s = patts s" "same_dirs s ?s"
    by (auto simp: same_dirs_def split: handle.split)
  ultimately obtain s' where "dirent_first api a ?s = Some (ls (win s0) pat \<noteq> [], s')" "same_dirs ?s s'"
    "wlive ls hs s0 s' a (Ref p) buf (ls (win s0) pat)"
    using dirent_first_ok [OF assms(1,2) base(2) _ d(2,3) _ _ assms(4), of ?s] d(1) base by auto
  moreover have "wdirs s a = Some d" using d by simp
  ultimately show ?thesis using \<open>same_dirs s ?s\<close> by (auto simp: same_dirs_def)
qed

section \<open>Opening\<close>

text \<open>The search pattern of a directory.\<close>

definition dir_pattern :: "wchar list \<Rightarrow> wchar list" where
  "dir_pattern path =
     path @ (if path \<noteq> [] \<and> last path \<in> {0x5C, 0x2F, 0x3A} then [] else [0x5C]) @ [0x2A]"

lemma append_pattern_eq:
  assumes "path \<noteq> []"
  shows "append_pattern (path @ y0 # y1 # y2 # rest) (length path) =
    Some (path @ (if last path \<in> {0x5C, 0x2F, 0x3A} then 0x2A # 0 # y2 # rest else 0x5C # 0x2A # 0 # rest))"
proof -
  have "aget (path @ y0 # y1 # y2 # rest) (int (length path) - 1) = Some (last path)"
    using assms by (simp add: aget_def in_range_def last_conv_nth nat_diff_distrib nth_append)
      (cases path; simp add: nat_diff_distrib)
  then show ?thesis
    using assms by (simp add: append_pattern_def aset_def in_range_def nat_add_distrib list_update_append)
qed

text \<open>The pattern and its terminator fit in the eight characters beyond the \<open>n\<close> of the path.\<close>

lemma append_pattern_fits:
  assumes "length buf = n + 8" "0 < len" "len < n"
  shows "\<exists>buf' pat. append_pattern buf len = Some buf' \<and> length buf' = length buf \<and> str_of buf' = Some pat
    \<and> (0 \<notin> set (take len buf) \<longrightarrow> pat = dir_pattern (take len buf))"
proof -
  let ?path = "take len buf"
  have "3 \<le> length (drop len buf)" using assms by simp
  then obtain y0 y1 y2 rest where "drop len buf = y0 # y1 # y2 # rest"
    by (metis (no_types, opaque_lifting) Suc_le_length_iff numeral_3_eq_3)
  then have buf: "buf = ?path @ y0 # y1 # y2 # rest" by (metis append_take_drop_id)
  have ne: "?path \<noteq> []" "length ?path = len" using assms by auto
  let ?new = "if last ?path \<in> {0x5C, 0x2F, 0x3A} then 0x2A # 0 # y2 # rest else 0x5C # 0x2A # 0 # rest"
  have "append_pattern buf len = Some (?path @ ?new)"
    using append_pattern_eq [OF ne(1), of y0 y1 y2 rest] buf ne(2) by simp
  moreover have "length (?path @ ?new) = length buf" by (subst (3) buf) simp
  moreover have "str_of (?path @ ?new) = Some (takeWhile (\<lambda>c. c \<noteq> 0) (?path @ ?new))" by (simp add: str_of_def)
  moreover have "takeWhile (\<lambda>c. c \<noteq> 0) (?path @ ?new) = dir_pattern ?path" if "0 \<notin> set ?path"
  proof -
    have "takeWhile (\<lambda>c. c \<noteq> 0) (?path @ ?new) = ?path @ takeWhile (\<lambda>c. c \<noteq> 0) ?new"
      by (rule takeWhile_append2) (use that in auto)
    then show ?thesis using ne(1) by (simp add: dir_pattern_def)
  qed
  ultimately show ?thesis by blast
qed

text \<open>\<open>path\<close> is the absolute path of \<open>name\<close>: \<open>GetFullPathNameW\<close> returns the room it needs,
  or its length when there is room for it.\<close>

definition full_path :: "'w findapi \<Rightarrow> wchar list \<Rightarrow> wchar list \<Rightarrow> bool" where
  "full_path api name path \<longleftrightarrow> path \<noteq> [] \<and> 0 \<notin> set path \<and> length path < 2 ^ 32 - 1 \<and>
     (\<forall>n w. fst (GetFullPathNameW api name n w) =
        (if n \<le> length path then (length path + 1, []) else (length path, path @ [0])))"

declare wclosedir.simps(2) [simp del]

lemma wlive_cong:
  assumes "wdirs t0 = wdirs s0" "patts t0 = patts s0" "win t0 = win s0"
    "wdirs t = wdirs s" "patts t = patts s" "win t = win s"
  shows "wlive ls hs t0 t a p buf rest = wlive ls hs s0 s a p buf rest"
  unfolding wlive_def using assms by (simp only:)

lemma wlive_errno: "wlive ls hs s0 (s\<lparr>derrno := e\<rparr>) a p buf rest = wlive ls hs s0 s a p buf rest"
  by (rule wlive_cong) simp_all

lemma wlive_dirs [simp]:
  "wlive ls hs s0 (s\<lparr>dirs := x\<rparr>) a p buf rest = wlive ls hs s0 s a p buf rest"
  "wlive ls hs (s0\<lparr>dallocs := k, dirs := x\<rparr>) s a p buf rest = wlive ls hs s0 s a p buf rest"
  by (rule wlive_cong; simp)+

lemma wopendir_path_ok:
  assumes "find_api_ok api ls hs mb" "files_ok ls" "wdirs s0 a = None" "wdirs s = (wdirs s0)(a \<mapsto> d)"
    "length (d_name (ent d)) = PATH_MAX" "patt d = Ref p" "handle d = INVALID_HANDLE_VALUE" "\<not> cached d"
    "patts s0 p = None" "patts s = (patts s0)(p \<mapsto> buf)" "length buf = n + 8"
    "hs (win s) = hs (win s0)" "ls (win s) = ls (win s0)"
  shows "\<exists>err s' buf' rest. wopendir_path api a name n s = Some (err, s') \<and> same_dirs s s'
    \<and> wlive ls hs s0 s' a (Ref p) buf' rest
    \<and> (\<not> err \<longrightarrow> (\<exists>pat. str_of buf' = Some pat \<and> rest = ls (win s0) pat \<and> rest \<noteq> []))
    \<and> (full_path api name path \<and> length path < n \<longrightarrow> err = (ls (win s0) (dir_pattern path) = [])
         \<and> (\<not> err \<longrightarrow> str_of buf' = Some (dir_pattern path)))"
proof -
  obtain len out w where g: "GetFullPathNameW api name n (win s) = ((len, out), w)"
    by (cases "GetFullPathNameW api name n (win s)") auto
  have "path_ok api ls hs" using assms(1) by (simp add: find_api_ok_def)
  from this [unfolded path_ok_def, rule_format, where name = name and n = n and w = "win s"]
  have gp: "length out \<le> n" "ls w = ls (win s0)" "hs w = hs (win s0)"
    using assms(12,13) by (auto simp: g)
  let ?b = "out @ drop (length out) buf"
  let ?s = "s\<lparr>win := w, patts := (patts s)(p \<mapsto> ?b)\<rparr>"
  have st: "store_wchars (Ref p) out (s\<lparr>win := w\<rparr>) = Some ?s"
    using assms(10,11) gp(1) by simp
  have lb: "length ?b = n + 8" using gp(1) assms(11) by simp
  have dead: "wlive ls hs s0 (?s\<lparr>derrno := e\<rparr>) a (Ref p) ?b []" "same_dirs s (?s\<lparr>derrno := e\<rparr>)" for e
    using assms gp by (auto simp: wlive_def same_dirs_def)
  have full: "len = length path \<and> take len ?b = path \<and> path \<noteq> [] \<and> 0 \<notin> set path" if "full_path api name path" "length path < n"
    using that g by (auto simp: full_path_def dest!: spec [of _ n] spec [of _ "win s"])
  show ?thesis
  proof (cases "0 < len \<and> len < n")
    case False
    then have "wopendir_path api a name n s = Some (True, set_derrno ENOENT ?s)"
      using assms(4,6) g st by (auto simp: wopendir_path_def)
    moreover have "\<not> (full_path api name path \<and> length path < n)"
      using False full by auto
    ultimately show ?thesis using dead [of "Some ENOENT"] by (auto intro!: exI [of _ ?b])
  next
    case True
    then obtain b pat where b: "append_pattern ?b len = Some b" "length b = length ?b" "str_of b = Some pat"
      "0 \<notin> set (take len ?b) \<longrightarrow> pat = dir_pattern (take len ?b)"
      using append_pattern_fits [OF lb] by blast
    let ?s2 = "?s\<lparr>patts := (patts s0)(p \<mapsto> b)\<rparr>"
    have st2: "store_wchars (Ref p) b ?s = Some ?s2"
      using b(2) assms(10) by simp
    obtain s3 where s3: "dirent_first api a ?s2 = Some (ls (win s0) pat \<noteq> [], s3)" "same_dirs ?s2 s3"
      "wlive ls hs s0 s3 a (Ref p) b (ls (win s0) pat)"
      using dirent_first_ok [OF assms(1-3) _ assms(5,6,9) _ b(3), of ?s2] assms(4) gp by auto
    have pat: "pat = dir_pattern path" if "full_path api name path" "length path < n"
      using full [OF that] b(4) by metis
    have sd: "same_dirs s s3" "same_dirs s (s3\<lparr>derrno := e\<rparr>)" for e using s3(2) by (auto simp: same_dirs_def)
    have "wopendir_path api a name n s =
        Some (if ls (win s0) pat \<noteq> [] then (False, s3) else (True, set_derrno ENOENT s3))"
      using True assms(4,6,10) g st st2 b(1) s3(1) by (auto simp: wopendir_path_def)
    moreover have "wlive ls hs s0 (s3\<lparr>derrno := e\<rparr>) a (Ref p) b (ls (win s0) pat)" for e
      using s3(3) by (simp add: wlive_errno)
    ultimately show ?thesis
      using s3(3) sd b(3) pat by (cases "ls (win s0) pat = []") (auto intro!: exI [of _ b])
  qed
qed

text \<open>The state of the memory: what is not requested yet is not live, and fresh structures have
  names of the right size.\<close>

definition dsys_ok :: "'w dsys \<Rightarrow> bool" where
  "dsys_ok s \<longleftrightarrow> (\<forall>k \<ge> dallocs s. wdirs s k = None \<and> dirs s k = None \<and> patts s k = None)
     \<and> (\<forall>k. length (d_name (ent (junk_wdir s k))) = PATH_MAX \<and> length (d_name (dent (junk_dir s k))) = PATH_MAX)"

lemma wopendir_ok:
  assumes "find_api_ok api ls hs mb" "files_ok ls" "dsys_ok s"
  shows "\<exists>r s'. wopendir api (Some name) s = Some (r, s') \<and> same_dirs s s'
    \<and> (r = Null \<and> restored ls hs s s'
       \<or> (\<exists>a p buf pat. r = Ref a \<and> wlive ls hs s s' a (Ref p) buf (ls (win s) pat)
            \<and> str_of buf = Some pat \<and> ls (win s) pat \<noteq> []
            \<and> (full_path api name path \<longrightarrow> pat = dir_pattern path)))
    \<and> (name \<noteq> [] \<and> full_path api name path \<and> (\<forall>k. \<not> doom s k) \<and> ls (win s) (dir_pattern path) \<noteq> []
         \<longrightarrow> r \<noteq> Null)"
proof -
  let ?k = "dallocs s"
  consider "name = []" | "name \<noteq> []" "doom s ?k" | "name \<noteq> []" "\<not> doom s ?k" by blast
  then show ?thesis
  proof cases
    case 1
    then show ?thesis by (auto simp: wopendir_def same_dirs_def restored_def)
  next
    case 2
    then show ?thesis by (auto simp: wopendir_def malloc_wdir_def same_dirs_def restored_def Let_def)
  next
    case 3
    obtain n out w where g: "GetFullPathNameW api name 0 (win s) = ((n, out), w)"
      by (cases "GetFullPathNameW api name 0 (win s)") auto
    have "path_ok api ls hs" using assms(1) by (simp add: find_api_ok_def)
    from this [unfolded path_ok_def, rule_format, where name = name and n = 0 and w = "win s"]
    have gp: "ls w = ls (win s)" "hs w = hs (win s)" by (auto simp: g)
    have fresh: "wdirs s ?k = None" "patts s (Suc ?k) = None" using assms(3) by (auto simp: dsys_ok_def)
    let ?d = "(junk_wdir s ?k)\<lparr>handle := INVALID_HANDLE_VALUE, patt := Null, cached := False\<rparr>"
    have dl: "length (d_name (ent ?d)) = PATH_MAX" using assms(3) by (simp add: dsys_ok_def)
    let ?s1 = "s\<lparr>dallocs := Suc ?k, wdirs := (wdirs s)(?k \<mapsto> ?d), win := w\<rparr>"
    have full: "n = length path + 1 \<and> n \<le> (SIZE_MAX - 16) div 2" if "full_path api name path"
      using that [unfolded full_path_def] g by (auto simp: SIZE_MAX_def dest!: spec [of _ 0] spec [of _ "win s"])
    let ?got = "n \<le> (SIZE_MAX - 16) div 2 \<and> \<not> doom s (Suc ?k)"
    let ?body = "\<lambda>p s. do {
          s \<leftarrow> upd_wdir ?k (\<lambda>d. d\<lparr>patt := p\<rparr>) s;
          (error, s) \<leftarrow> (if p \<noteq> Null then wopendir_path api ?k name n s
                             else Some (True, set_derrno ENOMEM s));
          if error
          then do { (_, s) \<leftarrow> wclosedir api (Ref ?k) s; Some (Null, s) }
          else Some (Ref ?k, s)
        }"
    have run: "wopendir api (Some name) s =
       (case (if n \<le> (SIZE_MAX - 16) div 2 then malloc_wchars (2 * n + 16) ?s1 else (Null, ?s1)) of (p, s) \<Rightarrow> ?body p s)"
      using 3 g by (simp add: wopendir_def malloc_wdir_def upd_wdir_def Let_def)
    show ?thesis
    proof (cases ?got)
      case False
      let ?s2 = "if n \<le> (SIZE_MAX - 16) div 2 then ?s1\<lparr>dallocs := Suc (Suc ?k)\<rparr> else ?s1"
      have r: "wopendir api (Some name) s = ?body Null ?s2"
        unfolding run using False by (auto simp: malloc_wchars_def Let_def)
      let ?s3 = "set_derrno ENOMEM (?s2\<lparr>wdirs := (wdirs ?s2)(?k \<mapsto> ?d)\<rparr>)"
      have "wlive ls hs s ?s3 ?k Null [] []" using fresh gp dl by (auto simp: wlive_def)
      from wclosedir_ok [OF assms(1) this] obtain s4 where s4: "wclosedir api (Ref ?k) ?s3 = Some (0, s4)"
        "same_dirs ?s3 s4" "wdirs s4 = wdirs s" "patts s4 = patts s" "hs (win s4) = hs (win s)" "ls (win s4) = ls (win s)"
        by blast
      have "upd_wdir ?k (\<lambda>d. d\<lparr>patt := Null\<rparr>) ?s2 = Some (?s2\<lparr>wdirs := (wdirs ?s2)(?k \<mapsto> ?d)\<rparr>)"
        by (cases "junk_wdir s ?k") (simp add: upd_wdir_def)
      then have "wopendir api (Some name) s = Some (Null, s4)"
        unfolding r using s4(1) by simp
      then show ?thesis
        using s4 False full by (auto simp: restored_def same_dirs_def split: if_splits)
    next
      case True
      let ?b = "map (junk_wchar s) [0 ..< (2 * n + 16) div 2]"
      let ?s2 = "?s1\<lparr>dallocs := Suc (Suc ?k), patts := (patts s)(Suc ?k \<mapsto> ?b),
        wdirs := (wdirs s)(?k \<mapsto> ?d\<lparr>patt := Ref (Suc ?k)\<rparr>)\<rparr>"
      have r: "wopendir api (Some name) s = do {
          (error, s) \<leftarrow> wopendir_path api ?k name n ?s2;
          if error
          then do { (_, s) \<leftarrow> wclosedir api (Ref ?k) s; Some (Null, s) }
          else Some (Ref ?k, s)
        }"
        unfolding run using True by (simp add: malloc_wchars_def upd_wdir_def Let_def)
      have "\<exists>err s3 buf rest. wopendir_path api ?k name n ?s2 = Some (err, s3) \<and> same_dirs ?s2 s3
          \<and> wlive ls hs s s3 ?k (Ref (Suc ?k)) buf rest
          \<and> (\<not> err \<longrightarrow> (\<exists>pat. str_of buf = Some pat \<and> rest = ls (win s) pat \<and> rest \<noteq> []))
          \<and> (full_path api name path \<and> length path < n \<longrightarrow> err = (ls (win s) (dir_pattern path) = [])
             \<and> (\<not> err \<longrightarrow> str_of buf = Some (dir_pattern path)))"
        by (rule wopendir_path_ok [OF assms(1,2) fresh(1), where d = "?d\<lparr>patt := Ref (Suc ?k)\<rparr>" and buf = ?b])
          (use fresh dl gp in auto)
      then obtain err s3 buf rest where s3: "wopendir_path api ?k name n ?s2 = Some (err, s3)" "same_dirs ?s2 s3"
          "wlive ls hs s s3 ?k (Ref (Suc ?k)) buf rest"
          "\<not> err \<longrightarrow> (\<exists>pat. str_of buf = Some pat \<and> rest = ls (win s) pat \<and> rest \<noteq> [])"
          "full_path api name path \<and> length path < n \<longrightarrow> err = (ls (win s) (dir_pattern path) = [])
             \<and> (\<not> err \<longrightarrow> str_of buf = Some (dir_pattern path))"
        by blast
      have sd: "same_dirs s s3" using s3(2) by (auto simp: same_dirs_def)
      show ?thesis
      proof (cases err)
        case True
        from wclosedir_ok [OF assms(1) s3(3)] obtain s4 where s4: "wclosedir api (Ref ?k) s3 = Some (0, s4)"
          "same_dirs s3 s4" "wdirs s4 = wdirs s" "patts s4 = patts s" "hs (win s4) = hs (win s)" "ls (win s4) = ls (win s)"
          by blast
        have "wopendir api (Some name) s = Some (Null, s4)" unfolding r using s3(1) True s4(1) by simp
        moreover have "restored ls hs s s4" "same_dirs s s4" using s4 sd by (auto simp: restored_def same_dirs_def)
        moreover have "full_path api name path \<longrightarrow> ls (win s) (dir_pattern path) = []"
          using s3(5) True full by auto
        ultimately show ?thesis by auto
      next
        case False
        then obtain pat where pat: "str_of buf = Some pat" "rest = ls (win s) pat" "rest \<noteq> []"
          using s3(4) by blast
        have "wopendir api (Some name) s = Some (Ref ?k, s3)" unfolding r using s3(1) False by simp
        moreover have "pat = dir_pattern path" if "full_path api name path"
          using s3(5) False full [OF that] pat(1) that by auto
        ultimately show ?thesis using s3(3) pat sd by auto
      qed
    qed
  qed
qed

section \<open>Multi-byte streams against their specification\<close>

definition dlive ::
    "'w listing \<Rightarrow> 'w searches \<Rightarrow> 'w dsys \<Rightarrow> 'w dsys \<Rightarrow> nat \<Rightarrow> wchar list \<Rightarrow> find_data list \<Rightarrow> bool" where
  "dlive ls hs s0 s b pat rest \<longleftrightarrow>
     (\<exists>D a p buf. dirs s0 b = None \<and> dirs s = (dirs s0)(b \<mapsto> D) \<and> wdirp D = Ref a
        \<and> length (d_name (dent D)) = PATH_MAX \<and> wlive ls hs s0 s a (Ref p) buf rest \<and> str_of buf = Some pat)"

lemma dliveI:
  assumes "dirs s0 b = None" "dirs s = (dirs s0)(b \<mapsto> D)" "wdirp D = Ref a"
    "length (d_name (dent D)) = PATH_MAX" "wlive ls hs s0 s a (Ref p) buf rest" "str_of buf = Some pat"
  shows "dlive ls hs s0 s b pat rest"
  using assms unfolding dlive_def by blast

text \<open>The name and the type \<open>readdir\<close> is to return for a file: the long name, the short one if
  the long one has no multi-byte form that fits, or a question mark.\<close>

definition short_enough :: "(wchar list \<Rightarrow> string option) \<Rightarrow> wchar list \<Rightarrow> string option" where
  "short_enough mb arr = do {
     w \<leftarrow> str_of arr;
     t \<leftarrow> mb w;
     if length t < PATH_MAX then Some t else None
   }"

definition file_name :: "(wchar list \<Rightarrow> string option) \<Rightarrow> find_data \<Rightarrow> string option" where
  "file_name mb fd =
     (case short_enough mb (cFileName fd) of
        Some t \<Rightarrow> Some t
      | None \<Rightarrow> if hd (cAlternateFileName fd) \<noteq> 0 then short_enough mb (cAlternateFileName fd) else None)"

definition file_view :: "(wchar list \<Rightarrow> string option) \<Rightarrow> find_data \<Rightarrow> string \<times> nat \<times> file_type" where
  "file_view mb fd =
     (case file_name mb fd of
        Some t \<Rightarrow> (t, length t, attr_type (dwFileAttributes fd))
      | None \<Rightarrow> (''?'', 1, DT_UNKNOWN))"

definition entry_view :: "char dirent \<Rightarrow> string \<times> nat \<times> file_type" where
  "entry_view e = (takeWhile (\<lambda>c. c \<noteq> NUL) (d_name e), d_namlen e, d_type e)"

lemma c_string_at: "NUL \<notin> set t \<Longrightarrow> takeWhile (\<lambda>c. c \<noteq> NUL) (t @ NUL # r) = t"
  by (subst takeWhile_append2) auto

lemma convert_name_ok:
  assumes "conv_ok api mb" "length dst = PATH_MAX" "0 \<in> set src"
  shows "\<exists>err n name. convert_name api src dst = Some (err, n, name) \<and> length name = PATH_MAX
    \<and> (case short_enough mb src of
         None \<Rightarrow> err \<noteq> 0
       | Some t \<Rightarrow> err = 0 \<and> n = length t + 1 \<and> takeWhile (\<lambda>c. c \<noteq> NUL) name = t)"
proof -
  obtain w where w: "str_of src = Some w" using assms(3) by (simp add: str_of_def)
  obtain err n out where c: "wcstombs_s api PATH_MAX w PATH_MAX = (err, n, out)"
    by (cases "wcstombs_s api PATH_MAX w PATH_MAX") auto
  have conv: "case mb w of
      Some t \<Rightarrow> NUL \<notin> set t \<and>
        (if length t < PATH_MAX then err = 0 \<and> n = length t + 1 \<and> out = t @ [NUL]
         else err \<noteq> 0 \<and> length out \<le> PATH_MAX)
    | None \<Rightarrow> err \<noteq> 0 \<and> length out \<le> PATH_MAX"
    using assms(1) [unfolded conv_ok_def, THEN conjunct2, rule_format, of w] c by simp
  then have "length out \<le> PATH_MAX" by (auto split: option.splits if_splits)
  then have "convert_name api src dst = Some (err, n, out @ drop (length out) dst)"
    "length (out @ drop (length out) dst) = PATH_MAX"
    using w c assms(2) by (auto simp: convert_name_def)
  moreover have "case short_enough mb src of
         None \<Rightarrow> err \<noteq> 0
       | Some t \<Rightarrow> err = 0 \<and> n = length t + 1 \<and> takeWhile (\<lambda>c. c \<noteq> NUL) (out @ drop (length out) dst) = t"
    using conv w by (auto simp: short_enough_def c_string_at split: option.splits if_splits)
  ultimately show ?thesis by blast
qed

lemma readdir_ok:
  assumes "find_api_ok api ls hs mb" "dlive ls hs s0 s b pat rest"
  shows "\<exists>eo s'. readdir api b s = Some (eo, s') \<and> dlive ls hs s0 s' b pat (tl rest)
    \<and> map_option entry_view eo = (if rest = [] then None else Some (file_view mb (hd rest)))"
proof -
  have conv: "conv_ok api mb" using assms(1) by (simp add: find_api_ok_def)
  obtain D a p buf where D: "dirs s0 b = None" "dirs s = (dirs s0)(b \<mapsto> D)" "wdirp D = Ref a"
      "length (d_name (dent D)) = PATH_MAX" "str_of buf = Some pat" and live: "wlive ls hs s0 s a (Ref p) buf rest"
    using assms(2) unfolding dlive_def by blast
  obtain s1 d where s1: "dirent_next api a s = Some (rest \<noteq> [], s1)" "same_dirs s s1" "wdirs s1 a = Some d"
      "wlive ls hs s0 s1 a (Ref p) buf (tl rest)" "rest \<noteq> [] \<longrightarrow> data d = hd rest"
    using dirent_next_ok [OF assms(1) live] by blast
  have dirs1: "dirs s1 = (dirs s0)(b \<mapsto> D)" using s1(2) D(2) by (simp add: same_dirs_def)
  have live': "dlive ls hs s0 (s1\<lparr>dirs := (dirs s1)(b \<mapsto> D\<lparr>dent := e\<rparr>)\<rparr>) b pat (tl rest)"
    if "length (d_name e) = PATH_MAX" for e
  proof (rule dliveI [where D = "D\<lparr>dent := e\<rparr>" and a = a and p = p and buf = buf])
    show "wlive ls hs s0 (s1\<lparr>dirs := (dirs s1)(b \<mapsto> D\<lparr>dent := e\<rparr>)\<rparr>) a (Ref p) buf (tl rest)"
      using s1(4) by simp
  qed (use that D dirs1 in auto)
  show ?thesis
  proof (cases rest)
    case Nil
    have "dlive ls hs s0 s1 b pat (tl rest)"
      by (rule dliveI [OF D(1) dirs1 D(3,4) s1(4) D(5)])
    then show ?thesis using Nil D s1(1) by (auto simp: readdir_def)
  next
    case (Cons x xs)
    then have x: "data d = x" "find_data_ok x" using s1(5) wlive_base(3) [OF live] by auto
    then have nul: "0 \<in> set (cFileName x)" "0 \<in> set (cAlternateFileName x)" "cAlternateFileName x \<noteq> []"
      by (auto simp: find_data_ok_def)
    have alt: "aget (cAlternateFileName x) 0 = Some (hd (cAlternateFileName x))"
      using nul(3) by (simp add: aget_def in_range_def hd_conv_nth)
    obtain err n name where c1: "convert_name api (cFileName x) (d_name (dent D)) = Some (err, n, name)"
        "length name = PATH_MAX"
        "case short_enough mb (cFileName x) of None \<Rightarrow> err \<noteq> 0
         | Some t \<Rightarrow> err = 0 \<and> n = length t + 1 \<and> takeWhile (\<lambda>c. c \<noteq> NUL) name = t"
      using convert_name_ok [OF conv D(4) nul(1)] by blast
    obtain err2 n2 name2 where c2: "convert_name api (cAlternateFileName x) name = Some (err2, n2, name2)"
        "length name2 = PATH_MAX"
        "case short_enough mb (cAlternateFileName x) of None \<Rightarrow> err2 \<noteq> 0
         | Some t \<Rightarrow> err2 = 0 \<and> n2 = length t + 1 \<and> takeWhile (\<lambda>c. c \<noteq> NUL) name2 = t"
      using convert_name_ok [OF conv c1(2) nul(2)] by blast
    let ?tried = "if err \<noteq> 0 \<and> hd (cAlternateFileName x) \<noteq> 0 then (err2, n2, name2) else (err, n, name)"
    obtain err3 n3 name3 where t: "?tried = (err3, n3, name3)" by (cases ?tried) auto
    have l3: "length name3 = PATH_MAX" using t c1(2) c2(2) by (auto split: if_splits)
    have v3: "case file_name mb x of None \<Rightarrow> err3 \<noteq> 0
         | Some t \<Rightarrow> err3 = 0 \<and> n3 = length t + 1 \<and> takeWhile (\<lambda>c. c \<noteq> NUL) name3 = t"
      using t c1(3) c2(3) by (auto simp: file_name_def split: option.splits if_splits)
    let ?e = "if err3 = 0
       then \<lparr>d_ino = 0, d_reclen = 280, d_namlen = n3 - 1, d_type = attr_type (dwFileAttributes x), d_name = name3\<rparr>
       else \<lparr>d_ino = 0, d_reclen = 0, d_namlen = 1, d_type = DT_UNKNOWN, d_name = name3[0 := CHR ''?'', 1 := NUL]\<rparr>"
    have "readdir api b s = Some (Some ?e, s1\<lparr>dirs := (dirs s1)(b \<mapsto> D\<lparr>dent := ?e\<rparr>)\<rparr>)"
      using D s1(1,3) Cons x c1(1) c2(1) alt t l3
      by (cases "err = 0"; cases "hd (cAlternateFileName x) = 0"; cases "err3 = 0")
        (auto simp: readdir_def aset_def in_range_def)
    moreover have "entry_view ?e = file_view mb x"
    proof -
      obtain u v r where "name3 = u # v # r"
        using l3 by (cases name3 rule: remdups_adj.cases) auto
      then have "takeWhile (\<lambda>c. c \<noteq> NUL) (name3[0 := CHR ''?'', 1 := NUL]) = ''?''" by simp
      then show ?thesis
        using v3 by (auto simp: entry_view_def file_view_def split: option.splits)
    qed
    moreover have "length (d_name ?e) = PATH_MAX" using l3 by simp
    ultimately show ?thesis using live' [of ?e] Cons by auto
  qed
qed

text \<open>The wide name of a directory.\<close>

definition to_wide :: "'w findapi \<Rightarrow> string \<Rightarrow> wchar list option" where
  "to_wide api name =
     (case mbstowcs_s api PATH_MAX name PATH_MAX of (err, _, out) \<Rightarrow> if err = 0 then str_of out else None)"

text \<open>A directory that can be opened: its name has an absolute path whose pattern has files.\<close>

definition has_dir :: "'w findapi \<Rightarrow> 'w listing \<Rightarrow> 'w dsys \<Rightarrow> string \<Rightarrow> wchar list \<Rightarrow> bool" where
  "has_dir api ls s name path \<longleftrightarrow> name \<noteq> [] \<and> ls (win s) (dir_pattern path) \<noteq> []
     \<and> (\<exists>wname. to_wide api name = Some wname \<and> wname \<noteq> [] \<and> full_path api wname path)"

lemma opendir_ok:
  assumes "find_api_ok api ls hs mb" "files_ok ls" "dsys_ok s"
  shows "\<exists>r s'. opendir api (Some name) s = Some (r, s')
    \<and> (r = Null \<and> restored ls hs s s'
       \<or> (\<exists>b pat. r = Ref b \<and> dlive ls hs s s' b pat (ls (win s) pat) \<and> ls (win s) pat \<noteq> []
            \<and> (has_dir api ls s name path \<longrightarrow> pat = dir_pattern path)))
    \<and> (has_dir api ls s name path \<and> (\<forall>k. \<not> doom s k) \<longrightarrow> r \<noteq> Null)"
proof -
  let ?k = "dallocs s"
  have "conv_ok api mb" using assms(1) by (simp add: find_api_ok_def)
  then have conv: "case mbstowcs_s api PATH_MAX name PATH_MAX of (err, n, out) \<Rightarrow>
        length out \<le> PATH_MAX \<and> (err = 0 \<longrightarrow> 0 \<in> set out)" by (simp add: conv_ok_def)
  obtain err n out where c: "mbstowcs_s api PATH_MAX name PATH_MAX = (err, n, out)"
    by (cases "mbstowcs_s api PATH_MAX name PATH_MAX") auto
  consider "name = []" | "name \<noteq> []" "doom s ?k" | "name \<noteq> []" "\<not> doom s ?k" by blast
  then show ?thesis
  proof cases
    case 1
    then show ?thesis by (auto simp: opendir_def restored_def has_dir_def)
  next
    case 2
    then show ?thesis by (auto simp: opendir_def malloc_dir_def restored_def Let_def)
  next
    case 3
    let ?s1 = "s\<lparr>dallocs := Suc ?k, dirs := (dirs s)(?k \<mapsto> junk_dir s ?k)\<rparr>"
    have fresh: "dirs s ?k = None" and junk: "length (d_name (dent (junk_dir s ?k))) = PATH_MAX"
      and ok1: "dsys_ok ?s1"
      using assms(3) by (auto simp: dsys_ok_def)
    have r: "opendir api (Some name) s = do {
        (error, s) \<leftarrow>
          (if err = 0
           then do {
             wname \<leftarrow> str_of out;
             (p, s) \<leftarrow> wopendir api (Some wname) ?s1;
             s \<leftarrow> upd_dir ?k (\<lambda>d. d\<lparr>wdirp := p\<rparr>) s;
             Some (p = Null, s)
           }
           else Some (True, ?s1));
        if error then Some (Null, s\<lparr>dirs := (dirs s)(?k := None)\<rparr>) else Some (Ref ?k, s)
      }"
      using 3 c conv by (simp add: opendir_def malloc_dir_def Let_def)
    show ?thesis
    proof (cases "err = 0")
      case False
      then show ?thesis
        unfolding r using fresh c by (auto simp: restored_def drop_fresh has_dir_def to_wide_def)
    next
      case True
      then obtain wname where w: "str_of out = Some wname" using conv c by (auto simp: str_of_def)
      have tw: "to_wide api name = Some wname" using True w c by (simp add: to_wide_def)
      obtain p s2 where s2: "wopendir api (Some wname) ?s1 = Some (p, s2)" "same_dirs ?s1 s2"
        and alt: "p = Null \<and> restored ls hs ?s1 s2
          \<or> (\<exists>a q buf pat. p = Ref a \<and> wlive ls hs s s2 a (Ref q) buf (ls (win s) pat)
            \<and> str_of buf = Some pat \<and> ls (win s) pat \<noteq> []
            \<and> (full_path api wname path \<longrightarrow> pat = dir_pattern path))"
        and succ: "wname \<noteq> [] \<and> full_path api wname path \<and> (\<forall>k. \<not> doom s k)
            \<and> ls (win s) (dir_pattern path) \<noteq> [] \<longrightarrow> p \<noteq> Null"
        using wopendir_ok [OF assms(1,2) ok1, of wname path, simplified] by blast
      have d2: "dirs s2 = (dirs s)(?k \<mapsto> junk_dir s ?k)" using s2(2) by (simp add: same_dirs_def)
      let ?D = "(junk_dir s ?k)\<lparr>wdirp := p\<rparr>"
      let ?s3 = "s2\<lparr>dirs := (dirs s2)(?k \<mapsto> ?D)\<rparr>"
      have r3: "opendir api (Some name) s =
          (if p = Null then Some (Null, ?s3\<lparr>dirs := (dirs ?s3)(?k := None)\<rparr>) else Some (Ref ?k, ?s3))"
        unfolding r using True w s2(1) d2 by (simp add: upd_dir_def)
      show ?thesis
        using alt
      proof (elim disjE conjE exE)
        assume "p = Null" "restored ls hs ?s1 s2"
        then show ?thesis
          using r3 d2 fresh succ tw by (auto simp: restored_def has_dir_def drop_fresh)
      next
        fix a q buf pat
        assume p: "p = Ref a" and live: "wlive ls hs s s2 a (Ref q) buf (ls (win s) pat)"
          and pat: "str_of buf = Some pat" "ls (win s) pat \<noteq> []" "full_path api wname path \<longrightarrow> pat = dir_pattern path"
        have "dlive ls hs s ?s3 ?k pat (ls (win s) pat)"
          by (rule dliveI [where D = ?D and a = a and p = q and buf = buf])
            (use fresh junk d2 p live pat in auto)
        then show ?thesis using r3 p pat tw by (auto simp: has_dir_def)
      qed
    qed
  qed
qed

lemma closedir_ok:
  assumes "find_api_ok api ls hs mb" "dlive ls hs s0 s b pat rest"
  shows "\<exists>s'. closedir api (Ref b) s = Some (0, s') \<and> restored ls hs s0 s'"
proof -
  obtain D a p buf where D: "dirs s0 b = None" "dirs s = (dirs s0)(b \<mapsto> D)" "wdirp D = Ref a"
      and live: "wlive ls hs s0 s a (Ref p) buf rest"
    using assms(2) unfolding dlive_def by blast
  from wclosedir_ok [OF assms(1) live] D show ?thesis
    by (auto simp: upd_dir_def same_dirs_def restored_def drop_fresh)
qed

lemma rewinddir_ok:
  assumes "find_api_ok api ls hs mb" "files_ok ls" "dlive ls hs s0 s b pat rest"
  shows "\<exists>s'. rewinddir api b s = Some s' \<and> dlive ls hs s0 s' b pat (ls (win s0) pat)"
proof -
  obtain D a p buf where D: "dirs s0 b = None" "dirs s = (dirs s0)(b \<mapsto> D)" "wdirp D = Ref a"
      "length (d_name (dent D)) = PATH_MAX" "str_of buf = Some pat" and live: "wlive ls hs s0 s a (Ref p) buf rest"
    using assms(3) unfolding dlive_def by blast
  obtain s' where s': "wrewinddir api (Ref a) s = Some s'" "same_dirs s s'"
      "wlive ls hs s0 s' a (Ref p) buf (ls (win s0) pat)"
    using wrewinddir_ok [OF assms(1,2) live D(5)] by blast
  have "dlive ls hs s0 s' b pat (ls (win s0) pat)"
    by (rule dliveI [OF D(1) _ D(3,4) s'(3) D(5)]) (use D(2) s'(2) in \<open>simp add: same_dirs_def\<close>)
  then show ?thesis using D s'(1) by (auto simp: rewinddir_def simp del: wrewinddir.simps)
qed

text \<open>A client that reads until \<open>readdir\<close> returns null, and one that reads \<open>n\<close> times.\<close>

partial_function (option) read_entries :: "'w findapi \<Rightarrow> nat \<Rightarrow> 'w dsys \<Rightarrow> (char dirent list \<times> 'w dsys) option" where
  "read_entries api b s = do {
     (e, s) \<leftarrow> readdir api b s;
     case e of
       None \<Rightarrow> Some ([], s)
     | Some e \<Rightarrow> do { (es, s) \<leftarrow> read_entries api b s; Some (e # es, s) }
   }"

fun read_times :: "'w findapi \<Rightarrow> nat \<Rightarrow> nat \<Rightarrow> 'w dsys \<Rightarrow> 'w dsys option" where
  "read_times api 0 b s = Some s"
| "read_times api (Suc n) b s = do { (_, s) \<leftarrow> readdir api b s; read_times api n b s }"

lemma read_entries_ok:
  assumes "find_api_ok api ls hs mb" "dlive ls hs s0 s b pat rest"
  shows "\<exists>es s'. read_entries api b s = Some (es, s') \<and> map entry_view es = map (file_view mb) rest
    \<and> dlive ls hs s0 s' b pat []"
  using assms(2)
proof (induction rest arbitrary: s)
  case Nil
  with readdir_ok [OF assms(1) Nil] show ?case by (subst read_entries.simps) auto
next
  case (Cons x xs)
  from readdir_ok [OF assms(1) Cons.prems] obtain e s1 where 1: "readdir api b s = Some (Some e, s1)"
    "dlive ls hs s0 s1 b pat xs" "entry_view e = file_view mb x" by auto
  from Cons.IH [OF 1(2)] 1 show ?case by (subst read_entries.simps) auto
qed

lemma read_times_ok:
  assumes "find_api_ok api ls hs mb" "dlive ls hs s0 s b pat rest"
  shows "\<exists>s'. read_times api n b s = Some s' \<and> dlive ls hs s0 s' b pat (drop n rest)"
  using assms(2)
proof (induction n arbitrary: s rest)
  case (Suc n)
  from readdir_ok [OF assms(1) Suc.prems] obtain e s1 where "readdir api b s = Some (e, s1)"
    "dlive ls hs s0 s1 b pat (tl rest)" by auto
  with Suc.IH [of s1 "tl rest"] show ?case by (auto simp: drop_Suc)
qed simp

section \<open>Wide-character streams against their specification\<close>

lemma copy_name_upto:
  assumes "length dst = PATH_MAX" "pre = map ((!) src) [0 ..< n]" "take n dst = pre"
    "n \<le> k" "k < PATH_MAX" "k < length src" "src ! k = 0" "\<forall>j < k. src ! j \<noteq> 0"
  shows "\<exists>dst'. copy_name src dst n = Some (dst', k) \<and> length dst' = PATH_MAX \<and> take k dst' = map ((!) src) [0 ..< k]"
  using assms
proof (induction "k - n" arbitrary: dst pre n)
  case 0
  then show ?case by (subst copy_name.simps) (auto simp: aget_def in_range_def)
next
  case (Suc m)
  then have n: "n < k" by simp
  let ?dst = "dst[n := src ! n]"
  have "take (Suc n) ?dst = map ((!) src) [0 ..< Suc n]"
    using Suc.prems n by (simp add: take_Suc_conv_app_nth)
  moreover have "m = k - Suc n" using Suc.hyps(2) by simp
  ultimately obtain dst' where "copy_name src ?dst (Suc n) = Some (dst', k)" "length dst' = PATH_MAX"
    "take k dst' = map ((!) src) [0 ..< k]"
    using Suc.hyps(1) [of "Suc n" ?dst "map ((!) src) [0 ..< Suc n]"] Suc.prems n by auto
  then show ?case
    using Suc.prems n by (subst copy_name.simps) (auto simp: aget_def aset_def in_range_def)
qed

text \<open>The name of a found file is short enough for the entry, and \<open>_wreaddir\<close> copies all of it.\<close>

lemma copy_name_ok:
  assumes "length dst = PATH_MAX" "length src = PATH_MAX" "0 \<in> set src" "str_of src = Some w"
  shows "\<exists>dst'. copy_name src dst 0 = Some (dst', length w) \<and> length dst' = PATH_MAX \<and> length w < PATH_MAX
    \<and> take (length w) dst' = w"
proof -
  let ?k = "length w"
  have w: "w = takeWhile (\<lambda>c. c \<noteq> 0) src" using assms(4) by (auto simp: str_of_def split: if_splits)
  have k: "?k < length src" "src ! ?k = 0"
  proof -
    have "?k \<noteq> length src"
    proof
      assume "?k = length src"
      then have "takeWhile (\<lambda>c. c \<noteq> 0) src = src"
        using takeWhile_eq_take [of "\<lambda>c. c \<noteq> 0" src] w by simp
      then show False using assms(3) by (auto simp: takeWhile_eq_all_conv)
    qed
    then show "?k < length src" using length_takeWhile_le [of "\<lambda>c. c \<noteq> 0" src] w by simp
    then show "src ! ?k = 0" using nth_length_takeWhile [of "\<lambda>c. c \<noteq> 0" src] w by simp
  qed
  have eq: "src ! j = w ! j" if "j < ?k" for j
    using takeWhile_nth [of j "\<lambda>c. c \<noteq> 0" src] that unfolding w [symmetric] by simp
  have "0 \<notin> set w" unfolding w by (auto dest: set_takeWhileD)
  then have pre: "\<forall>j < ?k. src ! j \<noteq> 0" by (metis eq nth_mem)
  have "map ((!) src) [0 ..< ?k] = w" by (rule nth_equalityI) (simp_all add: eq)
  then show ?thesis
    using copy_name_upto [OF assms(1), of "[]" src 0 ?k] k pre assms(2) by auto
qed

definition wide_view :: "wchar dirent \<Rightarrow> wchar list option \<times> nat \<times> file_type" where
  "wide_view e = (str_of (d_name e), d_namlen e, d_type e)"

definition wide_file :: "find_data \<Rightarrow> wchar list option \<times> nat \<times> file_type" where
  "wide_file fd = (let name = str_of (cFileName fd)
     in (name, length (the name), attr_type (dwFileAttributes fd)))"

lemma wlive_ent:
  assumes "wlive ls hs s0 s a p buf rest" "wdirs s a = Some d" "length (d_name e) = PATH_MAX"
  shows "wlive ls hs s0 (s\<lparr>wdirs := (wdirs s)(a \<mapsto> d\<lparr>ent := e\<rparr>)\<rparr>) a p buf rest"
proof -
  obtain d' where "wdirs s = (wdirs s0)(a \<mapsto> d')" "patt d' = p"
    and st: "case handle d' of
        INVALID_HANDLE_VALUE \<Rightarrow> \<not> cached d' \<and> rest = [] \<and> hs (win s) = hs (win s0)
      | Handle h \<Rightarrow> (\<exists>xs. hs (win s0) h = None \<and> hs (win s) = (hs (win s0))(h \<mapsto> xs) \<and>
          rest = (if cached d' then data d' # xs else xs))"
    using assms(1) unfolding wlive_def by blast
  moreover from this assms(2) have "d' = d" by simp
  ultimately show ?thesis
    using wlive_base [OF assms(1)] assms(3) unfolding wlive_def
    by (intro conjI exI [of _ "d\<lparr>ent := e\<rparr>"]; cases p; cases "handle d"; cases "cached d"; simp)
qed

lemma wreaddir_ok:
  assumes "find_api_ok api ls hs mb" "wlive ls hs s0 s a p buf rest"
  shows "\<exists>eo s'. wreaddir api a s = Some (eo, s') \<and> same_dirs s s' \<and> wlive ls hs s0 s' a p buf (tl rest)
    \<and> map_option wide_view eo = (if rest = [] then None else Some (wide_file (hd rest)))"
proof -
  obtain s1 d where s1: "dirent_next api a s = Some (rest \<noteq> [], s1)" "same_dirs s s1" "wdirs s1 a = Some d"
      and live: "wlive ls hs s0 s1 a p buf (tl rest)" and dat: "rest \<noteq> [] \<longrightarrow> data d = hd rest"
    using dirent_next_ok [OF assms] by blast
  show ?thesis
  proof (cases rest)
    case Nil
    then show ?thesis using s1 live by (auto simp: wreaddir_def)
  next
    case (Cons x xs)
    then have x: "data d = x" "find_data_ok x" using dat wlive_base(3) [OF assms(2)] by auto
    obtain w where w: "str_of (cFileName x) = Some w" using x(2) by (simp add: find_data_ok_def str_of_def)
    have dl: "length (d_name (ent d)) = PATH_MAX"
      using live s1(3) unfolding wlive_def by (auto split: if_splits)
    obtain dst where c: "copy_name (cFileName x) (d_name (ent d)) 0 = Some (dst, length w)"
        "length dst = PATH_MAX" "length w < PATH_MAX" "take (length w) dst = w"
      using copy_name_ok [OF dl _ _ w] x(2) by (auto simp: find_data_ok_def)
    let ?name = "dst[length w := 0]"
    let ?e = "\<lparr>d_ino = 0, d_reclen = 544, d_namlen = length w, d_type = attr_type (dwFileAttributes x), d_name = ?name\<rparr>"
    let ?s = "s1\<lparr>wdirs := (wdirs s1)(a \<mapsto> d\<lparr>ent := ?e\<rparr>)\<rparr>"
    have "wreaddir api a s = Some (Some ?e, ?s)"
      using s1 Cons x(1) c by (simp add: wreaddir_def aset_def Let_def)
    moreover have "str_of ?name = Some w"
    proof -
      have split: "?name = w @ 0 # drop (Suc (length w)) dst"
        using c by (metis upd_conv_take_nth_drop)
      have "0 \<notin> set w" using w by (auto simp: str_of_def split: if_splits dest: set_takeWhileD)
      then have "takeWhile (\<lambda>c. c \<noteq> 0) (w @ 0 # drop (Suc (length w)) dst) = w"
        by (subst takeWhile_append2) auto
      then show ?thesis unfolding split by (simp add: str_of_def)
    qed
    then have "wide_view ?e = wide_file x" using w by (simp add: wide_view_def wide_file_def)
    moreover have "wlive ls hs s0 ?s a p buf (tl rest)"
      using wlive_ent [OF live s1(3)] c(2) by simp
    moreover have "same_dirs s ?s" using s1(2) by (simp add: same_dirs_def)
    ultimately show ?thesis using Cons by auto
  qed
qed

partial_function (option) wread_entries :: "'w findapi \<Rightarrow> nat \<Rightarrow> 'w dsys \<Rightarrow> (wchar dirent list \<times> 'w dsys) option" where
  "wread_entries api a s = do {
     (e, s) \<leftarrow> wreaddir api a s;
     case e of
       None \<Rightarrow> Some ([], s)
     | Some e \<Rightarrow> do { (es, s) \<leftarrow> wread_entries api a s; Some (e # es, s) }
   }"

lemma wread_entries_ok:
  assumes "find_api_ok api ls hs mb" "wlive ls hs s0 s a p buf rest"
  shows "\<exists>es s'. wread_entries api a s = Some (es, s') \<and> map wide_view es = map wide_file rest
    \<and> same_dirs s s' \<and> wlive ls hs s0 s' a p buf []"
  using assms(2)
proof (induction rest arbitrary: s)
  case Nil
  with wreaddir_ok [OF assms(1) Nil] show ?case by (subst wread_entries.simps) auto
next
  case (Cons x xs)
  from wreaddir_ok [OF assms(1) Cons.prems] obtain e s1 where 1: "wreaddir api a s = Some (Some e, s1)"
    "same_dirs s s1" "wlive ls hs s0 s1 a p buf xs" "wide_view e = wide_file x" by auto
  from Cons.IH [OF 1(3)] 1 show ?case by (subst wread_entries.simps) (auto simp: same_dirs_def)
qed

section \<open>A concrete file system\<close>

text \<open>One directory \<open>C:\t\<close> with three files, of which the last has a long name that has no
  ASCII form. The world is the list of the searches that were started.\<close>

definition padded :: "nat \<Rightarrow> wchar list \<Rightarrow> wchar list" where
  "padded n ws = ws @ replicate (n - length ws) 0"

definition demo_files :: "find_data list" where
  "demo_files =
     [\<lparr>dwFileAttributes = 0x10, cFileName = padded PATH_MAX [0x2E], cAlternateFileName = padded 14 []\<rparr>,
      \<lparr>dwFileAttributes = 0x20, cFileName = padded PATH_MAX [0x61], cAlternateFileName = padded 14 []\<rparr>,
      \<lparr>dwFileAttributes = 0x20, cFileName = padded PATH_MAX [0x263A], cAlternateFileName = padded 14 [0x42, 0x7E, 0x31]\<rparr>]"

definition demo_path :: "wchar list" where
  "demo_path = [0x43, 0x3A, 0x5C, 0x74]"

type_synonym demo_world = "find_data list option list"

definition demo_ls :: "demo_world listing" where
  "demo_ls w pat = (if pat = dir_pattern demo_path then demo_files else [])"

definition demo_hs :: "demo_world searches" where
  "demo_hs w h = (if h < length w then w ! h else None)"

definition demo_mb :: "wchar list \<Rightarrow> string option" where
  "demo_mb ws = (if \<forall>w \<in> set ws. 0 < w \<and> w < 0x80 then Some (map (\<lambda>w. char_of (unat w)) ws) else None)"

definition blank_file :: find_data where
  "blank_file = \<lparr>dwFileAttributes = 0, cFileName = padded PATH_MAX [], cAlternateFileName = padded 14 []\<rparr>"

definition demo_api :: "demo_world findapi" where
  "demo_api = \<lparr>
     GetFullPathNameW = (\<lambda>name n w.
       let path = [0x43, 0x3A, 0x5C] @ name
       in (if n \<le> length path then (length path + 1, []) else (length path, path @ [0]), w)),
     FindFirstFileW = (\<lambda>pat w. case demo_ls w pat of
         [] \<Rightarrow> ((INVALID_HANDLE_VALUE, blank_file), w)
       | x # xs \<Rightarrow> ((Handle (length w), x), w @ [Some xs])),
     FindNextFileW = (\<lambda>h w. case demo_hs w h of
         Some (x # xs) \<Rightarrow> ((True, x), w[h := Some xs])
       | _ \<Rightarrow> ((False, blank_file), w)),
     FindClose = (\<lambda>h w. w[h := None]),
     mbstowcs_s = (\<lambda>size cs n.
       if length cs < size then (0, length cs + 1, map (\<lambda>c. of_nat (of_char c)) cs @ [0]) else (34, 0, [0])),
     wcstombs_s = (\<lambda>size ws n. case demo_mb ws of
         Some t \<Rightarrow> if length t < size then (0, length t + 1, t @ [NUL]) else (34, 0, [NUL])
       | None \<Rightarrow> (42, 0, [NUL]))\<rparr>"

lemma demo_hs_simps [simp]:
  "demo_hs (w @ [x]) = (demo_hs w)(length w := x)"
  "h < length w \<Longrightarrow> demo_hs (w[h := x]) = (demo_hs w)(h := x)"
  "demo_hs w (length w) = None"
  by (auto simp: demo_hs_def fun_eq_iff nth_append nth_list_update)

lemma demo_hs_Some: "demo_hs w h = Some xs \<Longrightarrow> h < length w"
  by (auto simp: demo_hs_def split: if_splits)

lemma demo_mb_NUL: "demo_mb ws = Some t \<Longrightarrow> NUL \<notin> set t"
proof
  assume "demo_mb ws = Some t" "NUL \<in> set t"
  then obtain w where w: "w \<in> set ws" "NUL = char_of (unat w)" "0 < w" "w < 0x80"
    by (auto simp: demo_mb_def split: if_splits)
  have "(of_char (char_of (unat w) :: char) :: nat) = of_char NUL" unfolding w(2) [symmetric] by simp
  then have "unat w mod 256 = 0" by simp
  moreover have "unat w < 128" using w(4) by (simp add: word_less_nat_alt)
  ultimately have "unat w = 0" by simp
  then show False using w(3) by (simp add: word_less_nat_alt)
qed

lemma demo_find_api_ok: "find_api_ok demo_api demo_ls demo_hs demo_mb"
proof -
  have ls: "demo_ls w = demo_ls w'" for w w' by (simp add: demo_ls_def fun_eq_iff)
  have "first_ok demo_api demo_ls demo_hs"
    using ls by (auto simp: first_ok_def demo_api_def split: list.splits)
  moreover have "next_ok demo_api demo_ls demo_hs"
    using ls by (auto simp: next_ok_def demo_api_def demo_hs_Some split: list.splits)
  moreover have "close_ok demo_api demo_ls demo_hs"
    using ls by (auto simp: close_ok_def demo_api_def dest!: demo_hs_Some)
  moreover have "path_ok demo_api demo_ls demo_hs"
    using ls by (auto simp: path_ok_def demo_api_def Let_def)
  moreover have "conv_ok demo_api demo_mb"
    by (auto simp: conv_ok_def demo_api_def dest: demo_mb_NUL split: option.splits)
  ultimately show ?thesis by (simp add: find_api_ok_def)
qed

lemma demo_files_ok: "files_ok demo_ls"
  by (auto simp: files_ok_def demo_ls_def demo_files_def find_data_ok_def padded_def)

definition blank_entry :: "'c \<Rightarrow> 'c dirent" where
  "blank_entry c = \<lparr>d_ino = 0, d_reclen = 0, d_namlen = 0, d_type = DT_UNKNOWN, d_name = replicate PATH_MAX c\<rparr>"

definition demo_dsys :: "demo_world dsys" where
  "demo_dsys = \<lparr>derrno = None, wdirs = Map.empty, dirs = Map.empty, patts = Map.empty, dallocs = 0,
     doom = (\<lambda>_. False),
     junk_wdir = (\<lambda>_. \<lparr>ent = blank_entry 7, data = blank_file, cached = True, handle = Handle 3, patt = Ref 9\<rparr>),
     junk_dir = (\<lambda>_. \<lparr>dent = blank_entry (CHR ''x''), wdirp = Ref 9\<rparr>), junk_wchar = (\<lambda>_. 7), win = []\<rparr>"

lemma demo_dsys_ok: "dsys_ok demo_dsys"
  by (simp add: dsys_ok_def demo_dsys_def blank_entry_def)

lemma demo_full_path: "full_path demo_api [0x74] demo_path"
  by (simp add: full_path_def demo_api_def demo_path_def)

lemma demo_has_dir: "has_dir demo_api demo_ls demo_dsys ''t'' demo_path"
proof -
  have "to_wide demo_api ''t'' = Some [0x74]" by (simp add: to_wide_def demo_api_def str_of_def)
  then show ?thesis
    using demo_full_path by (auto simp: has_dir_def demo_ls_def demo_files_def)
qed

section \<open>Properties\<close>

text \<open>C13. Opening a directory that exists and reading until \<open>readdir\<close> returns null ends and
  yields its files once each, in the order of the system: the name of a file in multi-byte form,
  its short name when the long one has no such form that fits in \<open>d_name\<close>, or \<open>?\<close>, with the
  length of the name and the type. Closing the directory then succeeds and gives back every
  structure, buffer and search handle.\<close>

theorem dirent_reads_directory:
  assumes "find_api_ok api ls hs mb" "files_ok ls" "dsys_ok s" "has_dir api ls s name path" "\<forall>k. \<not> doom s k"
  shows "\<exists>b s1 es s2 s3. opendir api (Some name) s = Some (Ref b, s1)
    \<and> read_entries api b s1 = Some (es, s2)
    \<and> map entry_view es = map (file_view mb) (ls (win s) (dir_pattern path))
    \<and> closedir api (Ref b) s2 = Some (0, s3) \<and> restored ls hs s s3"
proof -
  obtain b s1 where o: "opendir api (Some name) s = Some (Ref b, s1)"
    "dlive ls hs s s1 b (dir_pattern path) (ls (win s) (dir_pattern path))"
    using opendir_ok [OF assms(1-3), of name path] assms(4,5) by blast
  obtain es s2 where "read_entries api b s1 = Some (es, s2)" "dlive ls hs s s2 b (dir_pattern path) []"
    "map entry_view es = map (file_view mb) (ls (win s) (dir_pattern path))"
    using read_entries_ok [OF assms(1) o(2)] by blast
  with o(1) closedir_ok [OF assms(1) this(2)] show ?thesis by blast
qed

theorem dirent_reads_directory_witness:
  "\<exists>b s1 es s2 s3. opendir demo_api (Some ''t'') demo_dsys = Some (Ref b, s1)
    \<and> read_entries demo_api b s1 = Some (es, s2)
    \<and> map entry_view es = map (file_view demo_mb) (demo_ls (win demo_dsys) (dir_pattern demo_path))
    \<and> closedir demo_api (Ref b) s2 = Some (0, s3) \<and> restored demo_ls demo_hs demo_dsys s3"
  by (rule dirent_reads_directory [OF demo_find_api_ok demo_files_ok demo_dsys_ok demo_has_dir])
    (simp add: demo_dsys_def)

text \<open>C30. At any point of a stream, also after its end, \<open>rewinddir\<close> starts it again: what is
  read from there on is what was there to read after \<open>opendir\<close>. The search it replaces is closed:
  after \<open>closedir\<close> no handle and no block of the stream is left.\<close>

theorem rewinddir_restarts:
  assumes "find_api_ok api ls hs mb" "files_ok ls" "dsys_ok s" "opendir api (Some name) s = Some (Ref b, s1)"
  shows "\<exists>es1 t s2 s3 es s4 s5. read_entries api b s1 = Some (es1, t)
    \<and> read_times api n b s1 = Some s2 \<and> rewinddir api b s2 = Some s3
    \<and> read_entries api b s3 = Some (es, s4) \<and> map entry_view es = map entry_view es1
    \<and> closedir api (Ref b) s4 = Some (0, s5) \<and> restored ls hs s s5"
proof -
  obtain pat where live: "dlive ls hs s s1 b pat (ls (win s) pat)"
    using opendir_ok [OF assms(1-3), of name] assms(4) by auto
  obtain es1 t where 1: "read_entries api b s1 = Some (es1, t)"
    "map entry_view es1 = map (file_view mb) (ls (win s) pat)"
    using read_entries_ok [OF assms(1) live] by blast
  obtain s2 rest where 2: "read_times api n b s1 = Some s2" "dlive ls hs s s2 b pat rest"
    using read_times_ok [OF assms(1) live] by blast
  obtain s3 where 3: "rewinddir api b s2 = Some s3" "dlive ls hs s s3 b pat (ls (win s) pat)"
    using rewinddir_ok [OF assms(1,2) 2(2)] by blast
  obtain es s4 where 4: "read_entries api b s3 = Some (es, s4)" "dlive ls hs s s4 b pat []"
    "map entry_view es = map (file_view mb) (ls (win s) pat)"
    using read_entries_ok [OF assms(1) 3(2)] by blast
  with closedir_ok [OF assms(1) 4(2)] 1 2(1) 3(1) show ?thesis by fastforce
qed

theorem rewinddir_restarts_witness:
  "\<exists>b s1 es1 t s2 s3 es s4 s5. opendir demo_api (Some ''t'') demo_dsys = Some (Ref b, s1)
    \<and> read_entries demo_api b s1 = Some (es1, t)
    \<and> read_times demo_api 2 b s1 = Some s2 \<and> rewinddir demo_api b s2 = Some s3
    \<and> read_entries demo_api b s3 = Some (es, s4) \<and> map entry_view es = map entry_view es1
    \<and> closedir demo_api (Ref b) s4 = Some (0, s5) \<and> restored demo_ls demo_hs demo_dsys s5"
proof -
  have "\<forall>k. \<not> doom demo_dsys k" by (simp add: demo_dsys_def)
  then obtain b s1 where o: "opendir demo_api (Some ''t'') demo_dsys = Some (Ref b, s1)"
    using opendir_ok [OF demo_find_api_ok demo_files_ok demo_dsys_ok, of "''t''" demo_path] demo_has_dir by blast
  from o rewinddir_restarts [OF demo_find_api_ok demo_files_ok demo_dsys_ok o, of 2] show ?thesis by blast
qed

text \<open>C29. Whatever allocation, conversion or search fails, \<open>opendir\<close> is defined (the search
  pattern fits in the buffer that was allocated for it) and either returns null and leaves no
  structure, buffer or search handle behind, or returns a stream that \<open>closedir\<close> releases
  completely.\<close>

theorem opendir_fails_clean:
  assumes "find_api_ok api ls hs mb" "files_ok ls" "dsys_ok s"
  shows "\<exists>r s'. opendir api name s = Some (r, s') \<and> (r = Null \<longrightarrow> restored ls hs s s')
    \<and> (\<forall>b. r = Ref b \<longrightarrow> (\<exists>s''. closedir api (Ref b) s' = Some (0, s'') \<and> restored ls hs s s''))"
proof (cases name)
  case None
  then show ?thesis by (auto simp: opendir_def restored_def)
next
  case (Some str)
  obtain r s' where o: "opendir api (Some str) s = Some (r, s')"
    "r = Null \<and> restored ls hs s s' \<or> (\<exists>b pat. r = Ref b \<and> dlive ls hs s s' b pat (ls (win s) pat))"
    using opendir_ok [OF assms, of str "[]"] by blast
  from o(2) show ?thesis
  proof (elim disjE exE conjE)
    assume "r = Null" "restored ls hs s s'"
    then show ?thesis using o(1) Some by simp
  next
    fix b pat
    assume "r = Ref b" "dlive ls hs s s' b pat (ls (win s) pat)"
    with closedir_ok [OF assms(1) this(2)] show ?thesis using o(1) Some by (simp del: closedir.simps)
  qed
qed

theorem opendir_fails_clean_witness:
  "\<exists>r s'. opendir demo_api (Some ''t'') (demo_dsys\<lparr>doom := (\<lambda>k. k = 2)\<rparr>) = Some (r, s')
    \<and> (r = Null \<longrightarrow> restored demo_ls demo_hs (demo_dsys\<lparr>doom := (\<lambda>k. k = 2)\<rparr>) s')
    \<and> (\<forall>b. r = Ref b \<longrightarrow> (\<exists>s''. closedir demo_api (Ref b) s' = Some (0, s'')
          \<and> restored demo_ls demo_hs (demo_dsys\<lparr>doom := (\<lambda>k. k = 2)\<rparr>) s''))"
  by (rule opendir_fails_clean [OF demo_find_api_ok demo_files_ok])
    (simp add: dsys_ok_def demo_dsys_def blank_entry_def)

text \<open>The wide-character functions read the directory as well: \<open>_wreaddir\<close> stays in the entry
  and returns the whole name of each file, in order, then null; \<open>_wrewinddir\<close> starts again, and
  \<open>_wclosedir\<close> gives everything back.\<close>

theorem wdirent_reads_directory:
  assumes "find_api_ok api ls hs mb" "files_ok ls" "dsys_ok s" "wname \<noteq> []" "full_path api wname path"
    "ls (win s) (dir_pattern path) \<noteq> []" "\<forall>k. \<not> doom s k"
  shows "\<exists>a s1 es s2 s3 es' s4 s5. wopendir api (Some wname) s = Some (Ref a, s1)
    \<and> wread_entries api a s1 = Some (es, s2)
    \<and> map wide_view es = map wide_file (ls (win s) (dir_pattern path))
    \<and> wrewinddir api (Ref a) s2 = Some s3 \<and> wread_entries api a s3 = Some (es', s4)
    \<and> map wide_view es' = map wide_view es
    \<and> wclosedir api (Ref a) s4 = Some (0, s5) \<and> restored ls hs s s5"
proof -
  let ?files = "ls (win s) (dir_pattern path)"
  obtain a p buf s1 where o: "wopendir api (Some wname) s = Some (Ref a, s1)" "same_dirs s s1"
    "wlive ls hs s s1 a (Ref p) buf ?files" "str_of buf = Some (dir_pattern path)"
    using wopendir_ok [OF assms(1-3), of wname path] assms(4-7) by blast
  obtain es s2 where 2: "wread_entries api a s1 = Some (es, s2)" "map wide_view es = map wide_file ?files"
    "same_dirs s1 s2" "wlive ls hs s s2 a (Ref p) buf []"
    using wread_entries_ok [OF assms(1) o(3)] by blast
  obtain s3 where 3: "wrewinddir api (Ref a) s2 = Some s3" "same_dirs s2 s3" "wlive ls hs s s3 a (Ref p) buf ?files"
    using wrewinddir_ok [OF assms(1,2) 2(4) o(4)] by blast
  obtain es' s4 where 4: "wread_entries api a s3 = Some (es', s4)" "map wide_view es' = map wide_file ?files"
    "same_dirs s3 s4" "wlive ls hs s s4 a (Ref p) buf []"
    using wread_entries_ok [OF assms(1) 3(3)] by blast
  obtain s5 where 5: "wclosedir api (Ref a) s4 = Some (0, s5)" "same_dirs s4 s5" "wdirs s5 = wdirs s"
    "patts s5 = patts s" "hs (win s5) = hs (win s)" "ls (win s5) = ls (win s)"
    using wclosedir_ok [OF assms(1) 4(4)] by blast
  have "restored ls hs s s5"
    using 5 4(3) 3(2) 2(3) o(2) by (simp add: restored_def same_dirs_def)
  moreover have "map wide_view es' = map wide_view es" using 2(2) 4(2) by simp
  ultimately show ?thesis using o(1) 2(1,2) 3(1) 4(1) 5(1) by blast
qed

theorem wdirent_reads_directory_witness:
  "\<exists>a s1 es s2 s3 es' s4 s5. wopendir demo_api (Some [0x74]) demo_dsys = Some (Ref a, s1)
    \<and> wread_entries demo_api a s1 = Some (es, s2)
    \<and> map wide_view es = map wide_file (demo_ls (win demo_dsys) (dir_pattern demo_path))
    \<and> wrewinddir demo_api (Ref a) s2 = Some s3 \<and> wread_entries demo_api a s3 = Some (es', s4)
    \<and> map wide_view es' = map wide_view es
    \<and> wclosedir demo_api (Ref a) s4 = Some (0, s5) \<and> restored demo_ls demo_hs demo_dsys s5"
  by (rule wdirent_reads_directory [OF demo_find_api_ok demo_files_ok demo_dsys_ok _ demo_full_path])
    (simp_all add: demo_dsys_def demo_ls_def demo_files_def)

end
