(* ===== verification/Sys_Shims.thy ===== *)
theory Sys_Shims
  imports Compat_Prelude
begin

text \<open>
  Small shims of the system: the subtraction of times (\<open>include/compat/sys/time.h\<close>,
  \<open>include/compat/time.h\<close>), the modes of \<open>stat\<close> for Visual C (\<open>include/compat/sys/stat.h\<close>),
  \<open>sleep\<close> (\<open>include/compat/unistd.h\<close>), the capabilities of an AArch64 processor
  (\<open>crypto/arch/aarch64\<close>) and the initialisation of Winsock (\<open>crypto/compat/b_win.c\<close>).
\<close>

unbundle bit_operations_syntax

section \<open>Differences of times\<close>

text \<open>A \<open>struct timeval\<close> or \<open>struct timespec\<close>: seconds and microseconds or nanoseconds. The macros
  work on structures in memory, which may be the same one; \<open>ws\<close> is the width of the seconds, \<open>wu\<close> that of
  the other member, and a result that does not fit is undefined.\<close>

record time_pair =
  tv_sec :: int
  tv_sub :: int

type_synonym times = "nat \<Rightarrow> time_pair"

definition fits :: "nat \<Rightarrow> int \<Rightarrow> int option" where
  "fits w x = (if - (2 ^ (w - 1)) \<le> x \<and> x < 2 ^ (w - 1) then Some x else None)"

definition set_sec :: "nat \<Rightarrow> int \<Rightarrow> times \<Rightarrow> times" where
  "set_sec p x m = m(p := (m p)\<lparr>tv_sec := x\<rparr>)"

definition set_sub :: "nat \<Rightarrow> int \<Rightarrow> times \<Rightarrow> times" where
  "set_sub p x m = m(p := (m p)\<lparr>tv_sub := x\<rparr>)"

definition timersub :: "nat \<Rightarrow> nat \<Rightarrow> nat \<Rightarrow> nat \<Rightarrow> nat \<Rightarrow> times \<Rightarrow> times option" where
  "timersub ws wu tvp uvp vvp m = do {
     d \<leftarrow> fits ws (tv_sec (m tvp) - tv_sec (m uvp));
     let m = set_sec vvp d m;
     d \<leftarrow> fits wu (tv_sub (m tvp) - tv_sub (m uvp));
     let m = set_sub vvp d m;
     if tv_sub (m vvp) < 0
     then do {
       d \<leftarrow> fits ws (tv_sec (m vvp) - 1);
       let m = set_sec vvp d m;
       d \<leftarrow> fits wu (tv_sub (m vvp) + 1000000);
       Some (set_sub vvp d m)
     }
     else Some m
   }"

definition timespecsub :: "nat \<Rightarrow> nat \<Rightarrow> nat \<Rightarrow> nat \<Rightarrow> nat \<Rightarrow> times \<Rightarrow> times option" where
  "timespecsub ws wu tsp usp vsp m = do {
     d \<leftarrow> fits ws (tv_sec (m tsp) - tv_sec (m usp));
     let m = set_sec vsp d m;
     d \<leftarrow> fits wu (tv_sub (m tsp) - tv_sub (m usp));
     let m = set_sub vsp d m;
     if tv_sub (m vsp) < 0
     then do {
       d \<leftarrow> fits ws (tv_sec (m vsp) - 1);
       let m = set_sec vsp d m;
       d \<leftarrow> fits wu (tv_sub (m vsp) + 1000000000);
       Some (set_sub vsp d m)
     }
     else Some m
   }"

text \<open>A time in units of which a second has \<open>u\<close>, and the times that are written the normal way.\<close>

definition time_value :: "int \<Rightarrow> time_pair \<Rightarrow> int" where
  "time_value u t = tv_sec t * u + tv_sub t"

definition normal_time :: "int \<Rightarrow> time_pair \<Rightarrow> bool" where
  "normal_time u t \<longleftrightarrow> 0 \<le> tv_sub t \<and> tv_sub t < u"

text \<open>The seconds of the difference and one less fit.\<close>

definition sub_in_range :: "nat \<Rightarrow> time_pair \<Rightarrow> time_pair \<Rightarrow> bool" where
  "sub_in_range w t u \<longleftrightarrow>
     - (2 ^ (w - 1)) < tv_sec t - tv_sec u \<and> tv_sec t - tv_sec u < 2 ^ (w - 1)"

lemma sub_fits:
  assumes "normal_time c t" "normal_time c u" "c \<le> 2 ^ (wu - 1)" "sub_in_range ws t u"
  shows "fits ws (tv_sec t - tv_sec u) = Some (tv_sec t - tv_sec u)"
    "fits ws (tv_sec t - tv_sec u - 1) = Some (tv_sec t - tv_sec u - 1)"
    "fits wu (tv_sub t - tv_sub u) = Some (tv_sub t - tv_sub u)"
    "tv_sub t < tv_sub u \<Longrightarrow> fits wu (tv_sub t - tv_sub u + c) = Some (tv_sub t - tv_sub u + c)"
  using assms by (auto simp: fits_def normal_time_def sub_in_range_def)

lemma timersub_eq:
  assumes "normal_time 1000000 (m t)" "normal_time 1000000 (m u)" "21 \<le> wu" "sub_in_range ws (m t) (m u)"
  shows "timersub ws wu t u v m = Some (m(v :=
    if tv_sub (m t) < tv_sub (m u)
    then (m v)\<lparr>tv_sec := tv_sec (m t) - tv_sec (m u) - 1, tv_sub := tv_sub (m t) - tv_sub (m u) + 1000000\<rparr>
    else (m v)\<lparr>tv_sec := tv_sec (m t) - tv_sec (m u), tv_sub := tv_sub (m t) - tv_sub (m u)\<rparr>))"
proof -
  have "(2 :: int) ^ 20 \<le> 2 ^ (wu - 1)" using assms(3) by (intro power_increasing) auto
  then have c: "(1000000 :: int) \<le> 2 ^ (wu - 1)" by simp
  note f = sub_fits [OF assms(1,2) c assms(4)]
  have a: "tv_sub ((set_sec v d m) p) = tv_sub (m p)" for d p by (simp add: set_sec_def)
  show ?thesis
    using f by (simp add: timersub_def a) (simp add: set_sec_def set_sub_def fun_upd_def cong: if_cong)
qed

lemma timespecsub_eq:
  assumes "normal_time 1000000000 (m t)" "normal_time 1000000000 (m u)" "31 \<le> wu" "sub_in_range ws (m t) (m u)"
  shows "timespecsub ws wu t u v m = Some (m(v :=
    if tv_sub (m t) < tv_sub (m u)
    then (m v)\<lparr>tv_sec := tv_sec (m t) - tv_sec (m u) - 1, tv_sub := tv_sub (m t) - tv_sub (m u) + 1000000000\<rparr>
    else (m v)\<lparr>tv_sec := tv_sec (m t) - tv_sec (m u), tv_sub := tv_sub (m t) - tv_sub (m u)\<rparr>))"
proof -
  have "(2 :: int) ^ 30 \<le> 2 ^ (wu - 1)" using assms(3) by (intro power_increasing) auto
  then have c: "(1000000000 :: int) \<le> 2 ^ (wu - 1)" by simp
  note f = sub_fits [OF assms(1,2) c assms(4)]
  have a: "tv_sub ((set_sec v d m) p) = tv_sub (m p)" for d p by (simp add: set_sec_def)
  show ?thesis
    using f by (simp add: timespecsub_def a) (simp add: set_sec_def set_sub_def fun_upd_def cong: if_cong)
qed

section \<open>Modes of files\<close>

text \<open>The types of files that Visual C knows; it has no block devices, links and sockets, whose
  constants are zero. \<open>DT_*\<close> are the types of directory entries.\<close>

definition S_IFMT :: "32 word" where "S_IFMT = 0xF000"

definition S_IFDIR :: "32 word" where "S_IFDIR = 0x4000"

definition S_IFCHR :: "32 word" where "S_IFCHR = 0x2000"

definition S_IFIFO :: "32 word" where "S_IFIFO = 0x1000"

definition S_IFREG :: "32 word" where "S_IFREG = 0x8000"

definition S_IFBLK :: "32 word" where "S_IFBLK = 0"

definition S_IFLNK :: "32 word" where "S_IFLNK = 0"

definition S_IFSOCK :: "32 word" where "S_IFSOCK = 0"

definition IFTODT :: "32 word \<Rightarrow> 32 word" where "IFTODT mode = mode AND S_IFMT"

definition DTTOIF :: "32 word \<Rightarrow> 32 word" where "DTTOIF type = type"

definition S_ISFIFO :: "32 word \<Rightarrow> bool" where "S_ISFIFO mode \<longleftrightarrow> mode AND S_IFMT = S_IFIFO"

definition S_ISDIR :: "32 word \<Rightarrow> bool" where "S_ISDIR mode \<longleftrightarrow> mode AND S_IFMT = S_IFDIR"

definition S_ISREG :: "32 word \<Rightarrow> bool" where "S_ISREG mode \<longleftrightarrow> mode AND S_IFMT = S_IFREG"

definition S_ISLNK :: "32 word \<Rightarrow> bool" where "S_ISLNK mode \<longleftrightarrow> mode AND S_IFMT = S_IFLNK"

definition S_ISSOCK :: "32 word \<Rightarrow> bool" where "S_ISSOCK mode \<longleftrightarrow> mode AND S_IFMT = S_IFSOCK"

definition S_ISCHR :: "32 word \<Rightarrow> bool" where "S_ISCHR mode \<longleftrightarrow> mode AND S_IFMT = S_IFCHR"

definition S_ISBLK :: "32 word \<Rightarrow> bool" where "S_ISBLK mode \<longleftrightarrow> mode AND S_IFMT = S_IFBLK"

lemmas stat_modes = S_IFMT_def S_IFDIR_def S_IFCHR_def S_IFIFO_def S_IFREG_def S_IFBLK_def S_IFLNK_def S_IFSOCK_def
  S_ISFIFO_def S_ISDIR_def S_ISREG_def S_ISLNK_def S_ISSOCK_def S_ISCHR_def S_ISBLK_def IFTODT_def DTTOIF_def

text \<open>At most one of the real types holds; the three that Windows lacks hold together, of a mode
  without a type, although the header says that they are always false.\<close>

lemma stat_types: "distinct [S_IFIFO, S_IFDIR, S_IFREG, S_IFCHR, S_IFSOCK]"
  by (simp add: S_IFDIR_def S_IFCHR_def S_IFIFO_def S_IFREG_def S_IFSOCK_def)

lemma stat_tests:
  "S_ISFIFO mode \<longleftrightarrow> IFTODT mode = S_IFIFO" "S_ISDIR mode \<longleftrightarrow> IFTODT mode = S_IFDIR"
  "S_ISREG mode \<longleftrightarrow> IFTODT mode = S_IFREG" "S_ISCHR mode \<longleftrightarrow> IFTODT mode = S_IFCHR"
  "S_ISSOCK mode \<longleftrightarrow> IFTODT mode = S_IFSOCK"
  by (simp_all add: S_ISFIFO_def S_ISDIR_def S_ISREG_def S_ISCHR_def S_ISSOCK_def IFTODT_def)

lemma stat_missing_types:
  "S_ISLNK mode = S_ISSOCK mode" "S_ISBLK mode = S_ISSOCK mode" "S_ISSOCK mode \<longleftrightarrow> IFTODT mode = 0" "S_ISSOCK 0"
  by (simp_all add: S_ISLNK_def S_ISBLK_def S_ISSOCK_def IFTODT_def S_IFLNK_def S_IFBLK_def S_IFSOCK_def)

lemma stat_types_of_entries:
  "IFTODT (DTTOIF (IFTODT mode)) = IFTODT mode" "S_ISDIR (DTTOIF (IFTODT mode)) = S_ISDIR mode"
  "S_ISREG (DTTOIF (IFTODT mode)) = S_ISREG mode"
  by (simp_all add: stat_modes and.assoc)

section \<open>\<open>sleep\<close>\<close>

text \<open>The milliseconds it sleeps and its result; both are \<open>unsigned int\<close>.\<close>

definition sleep :: "32 word \<Rightarrow> 32 word \<times> 32 word" where
  "sleep seconds = (seconds * 1000, seconds)"

lemma sleep_exact: "unat seconds \<le> 4294967 \<Longrightarrow> unat (fst (sleep seconds)) = unat seconds * 1000"
  by (simp add: sleep_def unat_word_ariths)

lemma sleep_wraps: "unat (fst (sleep 4294968)) = 704"
  by (simp add: sleep_def)

section \<open>Capabilities of an AArch64 processor\<close>

text \<open>The flags of the capabilities are constants of libcrypto, the arguments \<open>flags\<close>.\<close>

datatype aarch64_cap = AES | PMULL | SHA1 | SHA2 | SHA512 | SHA3

definition HWCAP :: "aarch64_cap \<Rightarrow> 64 word" where
  "HWCAP c = push_bit (case c of AES \<Rightarrow> 3 | PMULL \<Rightarrow> 4 | SHA1 \<Rightarrow> 5 | SHA2 \<Rightarrow> 6 | SHA3 \<Rightarrow> 17 | SHA512 \<Rightarrow> 21) 1"

definition check_cpu_cap_linux :: "64 word \<Rightarrow> 64 word \<Rightarrow> 64 word \<Rightarrow> 64 word" where
  "check_cpu_cap_linux auxval hwcap cap_flag = (if auxval AND hwcap \<noteq> 0 then cap_flag else 0)"

definition caps_init_linux :: "(aarch64_cap \<Rightarrow> 64 word) \<Rightarrow> 64 word \<Rightarrow> 64 word" where
  "caps_init_linux flags auxval =
     (let caps = 0;
          caps = caps OR check_cpu_cap_linux auxval (HWCAP AES) (flags AES);
          caps = caps OR check_cpu_cap_linux auxval (HWCAP PMULL) (flags PMULL);
          caps = caps OR check_cpu_cap_linux auxval (HWCAP SHA1) (flags SHA1);
          caps = caps OR check_cpu_cap_linux auxval (HWCAP SHA2) (flags SHA2);
          caps = caps OR check_cpu_cap_linux auxval (HWCAP SHA512) (flags SHA512);
          caps = caps OR check_cpu_cap_linux auxval (HWCAP SHA3) (flags SHA3)
      in caps)"

text \<open>\<open>sysctl name\<close> is what \<open>sysctlbyname\<close> stores for the name, if it knows it.\<close>

definition check_cpu_cap_darwin :: "(string \<Rightarrow> int option) \<Rightarrow> string \<Rightarrow> 64 word \<Rightarrow> 64 word" where
  "check_cpu_cap_darwin sysctl cap_name cap_flag =
     (let has_cap = (case sysctl cap_name of Some x \<Rightarrow> x | None \<Rightarrow> 0)
      in if has_cap \<noteq> 0 then cap_flag else 0)"

definition caps_init_darwin :: "(aarch64_cap \<Rightarrow> 64 word) \<Rightarrow> (string \<Rightarrow> int option) \<Rightarrow> 64 word" where
  "caps_init_darwin flags sysctl =
     (let caps = 0;
          caps = caps OR check_cpu_cap_darwin sysctl ''hw.optional.arm.FEAT_AES'' (flags AES);
          caps = caps OR check_cpu_cap_darwin sysctl ''hw.optional.arm.FEAT_PMULL'' (flags PMULL);
          caps = caps OR check_cpu_cap_darwin sysctl ''hw.optional.arm.FEAT_SHA1'' (flags SHA1);
          caps = caps OR check_cpu_cap_darwin sysctl ''hw.optional.arm.FEAT_SHA256'' (flags SHA2);
          caps = caps OR check_cpu_cap_darwin sysctl ''hw.optional.arm.FEAT_SHA512'' (flags SHA512);
          caps = caps OR check_cpu_cap_darwin sysctl ''hw.optional.arm.FEAT_SHA3'' (flags SHA3)
      in caps)"

definition caps_init_windows :: "(aarch64_cap \<Rightarrow> 64 word) \<Rightarrow> bool \<Rightarrow> 64 word" where
  "caps_init_windows flags crypto_available =
     (let caps = 0
      in if crypto_available
         then let caps = caps OR flags AES;
                  caps = caps OR flags PMULL;
                  caps = caps OR flags SHA1;
                  caps = caps OR flags SHA2
              in caps
         else caps)"

definition caps_init_none :: "64 word" where "caps_init_none = 0"

text \<open>What the processor has, as each system tells it.\<close>

definition linux_has :: "64 word \<Rightarrow> aarch64_cap \<Rightarrow> bool" where
  "linux_has auxval c \<longleftrightarrow>
     bit auxval (case c of AES \<Rightarrow> 3 | PMULL \<Rightarrow> 4 | SHA1 \<Rightarrow> 5 | SHA2 \<Rightarrow> 6 | SHA3 \<Rightarrow> 17 | SHA512 \<Rightarrow> 21)"

definition darwin_has :: "(string \<Rightarrow> int option) \<Rightarrow> aarch64_cap \<Rightarrow> bool" where
  "darwin_has sysctl c \<longleftrightarrow> (\<exists>x. x \<noteq> 0 \<and> sysctl (''hw.optional.arm.FEAT_'' @
     (case c of AES \<Rightarrow> ''AES'' | PMULL \<Rightarrow> ''PMULL'' | SHA1 \<Rightarrow> ''SHA1'' | SHA2 \<Rightarrow> ''SHA256'' | SHA512 \<Rightarrow> ''SHA512''
        | SHA3 \<Rightarrow> ''SHA3'')) = Some x)"

definition windows_has :: "bool \<Rightarrow> aarch64_cap \<Rightarrow> bool" where
  "windows_has crypto_available c \<longleftrightarrow> crypto_available \<and> c \<in> {AES, PMULL, SHA1, SHA2}"

lemma caps_bits:
  "bit (caps_init_linux flags auxval) n \<longleftrightarrow> (\<exists>c. linux_has auxval c \<and> bit (flags c) n)"
  "bit (caps_init_darwin flags sysctl) n \<longleftrightarrow> (\<exists>c. darwin_has sysctl c \<and> bit (flags c) n)"
  "bit (caps_init_windows flags crypto_available) n \<longleftrightarrow> (\<exists>c. windows_has crypto_available c \<and> bit (flags c) n)"
proof -
  have ex: "(\<exists>c. P c) \<longleftrightarrow> P AES \<or> P PMULL \<or> P SHA1 \<or> P SHA2 \<or> P SHA512 \<or> P SHA3" for P
    by (metis aarch64_cap.exhaust)
  have "auxval AND push_bit k 1 \<noteq> 0 \<longleftrightarrow> bit auxval k" for k
    by (simp add: and_exp_eq_0_iff_not_bit push_bit_of_1)
  then have hw: "auxval AND HWCAP c \<noteq> 0 \<longleftrightarrow> linux_has auxval c" for c unfolding HWCAP_def linux_has_def .
  have sel: "bit (if P then a else 0) n \<longleftrightarrow> P \<and> bit a n" for P and a :: "64 word" by simp
  have dw: "check_cpu_cap_darwin sysctl name flag = (if \<exists>x. x \<noteq> 0 \<and> sysctl name = Some x then flag else 0)" for name flag
    by (cases "sysctl name") (auto simp: check_cpu_cap_darwin_def)
  show "bit (caps_init_linux flags auxval) n \<longleftrightarrow> (\<exists>c. linux_has auxval c \<and> bit (flags c) n)"
    by (simp add: caps_init_linux_def check_cpu_cap_linux_def ex hw bit_or_iff Let_def sel split del: if_split)
  show "bit (caps_init_darwin flags sysctl) n \<longleftrightarrow> (\<exists>c. darwin_has sysctl c \<and> bit (flags c) n)"
    by (simp add: caps_init_darwin_def dw ex darwin_has_def bit_or_iff Let_def sel split del: if_split)
  show "bit (caps_init_windows flags crypto_available) n \<longleftrightarrow> (\<exists>c. windows_has crypto_available c \<and> bit (flags c) n)"
    by (simp add: caps_init_windows_def ex windows_has_def bit_or_iff Let_def)
qed

section \<open>Winsock\<close>

text \<open>\<open>startups\<close> scripts the results of \<open>WSAStartup\<close> (success when it is over), each an error number
  or zero; \<open>wsa_users\<close> counts the successful ones, as Winsock does. \<open>wsa_last\<close> is what
  \<open>WSAGetLastError\<close> returns, \<open>err_queue\<close> the errors libcrypto has recorded.\<close>

datatype err_entry = SYSerror int | BIO_R_WSASTARTUP

record wsa_state =
  wsa_init_done :: bool
  wsa_users :: nat
  startups :: "int list"
  wsa_last :: int
  err_queue :: "err_entry list"

definition WSAStartup :: "wsa_state \<Rightarrow> int \<times> wsa_state" where
  "WSAStartup s =
     (case startups s of
        [] \<Rightarrow> (0, s\<lparr>wsa_users := wsa_users s + 1\<rparr>)
      | r # rs \<Rightarrow> (r, s\<lparr>startups := rs, wsa_users := (if r = 0 then wsa_users s + 1 else wsa_users s)\<rparr>))"

definition BIO_sock_init :: "wsa_state \<Rightarrow> int \<times> wsa_state" where
  "BIO_sock_init s =
     (if \<not> wsa_init_done s
      then let (r, s) = WSAStartup s
           in if r \<noteq> 0
              then let e = wsa_last s in (-1, s\<lparr>err_queue := err_queue s @ [SYSerror e, BIO_R_WSASTARTUP]\<rparr>)
              else (1, s\<lparr>wsa_init_done := True\<rparr>)
      else (1, s))"

definition BIO_sock_cleanup :: "wsa_state \<Rightarrow> wsa_state" where
  "BIO_sock_cleanup s = s"

text \<open>\<open>ioctl\<close> is \<open>ioctlsocket\<close> for \<open>FIONBIO\<close>.\<close>

definition BIO_socket_nbio :: "(int \<Rightarrow> 32 word \<Rightarrow> int) \<Rightarrow> int \<Rightarrow> int \<Rightarrow> bool" where
  "BIO_socket_nbio ioctl s mode = (let value = word_of_int mode in ioctl s value \<noteq> -1)"

text \<open>Winsock is started once, however often the program calls; a failure is reported and the next
  call tries again.\<close>

lemma sock_init_once:
  assumes "wsa_users s = (if wsa_init_done s then 1 else 0)" "BIO_sock_init s = (r, s')"
  shows "wsa_users s' = (if wsa_init_done s' then 1 else 0)" "wsa_init_done s \<longrightarrow> wsa_init_done s'"
    "r = (if wsa_init_done s' then 1 else -1)"
    "err_queue s' = err_queue s @ (if wsa_init_done s' then [] else [SYSerror (wsa_last s), BIO_R_WSASTARTUP])"
  using assms by (auto simp: BIO_sock_init_def WSAStartup_def split: if_splits list.splits)

section \<open>Properties\<close>

text \<open>C40. \<open>timersub\<close> and \<open>timespecsub\<close> of two times written the normal way store a time written the
  normal way whose value is exactly the difference, also a negative one, also when the result is one of
  the operands, and with seconds and fractions of different widths; nothing else changes.\<close>

theorem time_subtraction:
  assumes "sub_in_range ws (m t) (m u)" "31 \<le> wu"
  shows "(normal_time 1000000 (m t) \<and> normal_time 1000000 (m u) \<longrightarrow>
      (\<exists>d. timersub ws wu t u v m = Some (m(v := d)) \<and> normal_time 1000000 d
         \<and> time_value 1000000 d = time_value 1000000 (m t) - time_value 1000000 (m u)))
    \<and> (normal_time 1000000000 (m t) \<and> normal_time 1000000000 (m u) \<longrightarrow>
      (\<exists>d. timespecsub ws wu t u v m = Some (m(v := d)) \<and> normal_time 1000000000 d
         \<and> time_value 1000000000 d = time_value 1000000000 (m t) - time_value 1000000000 (m u)))"
  using assms timersub_eq [of m t u wu ws v] timespecsub_eq [of m t u wu ws v]
  by (auto simp: normal_time_def time_value_def algebra_simps)

theorem time_subtraction_witness:
  "\<exists>d. timersub 64 32 0 1 1 ((\<lambda>_. \<lparr>tv_sec = 5, tv_sub = 200\<rparr>)(1 := \<lparr>tv_sec = 3, tv_sub = 500\<rparr>))
      = Some ((\<lambda>_. \<lparr>tv_sec = 5, tv_sub = 200\<rparr>)(1 := d))
    \<and> normal_time 1000000 d \<and> time_value 1000000 d = 1999700"
  using time_subtraction [of 64 "(\<lambda>_. \<lparr>tv_sec = 5, tv_sub = 200\<rparr>)(1 := \<lparr>tv_sec = 3, tv_sub = 500\<rparr>)" 0 1 32 1]
  by (auto simp: sub_in_range_def normal_time_def time_value_def)

text \<open>The capabilities of an AArch64 processor: on Linux and macOS a bit is set exactly when it is
  of the flag of a capability that the system reports, on Windows when the system reports the
  cryptographic instructions and it is of one of the four capabilities they have, and otherwise never.\<close>

theorem cpu_caps_reported:
  "(bit (caps_init_linux flags auxval) n \<longleftrightarrow> (\<exists>c. linux_has auxval c \<and> bit (flags c) n))
    \<and> (bit (caps_init_darwin flags sysctl) n \<longleftrightarrow> (\<exists>c. darwin_has sysctl c \<and> bit (flags c) n))
    \<and> (bit (caps_init_windows flags crypto_available) n \<longleftrightarrow> (\<exists>c. windows_has crypto_available c \<and> bit (flags c) n))
    \<and> \<not> bit caps_init_none n"
  using caps_bits by (simp add: caps_init_none_def)

end
