(* ===== verification/File_Modes.thy ===== *)
theory File_Modes
  imports Dirent_Win Sys_Shims
begin

text \<open>
  The rest of \<open>include/compat/sys/stat.h\<close>: permissions and the types of directory entries, and what
  the tests of modes say of the entries that \<open>dirent_msvc.h\<close> produces. The type bits and the tests
  are those of \<open>Sys_Shims\<close>, the directory streams those of \<open>Dirent_Win\<close>.
\<close>

unbundle bit_operations_syntax

section \<open>Permissions\<close>

text \<open>The constants of the C runtime of Windows.\<close>

definition S_IREAD :: "32 word" where "S_IREAD = 0x100"

definition S_IWRITE :: "32 word" where "S_IWRITE = 0x80"

definition S_IEXEC :: "32 word" where "S_IEXEC = 0x40"

text \<open>With Visual C only the permissions of the user to read and write exist.\<close>

definition S_IRWXU :: "32 word" where "S_IRWXU = 0"

definition S_IRUSR :: "32 word" where "S_IRUSR = S_IREAD"

definition S_IWUSR :: "32 word" where "S_IWUSR = S_IWRITE"

definition S_IXUSR :: "32 word" where "S_IXUSR = 0"

definition S_IRWXG :: "32 word" where "S_IRWXG = 0"

definition S_IRGRP :: "32 word" where "S_IRGRP = 0"

definition S_IWGRP :: "32 word" where "S_IWGRP = 0"

definition S_IXGRP :: "32 word" where "S_IXGRP = 0"

definition S_IRWXO :: "32 word" where "S_IRWXO = 0"

definition S_IROTH :: "32 word" where "S_IROTH = 0"

definition S_IWOTH :: "32 word" where "S_IWOTH = 0"

definition S_IXOTH :: "32 word" where "S_IXOTH = 0"

text \<open>With an old MinGW five of them are zero, unless it has them.\<close>

record mingw_modes =
  m_IRWXU :: "32 word"
  m_IRWXG :: "32 word"
  m_IRGRP :: "32 word"
  m_IRWXO :: "32 word"
  m_IROTH :: "32 word"

definition mingw_defaults ::
    "32 word option \<Rightarrow> 32 word option \<Rightarrow> 32 word option \<Rightarrow> 32 word option \<Rightarrow> 32 word option \<Rightarrow> mingw_modes" where
  "mingw_defaults u g gr ot or' =
     (let default = (\<lambda>x. case x of Some v \<Rightarrow> v | None \<Rightarrow> 0)
      in \<lparr>m_IRWXU = default u, m_IRWXG = default g, m_IRGRP = default gr, m_IRWXO = default ot,
          m_IROTH = default or'\<rparr>)"

text \<open>A mode never grants anything to the group or to others, and the bits that it has for the user
  are none of the type.\<close>

lemma msvc_permissions:
  "mode AND (S_IRWXG OR S_IRGRP OR S_IWGRP OR S_IXGRP OR S_IRWXO OR S_IROTH OR S_IWOTH OR S_IXOTH) = 0"
  "(S_IRUSR OR S_IWUSR OR S_IEXEC) AND S_IFMT = 0"
  by (simp_all add: S_IRWXG_def S_IRGRP_def S_IWGRP_def S_IXGRP_def S_IRWXO_def S_IROTH_def S_IWOTH_def
      S_IXOTH_def S_IRUSR_def S_IREAD_def S_IWUSR_def S_IWRITE_def S_IEXEC_def S_IFMT_def)

section \<open>Types of entries\<close>

text \<open>The values of the types that the streams use, and of the others.\<close>

fun dt_value :: "file_type \<Rightarrow> 32 word" where
  "dt_value DT_UNKNOWN = 0"
| "dt_value DT_REG = S_IFREG"
| "dt_value DT_DIR = S_IFDIR"
| "dt_value DT_CHR = S_IFCHR"

definition DT_FIFO :: "32 word" where "DT_FIFO = S_IFIFO"

definition DT_SOCK :: "32 word" where "DT_SOCK = S_IFSOCK"

definition DT_BLK :: "32 word" where "DT_BLK = S_IFBLK"

definition DT_LNK :: "32 word" where "DT_LNK = S_IFLNK"

lemma dt_roundtrip: "IFTODT (DTTOIF (dt_value t)) = dt_value t"
  by (cases t) (simp_all add: stat_modes)

text \<open>The tests of the mode of an entry: directory, regular file, device, and the three that stand for
  nothing on Windows.\<close>

definition entry_tests :: "'a dirent \<Rightarrow> bool list" where
  "entry_tests e =
     (let mode = DTTOIF (dt_value (d_type e))
      in [S_ISDIR mode, S_ISREG mode, S_ISCHR mode, S_ISFIFO mode, S_ISLNK mode, S_ISSOCK mode, S_ISBLK mode])"

text \<open>What the attributes of a file of the directory call for; its name may have no multi-byte form.\<close>

definition file_tests :: "(wchar list \<Rightarrow> string option) \<Rightarrow> find_data \<Rightarrow> bool list" where
  "file_tests mb fd =
     (let device = dwFileAttributes fd AND 0x40 \<noteq> 0; directory = dwFileAttributes fd AND 0x10 \<noteq> 0;
          unnamed = file_name mb fd = None
      in [directory \<and> \<not> device \<and> \<not> unnamed, \<not> directory \<and> \<not> device \<and> \<not> unnamed, device \<and> \<not> unnamed, False,
          unnamed, unnamed, unnamed])"

lemma type_tests:
  "snd (snd (entry_view e)) = snd (snd (file_view mb fd)) \<Longrightarrow> entry_tests e = file_tests mb fd"
  by (cases "file_name mb fd")
    (auto simp: entry_view_def file_view_def entry_tests_def file_tests_def attr_type_def Let_def stat_modes
      split: if_splits)

text \<open>Reading a directory from \<open>opendir\<close> to null, the tests \<open>S_ISDIR\<close>, \<open>S_ISREG\<close> and \<open>S_ISCHR\<close> of the
  modes of the entries tell directories, files and devices apart as the attributes of the files do,
  in order; an entry whose name could not be converted passes for a link, a socket and a block device
  instead.\<close>

theorem entry_types_match_attributes:
  assumes "find_api_ok api ls hs mb" "files_ok ls" "dsys_ok s" "has_dir api ls s name path" "\<forall>k. \<not> doom s k"
  shows "\<exists>b s1 es s2. opendir api (Some name) s = Some (Ref b, s1) \<and> read_entries api b s1 = Some (es, s2)
    \<and> map entry_tests es = map (file_tests mb) (ls (win s) (dir_pattern path))"
proof -
  obtain b s1 where o: "opendir api (Some name) s = Some (Ref b, s1)"
    "dlive ls hs s s1 b (dir_pattern path) (ls (win s) (dir_pattern path))"
    using opendir_ok [OF assms(1-3), of name path] assms(4,5) by blast
  obtain es s2 where r: "read_entries api b s1 = Some (es, s2)"
    "map entry_view es = map (file_view mb) (ls (win s) (dir_pattern path))"
    using read_entries_ok [OF assms(1) o(2)] by blast
  have "map entry_tests es = map (file_tests mb) fs" if "map entry_view es = map (file_view mb) fs" for es fs
    using that by (induction es fs rule: list_induct2') (auto intro!: type_tests)
  then show ?thesis using o(1) r by blast
qed

theorem entry_types_match_attributes_witness:
  "\<exists>b s1 es s2. opendir demo_api (Some ''t'') demo_dsys = Some (Ref b, s1)
    \<and> read_entries demo_api b s1 = Some (es, s2)
    \<and> map entry_tests es = map (file_tests demo_mb) (demo_ls (win demo_dsys) (dir_pattern demo_path))"
  by (rule entry_types_match_attributes [OF demo_find_api_ok demo_files_ok demo_dsys_ok demo_has_dir])
    (simp add: demo_dsys_def)

end
