(* ===== verification/Win_Locks.thy ===== *)
theory Win_Locks
  imports Compat_Prelude
begin

text \<open>
  The locks of Windows: mutexes over critical sections that the first user creates
  (\<open>include/compat/pthread.h\<close>) and the numbered locks of \<open>crypto/compat/crypto_lock_win.c\<close>.

  Threads interleave. A thread in one of the functions is at a point between two accesses to
  shared memory; \<open>thread_step\<close> executes it to the next point. \<open>slot i\<close> is the pointer to the critical
  section of mutex \<open>i\<close> (or of \<open>locks[i]\<close>), \<open>css\<close> maps the address of a live block to the critical
  section in it. \<open>hold t i\<close> is not in the program: it counts how often thread \<open>t\<close> has entered \<open>i\<close>
  without leaving. What the interface of Windows leaves undefined (a critical section that is not
  initialised or was freed, leaving one that is not owned, deleting one that is in use) sets
  \<open>crashed\<close>; a failed allocation ends the process (\<open>exited\<close>).
\<close>

section \<open>State\<close>

text \<open>\<open>Cs own n\<close> is initialised, owned by \<open>own\<close> that has entered it \<open>n\<close> times.\<close>

datatype crit = Raw | Cs "nat option" nat

datatype op = Enter | Leave

datatype point =
    Check
  | Alloc
  | Init nat
  | Cas nat
  | Delete nat
  | Free nat
  | Go
  | Section nat

datatype pc = Idle | Call point op nat

record lstate =
  slot :: "nat \<Rightarrow> ptr"
  css :: "nat \<Rightarrow> crit option"
  nextc :: nat
  pc :: "nat \<Rightarrow> pc"
  hold :: "nat \<Rightarrow> nat \<Rightarrow> nat"
  exited :: bool
  crashed :: bool

definition running :: "lstate \<Rightarrow> bool" where
  "running s \<longleftrightarrow> \<not> exited s \<and> \<not> crashed s"

definition goto :: "nat \<Rightarrow> pc \<Rightarrow> lstate \<Rightarrow> lstate" where
  "goto t p s = s\<lparr>pc := (pc s)(t := p)\<rparr>"

definition crash :: "lstate \<Rightarrow> lstate" where
  "crash s = s\<lparr>crashed := True\<rparr>"

section \<open>One thread\<close>

text \<open>\<open>EnterCriticalSection\<close> and \<open>LeaveCriticalSection\<close> by thread \<open>t\<close> on the critical section at
  \<open>a\<close>, and the return of the function that called them. A thread waits while another owns the
  section; the owner may enter again.\<close>

definition enter_section :: "nat \<Rightarrow> nat \<Rightarrow> nat \<Rightarrow> lstate \<Rightarrow> lstate" where
  "enter_section t i a s =
     (case css s a of
        Some (Cs own n) \<Rightarrow>
          if own = None \<or> own = Some t
          then goto t Idle (s\<lparr>css := (css s)(a \<mapsto> Cs (Some t) (n + 1)),
                              hold := (hold s)(t := (hold s t)(i := hold s t i + 1))\<rparr>)
          else s
      | _ \<Rightarrow> crash s)"

definition leave_section :: "nat \<Rightarrow> nat \<Rightarrow> nat \<Rightarrow> lstate \<Rightarrow> lstate" where
  "leave_section t i a s =
     (case css s a of
        Some (Cs own n) \<Rightarrow>
          if own = Some t
          then goto t Idle (s\<lparr>css := (css s)(a \<mapsto> Cs (if n = 1 then None else own) (n - 1)),
                              hold := (hold s)(t := (hold s t)(i := hold s t i - 1))\<rparr>)
          else crash s
      | _ \<Rightarrow> crash s)"

text \<open>The creation of the critical section of a slot by its first user, which is the same code in
  \<open>pthread_mutex_lock\<close> and \<open>CRYPTO_lock\<close>: the test of the slot, \<open>malloc\<close>,
  \<open>InitializeCriticalSection\<close>, the compare-and-exchange and, when another thread was faster,
  \<open>DeleteCriticalSection\<close> and \<open>free\<close>.\<close>

fun create_section :: "nat \<Rightarrow> point \<Rightarrow> op \<Rightarrow> nat \<Rightarrow> lstate \<Rightarrow> lstate" where
  "create_section t Check o' i s = goto t (Call (if slot s i = Null then Alloc else Go) o' i) s"
| "create_section t Alloc o' i s =
     goto t (Call (Init (nextc s)) o' i) (s\<lparr>css := (css s)(nextc s \<mapsto> Raw), nextc := nextc s + 1\<rparr>)"
| "create_section t (Init a) o' i s =
     (if css s a = Some Raw then goto t (Call (Cas a) o' i) (s\<lparr>css := (css s)(a \<mapsto> Cs None 0)\<rparr>) else crash s)"
| "create_section t (Cas a) o' i s =
     (if slot s i = Null then goto t (Call Go o' i) (s\<lparr>slot := (slot s)(i := Ref a)\<rparr>)
      else goto t (Call (Delete a) o' i) s)"
| "create_section t (Delete a) o' i s =
     (if css s a = Some (Cs None 0) then goto t (Call (Free a) o' i) (s\<lparr>css := (css s)(a \<mapsto> Raw)\<rparr>) else crash s)"
| "create_section t (Free a) o' i s =
     (if css s a = Some Raw then goto t (Call Go o' i) (s\<lparr>css := (css s)(a := None)\<rparr>) else crash s)"
| "create_section t _ o' i s = s"

text \<open>The use of the section, once the slot is filled: the pointer is read again.\<close>

fun use_section :: "nat \<Rightarrow> point \<Rightarrow> op \<Rightarrow> nat \<Rightarrow> lstate \<Rightarrow> lstate" where
  "use_section t Go o' i s =
     (case slot s i of Null \<Rightarrow> crash s | Ref a \<Rightarrow> goto t (Call (Section a) o' i) s)"
| "use_section t (Section a) Enter i s = enter_section t i a s"
| "use_section t (Section a) Leave i s = leave_section t i a s"
| "use_section t _ o' i s = s"

definition thread_step :: "nat \<Rightarrow> lstate \<Rightarrow> lstate" where
  "thread_step t s =
     (case pc s t of
        Idle \<Rightarrow> s
      | Call p o' i \<Rightarrow>
          (case p of
             Go \<Rightarrow> use_section t p o' i s
           | Section _ \<Rightarrow> use_section t p o' i s
           | _ \<Rightarrow> create_section t p o' i s))"

section \<open>The interleavings\<close>

definition uses :: "nat \<Rightarrow> lstate \<Rightarrow> bool" where
  "uses i s \<longleftrightarrow> (\<exists>t. 0 < hold s t i \<or> (\<exists>p o'. pc s t = Call p o' i))"

text \<open>\<open>pthread_mutex_lock\<close>, \<open>pthread_mutex_unlock\<close>, \<open>pthread_mutex_init\<close> and
  \<open>pthread_mutex_destroy\<close>. As POSIX asks of its users, a thread unlocks only a mutex it has
  locked, and a mutex is initialised and destroyed while nobody uses it; a mutex with the static
  initialiser, or a destroyed one, has a null pointer.\<close>

inductive mutex_step :: "lstate \<Rightarrow> lstate \<Rightarrow> bool" where
  lock: "running s \<Longrightarrow> pc s t = Idle \<Longrightarrow> mutex_step s (goto t (Call Check Enter i) s)"
| unlock: "running s \<Longrightarrow> pc s t = Idle \<Longrightarrow> 0 < hold s t i \<Longrightarrow> mutex_step s (goto t (Call Go Leave i) s)"
| init: "running s \<Longrightarrow> pc s t = Idle \<Longrightarrow> \<not> uses i s \<Longrightarrow> slot s i = Null \<Longrightarrow>
    mutex_step s (s\<lparr>css := (css s)(nextc s \<mapsto> Cs None 0), nextc := nextc s + 1, slot := (slot s)(i := Ref (nextc s))\<rparr>)"
| destroy: "running s \<Longrightarrow> pc s t = Idle \<Longrightarrow> \<not> uses i s \<Longrightarrow>
    mutex_step s
      (case slot s i of
         Null \<Rightarrow> s
       | Ref a \<Rightarrow>
           if css s a = Some (Cs None 0) then s\<lparr>css := (css s)(a := None), slot := (slot s)(i := Null)\<rparr>
           else crash s)"
| exec: "running s \<Longrightarrow> mutex_step s (thread_step t s)"
| no_memory: "running s \<Longrightarrow> pc s t = Call Alloc o' i \<or> pc s t = Idle \<and> \<not> uses i s \<and> slot s i = Null \<Longrightarrow> mutex_step s (s\<lparr>exited := True\<rparr>)"

text \<open>\<open>CRYPTO_lock\<close>: the bit \<open>CRYPTO_LOCK\<close> of the mode, which is 1, tells entering from leaving;
  a type outside the array of \<open>num_locks\<close> locks is ignored.\<close>

definition crypto_call :: "nat \<Rightarrow> nat \<Rightarrow> 32 word \<Rightarrow> 32 word \<Rightarrow> lstate \<Rightarrow> lstate" where
  "crypto_call num_locks t mode type s =
     (if sint type < 0 \<or> sint type \<ge> int num_locks then s
      else goto t (Call Check (if mode AND 1 \<noteq> 0 then Enter else Leave) (unat type)) s)"

inductive crypto_step :: "nat \<Rightarrow> lstate \<Rightarrow> lstate \<Rightarrow> bool" for num_locks where
  call: "running s \<Longrightarrow> pc s t = Idle \<Longrightarrow> mode AND 1 \<noteq> 0 \<or> 0 < hold s t (unat type) \<Longrightarrow>
    crypto_step num_locks s (crypto_call num_locks t mode type s)"
| exec: "running s \<Longrightarrow> crypto_step num_locks s (thread_step t s)"
| no_memory: "running s \<Longrightarrow> pc s t = Call Alloc o' i \<Longrightarrow> crypto_step num_locks s (s\<lparr>exited := True\<rparr>)"

text \<open>The program starts with every pointer null and no thread in the functions.\<close>

definition lstate0 :: lstate where
  "lstate0 = \<lparr>slot = \<lambda>_. Null, css = Map.empty, nextc = 0, pc = \<lambda>_. Idle, hold = \<lambda>_ _. 0,
     exited = False, crashed = False\<rparr>"

section \<open>The invariant\<close>

text \<open>The critical section a thread has created and not yet published or freed.\<close>

fun own_section :: "pc \<Rightarrow> nat option" where
  "own_section (Call (Init a) o' i) = Some a"
| "own_section (Call (Cas a) o' i) = Some a"
| "own_section (Call (Delete a) o' i) = Some a"
| "own_section (Call (Free a) o' i) = Some a"
| "own_section _ = None"

text \<open>What the section of a slot is: initialised, in no other slot, and owned by the one thread that
  holds it, as often as it has entered.\<close>

definition section_ok :: "lstate \<Rightarrow> nat \<Rightarrow> nat \<Rightarrow> bool" where
  "section_ok s i a \<longleftrightarrow> (\<exists>own n. css s a = Some (Cs own n) \<and> (own = None \<longleftrightarrow> n = 0)
     \<and> (\<forall>t. hold s t i = (if own = Some t then n else 0)))"

definition slot_ok :: "lstate \<Rightarrow> nat \<Rightarrow> bool" where
  "slot_ok s i \<longleftrightarrow> (slot s i = Null \<longrightarrow> (\<forall>t. hold s t i = 0)) \<and>
     (\<forall>a. slot s i = Ref a \<longrightarrow> section_ok s i a \<and> (\<forall>j. slot s j = Ref a \<longrightarrow> j = i))"

text \<open>What a thread relies on at each point.\<close>

fun point_ok :: "lstate \<Rightarrow> point \<Rightarrow> nat \<Rightarrow> bool" where
  "point_ok s Check i \<longleftrightarrow> True"
| "point_ok s Alloc i \<longleftrightarrow> True"
| "point_ok s (Init a) i \<longleftrightarrow> css s a = Some Raw"
| "point_ok s (Cas a) i \<longleftrightarrow> css s a = Some (Cs None 0)"
| "point_ok s (Delete a) i \<longleftrightarrow> css s a = Some (Cs None 0) \<and> slot s i \<noteq> Null"
| "point_ok s (Free a) i \<longleftrightarrow> css s a = Some Raw \<and> slot s i \<noteq> Null"
| "point_ok s Go i \<longleftrightarrow> slot s i \<noteq> Null"
| "point_ok s (Section a) i \<longleftrightarrow> slot s i = Ref a"

definition thread_ok :: "lstate \<Rightarrow> nat \<Rightarrow> bool" where
  "thread_ok s t \<longleftrightarrow> (\<forall>p o' i. pc s t = Call p o' i \<longrightarrow> point_ok s p i \<and> (o' = Leave \<longrightarrow> 0 < hold s t i))"

text \<open>The sections of different threads and of the slots are different.\<close>

definition disjoint_ok :: "lstate \<Rightarrow> bool" where
  "disjoint_ok s \<longleftrightarrow>
     (\<forall>t u a. own_section (pc s t) = Some a \<longrightarrow> own_section (pc s u) = Some a \<longrightarrow> u = t) \<and>
     (\<forall>t i a. own_section (pc s t) = Some a \<longrightarrow> slot s i \<noteq> Ref a)"

text \<open>Every live block belongs to a slot or to a thread; addresses not handed out yet are free.\<close>

definition reachable_ok :: "lstate \<Rightarrow> bool" where
  "reachable_ok s \<longleftrightarrow> (\<forall>a. css s a \<noteq> None \<longrightarrow>
     a < nextc s \<and> ((\<exists>i. slot s i = Ref a) \<or> (\<exists>t. own_section (pc s t) = Some a)))"

definition linv :: "lstate \<Rightarrow> bool" where
  "linv s \<longleftrightarrow> \<not> crashed s \<and> (\<forall>i. slot_ok s i) \<and> (\<forall>t. thread_ok s t) \<and> disjoint_ok s \<and> reachable_ok s"

lemmas linv_defs = slot_ok_def section_ok_def thread_ok_def disjoint_ok_def reachable_ok_def

lemma linv_initial: "linv lstate0"
  by (simp add: linv_def linv_defs lstate0_def)

lemma linv_facts:
  assumes "linv s"
  shows "\<not> crashed s"
    "pc s t = Call p o' i \<Longrightarrow> point_ok s p i"
    "pc s t = Call p Leave i \<Longrightarrow> 0 < hold s t i"
    "slot s i = Null \<Longrightarrow> hold s t i = 0"
    "slot s i = Ref a \<Longrightarrow> section_ok s i a"
    "slot s i = Ref a \<Longrightarrow> slot s j = Ref a \<Longrightarrow> j = i"
    "own_section (pc s t) = Some a \<Longrightarrow> own_section (pc s u) = Some a \<Longrightarrow> u = t"
    "own_section (pc s t) = Some a \<Longrightarrow> slot s i \<noteq> Ref a"
    "css s a \<noteq> None \<Longrightarrow> a < nextc s"
    "css s a \<noteq> None \<Longrightarrow> (\<exists>i. slot s i = Ref a) \<or> (\<exists>t. own_section (pc s t) = Some a)"
  using assms unfolding linv_def linv_defs by blast+

text \<open>A thread that moves on without touching the memory.\<close>

lemma linv_goto:
  assumes "linv s" "own_section p = own_section (pc s t)"
    "\<And>q o' i. p = Call q o' i \<Longrightarrow> point_ok s q i \<and> (o' = Leave \<longrightarrow> 0 < hold s t i)"
  shows "linv (goto t p s)"
proof -
  let ?s = "goto t p s"
  have mem: "slot ?s = slot s" "css ?s = css s" "hold ?s = hold s" "nextc ?s = nextc s" "crashed ?s = crashed s"
    by (simp_all add: goto_def)
  have point: "point_ok ?s q i = point_ok s q i" for q i by (cases q) (simp_all add: mem)
  have own: "own_section (pc ?s u) = own_section (pc s u)" for u using assms(2) by (simp add: goto_def)
  have "thread_ok ?s u" for u
    using linv_facts(2,3) [OF assms(1), of u] assms(3) point
    by (cases "u = t") (auto simp: thread_ok_def mem, auto simp: goto_def)
  moreover have "slot_ok ?s i" for i
    using linv_facts(4-6) [OF assms(1)] by (auto simp: slot_ok_def section_ok_def mem)
  moreover have "disjoint_ok ?s" "reachable_ok ?s"
    using assms(1) unfolding linv_def disjoint_ok_def reachable_ok_def own mem by blast+
  ultimately show ?thesis using linv_facts(1) [OF assms(1)] by (simp add: linv_def mem)
qed

lemma point_own: "own_section (Call p o' i) = Some a \<Longrightarrow> point_ok s p i \<Longrightarrow> css s a \<noteq> None"
  by (cases "Call p o' i" rule: own_section.cases) auto

lemma own_live: "linv s \<Longrightarrow> own_section (pc s t) = Some a \<Longrightarrow> css s a \<noteq> None"
  by (cases "pc s t") (use linv_facts(2) point_own in \<open>auto simp del: not_None_eq\<close>)

lemma slot_live: "linv s \<Longrightarrow> slot s i = Ref a \<Longrightarrow> css s a \<noteq> None"
  by (fastforce dest: linv_facts(5) simp: section_ok_def)

text \<open>A change of the section at \<open>a\<close>, which is in no slot, and of the place of thread \<open>t\<close>, who is
  the only one to know it.\<close>

lemma linv_private:
  assumes inv: "linv s"
    and mem: "\<And>b. b \<noteq> a \<Longrightarrow> css s' b = css s b" and same: "slot s' = slot s" "hold s' = hold s" "\<not> crashed s'"
    and pc: "pc s' = (pc s)(t := p)" and nc: "nextc s \<le> nextc s'" "css s' a \<noteq> None \<Longrightarrow> a < nextc s'"
    and mine: "own_section (pc s t) = Some a \<or> own_section (pc s t) = None \<and> css s a = None"
    and new: "own_section p = (if css s' a = None then None else Some a)"
    and th: "\<And>q o' i. p = Call q o' i \<Longrightarrow> point_ok s' q i \<and> (o' = Leave \<longrightarrow> 0 < hold s t i)"
  shows "linv s'"
proof -
  have alone: "own_section (pc s u) \<noteq> Some a" if "u \<noteq> t" for u
    using mine linv_facts(7) [OF inv, of t a u] own_live [OF inv, of u a] that by auto
  have unpub: "slot s i \<noteq> Ref a" for i
    using mine linv_facts(8) [OF inv] slot_live [OF inv, of i a] by auto
  have "slot_ok s' i" for i
    using linv_facts(4-6) [OF inv] mem unpub same by (auto simp: slot_ok_def section_ok_def) metis
  moreover have "thread_ok s' u" for u
  proof (cases "u = t")
    case True
    then show ?thesis using th pc same by (simp add: thread_ok_def)
  next
    case False
    have "point_ok s' q i = point_ok s q i" if "pc s u = Call q o' i" for q o' i
      using alone [OF False] that mem same by (cases q) auto
    then show ?thesis using linv_facts(2,3) [OF inv, of u] False pc same by (auto simp: thread_ok_def)
  qed
  moreover have "disjoint_ok s'"
    using linv_facts(7,8) [OF inv] alone unpub new pc same(1) by (auto simp: disjoint_ok_def split: if_splits)
  moreover have "reachable_ok s'"
    unfolding reachable_ok_def
  proof (intro allI impI)
    fix b assume b: "css s' b \<noteq> None"
    show "b < nextc s' \<and> ((\<exists>i. slot s' i = Ref b) \<or> (\<exists>t. own_section (pc s' t) = Some b))"
    proof (cases "b = a")
      case True
      then show ?thesis using b nc(2) new pc by (auto intro!: exI [of _ t])
    next
      case False
      then have "css s b \<noteq> None" using b mem by simp
      moreover have "own_section (pc s t) \<noteq> Some b" using mine False by auto
      ultimately show ?thesis
        using linv_facts(9,10) [OF inv, of b] nc(1) same(1) pc
        by (metis fun_upd_apply less_le_trans)
    qed
  qed
  ultimately show ?thesis using same(3) by (simp add: linv_def)
qed

text \<open>A section becomes that of the empty slot \<open>i\<close>.\<close>

lemma linv_publish:
  assumes inv: "linv s" and free: "slot s i = Null"
    and s': "css s' = (css s)(a \<mapsto> Cs None 0)" "slot s' = (slot s)(i := Ref a)" "hold s' = hold s" "\<not> crashed s'"
    and pc: "pc s' = (pc s)(t := p)" and nc: "nextc s \<le> nextc s'" "a < nextc s'"
    and mine: "own_section (pc s t) = Some a \<or> own_section (pc s t) = None \<and> css s a = None"
    and new: "own_section p = None"
    and th: "\<And>q o' i. p = Call q o' i \<Longrightarrow> point_ok s' q i \<and> (o' = Leave \<longrightarrow> 0 < hold s t i)"
  shows "linv s'"
proof -
  have alone: "own_section (pc s u) \<noteq> Some a" if "u \<noteq> t" for u
    using mine linv_facts(7) [OF inv, of t a u] own_live [OF inv, of u a] that by auto
  have unpub: "slot s j \<noteq> Ref a" for j
    using mine linv_facts(8) [OF inv] slot_live [OF inv, of j a] by auto
  have "slot_ok s' j" for j
  proof (cases "j = i")
    case True
    have "section_ok s' i a" using linv_facts(4) [OF inv free] s' by (auto simp: section_ok_def)
    then show ?thesis using True unpub s'(2) by (auto simp: slot_ok_def)
  next
    case False
    have "section_ok s' j b" if "slot s j = Ref b" for b
    proof -
      have "b \<noteq> a" using that unpub by auto
      then show ?thesis using linv_facts(5) [OF inv that] s' by (simp add: section_ok_def)
    qed
    then show ?thesis using False unpub s'(2,3) linv_facts(4,6) [OF inv] by (auto simp: slot_ok_def)
  qed
  moreover have "thread_ok s' u" for u
  proof (cases "u = t")
    case True
    then show ?thesis using th pc s'(3) by (simp add: thread_ok_def)
  next
    case False
    have "point_ok s' q j" if "pc s u = Call q o' j" for q o' j
      using alone [OF False] that s' linv_facts(2) [OF inv that] free by (cases q) auto
    then show ?thesis using linv_facts(3) [OF inv, of u] False pc s'(3) by (auto simp: thread_ok_def)
  qed
  moreover have "disjoint_ok s'"
    using linv_facts(7,8) [OF inv] alone new pc s'(2) by (auto simp: disjoint_ok_def split: if_splits)
  moreover have "reachable_ok s'"
    unfolding reachable_ok_def
  proof (intro allI impI)
    fix b assume b: "css s' b \<noteq> None"
    show "b < nextc s' \<and> ((\<exists>i. slot s' i = Ref b) \<or> (\<exists>t. own_section (pc s' t) = Some b))"
    proof (cases "b = a")
      case True
      then show ?thesis using nc(2) s'(2) by (auto intro!: exI [of _ i])
    next
      case False
      then have "css s b \<noteq> None" using b s'(1) by simp
      moreover have "own_section (pc s t) \<noteq> Some b" using mine False by auto
      moreover have "slot s i \<noteq> Ref b" using free by simp
      ultimately show ?thesis
        using linv_facts(9,10) [OF inv, of b] nc(1) s'(2) pc by (metis fun_upd_apply less_le_trans)
    qed
  qed
  ultimately show ?thesis using s'(4) by (simp add: linv_def)
qed

text \<open>The owner of a section changes, or how often it has entered.\<close>

lemma linv_section:
  assumes inv: "linv s" and pub: "slot s i = Ref a" and idle: "own_section (pc s t) = None"
    and s': "s' = goto t Idle (s\<lparr>css := (css s)(a \<mapsto> Cs own n), hold := (hold s)(t := (hold s t)(i := k))\<rparr>)"
    and own: "own = None \<longleftrightarrow> n = 0" "k = (if own = Some t then n else 0)"
    and others: "\<And>u. u \<noteq> t \<Longrightarrow> hold s u i = (if own = Some u then n else 0)"
  shows "linv s'"
proof -
  have pc: "pc s' = (pc s)(t := Idle)" and mem: "slot s' = slot s" "nextc s' = nextc s" "crashed s' = crashed s"
    "css s' = (css s)(a \<mapsto> Cs own n)"
    and hold: "hold s' u j = (if u = t \<and> j = i then k else hold s u j)" for u j
    using s' by (simp_all add: goto_def)
  have "slot_ok s' j" for j
  proof (cases "j = i")
    case True
    have "section_ok s' i a" using own others by (auto simp: section_ok_def mem hold)
    moreover have "\<forall>j. slot s j = Ref a \<longrightarrow> j = i" by (blast intro: linv_facts(6) [OF inv pub])
    ultimately show ?thesis unfolding slot_ok_def mem True pub by (metis ptr.distinct(1) ptr.inject)
  next
    case False
    have "section_ok s' j b" if "slot s j = Ref b" for b
    proof -
      have "b \<noteq> a" using that pub linv_facts(6) [OF inv pub, of j] False by auto
      then show ?thesis using linv_facts(5) [OF inv that] False by (simp add: section_ok_def mem hold)
    qed
    then show ?thesis using False linv_facts(4,6) [OF inv] by (auto simp: slot_ok_def mem hold)
  qed
  moreover have "thread_ok s' u" for u
  proof (cases "u = t")
    case True
    then show ?thesis using pc by (simp add: thread_ok_def)
  next
    case False
    have "point_ok s' q j" if "pc s u = Call q o' j" for q o' j
      using linv_facts(2) [OF inv that] linv_facts(8) [OF inv, of u a i] that pub by (cases q) (auto simp: mem)
    then show ?thesis using linv_facts(3) [OF inv, of u] False pc by (auto simp: thread_ok_def hold)
  qed
  moreover have owner: "own_section (pc s' u) = own_section (pc s u)" for u using idle pc by simp
  have "disjoint_ok s'"
    using linv_facts(7,8) [OF inv] unfolding disjoint_ok_def owner mem by blast
  moreover have "reachable_ok s'"
    using linv_facts(9,10) [OF inv] slot_live [OF inv pub] unfolding reachable_ok_def owner mem
    by (metis fun_upd_apply pub)
  ultimately show ?thesis using linv_facts(1) [OF inv] mem by (simp add: linv_def)
qed

lemma linv_enter:
  assumes "linv s" "pc s t = Call (Section a) Enter i"
  shows "linv (enter_section t i a s)"
proof -
  have pub: "slot s i = Ref a" using linv_facts(2) [OF assms] by simp
  obtain own n where c: "css s a = Some (Cs own n)" "own = None \<longleftrightarrow> n = 0"
    and h: "\<forall>t. hold s t i = (if own = Some t then n else 0)"
    using linv_facts(5) [OF assms(1) pub] by (auto simp: section_ok_def)
  show ?thesis
  proof (cases "own = None \<or> own = Some t")
    case True
    then show ?thesis
      using c h by (auto simp: enter_section_def intro!: linv_section [OF assms(1) pub, of t] simp: assms(2))
  next
    case False
    then show ?thesis using c assms(1) by (auto simp: enter_section_def)
  qed
qed

lemma linv_leave:
  assumes "linv s" "pc s t = Call (Section a) Leave i"
  shows "linv (leave_section t i a s)"
proof -
  have pub: "slot s i = Ref a" and held: "0 < hold s t i"
    using linv_facts(2) [OF assms] linv_facts(3) [OF assms] by simp_all
  obtain own n where c: "css s a = Some (Cs own n)" "own = None \<longleftrightarrow> n = 0"
    and h: "\<forall>t. hold s t i = (if own = Some t then n else 0)"
    using linv_facts(5) [OF assms(1) pub] by (auto simp: section_ok_def)
  have own: "own = Some t" "0 < n" using held h by (auto split: if_splits)
  have "linv (goto t Idle (s\<lparr>css := (css s)(a \<mapsto> Cs (if n = 1 then None else own) (n - 1)),
      hold := (hold s)(t := (hold s t)(i := hold s t i - 1))\<rparr>))"
    by (rule linv_section [OF assms(1) pub _ refl]) (use own h assms(2) in auto)
  then show ?thesis using c own by (cases "n = 1") (simp_all add: leave_section_def)
qed

lemma linv_thread_step:
  assumes inv: "linv s"
  shows "linv (thread_step t s)"
proof (cases "pc s t")
  case Idle
  then show ?thesis using inv by (simp add: thread_step_def)
next
  case (Call p o' i)
  note point = linv_facts(2) [OF inv Call] and leave = linv_facts(3) [OF inv, of t]
  have lv: "o' = Leave \<Longrightarrow> 0 < hold s t i" using leave Call by simp
  have ok: "\<not> crashed s" by (rule linv_facts(1) [OF inv])
  show ?thesis
  proof (cases p)
    case Check
    have "linv (goto t (Call (if slot s i = Null then Alloc else Go) o' i) s)"
      by (rule linv_goto [OF inv]) (use Call Check lv in \<open>auto split: if_splits\<close>)
    then show ?thesis using Call Check by (simp add: thread_step_def)
  next
    case Alloc
    have "css s (nextc s) = None" using linv_facts(9) [OF inv, of "nextc s"] less_irrefl by blast
    then have "linv (goto t (Call (Init (nextc s)) o' i) (s\<lparr>css := (css s)(nextc s \<mapsto> Raw), nextc := nextc s + 1\<rparr>))"
      by (intro linv_private [OF inv, where a = "nextc s" and t = t]) (use Call Alloc lv ok in \<open>auto simp: goto_def\<close>)
    then show ?thesis using Call Alloc by (simp add: thread_step_def)
  next
    case (Init a)
    have "a < nextc s" using point Init linv_facts(9) [OF inv, of a] by simp
    then have "linv (goto t (Call (Cas a) o' i) (s\<lparr>css := (css s)(a \<mapsto> Cs None 0)\<rparr>))"
      by (intro linv_private [OF inv, where a = a and t = t]) (use Call Init lv ok in \<open>auto simp: goto_def\<close>)
    then show ?thesis using Call Init point by (simp add: thread_step_def)
  next
    case (Cas a)
    show ?thesis
    proof (cases "slot s i = Null")
      case True
      have "a < nextc s" using point Cas linv_facts(9) [OF inv, of a] by simp
      then have "linv (goto t (Call Go o' i) (s\<lparr>slot := (slot s)(i := Ref a)\<rparr>))"
        by (intro linv_publish [OF inv True, where a = a and t = t])
          (use Call Cas point lv ok in \<open>auto simp: goto_def fun_upd_idem\<close>)
      then show ?thesis using Call Cas True by (simp add: thread_step_def)
    next
      case False
      have "linv (goto t (Call (Delete a) o' i) s)"
        by (rule linv_goto [OF inv]) (use Call Cas point lv False in auto)
      then show ?thesis using Call Cas False by (simp add: thread_step_def)
    qed
  next
    case (Delete a)
    have "a < nextc s" using point Delete linv_facts(9) [OF inv, of a] by simp
    then have "linv (goto t (Call (Free a) o' i) (s\<lparr>css := (css s)(a \<mapsto> Raw)\<rparr>))"
      by (intro linv_private [OF inv, where a = a and t = t])
        (use Call Delete point lv ok in \<open>auto simp: goto_def\<close>)
    then show ?thesis using Call Delete point by (simp add: thread_step_def)
  next
    case (Free a)
    have "linv (goto t (Call Go o' i) (s\<lparr>css := (css s)(a := None)\<rparr>))"
      by (rule linv_private [OF inv, where a = a and t = t])
        (use Call Free point lv ok in \<open>auto simp: goto_def\<close>)
    then show ?thesis using Call Free point by (simp add: thread_step_def)
  next
    case Go
    then obtain a where a: "slot s i = Ref a" using point by (cases "slot s i") auto
    have "linv (goto t (Call (Section a) o' i) s)"
      by (rule linv_goto [OF inv]) (use Call Go lv a in auto)
    then show ?thesis using Call Go a by (simp add: thread_step_def)
  next
    case (Section a)
    show ?thesis
      by (cases o') (use Call Section linv_enter [OF inv] linv_leave [OF inv] in \<open>auto simp: thread_step_def\<close>)
  qed
qed

lemma unused:
  assumes "\<not> uses i s"
  shows "hold s t i = 0" "pc s t \<noteq> Call p o' i"
  using assms by (auto simp: uses_def)

lemma linv_destroy:
  assumes inv: "linv s" and free: "\<not> uses i s" and pub: "slot s i = Ref a"
  shows "css s a = Some (Cs None 0)" "linv (s\<lparr>css := (css s)(a := None), slot := (slot s)(i := Null)\<rparr>)"
proof -
  let ?s = "s\<lparr>css := (css s)(a := None), slot := (slot s)(i := Null)\<rparr>"
  obtain own n where c: "css s a = Some (Cs own n)" "own = None \<longleftrightarrow> n = 0"
    and h: "\<forall>t. hold s t i = (if own = Some t then n else 0)"
    using linv_facts(5) [OF inv pub] by (auto simp: section_ok_def)
  show "css s a = Some (Cs None 0)"
  proof (cases own)
    case (Some t)
    then have "n = 0" using h unused(1) [OF free, of t] by simp
    then show ?thesis using c by simp
  qed (use c in simp)
  have other: "b \<noteq> a" if "slot s j = Ref b" "j \<noteq> i" for b j
    using linv_facts(6) [OF inv pub, of j] that by auto
  have "slot_ok ?s j" for j
  proof (cases "j = i")
    case True
    then show ?thesis using unused(1) [OF free] by (simp add: slot_ok_def)
  next
    case False
    then show ?thesis
      using linv_facts(4-6) [OF inv] other by (auto simp: slot_ok_def section_ok_def)
  qed
  moreover have "thread_ok ?s u" for u
  proof -
    have "point_ok ?s q j" if "pc s u = Call q o' j" for q o' j
      using linv_facts(2) [OF inv that] linv_facts(8) [OF inv, of u a i] pub that unused(2) [OF free]
      by (cases q) auto
    then show ?thesis using linv_facts(3) [OF inv, of u] by (auto simp: thread_ok_def)
  qed
  moreover have "disjoint_ok ?s"
    using linv_facts(7,8) [OF inv] unfolding disjoint_ok_def by auto
  moreover have "reachable_ok ?s"
    using linv_facts(9,10) [OF inv] pub unfolding reachable_ok_def by auto (metis ptr.inject)
  ultimately show "linv ?s" using linv_facts(1) [OF inv] by (simp add: linv_def)
qed

lemma linv_exit: "linv s \<Longrightarrow> linv (s\<lparr>exited := True\<rparr>)"
proof -
  have "point_ok (s\<lparr>exited := True\<rparr>) p i = point_ok s p i" for p i by (cases p) simp_all
  then show "linv s \<Longrightarrow> linv (s\<lparr>exited := True\<rparr>)"
    by (simp add: linv_def linv_defs)
qed

lemma linv_call: "linv s \<Longrightarrow> pc s t = Idle \<Longrightarrow> o' = Leave \<longrightarrow> 0 < hold s t i \<Longrightarrow> linv (goto t (Call Check o' i) s)"
  by (rule linv_goto) auto

lemma linv_mutex_step: "mutex_step s s' \<Longrightarrow> linv s \<Longrightarrow> linv s'"
proof (induction rule: mutex_step.induct)
  case (lock s t i)
  then show ?case by (intro linv_call) auto
next
  case (unlock s t i)
  then have "slot s i \<noteq> Null" using linv_facts(4) [of s i t] by auto
  then show ?case using unlock by (intro linv_goto) auto
next
  case (init s t i)
  then have fresh: "css s (nextc s) = None" using linv_facts(9) [of s "nextc s"] less_irrefl by blast
  have pc: "pc s = (pc s)(t := Idle)" using init(2) by (simp add: fun_upd_idem)
  have ok: "\<not> crashed s" by (rule linv_facts(1) [OF init(5)])
  show ?case
    by (rule linv_publish [OF init(5,4), where a = "nextc s" and t = t and p = Idle])
      (use pc fresh ok init(2) in simp_all)
next
  case (destroy s t i)
  then show ?case using linv_destroy [of s i] by (auto split: ptr.split)
next
  case (exec s t)
  then show ?case by (intro linv_thread_step)
next
  case (no_memory s t o' i)
  then show ?case by (intro linv_exit)
qed

lemma linv_crypto_step: "crypto_step num_locks s s' \<Longrightarrow> linv s \<Longrightarrow> linv s'"
proof (induction rule: crypto_step.induct)
  case (call s t mode type)
  then show ?case by (auto simp: crypto_call_def intro: linv_call)
next
  case (exec s t)
  then show ?case by (intro linv_thread_step)
next
  case (no_memory s t o' i)
  then show ?case by (intro linv_exit)
qed

lemma linv_mutex_reachable: "mutex_step\<^sup>*\<^sup>* lstate0 s \<Longrightarrow> linv s"
  by (induction rule: rtranclp_induct) (auto intro: linv_initial linv_mutex_step)

lemma linv_crypto_reachable: "(crypto_step num_locks)\<^sup>*\<^sup>* lstate0 s \<Longrightarrow> linv s"
  by (induction rule: rtranclp_induct) (auto intro: linv_initial linv_crypto_step)

text \<open>What the invariant says to the users of the locks: a lock is held by one thread at a time,
  nothing undefined happened, and while no thread is in one of the functions the live critical
  sections are those of the slots.\<close>

lemma linv_excludes: "linv s \<Longrightarrow> 0 < hold s t i \<Longrightarrow> 0 < hold s u i \<Longrightarrow> t = u"
proof -
  assume inv: "linv s" and held: "0 < hold s t i" "0 < hold s u i"
  obtain a where pub: "slot s i = Ref a" using linv_facts(4) [OF inv, of i t] held by (cases "slot s i") auto
  then obtain own n where "\<forall>t. hold s t i = (if own = Some t then n else 0)"
    using linv_facts(5) [OF inv pub] unfolding section_ok_def by blast
  then have "own = Some t" "own = Some u" using held by (metis less_irrefl)+
  then show "t = u" by simp
qed

lemma linv_no_leak: "linv s \<Longrightarrow> \<forall>t. pc s t = Idle \<Longrightarrow> dom (css s) = {a. \<exists>i. slot s i = Ref a}"
  using linv_facts(10) [of s] slot_live [of s] by fastforce

section \<open>Progress\<close>

fun steps_left :: "point \<Rightarrow> nat" where
  "steps_left Check = 8"
| "steps_left Alloc = 7"
| "steps_left (Init a) = 6"
| "steps_left (Cas a) = 5"
| "steps_left (Delete a) = 4"
| "steps_left (Free a) = 3"
| "steps_left Go = 2"
| "steps_left (Section a) = 1"

text \<open>The lock \<open>i\<close> is free for thread \<open>t\<close>.\<close>

definition free_for :: "lstate \<Rightarrow> nat \<Rightarrow> nat \<Rightarrow> bool" where
  "free_for s t i \<longleftrightarrow> (\<forall>u. u \<noteq> t \<longrightarrow> hold s u i = 0)"

definition new_hold :: "op \<Rightarrow> nat \<Rightarrow> nat" where
  "new_hold o' n = (case o' of Enter \<Rightarrow> n + 1 | Leave \<Rightarrow> n - 1)"

lemma held_free: "linv s \<Longrightarrow> 0 < hold s t i \<Longrightarrow> free_for s t i"
  using linv_excludes by (fastforce simp: free_for_def)

lemma thread_step_progress:
  assumes inv: "linv s" and at: "pc s t = Call p o' i" and free: "free_for s t i"
  shows "(pc (thread_step t s) t = Idle \<and> hold (thread_step t s) t i = new_hold o' (hold s t i))
    \<or> (\<exists>q. pc (thread_step t s) t = Call q o' i \<and> steps_left q < steps_left p \<and> hold (thread_step t s) = hold s)"
proof (cases p)
  case (Section a)
  have pub: "slot s i = Ref a" using linv_facts(2) [OF inv at] Section by simp
  obtain own n where c: "css s a = Some (Cs own n)" "own = None \<longleftrightarrow> n = 0"
    and h: "\<forall>t. hold s t i = (if own = Some t then n else 0)"
    using linv_facts(5) [OF inv pub] by (auto simp: section_ok_def)
  have own: "own = None \<or> own = Some t"
    using c(2) h free by (cases own) (auto simp: free_for_def split: if_splits)
  have "own = Some t" if "o' = Leave" using linv_facts(3) [OF inv, of t p i] at that h by (auto split: if_splits)
  then show ?thesis
    using own c at Section by (cases o') (auto simp: thread_step_def enter_section_def leave_section_def goto_def new_hold_def)
qed (use linv_facts(2) [OF inv at] at in \<open>auto simp: thread_step_def goto_def split: ptr.splits\<close>)

lemma thread_step_completes:
  assumes "linv s" "pc s t = Call p o' i" "free_for s t i"
  shows "\<exists>k \<le> steps_left p. pc ((thread_step t ^^ k) s) t = Idle
    \<and> hold ((thread_step t ^^ k) s) t i = new_hold o' (hold s t i)"
  using assms
proof (induction "steps_left p" arbitrary: s p rule: less_induct)
  case less
  have pos: "0 < steps_left p" by (cases p) simp_all
  from thread_step_progress [OF less.prems] show ?case
  proof (elim disjE conjE exE)
    assume "pc (thread_step t s) t = Idle" "hold (thread_step t s) t i = new_hold o' (hold s t i)"
    then show ?thesis using pos by (intro exI [of _ 1]) auto
  next
    fix q assume q: "pc (thread_step t s) t = Call q o' i" "steps_left q < steps_left p" "hold (thread_step t s) = hold s"
    obtain k where "k \<le> steps_left q" "pc ((thread_step t ^^ k) (thread_step t s)) t = Idle"
      "hold ((thread_step t ^^ k) (thread_step t s)) t i = new_hold o' (hold s t i)"
      using less.hyps [OF q(2) linv_thread_step [OF less.prems(1), of t] q(1)] q(3) less.prems(3)
      by (auto simp: free_for_def)
    then show ?thesis using q(2) by (intro exI [of _ "Suc k"]) (simp add: funpow_swap1)
  qed
qed

section \<open>Properties\<close>

text \<open>A schedule for the witnesses: two threads find the slot empty and both create a critical
  section; thread 0 publishes its own and thread 1 frees its own and waits.\<close>

definition race :: lstate where
  "race = goto 1 (Call Check Enter 0) (goto 0 (Call Check Enter 0) lstate0)"

definition schedule :: "nat list" where
  "schedule = [0, 1, 0, 1, 0, 1, 0, 1, 0, 0, 1, 1, 1, 1]"

lemma running_thread_step: "linv s \<Longrightarrow> running s \<Longrightarrow> running (thread_step t s)"
proof -
  assume inv: "linv s" and run: "running s"
  have "exited (use_section t p o' i s) = exited s" for p o' i
    by (cases p; cases o')
      (auto simp: goto_def crash_def enter_section_def leave_section_def split: ptr.splits option.splits crit.splits)
  moreover have "exited (create_section t p o' i s) = exited s" for p o' i
    by (cases p) (auto simp: goto_def crash_def)
  ultimately have "exited (thread_step t s) = exited s"
    by (simp add: thread_step_def split: pc.split point.split del: create_section.simps use_section.simps)
  then show ?thesis using run linv_facts(1) [OF linv_thread_step [OF inv]] by (simp add: running_def)
qed

lemma mutex_schedule:
  assumes "mutex_step\<^sup>*\<^sup>* lstate0 s" "running s"
  shows "mutex_step\<^sup>*\<^sup>* lstate0 (fold thread_step ts s) \<and> running (fold thread_step ts s)"
  using assms
proof (induction ts arbitrary: s)
  case (Cons t ts)
  then have "mutex_step\<^sup>*\<^sup>* lstate0 (thread_step t s)" "running (thread_step t s)"
    using running_thread_step linv_mutex_reachable by (auto intro: rtranclp.rtrancl_into_rtrancl mutex_step.exec)
  then show ?case using Cons.IH by simp
qed simp

lemma race_reachable: "mutex_step\<^sup>*\<^sup>* lstate0 race" "running race"
proof -
  have "mutex_step lstate0 (goto 0 (Call Check Enter 0) lstate0)"
    by (rule mutex_step.lock) (simp_all add: running_def lstate0_def)
  moreover have "mutex_step (goto 0 (Call Check Enter 0) lstate0) race"
    unfolding race_def by (rule mutex_step.lock) (simp_all add: running_def lstate0_def goto_def)
  ultimately show "mutex_step\<^sup>*\<^sup>* lstate0 race" by (meson converse_rtranclp_into_rtranclp rtranclp.rtrancl_refl)
  show "running race" by (simp add: race_def running_def goto_def lstate0_def)
qed

lemma race_result: "hold (fold thread_step schedule race) 0 0 = 1" "pc (fold thread_step schedule race) 1 = Call (Section 0) Enter 0"
  by (simp_all add: schedule_def race_def lstate0_def thread_step_def goto_def enter_section_def)

text \<open>C5. The mutexes of \<open>pthread.h\<close>, for any number of threads that lock, unlock, initialise and
  destroy in any interleaving, and although each of them may be the one that creates a critical
  section: no two threads hold a mutex at a time, no critical section is used before it is
  initialised or after it was freed, and none is lost: while no thread is in the functions, the
  live ones are exactly those the mutexes point to.\<close>

theorem mutex_excludes:
  assumes "mutex_step\<^sup>*\<^sup>* lstate0 s"
  shows "\<not> crashed s \<and> (\<forall>t u i. 0 < hold s t i \<and> 0 < hold s u i \<longrightarrow> t = u)
    \<and> ((\<forall>t. pc s t = Idle) \<longrightarrow> dom (css s) = {a. \<exists>i. slot s i = Ref a})"
proof -
  note inv = linv_mutex_reachable [OF assms]
  show ?thesis using linv_facts(1) [OF inv] linv_excludes [OF inv] linv_no_leak [OF inv] by blast
qed

theorem mutex_excludes_witness:
  "let s = fold thread_step schedule race
   in hold s 0 0 = 1 \<and> pc s 1 = Call (Section 0) Enter 0
    \<and> \<not> crashed s \<and> (\<forall>t u i. 0 < hold s t i \<and> 0 < hold s u i \<longrightarrow> t = u)
    \<and> ((\<forall>t. pc s t = Idle) \<longrightarrow> dom (css s) = {a. \<exists>i. slot s i = Ref a})"
  unfolding Let_def
  by (intro conjI [OF race_result(1)] conjI [OF race_result(2)] mutex_excludes
      mutex_schedule [OF race_reachable, THEN conjunct1])

lemma use_section_slot:
  "slot (use_section t p o' i s) = slot s"
  "pc s t = Call p o' i \<Longrightarrow> pc (use_section t p o' i s) u = Call q o'' j \<Longrightarrow> \<exists>p. pc s u = Call p o'' j"
  by (cases p; cases o'; auto simp: goto_def crash_def enter_section_def leave_section_def
      split: ptr.splits option.splits crit.splits if_splits)+

lemma create_section_slot:
  "slot (create_section t p o' i s) j \<noteq> slot s j \<Longrightarrow> j = i"
  "pc s t = Call p o' i \<Longrightarrow> pc (create_section t p o' i s) u = Call q o'' j \<Longrightarrow> \<exists>p. pc s u = Call p o'' j"
  by (cases p; auto simp: goto_def crash_def split: if_splits)+

text \<open>Only slots that threads use are filled.\<close>

definition in_table :: "nat \<Rightarrow> lstate \<Rightarrow> bool" where
  "in_table n s \<longleftrightarrow> (\<forall>t p o' i. pc s t = Call p o' i \<longrightarrow> i < n) \<and> (\<forall>i. slot s i \<noteq> Null \<longrightarrow> i < n)"

lemma in_table_thread_step: "in_table n s \<Longrightarrow> in_table n (thread_step t s)"
proof (cases "pc s t")
  case Idle
  then show "in_table n s \<Longrightarrow> in_table n (thread_step t s)" by (simp add: thread_step_def)
next
  case (Call p o' i)
  have "thread_step t s = use_section t p o' i s \<or> thread_step t s = create_section t p o' i s"
    using Call by (cases p) (simp_all add: thread_step_def)
  then show "in_table n s \<Longrightarrow> in_table n (thread_step t s)"
    unfolding in_table_def
    using Call use_section_slot(1) [of t p o' i s] use_section_slot(2) [of s t p o' i]
      create_section_slot(1) [of t p o' i s] create_section_slot(2) [of s t p o' i] by metis
qed

lemma in_table_step: "crypto_step n s s' \<Longrightarrow> in_table n s \<Longrightarrow> in_table n s'"
proof (induction rule: crypto_step.induct)
  case (call s t mode type)
  have "unat type < n" if "\<not> sint type < 0" "sint type < int n"
  proof -
    have "uint type = sint type"
      using that sint_lt [of type] by (simp add: uint_sint take_bit_int_eq_self)
    then have "int (unat type) < int n" using that by simp
    then show ?thesis by (simp only: of_nat_less_iff)
  qed
  then show ?case using call by (auto simp: crypto_call_def goto_def in_table_def split: if_splits)
qed (simp_all add: in_table_thread_step, simp add: in_table_def)

text \<open>C17. The same holds for \<open>CRYPTO_lock\<close>, which creates its locks on the way in or out and ignores
  types that are not in the array.\<close>

theorem crypto_locks_exclude:
  assumes "(crypto_step num_locks)\<^sup>*\<^sup>* lstate0 s"
  shows "\<not> crashed s \<and> (\<forall>t u i. 0 < hold s t i \<and> 0 < hold s u i \<longrightarrow> t = u)
    \<and> ((\<forall>t. pc s t = Idle) \<longrightarrow> dom (css s) = {a. \<exists>i. slot s i = Ref a})
    \<and> (\<forall>i. slot s i \<noteq> Null \<longrightarrow> i < num_locks)"
proof -
  note inv = linv_crypto_reachable [OF assms]
  have "in_table num_locks s"
    using assms by (induction rule: rtranclp_induct) (simp_all add: in_table_step, simp add: in_table_def lstate0_def)
  then show ?thesis
    using linv_facts(1) [OF inv] linv_excludes [OF inv] linv_no_leak [OF inv] unfolding in_table_def by blast
qed

text \<open>Two threads on lock 2 of three, and one that names a lock that does not exist.\<close>

definition crypto_race :: lstate where
  "crypto_race = crypto_call 3 7 1 5 (crypto_call 3 1 1 2 (crypto_call 3 0 1 2 lstate0))"

lemma crypto_schedule:
  assumes "(crypto_step n)\<^sup>*\<^sup>* lstate0 s" "running s"
  shows "(crypto_step n)\<^sup>*\<^sup>* lstate0 (fold thread_step ts s)"
  using assms
proof (induction ts arbitrary: s)
  case (Cons t ts)
  then have "(crypto_step n)\<^sup>*\<^sup>* lstate0 (thread_step t s)" "running (thread_step t s)"
    using running_thread_step linv_crypto_reachable by (auto intro: rtranclp.rtrancl_into_rtrancl crypto_step.exec)
  then show ?case using Cons.IH by simp
qed simp

lemma crypto_race_eq: "crypto_race = goto 1 (Call Check Enter 2) (goto 0 (Call Check Enter 2) lstate0)"
  by (simp add: crypto_race_def crypto_call_def)

lemma crypto_race_reachable: "(crypto_step 3)\<^sup>*\<^sup>* lstate0 crypto_race" "running crypto_race"
proof -
  let ?s1 = "crypto_call 3 0 1 2 lstate0" and ?s2 = "crypto_call 3 1 1 2 (crypto_call 3 0 1 2 lstate0)"
  have "crypto_step 3 lstate0 ?s1"
    by (rule crypto_step.call) (simp_all add: running_def lstate0_def)
  moreover have "crypto_step 3 ?s1 ?s2"
    by (rule crypto_step.call) (simp_all add: crypto_call_def running_def lstate0_def goto_def)
  moreover have "crypto_step 3 ?s2 crypto_race"
    unfolding crypto_race_def
    by (rule crypto_step.call) (simp_all add: crypto_call_def running_def lstate0_def goto_def)
  ultimately show "(crypto_step 3)\<^sup>*\<^sup>* lstate0 crypto_race"
    by (meson converse_rtranclp_into_rtranclp rtranclp.rtrancl_refl)
  show "running crypto_race" by (simp add: crypto_race_eq running_def goto_def lstate0_def)
qed

lemma crypto_race_result: "hold (fold thread_step schedule crypto_race) 0 2 = 1"
  by (simp add: crypto_race_eq schedule_def lstate0_def thread_step_def goto_def enter_section_def)

theorem crypto_locks_exclude_witness:
  "let s = fold thread_step schedule crypto_race
   in hold s 0 2 = 1 \<and> \<not> crashed s \<and> (\<forall>t u i. 0 < hold s t i \<and> 0 < hold s u i \<longrightarrow> t = u)
    \<and> ((\<forall>t. pc s t = Idle) \<longrightarrow> dom (css s) = {a. \<exists>i. slot s i = Ref a})
    \<and> (\<forall>i. slot s i \<noteq> Null \<longrightarrow> i < 3)"
  unfolding Let_def
  by (intro conjI [OF crypto_race_result] crypto_locks_exclude crypto_schedule [OF crypto_race_reachable])

text \<open>C31. A thread that locks a mutex nobody else holds, or unlocks one it holds, is never blocked by
  the others, wherever they are in the functions: at most eight steps of its own complete the call,
  and count the mutex as entered or left once more.\<close>

theorem lock_completes:
  assumes "mutex_step\<^sup>*\<^sup>* lstate0 s" "running s" "pc s t = Call p o' i" "o' = Enter \<longrightarrow> free_for s t i"
  shows "\<exists>k \<le> 8. let s' = (thread_step t ^^ k) s
    in mutex_step\<^sup>*\<^sup>* lstate0 s' \<and> pc s' t = Idle \<and> hold s' t i = new_hold o' (hold s t i)"
proof -
  note inv = linv_mutex_reachable [OF assms(1)]
  have "free_for s t i"
    using assms(3,4) held_free [OF inv, of t i] linv_facts(3) [OF inv, of t p i] by (cases o') auto
  then obtain k where k: "k \<le> steps_left p" "pc ((thread_step t ^^ k) s) t = Idle"
    "hold ((thread_step t ^^ k) s) t i = new_hold o' (hold s t i)"
    using thread_step_completes [OF inv assms(3)] by blast
  have "fold thread_step (replicate k t) s = (thread_step t ^^ k) s" by (induction k arbitrary: s) (simp_all add: funpow_swap1)
  then have "mutex_step\<^sup>*\<^sup>* lstate0 ((thread_step t ^^ k) s)"
    using mutex_schedule [OF assms(1,2), of "replicate k t"] by simp
  moreover have "k \<le> 8" using k(1) by (cases p) simp_all
  ultimately show ?thesis using k(2,3) by auto
qed

theorem lock_completes_witness:
  "\<exists>k \<le> 8. let s' = (thread_step 1 ^^ k) race
    in mutex_step\<^sup>*\<^sup>* lstate0 s' \<and> pc s' 1 = Idle \<and> hold s' 1 0 = new_hold Enter (hold race 1 0)"
  by (rule lock_completes [OF race_reachable]) (simp_all add: race_def goto_def free_for_def lstate0_def)

section \<open>The other functions\<close>

text \<open>\<open>pthread_once\<close>: the routine \<open>cb\<close> is a function on a state \<open>'w\<close> that holds the
  \<open>INIT_ONCE\<close> blocks too, and \<open>once_execute\<close> is \<open>InitOnceExecuteOnce\<close>. The result is
  \<open>EINVAL\<close> (\<open>True\<close>) or 0.\<close>

definition pthread_once_win32_cb :: "('w \<Rightarrow> 'w) \<Rightarrow> 'w \<Rightarrow> bool \<times> 'w" where
  "pthread_once_win32_cb cb w = (True, cb w)"

definition pthread_once ::
    "(nat \<Rightarrow> ('w \<Rightarrow> bool \<times> 'w) \<Rightarrow> 'w \<Rightarrow> bool \<times> 'w) \<Rightarrow> nat \<Rightarrow> ('w \<Rightarrow> 'w) \<Rightarrow> 'w \<Rightarrow> bool \<times> 'w" where
  "pthread_once once_execute once cb w =
     (case once_execute once (pthread_once_win32_cb cb) w of (rc, w) \<Rightarrow> (\<not> rc, w))"

definition pthread_equal :: "32 word \<Rightarrow> 32 word \<Rightarrow> bool" where
  "pthread_equal t1 t2 \<longleftrightarrow> t1 = t2"

text \<open>\<open>CRYPTO_add_lock\<close>: \<open>InterlockedExchangeAdd\<close> adds in one step and returns the old value; the
  addition after it is one of ints, whose overflow is undefined.\<close>

definition CRYPTO_add_lock :: "nat \<Rightarrow> 32 word \<Rightarrow> (nat \<Rightarrow> 32 word) \<Rightarrow> (32 word \<times> (nat \<Rightarrow> 32 word)) option" where
  "CRYPTO_add_lock p amount mem =
     (let ret = mem p; mem = mem(p := ret + amount)
      in if - (2 ^ 31) \<le> sint ret + sint amount \<and> sint ret + sint amount < 2 ^ 31
         then Some (ret + amount, mem) else None)"

lemma CRYPTO_add_lock_result:
  "CRYPTO_add_lock p amount mem = Some (r, mem') \<Longrightarrow> mem' p = r"
  by (auto simp: CRYPTO_add_lock_def Let_def split: if_splits)

end
