(* ===== verification/Readpassphrase.thy ===== *)
theory Readpassphrase
  imports C_Runtime
begin

text \<open>
  \<open>readpassphrase\<close> (\<open>apps/nc/compat/readpassphrase.c\<close>, \<open>include/compat/readpassphrase.h\<close>): reading
  a passphrase from the terminal with echo turned off, while signals are caught.

  The state of the process is \<open>pstate\<close>: the dispositions of the signals, the array \<open>signo\<close>
  of the handler, open descriptors and the attributes of terminals. What the system does is a
  script: \<open>arrivals\<close> are the signals that arrive during the successive system calls that can
  receive them, \<open>reads\<close> what the successive calls of \<open>read\<close> give (end of file when the script is
  over) and \<open>settings\<close> the outcome of the successive calls of \<open>tcsetattr\<close> (success when the
  script is over). \<open>platform\<close> holds the constants of the system headers and the functions of
  \<open>ctype.h\<close>; \<open>signals\<close> are the signals in the order of their numbers.
\<close>

section \<open>State\<close>

datatype signal =
    SIGINT | SIGQUIT | SIGALRM | SIGHUP | SIGPIPE | SIGTERM | SIGTSTP | SIGTTIN | SIGTTOU | SIG_other nat

datatype sig_handler = SIG_DFL | SIG_IGN | Handler | Fun nat

text \<open>\<open>Handler\<close> is the function \<open>handler\<close> of the file; \<open>sa_rest\<close> is the mask and the flags.\<close>

record sigact =
  sa_handler :: sig_handler
  sa_rest :: nat

record termios =
  c_lflag :: "32 word"
  vstatus :: nat
  term_rest :: nat

datatype read_event = Got char | Eof | Fail errno

record platform =
  ECHO :: "32 word"
  ECHONL :: "32 word"
  has_VSTATUS :: bool
  VDISABLE :: nat
  isalpha :: "char \<Rightarrow> bool"
  tolower :: "char \<Rightarrow> char"
  toupper :: "char \<Rightarrow> char"
  signals :: "signal list"

record pstate =
  disp :: "signal \<Rightarrow> sigact"
  signo :: "signal \<Rightarrow> bool"
  perrno :: "errno option"
  fds :: "int list"
  cloexec :: "int list"
  tty_attr :: "int \<Rightarrow> termios option"
  opened :: nat
  open_result :: "nat \<Rightarrow> int"
  arrivals :: "signal list list"
  reads :: "read_event list"
  settings :: "errno option list"
  write_errors :: "errno option list"
  written :: "(int \<times> string) list"
  resent :: "signal list"
  seen :: "termios option list"

definition RPP_ECHO_ON :: "32 word" where "RPP_ECHO_ON = 0x01"
definition RPP_REQUIRE_TTY :: "32 word" where "RPP_REQUIRE_TTY = 0x02"
definition RPP_FORCELOWER :: "32 word" where "RPP_FORCELOWER = 0x04"
definition RPP_FORCEUPPER :: "32 word" where "RPP_FORCEUPPER = 0x08"
definition RPP_SEVENBIT :: "32 word" where "RPP_SEVENBIT = 0x10"
definition RPP_STDIN :: "32 word" where "RPP_STDIN = 0x20"

definition flag_set :: "32 word \<Rightarrow> 32 word \<Rightarrow> bool" where
  "flag_set flags f \<longleftrightarrow> flags AND f \<noteq> 0"

section \<open>System calls\<close>

text \<open>The signals that arrive during a call run \<open>handler\<close> when it is installed; what other
  dispositions do is not seen here.\<close>

definition caught :: "signal list \<Rightarrow> pstate \<Rightarrow> pstate" where
  "caught gs s = s\<lparr>signo := (\<lambda>g. signo s g \<or> g \<in> set gs \<and> sa_handler (disp s g) = Handler)\<rparr>"

definition take_signals :: "pstate \<Rightarrow> pstate" where
  "take_signals s =
     (case arrivals s of [] \<Rightarrow> s | gs # rest \<Rightarrow> (caught gs s)\<lparr>arrivals := rest\<rparr>)"

definition sys_open_tty :: "pstate \<Rightarrow> int \<times> pstate" where
  "sys_open_tty s =
     (let fd = open_result s (opened s); s = s\<lparr>opened := opened s + 1\<rparr>
      in (fd, if fd = -1 then s else s\<lparr>fds := fd # fds s\<rparr>))"

definition sys_close :: "int \<Rightarrow> pstate \<Rightarrow> pstate" where
  "sys_close fd s = s\<lparr>fds := remove1 fd (fds s)\<rparr>"

definition sys_tcsetattr :: "int \<Rightarrow> termios \<Rightarrow> pstate \<Rightarrow> bool \<times> pstate" where
  "sys_tcsetattr fd t s =
     (let s = take_signals s
      in case settings s of
           Some e # rest \<Rightarrow> (False, s\<lparr>perrno := Some e, settings := rest\<rparr>)
         | None # rest \<Rightarrow> (True, s\<lparr>tty_attr := (tty_attr s)(fd \<mapsto> t), settings := rest\<rparr>)
         | [] \<Rightarrow> (True, s\<lparr>tty_attr := (tty_attr s)(fd \<mapsto> t)\<rparr>))"

definition sys_cloexec :: "int \<Rightarrow> pstate \<Rightarrow> pstate" where
  "sys_cloexec fd s = s\<lparr>cloexec := fd # cloexec s\<rparr>"

definition sys_write :: "int \<Rightarrow> string \<Rightarrow> pstate \<Rightarrow> pstate" where
  "sys_write fd str s =
     (let s = take_signals s
      in case write_errors s of
           Some e # rest \<Rightarrow> s\<lparr>perrno := Some e, write_errors := rest\<rparr>
         | None # rest \<Rightarrow> s\<lparr>written := written s @ [(fd, str)], write_errors := rest\<rparr>
         | [] \<Rightarrow> s\<lparr>written := written s @ [(fd, str)]\<rparr>)"

text \<open>\<open>seen\<close> is not in the program: it records the attributes the terminal has while it is read.\<close>

definition sys_read :: "int \<Rightarrow> pstate \<Rightarrow> read_event \<times> pstate" where
  "sys_read fd s =
     (let s = take_signals (s\<lparr>seen := seen s @ [tty_attr s fd]\<rparr>)
      in case reads s of
           [] \<Rightarrow> (Eof, s)
         | Fail e # rest \<Rightarrow> (Fail e, s\<lparr>perrno := Some e, reads := rest\<rparr>)
         | ev # rest \<Rightarrow> (ev, s\<lparr>reads := rest\<rparr>))"

definition sys_kill :: "signal \<Rightarrow> pstate \<Rightarrow> pstate" where
  "sys_kill g s = s\<lparr>resent := resent s @ [g]\<rparr>"

text \<open>\<open>sigaction\<close> returns the old disposition, and \<open>sigaction_except_ign\<close> puts it back when the
  signal was ignored.\<close>

definition sys_sigaction :: "signal \<Rightarrow> sigact \<Rightarrow> pstate \<Rightarrow> sigact \<times> pstate" where
  "sys_sigaction g act s = (disp s g, s\<lparr>disp := (disp s)(g := act)\<rparr>)"

definition sigaction_except_ign :: "signal \<Rightarrow> sigact \<Rightarrow> pstate \<Rightarrow> sigact \<times> pstate" where
  "sigaction_except_ign g act s =
     (case sys_sigaction g act s of (old, s) \<Rightarrow>
        if sa_handler old = SIG_IGN \<and> sa_handler act \<noteq> SIG_IGN
        then (old, snd (sys_sigaction g old s))
        else (old, s))"

section \<open>The function\<close>

text \<open>One character of the passphrase.\<close>

definition pass_char :: "platform \<Rightarrow> 32 word \<Rightarrow> char \<Rightarrow> char" where
  "pass_char pl flags ch =
     (let ch = (if flag_set flags RPP_SEVENBIT then char_of ((of_char ch :: nat) mod 128) else ch)
      in if isalpha pl ch
         then
           (let ch = (if flag_set flags RPP_FORCELOWER then tolower pl ch else ch)
            in if flag_set flags RPP_FORCEUPPER then toupper pl ch else ch)
         else ch)"

text \<open>The loop over \<open>read\<close>; \<open>p\<close> is the index in \<open>buf\<close> of the next character. The result is
  \<open>nr\<close> of the last call, \<open>p\<close>, the buffer and the state.\<close>

partial_function (option) read_pass ::
    "platform \<Rightarrow> 32 word \<Rightarrow> int \<Rightarrow> nat \<Rightarrow> nat \<Rightarrow> char list \<Rightarrow> pstate \<Rightarrow> (int \<times> nat \<times> char list \<times> pstate) option" where
  "read_pass pl flags input bufsiz p buf s =
     (case sys_read input s of
        (Got ch, s) \<Rightarrow>
          if ch \<noteq> CHR 0x0A \<and> ch \<noteq> CHR 0x0D
          then
            if p < bufsiz - 1
            then do {
              buf \<leftarrow> aset buf (int p) (pass_char pl flags ch);
              read_pass pl flags input bufsiz (p + 1) buf s
            }
            else read_pass pl flags input bufsiz p buf s
          else Some (1, p, buf, s)
      | (Eof, s) \<Rightarrow> Some (0, p, buf, s)
      | (Fail e, s) \<Rightarrow> Some (-1, p, buf, s))"

text \<open>Turning echo off: the attributes in use and the old ones.\<close>

definition no_term :: "platform \<Rightarrow> termios" where
  "no_term pl = \<lparr>c_lflag = ECHO pl, vstatus = 0, term_rest = 0\<rparr>"

definition echo_off :: "platform \<Rightarrow> 32 word \<Rightarrow> int \<Rightarrow> pstate \<Rightarrow> termios \<times> termios \<times> pstate" where
  "echo_off pl flags input s =
     (case (if input \<noteq> 0 then tty_attr s input else None) of
        Some oterm \<Rightarrow>
          (let new = (if \<not> flag_set flags RPP_ECHO_ON
                      then oterm\<lparr>c_lflag := c_lflag oterm AND NOT (ECHO pl OR ECHONL pl)\<rparr> else oterm);
               new = (if has_VSTATUS pl \<and> vstatus new \<noteq> VDISABLE pl then new\<lparr>vstatus := VDISABLE pl\<rparr> else new)
           in (new, oterm, snd (sys_tcsetattr input new s)))
      | None \<Rightarrow> (no_term pl, no_term pl, s))"

partial_function (option) restore_term :: "int \<Rightarrow> termios \<Rightarrow> pstate \<Rightarrow> pstate option" where
  "restore_term input oterm s =
     (case sys_tcsetattr input oterm s of (ok, s) \<Rightarrow>
        if \<not> ok \<and> perrno s = Some EINTR \<and> \<not> signo s SIGTTOU
        then restore_term input oterm s
        else Some s)"

text \<open>The restoration of the old attributes, when they were changed; a \<open>SIGTTOU\<close> caught on the
  way is forgotten.\<close>

definition restore_tty :: "int \<Rightarrow> termios \<Rightarrow> termios \<Rightarrow> pstate \<Rightarrow> pstate option" where
  "restore_tty input new oterm s =
     (if new \<noteq> oterm
      then do {
        let sigttou = signo s SIGTTOU;
        s \<leftarrow> restore_term input oterm s;
        Some (s\<lparr>signo := (signo s)(SIGTTOU := sigttou)\<rparr>)
      }
      else Some s)"

text \<open>\<open>input\<close> and \<open>output\<close>: the terminal, or standard input and standard error.\<close>

definition endpoints :: "int \<Rightarrow> int \<times> int" where
  "endpoints fd = (if fd = -1 then (0, 2) else (fd, fd))"

record saved_signals =
  saveint :: sigact
  savequit :: sigact
  savealrm :: sigact
  savehup :: sigact
  savepipe :: sigact
  saveterm :: sigact
  savetstp :: sigact
  savettin :: sigact
  savettou :: sigact

definition catch_signals :: "pstate \<Rightarrow> saved_signals \<times> pstate" where
  "catch_signals s =
     (let sa = \<lparr>sa_handler = Handler, sa_rest = 0\<rparr>;
          (i, s) = sys_sigaction SIGINT sa s;
          (q, s) = sys_sigaction SIGQUIT sa s;
          (a, s) = sigaction_except_ign SIGALRM sa s;
          (h, s) = sigaction_except_ign SIGHUP sa s;
          (p, s) = sigaction_except_ign SIGPIPE sa s;
          (t, s) = sigaction_except_ign SIGTERM sa s;
          (ts, s) = sigaction_except_ign SIGTSTP sa s;
          (ti, s) = sigaction_except_ign SIGTTIN sa s;
          (ou, s) = sigaction_except_ign SIGTTOU sa s
      in (\<lparr>saveint = i, savequit = q, savealrm = a, savehup = h, savepipe = p, saveterm = t,
           savetstp = ts, savettin = ti, savettou = ou\<rparr>, s))"

definition restore_signals :: "saved_signals \<Rightarrow> pstate \<Rightarrow> pstate" where
  "restore_signals k s =
     (let s = snd (sys_sigaction SIGINT (saveint k) s);
          s = snd (sys_sigaction SIGQUIT (savequit k) s);
          s = snd (sigaction_except_ign SIGALRM (savealrm k) s);
          s = snd (sigaction_except_ign SIGHUP (savehup k) s);
          s = snd (sigaction_except_ign SIGPIPE (savepipe k) s);
          s = snd (sigaction_except_ign SIGTERM (saveterm k) s);
          s = snd (sigaction_except_ign SIGTSTP (savetstp k) s);
          s = snd (sigaction_except_ign SIGTTIN (savettin k) s)
      in snd (sigaction_except_ign SIGTTOU (savettou k) s))"

text \<open>The loop that sends the caught signals again.\<close>

fun resend :: "signal list \<Rightarrow> bool \<Rightarrow> pstate \<Rightarrow> bool \<times> pstate" where
  "resend [] need_restart s = (need_restart, s)"
| "resend (g # gs) need_restart s =
     (if signo s g
      then resend gs (need_restart \<or> g \<in> {SIGTSTP, SIGTTIN, SIGTTOU}) (sys_kill g s)
      else resend gs need_restart s)"

text \<open>From the label \<open>restart\<close> to the test of \<open>need_restart\<close>: no terminal, or \<open>nr\<close>,
  \<open>save_errno\<close> and \<open>need_restart\<close>.\<close>

datatype attempt = No_tty | Attempt int "errno option" bool

definition begin_attempt ::
    "platform \<Rightarrow> string \<Rightarrow> 32 word \<Rightarrow> int \<Rightarrow> pstate \<Rightarrow> (int \<times> int \<times> termios \<times> termios \<times> saved_signals) \<times> pstate" where
  "begin_attempt pl prompt flags fd s =
     (let (input, output) = endpoints fd;
          s = (if fd = -1 then s else sys_cloexec fd s);
          (new, oterm, s) = echo_off pl flags input s;
          (saved, s) = catch_signals s;
          s = (if \<not> flag_set flags RPP_STDIN then sys_write output prompt s else s)
      in ((input, output, new, oterm, saved), s))"

definition end_attempt ::
    "platform \<Rightarrow> int \<Rightarrow> int \<Rightarrow> termios \<Rightarrow> termios \<Rightarrow> saved_signals \<Rightarrow> int \<Rightarrow> pstate \<Rightarrow> (attempt \<times> pstate) option" where
  "end_attempt pl input output new oterm saved nr s = do {
     let save_errno = perrno s;
     let s = (if c_lflag new AND ECHO pl = 0 \<and> \<not> (nr = -1 \<and> perrno s = Some EINTR)
              then sys_write output [CHR 0x0A] s else s);
     s \<leftarrow> restore_tty input new oterm s;
     let s = restore_signals saved s;
     let s = (if input \<noteq> 0 then sys_close input s else s);
     let (need_restart, s) = resend (signals pl) False s;
     Some (Attempt nr save_errno need_restart, s)
   }"

definition read_attempt ::
    "platform \<Rightarrow> string \<Rightarrow> nat \<Rightarrow> 32 word \<Rightarrow> char list \<Rightarrow> pstate \<Rightarrow> (attempt \<times> char list \<times> pstate) option" where
  "read_attempt pl prompt bufsiz flags buf s =
     (let s = s\<lparr>signo := \<lambda>_. False\<rparr>;
          (fd, s) = (if flag_set flags RPP_STDIN then (-1, s) else sys_open_tty s)
      in if fd = -1 \<and> flag_set flags RPP_REQUIRE_TTY
         then Some (No_tty, buf, s\<lparr>perrno := Some ENOTTY\<rparr>)
         else case begin_attempt pl prompt flags fd s of ((input, output, new, oterm, saved), s) \<Rightarrow> do {
           (nr, p, buf, s) \<leftarrow> read_pass pl flags input bufsiz 0 buf s;
           buf \<leftarrow> aset buf (int p) NUL;
           (r, s) \<leftarrow> end_attempt pl input output new oterm saved nr s;
           Some (r, buf, s)
         })"

partial_function (option) read_attempts ::
    "platform \<Rightarrow> string \<Rightarrow> nat \<Rightarrow> 32 word \<Rightarrow> char list \<Rightarrow> pstate \<Rightarrow> (bool \<times> char list \<times> pstate) option" where
  "read_attempts pl prompt bufsiz flags buf s = do {
     (r, buf, s) \<leftarrow> read_attempt pl prompt bufsiz flags buf s;
     case r of
       No_tty \<Rightarrow> Some (False, buf, s)
     | Attempt nr save_errno need_restart \<Rightarrow>
         if need_restart then read_attempts pl prompt bufsiz flags buf s
         else Some (nr \<noteq> -1, buf, if save_errno \<noteq> None then s\<lparr>perrno := save_errno\<rparr> else s)
   }"

text \<open>The first component of the result tells \<open>buf\<close> from null; the second is the buffer.\<close>

definition readpassphrase ::
    "platform \<Rightarrow> string \<Rightarrow> char list \<Rightarrow> nat \<Rightarrow> 32 word \<Rightarrow> pstate \<Rightarrow> (bool \<times> char list \<times> pstate) option" where
  "readpassphrase pl prompt buf bufsiz flags s =
     (if bufsiz = 0 then Some (False, buf, s\<lparr>perrno := Some EINVAL\<rparr>)
      else read_attempts pl prompt bufsiz flags buf s)"

section \<open>The parts\<close>

text \<open>\<open>calm n s\<close>: at most \<open>n\<close> calls of the script are left, fewer if a signal has been caught.\<close>

definition calm :: "nat \<Rightarrow> pstate \<Rightarrow> bool" where
  "calm n s \<longleftrightarrow> length (arrivals s) \<le> n \<and> ((\<exists>g. signo s g) \<longrightarrow> length (arrivals s) < n)"

text \<open>What the calls in the middle leave alone.\<close>

definition same_process :: "pstate \<Rightarrow> pstate \<Rightarrow> bool" where
  "same_process s s' \<longleftrightarrow> fds s' = fds s \<and> disp s' = disp s \<and> opened s' = opened s \<and> open_result s' = open_result s"

lemma same_process_trans: "same_process s t \<Longrightarrow> same_process t u \<Longrightarrow> same_process s u"
  by (simp add: same_process_def)

lemma calm_simps [simp]:
  "calm n (s\<lparr>perrno := x0\<rparr>) = calm n s"
  "calm n (s\<lparr>reads := x1\<rparr>) = calm n s"
  "calm n (s\<lparr>settings := x2\<rparr>) = calm n s"
  "calm n (s\<lparr>tty_attr := x3\<rparr>) = calm n s"
  "calm n (s\<lparr>seen := x4\<rparr>) = calm n s"
  "calm n (s\<lparr>written := x5\<rparr>) = calm n s"
  "calm n (s\<lparr>disp := x6\<rparr>) = calm n s"
  "calm n (s\<lparr>fds := x7\<rparr>) = calm n s"
  "calm n (s\<lparr>opened := x8\<rparr>) = calm n s"
  "calm n (s\<lparr>cloexec := x10\<rparr>) = calm n s"
  "calm n (s\<lparr>write_errors := x11\<rparr>) = calm n s"
  "calm n (s\<lparr>resent := x9\<rparr>) = calm n s"
  by (simp_all add: calm_def)

lemma take_signals_same:
  "same_process s (take_signals s)" "tty_attr (take_signals s) = tty_attr s" "settings (take_signals s) = settings s"
  "reads (take_signals s) = reads s" "seen (take_signals s) = seen s" "calm n s \<Longrightarrow> calm n (take_signals s)"
  "length (arrivals (take_signals s)) \<le> length (arrivals s)"
  by (auto simp: take_signals_def caught_def same_process_def calm_def split: list.splits)

lemma sys_write_same:
  "same_process s (sys_write fd str s)" "tty_attr (sys_write fd str s) = tty_attr s"
  "settings (sys_write fd str s) = settings s" "reads (sys_write fd str s) = reads s"
  "seen (sys_write fd str s) = seen s" "calm n s \<Longrightarrow> calm n (sys_write fd str s)"
  using take_signals_same [where s = s]
  by (auto simp: sys_write_def Let_def same_process_def split: list.splits option.splits)

lemma sys_read_same:
  assumes "sys_read fd s = (ev, s')"
  shows "same_process s s'" "tty_attr s' = tty_attr s" "settings s' = settings s" "calm n s \<Longrightarrow> calm n s'"
    "seen s' = seen s @ [tty_attr s fd]" "ev \<noteq> Eof \<Longrightarrow> length (reads s') < length (reads s)"
    "reads s = e # es \<Longrightarrow> ev = e \<and> reads s' = es"
  using assms take_signals_same [where s = "s\<lparr>seen := seen s @ [tty_attr s fd]\<rparr>"]
  by (auto simp: sys_read_def Let_def same_process_def split: list.splits read_event.splits)

lemma sys_tcsetattr_same:
  assumes "sys_tcsetattr fd t s = (ok, s')"
  shows "same_process s s'" "seen s' = seen s" "reads s' = reads s" "calm n s \<Longrightarrow> calm n s'"
    "tty_attr s' = (if ok then (tty_attr s)(fd \<mapsto> t) else tty_attr s)"
    "set (settings s') \<subseteq> set (settings s)" "set (settings s) \<subseteq> {None} \<Longrightarrow> ok"
    "\<not> ok \<Longrightarrow> length (settings s') < length (settings s)" "length (arrivals s') \<le> length (arrivals s)"
  using assms take_signals_same [where s = s]
  by (auto simp: sys_tcsetattr_def Let_def same_process_def split: list.splits option.splits)

lemma aset_nat: "p < length xs \<Longrightarrow> aset xs (int p) v = Some (xs[p := v])"
  by (simp add: aset_def)

text \<open>The loop ends, because the script does, and stays in the buffer.\<close>

lemma read_pass_ok:
  assumes "p \<le> bufsiz - 1" "0 < bufsiz" "bufsiz \<le> length buf"
  shows "\<exists>nr p' buf' s'. read_pass pl flags input bufsiz p buf s = Some (nr, p', buf', s')
    \<and> p' \<le> bufsiz - 1 \<and> length buf' = length buf \<and> drop bufsiz buf' = drop bufsiz buf
    \<and> same_process s s' \<and> tty_attr s' = tty_attr s \<and> settings s' = settings s \<and> (\<forall>n. calm n s \<longrightarrow> calm n s')
    \<and> set (seen s') \<subseteq> set (seen s) \<union> {tty_attr s input}"
  using assms
proof (induction "length (reads s)" arbitrary: p buf s rule: less_induct)
  case less
  obtain ev s1 where r: "sys_read input s = (ev, s1)" by fastforce
  note same = sys_read_same [OF r]
  show ?case
  proof (cases "\<exists>ch. ev = Got ch \<and> ch \<noteq> CHR 0x0A \<and> ch \<noteq> CHR 0x0D")
    case True
    then obtain ch where ch: "ev = Got ch" "ch \<noteq> CHR 0x0A" "ch \<noteq> CHR 0x0D" by blast
    have dec: "length (reads s1) < length (reads s)" using same(6) ch by simp
    let ?next = "\<lambda>p buf. \<exists>nr p' buf' s'. read_pass pl flags input bufsiz p buf s1 = Some (nr, p', buf', s')
      \<and> p' \<le> bufsiz - 1 \<and> length buf' = length buf \<and> drop bufsiz buf' = drop bufsiz buf
      \<and> same_process s s' \<and> tty_attr s' = tty_attr s \<and> settings s' = settings s \<and> (\<forall>n. calm n s \<longrightarrow> calm n s')
      \<and> set (seen s') \<subseteq> set (seen s) \<union> {tty_attr s input}"
    have step: "?next p buf" if "p \<le> bufsiz - 1" "bufsiz \<le> length buf" for p buf
      using less.hyps [OF dec that(1) less.prems(2) that(2)] same same_process_trans [OF same(1)] by fastforce
    show ?thesis
    proof (cases "p < bufsiz - 1")
      case True
      let ?buf = "buf[p := pass_char pl flags ch]"
      have "read_pass pl flags input bufsiz p buf s = read_pass pl flags input bufsiz (p + 1) ?buf s1"
        using r ch True less.prems by (subst read_pass.simps) (simp add: aset_nat)
      moreover have "?next (p + 1) ?buf" using True less.prems by (intro step) auto
      ultimately show ?thesis using True by (simp add: drop_update_cancel)
    next
      case False
      have "read_pass pl flags input bufsiz p buf s = read_pass pl flags input bufsiz p buf s1"
        using r ch False by (subst read_pass.simps) simp
      then show ?thesis using step [OF less.prems(1,3)] by simp
    qed
  next
    case False
    then have "\<exists>nr. read_pass pl flags input bufsiz p buf s = Some (nr, p, buf, s1)"
      using r by (subst read_pass.simps) (auto split: read_event.split)
    then show ?thesis using less.prems same by auto
  qed
qed

text \<open>A line that is there to read.\<close>

lemma read_pass_line:
  assumes "p \<le> bufsiz - 1" "0 < bufsiz" "bufsiz \<le> length buf"
    "reads s = map Got line @ Got nl # rest" "nl \<in> {CHR 0x0A, CHR 0x0D}" "set line \<inter> {CHR 0x0A, CHR 0x0D} = {}"
    "arrivals s = []"
  shows "\<exists>p' buf' s'. read_pass pl flags input bufsiz p buf s = Some (1, p', buf', s')
    \<and> p' = min (bufsiz - 1) (p + length line) \<and> length buf' = length buf
    \<and> take p' buf' = take p buf @ map (pass_char pl flags) (take (bufsiz - 1 - p) line)"
  using assms
proof (induction line arbitrary: p buf s)
  case Nil
  obtain ev s1 where r: "sys_read input s = (ev, s1)" by fastforce
  then have "ev = Got nl" using sys_read_same(7) [OF r] Nil by simp
  then show ?case using r Nil by (subst read_pass.simps) auto
next
  case (Cons ch line)
  obtain ev s1 where r: "sys_read input s = (ev, s1)" by fastforce
  have s1: "ev = Got ch" "reads s1 = map Got line @ Got nl # rest" using sys_read_same(7) [OF r] Cons.prems(4) by simp_all
  have "take_signals (s\<lparr>seen := x\<rparr>) = s\<lparr>seen := x\<rparr>" for x using Cons.prems(7) by (simp add: take_signals_def)
  then have arr: "arrivals s1 = []"
    using r Cons.prems(4,7) by (auto simp: sys_read_def)
  have ch: "ch \<noteq> CHR 0x0A" "ch \<noteq> CHR 0x0D" "set line \<inter> {CHR 0x0A, CHR 0x0D} = {}" using Cons.prems(6) by auto
  show ?case
  proof (cases "p < bufsiz - 1")
    case True
    let ?buf = "buf[p := pass_char pl flags ch]"
    have eq: "read_pass pl flags input bufsiz p buf s = read_pass pl flags input bufsiz (p + 1) ?buf s1"
      using r s1 ch True Cons.prems by (subst read_pass.simps) (simp add: aset_nat)
    have "p + 1 \<le> bufsiz - 1" "bufsiz \<le> length ?buf" using True Cons.prems by auto
    from Cons.IH [OF this(1) Cons.prems(2) this(2) s1(2) Cons.prems(5) ch(3) arr]
    obtain p' buf' s' where "read_pass pl flags input bufsiz (p + 1) ?buf s1 = Some (1, p', buf', s')"
      "p' = min (bufsiz - 1) (p + 1 + length line)" "length buf' = length ?buf"
      "take p' buf' = take (p + 1) ?buf @ map (pass_char pl flags) (take (bufsiz - 1 - (p + 1)) line)"
      by blast
    moreover have "take (p + 1) ?buf = take p buf @ [pass_char pl flags ch]"
      using True Cons.prems(3) by (simp add: take_Suc_conv_app_nth)
    moreover have "take (bufsiz - 1 - p) (ch # line) = ch # take (bufsiz - 1 - (p + 1)) line"
      using True by (simp add: take_Cons')
    ultimately show ?thesis unfolding eq by auto
  next
    case False
    then have p: "p = bufsiz - 1" using Cons.prems(1) by simp
    have "read_pass pl flags input bufsiz p buf s = read_pass pl flags input bufsiz p buf s1"
      using r s1 ch False by (subst read_pass.simps) simp
    then show ?thesis using Cons.IH [OF Cons.prems(1-3) s1(2) Cons.prems(5) ch(3) arr] p by simp
  qed
qed

lemma restore_term_ok:
  "\<exists>s'. restore_term input oterm s = Some s' \<and> same_process s s' \<and> seen s' = seen s \<and> (\<forall>n. calm n s \<longrightarrow> calm n s')
    \<and> length (arrivals s') \<le> length (arrivals s) \<and> set (settings s') \<subseteq> set (settings s)
    \<and> (set (settings s) \<subseteq> {None} \<longrightarrow> tty_attr s' = (tty_attr s)(input \<mapsto> oterm))"
proof (induction "length (settings s)" arbitrary: s rule: less_induct)
  case less
  obtain ok s1 where r: "sys_tcsetattr input oterm s = (ok, s1)" by fastforce
  note same = sys_tcsetattr_same [OF r]
  show ?case
  proof (cases "\<not> ok \<and> perrno s1 = Some EINTR \<and> \<not> signo s1 SIGTTOU")
    case True
    obtain s' where s': "restore_term input oterm s1 = Some s'" "same_process s1 s'" "seen s' = seen s1"
        "\<forall>n. calm n s1 \<longrightarrow> calm n s'" "length (arrivals s') \<le> length (arrivals s1)" "set (settings s') \<subseteq> set (settings s1)"
      using less.hyps [OF same(8)] True by blast
    have "restore_term input oterm s = Some s'" using r True s'(1) by (subst restore_term.simps) simp
    moreover have "\<not> set (settings s) \<subseteq> {None}" using same(7) True by blast
    ultimately show ?thesis using s' same(1-4,6,9) same_process_trans [OF same(1) s'(2)] by auto
  next
    case False
    then have "restore_term input oterm s = Some s1" using r by (subst restore_term.simps) auto
    then show ?thesis using same by auto
  qed
qed

lemma restore_tty_ok:
  "\<exists>s'. restore_tty input new oterm s = Some s' \<and> same_process s s' \<and> seen s' = seen s \<and> (\<forall>n. calm n s \<longrightarrow> calm n s')
    \<and> set (settings s') \<subseteq> set (settings s)
    \<and> (set (settings s) \<subseteq> {None} \<longrightarrow>
         tty_attr s' = (if new \<noteq> oterm then (tty_attr s)(input \<mapsto> oterm) else tty_attr s))"
proof (cases "new \<noteq> oterm")
  case True
  obtain s' where s': "restore_term input oterm s = Some s'" "same_process s s'" "seen s' = seen s"
      "\<forall>n. calm n s \<longrightarrow> calm n s'" "length (arrivals s') \<le> length (arrivals s)"
      "set (settings s') \<subseteq> set (settings s)"
      "set (settings s) \<subseteq> {None} \<longrightarrow> tty_attr s' = (tty_attr s)(input \<mapsto> oterm)"
    using restore_term_ok by blast
  let ?s = "s'\<lparr>signo := (signo s')(SIGTTOU := signo s SIGTTOU)\<rparr>"
  have "calm n ?s" if "calm n s" for n
    using s'(4,5) that by (fastforce simp: calm_def)
  moreover have "restore_tty input new oterm s = Some ?s" using True s'(1) by (simp add: restore_tty_def)
  ultimately show ?thesis using s' True by (intro exI [of _ ?s]) (auto simp: same_process_def)
qed (auto simp: restore_tty_def same_process_def)

lemma ECHO_cleared: "(x AND NOT (e OR f)) AND e = 0" for x e f :: "32 word"
  by (auto simp: bit_eq_iff bit_simps)

lemma echo_off_cases:
  assumes "echo_off pl flags input s = (new, oterm, s')"
  obtains (no_tty) "new = oterm" "s' = s" "input = 0 \<or> tty_attr s input = None" "c_lflag new = ECHO pl"
    | (tty) ok where "input \<noteq> 0" "tty_attr s input = Some oterm" "sys_tcsetattr input new s = (ok, s')"
        "\<not> flag_set flags RPP_ECHO_ON \<longrightarrow> c_lflag new AND ECHO pl = 0"
proof (cases "if input \<noteq> 0 then tty_attr s input else None")
  case None
  then show thesis using no_tty assms by (auto simp: echo_off_def no_term_def split: if_splits)
next
  case (Some old)
  let ?new = "if \<not> flag_set flags RPP_ECHO_ON then old\<lparr>c_lflag := c_lflag old AND NOT (ECHO pl OR ECHONL pl)\<rparr> else old"
  let ?new' = "if has_VSTATUS pl \<and> vstatus ?new \<noteq> VDISABLE pl then ?new\<lparr>vstatus := VDISABLE pl\<rparr> else ?new"
  have "echo_off pl flags input s = (?new', old, snd (sys_tcsetattr input ?new' s))"
    unfolding echo_off_def Let_def Some by (simp only: option.case)
  then have eq: "new = ?new'" "oterm = old" "s' = snd (sys_tcsetattr input ?new' s)"
    unfolding assms by (simp_all only: prod.inject)
  have "c_lflag ?new' = c_lflag ?new" by simp
  then have "\<not> flag_set flags RPP_ECHO_ON \<longrightarrow> c_lflag new AND ECHO pl = 0"
    unfolding eq(1) using ECHO_cleared by auto
  moreover have "s' = snd (sys_tcsetattr input new s)" unfolding eq(1) by (rule eq(3))
  ultimately show thesis
    using Some eq(2) by (intro tty [of "fst (sys_tcsetattr input new s)"]) (simp_all split: if_splits)
qed

lemma echo_off_ok:
  assumes "echo_off pl flags input s = (new, oterm, s')"
  shows "same_process s s'" "seen s' = seen s" "reads s' = reads s" "calm n s \<Longrightarrow> calm n s'"
    "set (settings s') \<subseteq> set (settings s)"
    "new \<noteq> oterm \<Longrightarrow> tty_attr s input = Some oterm"
    "set (settings s) \<subseteq> {None} \<Longrightarrow> new \<noteq> oterm \<Longrightarrow> tty_attr s' = (tty_attr s)(input \<mapsto> new)"
    "set (settings s) \<subseteq> {None} \<Longrightarrow> new = oterm \<Longrightarrow> tty_attr s' = tty_attr s"
    "set (settings s) \<subseteq> {None} \<Longrightarrow> input \<noteq> 0 \<Longrightarrow> \<not> flag_set flags RPP_ECHO_ON \<Longrightarrow> tty_attr s' input = Some t
      \<Longrightarrow> c_lflag t AND ECHO pl = 0"
proof -
  show "same_process s s'" "seen s' = seen s" "reads s' = reads s" "calm n s \<Longrightarrow> calm n s'"
    "set (settings s') \<subseteq> set (settings s)" "new \<noteq> oterm \<Longrightarrow> tty_attr s input = Some oterm"
    using sys_tcsetattr_same(1-4,6)
    by (cases rule: echo_off_cases [OF assms]; simp add: same_process_def)+
  have set: "tty_attr s' = (tty_attr s)(input \<mapsto> new)"
    if "sys_tcsetattr input new s = (ok, s')" "set (settings s) \<subseteq> {None}" for ok
    using sys_tcsetattr_same(5,7) [OF that(1)] that(2) by simp
  show "set (settings s) \<subseteq> {None} \<Longrightarrow> new \<noteq> oterm \<Longrightarrow> tty_attr s' = (tty_attr s)(input \<mapsto> new)"
    by (rule echo_off_cases [OF assms]) (simp_all add: set)
  show "set (settings s) \<subseteq> {None} \<Longrightarrow> new = oterm \<Longrightarrow> tty_attr s' = tty_attr s"
    by (rule echo_off_cases [OF assms]) (auto simp: set fun_upd_idem)
  show "set (settings s) \<subseteq> {None} \<Longrightarrow> input \<noteq> 0 \<Longrightarrow> \<not> flag_set flags RPP_ECHO_ON \<Longrightarrow> tty_attr s' input = Some t
      \<Longrightarrow> c_lflag t AND ECHO pl = 0"
    by (rule echo_off_cases [OF assms]) (auto simp: set)
qed

text \<open>What \<open>sigaction_except_ign\<close> leaves as the disposition.\<close>

definition except_ign :: "sigact \<Rightarrow> sigact \<Rightarrow> sigact" where
  "except_ign old act = (if sa_handler old = SIG_IGN \<and> sa_handler act \<noteq> SIG_IGN then old else act)"

lemma sigaction_except_ign_eq:
  "sigaction_except_ign g act s = (disp s g, s\<lparr>disp := (disp s)(g := except_ign (disp s g) act)\<rparr>)"
  by (simp add: sigaction_except_ign_def sys_sigaction_def except_ign_def)

lemma except_ign_back: "sa_handler act \<noteq> SIG_IGN \<Longrightarrow> except_ign (except_ign old act) old = old"
  by (simp add: except_ign_def)

text \<open>The dispositions that are put back are the old ones, ignored signals included.\<close>

lemma signals_restored:
  assumes "catch_signals s = (saved, s1)" "disp s2 = disp s1"
  shows "disp (restore_signals saved s2) = disp s"
proof
  fix g
  let ?sa = "\<lparr>sa_handler = Handler, sa_rest = 0\<rparr>"
  have "s1 = s\<lparr>disp := disp s1\<rparr>" and saved: "saved = \<lparr>saveint = disp s SIGINT, savequit = disp s SIGQUIT,
      savealrm = disp s SIGALRM, savehup = disp s SIGHUP, savepipe = disp s SIGPIPE, saveterm = disp s SIGTERM,
      savetstp = disp s SIGTSTP, savettin = disp s SIGTTIN, savettou = disp s SIGTTOU\<rparr>"
    and now: "disp s1 g = (case g of SIGINT \<Rightarrow> ?sa | SIGQUIT \<Rightarrow> ?sa | SIG_other n \<Rightarrow> disp s g
      | _ \<Rightarrow> except_ign (disp s g) ?sa)"
    using assms(1)
    by (auto simp: catch_signals_def Let_def sys_sigaction_def sigaction_except_ign_eq split: signal.split)
  show "disp (restore_signals saved s2) g = disp s g"
    using now assms(2)
    by (cases g) (simp_all add: saved restore_signals_def Let_def sys_sigaction_def sigaction_except_ign_eq except_ign_back)
qed

lemma catch_signals_only: "catch_signals s = (saved, s1) \<Longrightarrow> \<exists>d. s1 = s\<lparr>disp := d\<rparr>"
  by (auto simp: catch_signals_def Let_def sys_sigaction_def sigaction_except_ign_eq)

lemma restore_signals_only: "\<exists>d. restore_signals k s = s\<lparr>disp := d\<rparr>"
  by (auto simp: restore_signals_def Let_def sys_sigaction_def sigaction_except_ign_eq)

lemma resend_only:
  "resend gs b s = (r, s') \<Longrightarrow> (\<exists>k. s' = s\<lparr>resent := k\<rparr>) \<and> (r \<longrightarrow> b \<or> (\<exists>g. signo s g))"
proof (induction gs b s rule: resend.induct)
  case (1 need_restart s)
  then show ?case by (auto intro!: exI [of _ "resent s"])
next
  case (2 g gs need_restart s)
  then show ?case by (auto simp: sys_kill_def split: if_splits)
qed

text \<open>The facts about one attempt that hold again for the next.\<close>

definition attempt_ok :: "platform \<Rightarrow> nat \<Rightarrow> 32 word \<Rightarrow> char list \<Rightarrow> pstate \<Rightarrow> char list \<Rightarrow> pstate \<Rightarrow> bool" where
  "attempt_ok pl bufsiz flags buf s buf' s' \<longleftrightarrow>
     length buf' = length buf \<and> drop bufsiz buf' = drop bufsiz buf
     \<and> disp s' = disp s \<and> fds s' = fds s \<and> open_result s' = open_result s
     \<and> set (settings s') \<subseteq> set (settings s)
     \<and> (set (settings s) \<subseteq> {None} \<longrightarrow> tty_attr s' = tty_attr s)
     \<and> (set (settings s) \<subseteq> {None} \<and> \<not> flag_set flags RPP_STDIN \<and> \<not> flag_set flags RPP_ECHO_ON
          \<and> (\<forall>n. 0 < open_result s n)
        \<longrightarrow> (\<forall>t. Some t \<in> set (seen s') \<longrightarrow> Some t \<in> set (seen s) \<or> c_lflag t AND ECHO pl = 0))"

text \<open>The terminal is opened, or \<open>fd\<close> is -1.\<close>

lemma open_terminal:
  assumes "(if flag_set flags RPP_STDIN then (-1, s\<lparr>signo := \<lambda>_. False\<rparr>) else sys_open_tty (s\<lparr>signo := \<lambda>_. False\<rparr>))
      = (fd, s2)"
    "\<forall>n. open_result s n = -1 \<or> 0 < open_result s n"
  shows "fd = -1 \<or> 0 < fd" "fds s2 = (if fd = -1 then fds s else fd # fds s)" "disp s2 = disp s"
    "open_result s2 = open_result s" "settings s2 = settings s" "tty_attr s2 = tty_attr s" "seen s2 = seen s"
    "\<not> flag_set flags RPP_STDIN \<Longrightarrow> \<forall>n. 0 < open_result s n \<Longrightarrow> fd \<noteq> -1"
    "calm (length (arrivals s)) s2" "reads s2 = reads s"
proof -
  have fd: "fd = -1 \<or> \<not> flag_set flags RPP_STDIN \<and> fd = open_result s (opened s)"
    using assms(1) by (auto simp: sys_open_tty_def Let_def split: if_splits)
  show "fd = -1 \<or> 0 < fd" using fd assms(2) by auto
  show "\<not> flag_set flags RPP_STDIN \<Longrightarrow> \<forall>n. 0 < open_result s n \<Longrightarrow> fd \<noteq> -1"
  proof
    assume "\<not> flag_set flags RPP_STDIN" "\<forall>n. 0 < open_result s n" "fd = -1"
    then have "open_result s (opened s) = -1" using fd assms(1) by (auto simp: sys_open_tty_def Let_def)
    then show False using \<open>\<forall>n. 0 < open_result s n\<close> by (metis less_minus_one_simps(1) less_asym)
  qed
  show "fds s2 = (if fd = -1 then fds s else fd # fds s)" "disp s2 = disp s"
    "open_result s2 = open_result s" "settings s2 = settings s" "tty_attr s2 = tty_attr s" "seen s2 = seen s"
    "calm (length (arrivals s)) s2" "reads s2 = reads s"
    using assms(1) by (auto simp: sys_open_tty_def Let_def calm_def split: if_splits)
qed

lemma begin_attempt_ok:
  assumes "begin_attempt pl prompt flags fd s = ((input, outfd, new, oterm, saved), s')"
  shows "input = (if fd = -1 then 0 else fd)" "fds s' = fds s" "open_result s' = open_result s"
    "set (settings s') \<subseteq> set (settings s)" "seen s' = seen s" "reads s' = reads s" "calm n s \<Longrightarrow> calm n s'"
    "disp t = disp s' \<Longrightarrow> disp (restore_signals saved t) = disp s"
    "set (settings s) \<subseteq> {None} \<Longrightarrow>
       (if new \<noteq> oterm then (tty_attr s')(input \<mapsto> oterm) else tty_attr s') = tty_attr s"
    "set (settings s) \<subseteq> {None} \<Longrightarrow> input \<noteq> 0 \<Longrightarrow> \<not> flag_set flags RPP_ECHO_ON \<Longrightarrow> tty_attr s' input = Some x
      \<Longrightarrow> c_lflag x AND ECHO pl = 0"
proof -
  have io: "endpoints fd = (input, outfd)"
    using assms by (auto simp: begin_attempt_def Let_def split: prod.splits)
  define s0 where "s0 = (if fd = -1 then s else sys_cloexec fd s)"
  have same: "fds s0 = fds s" "disp s0 = disp s" "open_result s0 = open_result s" "settings s0 = settings s"
    "tty_attr s0 = tty_attr s" "seen s0 = seen s" "reads s0 = reads s" "calm n s0 = calm n s" for n
    by (simp_all add: s0_def sys_cloexec_def)
  obtain s3 where s3: "echo_off pl flags input s0 = (new, oterm, s3)"
    using assms io by (auto simp: begin_attempt_def s0_def Let_def split: prod.splits)
  note e = echo_off_ok [OF s3, unfolded same]
  obtain s4 where s4: "catch_signals s3 = (saved, s4)"
    using assms io s3 by (auto simp: begin_attempt_def Let_def simp flip: s0_def split: prod.splits)
  obtain d4 where d4: "s4 = s3\<lparr>disp := d4\<rparr>" using s4 catch_signals_only by blast
  have s': "s' = (if \<not> flag_set flags RPP_STDIN then sys_write outfd prompt s4 else s4)"
    using assms io s3 s4 by (simp add: begin_attempt_def Let_def flip: s0_def)
  have w: "same_process s4 s'" "tty_attr s' = tty_attr s4" "settings s' = settings s4" "seen s' = seen s4"
    "reads s' = reads s4" "calm n s4 \<Longrightarrow> calm n s'" for n
    using sys_write_same by (auto simp: s' same_process_def)
  show "input = (if fd = -1 then 0 else fd)" using io by (auto simp: endpoints_def split: if_splits)
  show "fds s' = fds s" "open_result s' = open_result s" "set (settings s') \<subseteq> set (settings s)" "seen s' = seen s"
    "reads s' = reads s" "calm n s \<Longrightarrow> calm n s'"
    using w e(1-5) d4 same by (auto simp: same_process_def)
  show "disp (restore_signals saved t) = disp s" if "disp t = disp s'"
    using signals_restored [OF s4, of t] that w(1) e(1) same by (simp add: same_process_def)
  show "set (settings s) \<subseteq> {None} \<Longrightarrow>
       (if new \<noteq> oterm then (tty_attr s')(input \<mapsto> oterm) else tty_attr s') = tty_attr s"
    using e(6-8) w(2) d4 by (cases "new = oterm") (simp_all add: fun_upd_idem)
  show "set (settings s) \<subseteq> {None} \<Longrightarrow> input \<noteq> 0 \<Longrightarrow> \<not> flag_set flags RPP_ECHO_ON \<Longrightarrow> tty_attr s' input = Some x
      \<Longrightarrow> c_lflag x AND ECHO pl = 0"
    using e(9) w(2) d4 by simp
qed

lemma end_attempt_ok:
  "\<exists>again s'. end_attempt pl input outfd new oterm saved nr s = Some (Attempt nr (perrno s) again, s')
    \<and> fds s' = (if input \<noteq> 0 then remove1 input (fds s) else fds s) \<and> open_result s' = open_result s
    \<and> set (settings s') \<subseteq> set (settings s) \<and> seen s' = seen s
    \<and> (\<exists>t. disp t = disp s \<and> disp s' = disp (restore_signals saved t))
    \<and> (set (settings s) \<subseteq> {None} \<longrightarrow>
         tty_attr s' = (if new \<noteq> oterm then (tty_attr s)(input \<mapsto> oterm) else tty_attr s))
    \<and> (\<forall>n. calm n s \<and> again \<longrightarrow> length (arrivals s') < n)"
proof -
  define s7 where "s7 = (if c_lflag new AND ECHO pl = 0 \<and> \<not> (nr = -1 \<and> perrno s = Some EINTR)
    then sys_write outfd [CHR 0x0A] s else s)"
  have w: "same_process s s7" "tty_attr s7 = tty_attr s" "settings s7 = settings s" "seen s7 = seen s"
    "calm n s \<Longrightarrow> calm n s7" for n
    using sys_write_same by (auto simp: s7_def same_process_def)
  obtain s8 where s8: "restore_tty input new oterm s7 = Some s8" "same_process s7 s8" "seen s8 = seen s7"
    "\<forall>n. calm n s7 \<longrightarrow> calm n s8" "set (settings s8) \<subseteq> set (settings s7)"
    "set (settings s7) \<subseteq> {None} \<longrightarrow>
         tty_attr s8 = (if new \<noteq> oterm then (tty_attr s7)(input \<mapsto> oterm) else tty_attr s7)"
    using restore_tty_ok by blast
  obtain d9 where d9: "restore_signals saved s8 = s8\<lparr>disp := d9\<rparr>" using restore_signals_only by blast
  let ?s9 = "restore_signals saved s8"
  let ?s10 = "if input \<noteq> 0 then sys_close input ?s9 else ?s9"
  obtain again s11 where s11: "resend (signals pl) False ?s10 = (again, s11)" by fastforce
  obtain k where k: "s11 = ?s10\<lparr>resent := k\<rparr>" "again \<longrightarrow> (\<exists>g. signo ?s10 g)" using resend_only [OF s11] by blast
  have "end_attempt pl input outfd new oterm saved nr s = Some (Attempt nr (perrno s) again, s11)"
    using s8(1) s11
    unfolding end_attempt_def Let_def s7_def [symmetric] by (simp split del: if_split)
  moreover have "fds s11 = (if input \<noteq> 0 then remove1 input (fds s) else fds s)" "open_result s11 = open_result s"
    "set (settings s11) \<subseteq> set (settings s)" "seen s11 = seen s" "disp s8 = disp s"
    using k(1) d9 s8 w by (auto simp: sys_close_def same_process_def)
  moreover have "disp s11 = disp (restore_signals saved s8)" using k(1) d9 by (simp add: sys_close_def)
  moreover have "set (settings s) \<subseteq> {None} \<longrightarrow>
         tty_attr s11 = (if new \<noteq> oterm then (tty_attr s)(input \<mapsto> oterm) else tty_attr s)"
    using k(1) d9 s8(6) w(2,3) by (simp add: sys_close_def)
  moreover have "length (arrivals s11) < n" if "calm n s" again for n
  proof -
    have "calm n ?s10" using w(5) that(1) s8(4) d9 by (simp add: sys_close_def)
    then show ?thesis using k that(2) by (auto simp: calm_def split: if_splits)
  qed
  ultimately show ?thesis by blast
qed

lemma read_attempt_ok:
  assumes "0 < bufsiz" "bufsiz \<le> length buf" "\<forall>n. open_result s n = -1 \<or> 0 < open_result s n"
  shows "\<exists>r buf' s'. read_attempt pl prompt bufsiz flags buf s = Some (r, buf', s')
    \<and> attempt_ok pl bufsiz flags buf s buf' s'
    \<and> (\<forall>nr e. r = Attempt nr e True \<longrightarrow> length (arrivals s') < length (arrivals s))
    \<and> (r \<noteq> No_tty \<longrightarrow> NUL \<in> set (take bufsiz buf'))"
proof -
  let ?s1 = "s\<lparr>signo := \<lambda>_. False\<rparr>"
  obtain fd s2 where s2: "(if flag_set flags RPP_STDIN then (-1, ?s1) else sys_open_tty ?s1) = (fd, s2)" by fastforce
  note f = open_terminal [OF s2 assms(3)]
  show ?thesis
  proof (cases "fd = -1 \<and> flag_set flags RPP_REQUIRE_TTY")
    case True
    then have "read_attempt pl prompt bufsiz flags buf s = Some (No_tty, buf, s2\<lparr>perrno := Some ENOTTY\<rparr>)"
      using s2 by (simp add: read_attempt_def)
    then show ?thesis using True f by (auto simp: attempt_ok_def)
  next
    case False
    obtain input outfd new oterm saved s5 where b: "begin_attempt pl prompt flags fd s2 = ((input, outfd, new, oterm, saved), s5)"
      by (metis prod.collapse)
    note bo = begin_attempt_ok [OF b]
    obtain nr p buf' s6 where s6: "read_pass pl flags input bufsiz 0 buf s5 = Some (nr, p, buf', s6)"
        "p \<le> bufsiz - 1" "length buf' = length buf" "drop bufsiz buf' = drop bufsiz buf" "same_process s5 s6"
        "tty_attr s6 = tty_attr s5" "settings s6 = settings s5" "\<forall>n. calm n s5 \<longrightarrow> calm n s6"
        "set (seen s6) \<subseteq> set (seen s5) \<union> {tty_attr s5 input}"
      using read_pass_ok [of 0 bufsiz buf pl flags input s5] assms(1,2) by auto
    obtain again s11 where en: "end_attempt pl input outfd new oterm saved nr s6 = Some (Attempt nr (perrno s6) again, s11)"
        "fds s11 = (if input \<noteq> 0 then remove1 input (fds s6) else fds s6)" "open_result s11 = open_result s6"
        "set (settings s11) \<subseteq> set (settings s6)" "seen s11 = seen s6"
        "\<exists>t. disp t = disp s6 \<and> disp s11 = disp (restore_signals saved t)"
        "set (settings s6) \<subseteq> {None} \<longrightarrow>
           tty_attr s11 = (if new \<noteq> oterm then (tty_attr s6)(input \<mapsto> oterm) else tty_attr s6)"
        "\<forall>n. calm n s6 \<and> again \<longrightarrow> length (arrivals s11) < n"
      using end_attempt_ok by blast
    have p: "p < length buf'" "p < bufsiz" using s6(2,3) assms(1,2) by simp_all
    have go: "(fd = -1 \<and> flag_set flags RPP_REQUIRE_TTY) = False" using False by simp
    have run: "read_attempt pl prompt bufsiz flags buf s = Some (Attempt nr (perrno s6) again, buf'[p := NUL], s11)"
      using s2 b s6(1) en(1) p by (simp add: read_attempt_def aset_nat Let_def go split del: if_split)
    have "disp s11 = disp s" using en(6) bo(8) s6(5) f(3) by (auto simp: same_process_def)
    moreover have "fds s11 = fds s" "open_result s11 = open_result s" "set (settings s11) \<subseteq> set (settings s)"
      using en(2-4) s6(5,7) bo(1-4) f by (auto simp: same_process_def)
    moreover have "tty_attr s11 = tty_attr s" if "set (settings s) \<subseteq> {None}"
      using that en(7) s6(6,7) bo(4,9) f by auto
    moreover have "Some t \<in> set (seen s) \<or> c_lflag t AND ECHO pl = 0"
      if "set (settings s) \<subseteq> {None}" "\<not> flag_set flags RPP_STDIN" "\<not> flag_set flags RPP_ECHO_ON"
        "\<forall>n. 0 < open_result s n" "Some t \<in> set (seen s11)" for t
    proof -
      have "input \<noteq> 0" using f(1,8) that(2,4) bo(1) by auto
      moreover have "Some t \<in> set (seen s) \<or> tty_attr s5 input = Some t"
        using that(5) en(5) s6(9) bo(5) f(7) by auto
      ultimately show ?thesis using bo(10) [of t] that(1,3) f(5) by auto
    qed
    ultimately have "attempt_ok pl bufsiz flags buf s (buf'[p := NUL]) s11"
      using s6(3,4) p(2) by (auto simp: attempt_ok_def drop_update_cancel)
    moreover have "length (arrivals s11) < length (arrivals s)" if again
      using en(8) that s6(8) bo(7) f(9) by blast
    moreover have "NUL \<in> set (take bufsiz (buf'[p := NUL]))"
      using p by (simp add: take_update_swap set_update_memI)
    ultimately show ?thesis using run by auto
  qed
qed

text \<open>An attempt that no signal disturbs.\<close>

lemma read_attempt_line:
  assumes "0 < bufsiz" "bufsiz \<le> length buf" "\<forall>n. open_result s n = -1 \<or> 0 < open_result s n"
    "flag_set flags RPP_REQUIRE_TTY \<longrightarrow> \<not> flag_set flags RPP_STDIN \<and> (\<forall>n. 0 < open_result s n)"
    "reads s = map Got line @ Got nl # rest" "nl \<in> {CHR 0x0A, CHR 0x0D}" "set line \<inter> {CHR 0x0A, CHR 0x0D} = {}"
    "arrivals s = []"
  shows "\<exists>e buf' s'. read_attempt pl prompt bufsiz flags buf s = Some (Attempt 1 e False, buf', s')
    \<and> take (min (bufsiz - 1) (length line) + 1) buf' = map (pass_char pl flags) (take (bufsiz - 1) line) @ [NUL]"
proof -
  let ?s1 = "s\<lparr>signo := \<lambda>_. False\<rparr>"
  let ?k = "min (bufsiz - 1) (length line)"
  obtain fd s2 where s2: "(if flag_set flags RPP_STDIN then (-1, ?s1) else sys_open_tty ?s1) = (fd, s2)" by fastforce
  note f = open_terminal [OF s2 assms(3)]
  have go: "(fd = -1 \<and> flag_set flags RPP_REQUIRE_TTY) = False" using f(8) assms(4) by blast
  obtain input outfd new oterm saved s5 where b: "begin_attempt pl prompt flags fd s2 = ((input, outfd, new, oterm, saved), s5)"
    by (metis prod.collapse)
  note bo = begin_attempt_ok [OF b]
  have quiet: "calm 0 s5" using bo(7) f(9) assms(8) by simp
  then have "arrivals s5 = []" by (simp add: calm_def)
  then obtain p buf' s6 where s6: "read_pass pl flags input bufsiz 0 buf s5 = Some (1, p, buf', s6)"
      "p = ?k" "length buf' = length buf" "take p buf' = map (pass_char pl flags) (take (bufsiz - 1) line)"
    using read_pass_line [of 0 bufsiz buf s5 line nl rest pl flags input] assms bo(6) f(10) by auto
  have quiet6: "calm 0 s6"
    using read_pass_ok [of 0 bufsiz buf pl flags input s5] assms(1,2) s6(1) quiet by auto
  obtain again s11 where en: "end_attempt pl input outfd new oterm saved 1 s6 = Some (Attempt 1 (perrno s6) again, s11)"
      "\<forall>n. calm n s6 \<and> again \<longrightarrow> length (arrivals s11) < n"
    using end_attempt_ok by blast
  have "\<not> again" using en(2) quiet6 by auto
  moreover have p: "p < length buf'" using s6(2,3) assms(1,2) by simp
  moreover have "take (?k + 1) (buf'[p := NUL]) = map (pass_char pl flags) (take (bufsiz - 1) line) @ [NUL]"
    using p s6(2,4) by (simp add: take_Suc_conv_app_nth)
  ultimately show ?thesis
    using s2 b s6(1) en(1) by (simp add: read_attempt_def aset_nat Let_def go split del: if_split)
qed

lemma attempt_ok_trans:
  assumes "attempt_ok pl bufsiz flags b s b1 s1" "attempt_ok pl bufsiz flags b1 s1 b2 s2"
  shows "attempt_ok pl bufsiz flags b s b2 s2"
  using assms unfolding attempt_ok_def by auto

lemma attempt_ok_errno: "attempt_ok pl bufsiz flags b s b1 (s1\<lparr>perrno := e\<rparr>) = attempt_ok pl bufsiz flags b s b1 s1"
  by (simp add: attempt_ok_def)

text \<open>Every restart was caused by a signal of the script, so there are only finitely many.\<close>

lemma read_attempts_ok:
  assumes "0 < bufsiz" "bufsiz \<le> length buf" "\<forall>n. open_result s n = -1 \<or> 0 < open_result s n"
  shows "\<exists>ok buf' s'. read_attempts pl prompt bufsiz flags buf s = Some (ok, buf', s')
    \<and> attempt_ok pl bufsiz flags buf s buf' s' \<and> (ok \<longrightarrow> NUL \<in> set (take bufsiz buf'))"
  using assms
proof (induction "length (arrivals s)" arbitrary: buf s rule: less_induct)
  case less
  obtain r b1 s1 where a: "read_attempt pl prompt bufsiz flags buf s = Some (r, b1, s1)"
    "attempt_ok pl bufsiz flags buf s b1 s1"
    "\<forall>nr e. r = Attempt nr e True \<longrightarrow> length (arrivals s1) < length (arrivals s)"
    "r \<noteq> No_tty \<longrightarrow> NUL \<in> set (take bufsiz b1)"
    using read_attempt_ok [OF less.prems] by blast
  show ?case
  proof (cases "\<exists>nr e. r = Attempt nr e True")
    case True
    then obtain nr e where r: "r = Attempt nr e True" by blast
    have "bufsiz \<le> length b1" "\<forall>n. open_result s1 n = -1 \<or> 0 < open_result s1 n"
      using a(2) less.prems by (auto simp: attempt_ok_def)
    from less.hyps [OF _ less.prems(1) this] a(3) r obtain ok b2 s2 where
      "read_attempts pl prompt bufsiz flags b1 s1 = Some (ok, b2, s2)"
      "attempt_ok pl bufsiz flags b1 s1 b2 s2" "ok \<longrightarrow> NUL \<in> set (take bufsiz b2)"
      by blast
    then show ?thesis
      using a(1) r attempt_ok_trans [OF a(2)] by (subst read_attempts.simps) auto
  next
    case False
    then show ?thesis
    proof (cases r)
      case (Attempt nr e again)
      then show ?thesis
        using a False by (subst read_attempts.simps) (auto simp: attempt_ok_errno)
    qed (use a in \<open>subst read_attempts.simps; auto\<close>)
  qed
qed

section \<open>Properties\<close>

text \<open>C8. However signals arrive and whatever \<open>read\<close> and \<open>tcsetattr\<close> answer, \<open>readpassphrase\<close>
  returns, writes only to the \<open>bufsiz\<close> bytes of the buffer, and ends the string in them when it
  returns the buffer. It leaves the descriptors and the dispositions of all signals as they were;
  if no call of \<open>tcsetattr\<close> fails, the attributes of the terminals as well, and then the terminal
  was never read with echo on (unless the caller asked for it).\<close>

theorem readpassphrase_restores:
  assumes "0 < bufsiz" "bufsiz \<le> length buf" "\<forall>n. open_result s n = -1 \<or> 0 < open_result s n"
  shows "\<exists>ok buf' s'. readpassphrase pl prompt buf bufsiz flags s = Some (ok, buf', s')
    \<and> (ok \<longrightarrow> NUL \<in> set (take bufsiz buf')) \<and> length buf' = length buf \<and> drop bufsiz buf' = drop bufsiz buf
    \<and> fds s' = fds s \<and> disp s' = disp s
    \<and> (set (settings s) \<subseteq> {None} \<longrightarrow> tty_attr s' = tty_attr s)
    \<and> (set (settings s) \<subseteq> {None} \<and> \<not> flag_set flags RPP_STDIN \<and> \<not> flag_set flags RPP_ECHO_ON
         \<and> (\<forall>n. 0 < open_result s n)
       \<longrightarrow> (\<forall>t. Some t \<in> set (seen s') \<longrightarrow> Some t \<in> set (seen s) \<or> c_lflag t AND ECHO pl = 0))"
proof -
  obtain ok buf' s' where "read_attempts pl prompt bufsiz flags buf s = Some (ok, buf', s')"
    "attempt_ok pl bufsiz flags buf s buf' s'" "ok \<longrightarrow> NUL \<in> set (take bufsiz buf')"
    using read_attempts_ok [OF assms] by blast
  then show ?thesis using assms(1) unfolding attempt_ok_def by (auto simp: readpassphrase_def)
qed

text \<open>A terminal with echo on, and a user who types ctrl-Z after the first letter.\<close>

definition demo_platform :: platform where
  "demo_platform = \<lparr>ECHO = 8, ECHONL = 64, has_VSTATUS = False, VDISABLE = 0,
     isalpha = (\<lambda>c. c \<in> set ''abcdefABCDEF''), tolower = (\<lambda>c. c), toupper = (\<lambda>c. c),
     signals = [SIGHUP, SIGINT, SIGQUIT, SIGPIPE, SIGALRM, SIGTERM, SIGTSTP, SIGTTIN, SIGTTOU]\<rparr>"

definition demo_process :: pstate where
  "demo_process = \<lparr>disp = (\<lambda>_. \<lparr>sa_handler = SIG_DFL, sa_rest = 0\<rparr>), signo = (\<lambda>_. False), perrno = None,
     fds = [0, 1, 2], cloexec = [], tty_attr = (\<lambda>_. None)(5 \<mapsto> \<lparr>c_lflag = 0x3B, vstatus = 0, term_rest = 0\<rparr>), opened = 0,
     open_result = (\<lambda>_. 5), arrivals = [[], [], [], [SIGTSTP]],
     reads = [Got (CHR ''a''), Fail EINTR, Got (CHR ''p''), Got (CHR ''w''), Got (CHR 0x0A)],
     settings = [], write_errors = [], written = [], resent = [], seen = []\<rparr>"

theorem readpassphrase_restores_witness:
  "\<exists>ok buf' s'. readpassphrase demo_platform ''Password: '' (replicate 8 (CHR ''?'')) 8 0 demo_process = Some (ok, buf', s')
    \<and> (ok \<longrightarrow> NUL \<in> set (take 8 buf')) \<and> length buf' = length (replicate 8 (CHR ''?''))
    \<and> drop 8 buf' = drop 8 (replicate 8 (CHR ''?''))
    \<and> fds s' = fds demo_process \<and> disp s' = disp demo_process
    \<and> (set (settings demo_process) \<subseteq> {None} \<longrightarrow> tty_attr s' = tty_attr demo_process)
    \<and> (set (settings demo_process) \<subseteq> {None} \<and> \<not> flag_set 0 RPP_STDIN \<and> \<not> flag_set 0 RPP_ECHO_ON
         \<and> (\<forall>n. 0 < open_result demo_process n)
       \<longrightarrow> (\<forall>t. Some t \<in> set (seen s') \<longrightarrow> Some t \<in> set (seen demo_process) \<or> c_lflag t AND ECHO demo_platform = 0))"
  by (rule readpassphrase_restores) (simp_all add: demo_process_def)

text \<open>The conversions, stated apart from the code. In any locale: what becomes of a character, by the
  flags alone. In the C locale: the code of the result.\<close>

definition seven_bits :: "32 word \<Rightarrow> char \<Rightarrow> char" where
  "seven_bits flags ch = (if flag_set flags RPP_SEVENBIT then char_of ((of_char ch :: nat) mod 128) else ch)"

definition converted :: "platform \<Rightarrow> 32 word \<Rightarrow> char \<Rightarrow> char \<Rightarrow> bool" where
  "converted pl flags ch r \<longleftrightarrow>
     (let c = seven_bits flags ch; low = flag_set flags RPP_FORCELOWER; up = flag_set flags RPP_FORCEUPPER
      in if \<not> isalpha pl c \<or> \<not> low \<and> \<not> up then r = c
         else if \<not> up then r = tolower pl c
         else if \<not> low then r = toupper pl c
         else r = toupper pl (tolower pl c))"

definition c_locale :: "platform \<Rightarrow> bool" where
  "c_locale pl \<longleftrightarrow>
     isalpha pl = (\<lambda>c. let n = (of_char c :: nat) in 65 \<le> n \<and> n \<le> 90 \<or> 97 \<le> n \<and> n \<le> 122)
     \<and> tolower pl = (\<lambda>c. let n = (of_char c :: nat) in if 65 \<le> n \<and> n \<le> 90 then char_of (n + 32) else c)
     \<and> toupper pl = (\<lambda>c. let n = (of_char c :: nat) in if 97 \<le> n \<and> n \<le> 122 then char_of (n - 32) else c)"

definition c_locale_code :: "32 word \<Rightarrow> nat \<Rightarrow> nat" where
  "c_locale_code flags n =
     (let n = (if flag_set flags RPP_SEVENBIT then n mod 128 else n)
      in if flag_set flags RPP_FORCEUPPER then (if 97 \<le> n \<and> n \<le> 122 then n - 32 else n)
         else if flag_set flags RPP_FORCELOWER then (if 65 \<le> n \<and> n \<le> 90 then n + 32 else n)
         else n)"

lemma pass_char_converted: "converted pl flags ch (pass_char pl flags ch)"
  by (simp add: converted_def pass_char_def seven_bits_def Let_def)

lemma of_char_less: "of_char (c :: char) < (256 :: nat)"
  by (metis of_char_mod_256 mod_less_divisor zero_less_numeral)

lemma pass_char_c_locale:
  assumes "c_locale pl"
  shows "of_char (pass_char pl flags ch) = c_locale_code flags (of_char ch)"
  using of_char_less [of ch] assms by (auto simp: pass_char_def c_locale_def c_locale_code_def Let_def)

text \<open>C25. A line that is there to read while no signal arrives is returned in the buffer, up to its
  newline or carriage return and ended by a NUL; of a line that is too long, the first \<open>bufsiz - 1\<close>
  characters. \<open>RPP_SEVENBIT\<close> clears the eighth bit of every character, before letters are told from the rest;
  \<open>RPP_FORCELOWER\<close> and \<open>RPP_FORCEUPPER\<close> map the letters, the latter prevailing, and nothing else is
  changed: in any locale as \<open>converted\<close> says, and in the C locale to the codes of \<open>c_locale_code\<close>.\<close>

theorem readpassphrase_reads_line:
  assumes "0 < bufsiz" "bufsiz \<le> length buf" "\<forall>n. open_result s n = -1 \<or> 0 < open_result s n"
    "flag_set flags RPP_REQUIRE_TTY \<longrightarrow> \<not> flag_set flags RPP_STDIN \<and> (\<forall>n. 0 < open_result s n)"
    "reads s = map Got line @ Got nl # rest" "nl \<in> {CHR 0x0A, CHR 0x0D}" "set line \<inter> {CHR 0x0A, CHR 0x0D} = {}"
    "arrivals s = []" "k = min (bufsiz - 1) (length line)"
  shows "\<exists>buf' s'. readpassphrase pl prompt buf bufsiz flags s = Some (True, buf', s')
    \<and> list_all2 (converted pl flags) (take k line) (take k buf') \<and> buf' ! k = NUL
    \<and> (c_locale pl \<longrightarrow> map of_char (take k buf') = map (\<lambda>ch. c_locale_code flags (of_char ch)) (take k line))"
proof -
  obtain e buf' s' where r: "read_attempt pl prompt bufsiz flags buf s = Some (Attempt 1 e False, buf', s')"
    "take (k + 1) buf' = map (pass_char pl flags) (take (bufsiz - 1) line) @ [NUL]"
    using read_attempt_line [OF assms(1-8)] unfolding assms(9) by blast
  have tk: "take (bufsiz - 1) line = take k line" and len: "length (take k line) = k"
    by (simp_all add: assms(9) min_def)
  have take: "take k buf' = map (pass_char pl flags) (take k line)"
    using arg_cong [OF r(2), of "take k"] len unfolding tk by (simp add: min_def)
  have "buf' ! k = take (k + 1) buf' ! k" by simp
  then have nul: "buf' ! k = NUL" using len unfolding r(2) tk by (simp add: nth_append)
  have "list_all2 (converted pl flags) (take k line) (take k buf')"
    unfolding take by (simp add: list_all2_conv_all_nth pass_char_converted)
  moreover have "map of_char (take k buf') = map (\<lambda>ch. c_locale_code flags (of_char ch)) (take k line)" if "c_locale pl"
    unfolding take by (simp add: pass_char_c_locale [OF that] o_def)
  moreover have "\<exists>s''. read_attempts pl prompt bufsiz flags buf s = Some (True, buf', s'')"
    using r(1) by (subst read_attempts.simps) auto
  ultimately show ?thesis using assms(1) nul by (auto simp: readpassphrase_def)
qed

text \<open>The C locale; \<open>RPP_FORCEUPPER\<close> with \<open>RPP_SEVENBIT\<close>, a buffer of five characters, and in the line the letter
  e with its eighth bit set.\<close>

definition c_platform :: platform where
  "c_platform = demo_platform\<lparr>
     isalpha := (\<lambda>c. let n = (of_char c :: nat) in 65 \<le> n \<and> n \<le> 90 \<or> 97 \<le> n \<and> n \<le> 122),
     tolower := (\<lambda>c. let n = (of_char c :: nat) in if 65 \<le> n \<and> n \<le> 90 then char_of (n + 32) else c),
     toupper := (\<lambda>c. let n = (of_char c :: nat) in if 97 \<le> n \<and> n \<le> 122 then char_of (n - 32) else c)\<rparr>"

theorem readpassphrase_reads_line_witness:
  "\<exists>buf' s'. readpassphrase c_platform ''Password: '' (replicate 5 (CHR ''?'')) 5 0x18
      (demo_process\<lparr>arrivals := [], reads := map Got [CHR ''s'', CHR 0xE5, CHR ''C'', CHR ''1'', CHR ''x''] @ [Got (CHR 0x0A)]\<rparr>)
      = Some (True, buf', s')
    \<and> map of_char (take 4 buf') = [83, 69, 67, 49 :: nat] \<and> buf' ! 4 = NUL"
proof -
  have c: "c_locale c_platform" by (simp add: c_locale_def c_platform_def)
  from readpassphrase_reads_line [where bufsiz = 5 and buf = "replicate 5 (CHR ''?'')" and flags = "0x18" and k = 4
      and s = "demo_process\<lparr>arrivals := [], reads := map Got [CHR ''s'', CHR 0xE5, CHR ''C'', CHR ''1'', CHR ''x''] @ [Got (CHR 0x0A)]\<rparr>"
      and line = "[CHR ''s'', CHR 0xE5, CHR ''C'', CHR ''1'', CHR ''x'']" and nl = "CHR 0x0A" and rest = "[]"
      and pl = c_platform and prompt = "''Password: ''"]
  obtain buf' s' where "readpassphrase c_platform ''Password: '' (replicate 5 (CHR ''?'')) 5 0x18
      (demo_process\<lparr>arrivals := [], reads := map Got [CHR ''s'', CHR 0xE5, CHR ''C'', CHR ''1'', CHR ''x''] @ [Got (CHR 0x0A)]\<rparr>)
      = Some (True, buf', s')" "buf' ! 4 = NUL"
    "map of_char (take 4 buf') = map (\<lambda>ch. c_locale_code 0x18 (of_char ch :: nat)) (take 4 [CHR ''s'', CHR 0xE5, CHR ''C'', CHR ''1'', CHR ''x''])"
    using c by (auto simp: demo_process_def flag_set_def RPP_REQUIRE_TTY_def)
  then show ?thesis
    by (simp add: c_locale_code_def flag_set_def RPP_SEVENBIT_def RPP_FORCEUPPER_def)
qed

end
