(* ===== verification/Ui_Win.thy ===== *)
theory Ui_Win
  imports Posix_Win
begin

text \<open>
  The console user interface of libcrypto for Windows (\<open>crypto/compat/ui_openssl_win.c\<close>):
  opening the console, prompting, and reading a string with echo turned off.

  \<open>ustate\<close> holds the static variables of the file, the console of the process, its standard
  input as a stream of bytes and what has been printed. \<open>set_results\<close> is the script of the
  outcomes of \<open>SetConsoleMode\<close> (success when it is over). \<open>UI_STRING\<close> is libcrypto's; the
  function \<open>UI_set_result\<close> of libcrypto is a parameter.
\<close>

section \<open>State\<close>

datatype ui_type = UIT_NONE | UIT_PROMPT | UIT_VERIFY | UIT_BOOLEAN | UIT_INFO | UIT_ERROR

record ui_string =
  ui_type :: ui_type
  out_string :: string
  action_string :: string
  input_flags :: "32 word"
  test_string :: string
  result_string :: string

text \<open>A stream: its bytes, whether they end with an error rather than the end of the file, and the
  two indicators.\<close>

record stream =
  bytes :: "char list"
  broken :: bool
  eof_flag :: bool
  err_flag :: bool

text \<open>The values of \<open>tty_in\<close> and \<open>tty_out\<close>: null until a console is opened.\<close>

datatype tty_file = No_file | Stdin | Stderr

record ustate =
  console_mode :: "32 word"
  tty_in :: tty_file
  tty_out :: tty_file
  is_a_tty :: bool
  ui_locks :: nat
  std_handle :: bool
  is_char :: bool
  console :: "32 word"
  get_mode_ok :: bool
  set_results :: "bool list"
  stdin_stream :: stream
  printed :: string
  seen_modes :: "32 word list"

definition BUFSIZ :: nat where [simp]: "BUFSIZ = 512"

definition UI_INPUT_FLAG_ECHO :: "32 word" where "UI_INPUT_FLAG_ECHO = 1"

definition ENABLE_ECHO_INPUT :: "32 word" where "ENABLE_ECHO_INPUT = 4"

definition fputs :: "string \<Rightarrow> ustate \<Rightarrow> ustate option" where
  "fputs str s = (if tty_out s = Stderr then Some (s\<lparr>printed := printed s @ str\<rparr>) else None)"

text \<open>\<open>fgets\<close> with room for \<open>n\<close> characters, the terminator included: the characters it stores
  before the terminator, or null. \<open>seen_modes\<close> is not in the program: it records the mode of the
  console while it is read.\<close>

definition ui_fgets :: "nat \<Rightarrow> ustate \<Rightarrow> (string option \<times> ustate) option" where
  "ui_fgets n s =
     (if tty_in s \<noteq> Stdin then None
      else let f = stdin_stream s;
          l = fgets_bytes (n - 1) (bytes f);
          ended = (length l < n - 1 \<and> CHR 0x0A \<notin> set l);
          f = f\<lparr>bytes := drop (length l) (bytes f), eof_flag := eof_flag f \<or> ended \<and> \<not> broken f,
                err_flag := err_flag f \<or> ended \<and> broken f\<rparr>
      in Some (if l = [] \<or> ended \<and> broken f then None else Some l,
          s\<lparr>stdin_stream := f, seen_modes := seen_modes s @ [console s]\<rparr>))"

section \<open>The console\<close>

definition SetConsoleMode :: "32 word \<Rightarrow> ustate \<Rightarrow> bool \<times> ustate" where
  "SetConsoleMode mode s =
     (case set_results s of
        [] \<Rightarrow> (True, s\<lparr>console := mode\<rparr>)
      | ok # rest \<Rightarrow> (ok, s\<lparr>console := (if ok then mode else console s), set_results := rest\<rparr>))"

definition open_console :: "ustate \<Rightarrow> bool \<times> ustate" where
  "open_console s =
     (let s = s\<lparr>ui_locks := ui_locks s + 1\<rparr>;
          s = s\<lparr>is_a_tty := True, tty_in := Stdin, tty_out := Stderr\<rparr>
      in if std_handle s
         then
           if is_char s
           then (get_mode_ok s, if get_mode_ok s then s\<lparr>console_mode := console s\<rparr> else s)
           else (True, s)
         else (False, s))"

definition noecho_console :: "ustate \<Rightarrow> bool \<times> ustate" where
  "noecho_console s =
     (if std_handle s
      then if is_char s then SetConsoleMode (console_mode s AND NOT ENABLE_ECHO_INPUT) s else (True, s)
      else (False, s))"

definition echo_console :: "ustate \<Rightarrow> bool \<times> ustate" where
  "echo_console s =
     (if std_handle s
      then if is_char s then SetConsoleMode (console_mode s) s else (True, s)
      else (False, s))"

text \<open>\<open>close_console\<close> closes a file that is not a standard stream, which is never open here; a
  null file is undefined.\<close>

definition close_console :: "ustate \<Rightarrow> (bool \<times> ustate) option" where
  "close_console s =
     (if tty_in s \<noteq> Stdin \<or> tty_out s \<noteq> Stderr then None
      else Some (True, s\<lparr>ui_locks := ui_locks s - 1\<rparr>))"

section \<open>Reading and writing strings\<close>

definition write_string :: "ui_string \<Rightarrow> ustate \<Rightarrow> (int \<times> ustate) option" where
  "write_string uis s =
     (if ui_type uis \<in> {UIT_ERROR, UIT_INFO}
      then do { s \<leftarrow> fputs (out_string uis) s; Some (1, s) }
      else Some (1, s))"

text \<open>The rest of a line that did not fit, read in pieces of three characters.\<close>

partial_function (option) read_till_nl :: "ustate \<Rightarrow> (bool \<times> ustate) option" where
  "read_till_nl s = do {
     (r, s) \<leftarrow> ui_fgets 4 s;
     case r of
       None \<Rightarrow> Some (False, s)
     | Some l \<Rightarrow>
         if strchr (c_string (l @ [NUL])) (CHR 0x0A) = None then read_till_nl s else Some (True, s)
   }"

text \<open>\<open>read_string_inner\<close> up to the label \<open>error\<close>, when echo is off or wanted: \<open>ok\<close>, the string
  and what the array \<open>result\<close> holds.\<close>

definition read_line ::
    "(ui_string \<Rightarrow> string \<Rightarrow> int \<times> ui_string) \<Rightarrow> ui_string \<Rightarrow> bool \<Rightarrow> char list \<Rightarrow> ustate
      \<Rightarrow> (int \<times> ui_string \<times> char list \<times> ustate) option" where
  "read_line set_result uis strip_nl res s = do {
     res \<leftarrow> aset res 0 NUL;
     (p, s) \<leftarrow> ui_fgets (BUFSIZ - 1) s;
     case p of
       None \<Rightarrow> Some (0, uis, res, s)
     | Some l \<Rightarrow>
         if length l < length res
         then do {
           let res = l @ NUL # drop (length l + 1) res;
           if eof_flag (stdin_stream s) \<or> err_flag (stdin_stream s) then Some (0, uis, res, s)
           else do {
             let str = c_string res;
             let nl = length (takeWhile (\<lambda>c. c \<noteq> CHR 0x0A) str);
             (ok, res, s) \<leftarrow>
               (if nl < length str
                then do {
                  res \<leftarrow> (if strip_nl then aset res (int nl) NUL else Some res);
                  Some (True, res, s)
                }
                else do {
                  (found, s) \<leftarrow> read_till_nl s;
                  Some (found, res, s)
                });
             if ok
             then (case set_result uis (c_string res) of (r, uis) \<Rightarrow> Some (if r \<ge> 0 then 1 else 0, uis, res, s))
             else Some (0, uis, res, s)
           }
         }
         else None
   }"

text \<open>\<open>res\<close> is the array \<open>result\<close>, returned as it is left on the stack.\<close>

definition read_string_inner ::
    "(ui_string \<Rightarrow> string \<Rightarrow> int \<times> ui_string) \<Rightarrow> ui_string \<Rightarrow> bool \<Rightarrow> bool \<Rightarrow> char list \<Rightarrow> ustate
      \<Rightarrow> (int \<times> ui_string \<times> char list \<times> ustate) option" where
  "read_string_inner set_result uis echo strip_nl res s = do {
     let (quiet, s) = (if \<not> echo then noecho_console s else (True, s));
     (ok, uis, res, s) \<leftarrow> (if quiet then read_line set_result uis strip_nl res s else Some (0, uis, res, s));
     s \<leftarrow> (if \<not> echo then fputs [CHR 0x0A] s else Some s);
     let (restored, s) = (if quiet \<and> \<not> echo then echo_console s else (True, s));
     let ok = (if restored then ok else 0);
     if length res = BUFSIZ then Some (ok, uis, replicate BUFSIZ NUL, s) else None
   }"

definition wants_echo :: "ui_string \<Rightarrow> bool" where
  "wants_echo uis \<longleftrightarrow> input_flags uis AND UI_INPUT_FLAG_ECHO \<noteq> 0"

definition read_string ::
    "(ui_string \<Rightarrow> string \<Rightarrow> int \<times> ui_string) \<Rightarrow> ui_string \<Rightarrow> char list \<Rightarrow> ustate
      \<Rightarrow> (int \<times> ui_string \<times> char list \<times> ustate) option" where
  "read_string set_result uis res s =
     (case ui_type uis of
        UIT_BOOLEAN \<Rightarrow> do {
          s \<leftarrow> fputs (out_string uis) s;
          s \<leftarrow> fputs (action_string uis) s;
          read_string_inner set_result uis (wants_echo uis) False res s
        }
      | UIT_PROMPT \<Rightarrow> do {
          s \<leftarrow> fputs (out_string uis) s;
          read_string_inner set_result uis (wants_echo uis) True res s
        }
      | UIT_VERIFY \<Rightarrow> do {
          s \<leftarrow> fputs (''Verifying - '' @ out_string uis) s;
          (ok, uis, res, s) \<leftarrow> read_string_inner set_result uis (wants_echo uis) True res s;
          if ok \<le> 0 then Some (ok, uis, res, s)
          else if result_string uis \<noteq> test_string uis
          then do {
            s \<leftarrow> fputs (''Verify failure'' @ [CHR 0x0A]) s;
            Some (0, uis, res, s)
          }
          else Some (1, uis, res, s)
        }
      | _ \<Rightarrow> Some (1, uis, res, s))"

section \<open>Reading stays in the array and ends\<close>

lemma length_fgets_bytes: "length (fgets_bytes n cs) \<le> n"
  by (induction n cs rule: fgets_bytes.induct) auto

lemma fgets_bytes_prefix: "cs = fgets_bytes n cs @ drop (length (fgets_bytes n cs)) cs"
  by (induction n cs rule: fgets_bytes.induct) auto

lemma fgets_bytes_short: "CHR 0x0A \<notin> set l \<Longrightarrow> n \<le> length l \<Longrightarrow> fgets_bytes n (l @ cs) = take n l"
proof (induction l arbitrary: n)
  case (Cons c l)
  then show ?case by (cases n) auto
qed simp

text \<open>What reading leaves alone.\<close>

definition same_console :: "ustate \<Rightarrow> ustate \<Rightarrow> bool" where
  "same_console s s' \<longleftrightarrow> console_mode s' = console_mode s \<and> tty_in s' = tty_in s \<and> tty_out s' = tty_out s
     \<and> ui_locks s' = ui_locks s \<and> std_handle s' = std_handle s \<and> is_char s' = is_char s
     \<and> console s' = console s \<and> set_results s' = set_results s
     \<and> set (seen_modes s') \<subseteq> set (seen_modes s) \<union> {console s}"

lemma same_console_trans: "same_console s t \<Longrightarrow> same_console t u \<Longrightarrow> same_console s u"
  unfolding same_console_def by auto

lemma ui_fgets_ok:
  assumes "tty_in s = Stdin"
  shows "\<exists>r s'. ui_fgets n s = Some (r, s') \<and> same_console s s'
    \<and> (\<forall>l. r = Some l \<longrightarrow> l \<noteq> [] \<and> length l \<le> n - 1 \<and> bytes (stdin_stream s) = l @ bytes (stdin_stream s'))"
  using assms length_fgets_bytes [of "n - 1" "bytes (stdin_stream s)"]
    fgets_bytes_prefix [of "bytes (stdin_stream s)" "n - 1"]
  by (auto simp: ui_fgets_def same_console_def Let_def split: if_splits)

lemma read_till_nl_ok:
  assumes "tty_in s = Stdin"
  shows "\<exists>r s'. read_till_nl s = Some (r, s') \<and> same_console s s'"
  using assms
proof (induction "length (bytes (stdin_stream s))" arbitrary: s rule: less_induct)
  case less
  obtain r s1 where 1: "ui_fgets 4 s = Some (r, s1)" "same_console s s1"
    "\<forall>l. r = Some l \<longrightarrow> l \<noteq> [] \<and> length l \<le> 4 - 1 \<and> bytes (stdin_stream s) = l @ bytes (stdin_stream s1)"
    using ui_fgets_ok [OF less.prems] by blast
  show ?case
  proof (cases "\<exists>l. r = Some l \<and> strchr (c_string (l @ [NUL])) (CHR 0x0A) = None")
    case True
    then have shorter: "length (bytes (stdin_stream s1)) < length (bytes (stdin_stream s))" using 1(3) by auto
    have "tty_in s1 = Stdin" using 1(2) less.prems by (simp add: same_console_def)
    then obtain r' s' where "read_till_nl s1 = Some (r', s')" "same_console s1 s'"
      using less.hyps [OF shorter] by blast
    then show ?thesis
      using 1 True same_console_trans [OF 1(2)] by (subst read_till_nl.simps) auto
  next
    case False
    then show ?thesis using 1 by (subst read_till_nl.simps) (auto split: option.splits)
  qed
qed

lemma c_string_length: "length (c_string cs) \<le> length cs"
  by (simp add: c_string_def length_takeWhile_le)

lemma read_line_ok:
  assumes "tty_in s = Stdin" "length res = BUFSIZ"
  shows "\<exists>ok uis' res' s'. read_line set_result uis strip_nl res s = Some (ok, uis', res', s')
    \<and> length res' = BUFSIZ \<and> same_console s s'"
proof -
  have st: "aset res 0 NUL = Some (res[0 := NUL])" using assms(2) by (simp add: aset_def in_range_def)
  obtain r s1 where 1: "ui_fgets (BUFSIZ - 1) s = Some (r, s1)" "same_console s s1"
    "\<forall>l. r = Some l \<longrightarrow> l \<noteq> [] \<and> length l \<le> BUFSIZ - 1 - 1 \<and> bytes (stdin_stream s) = l @ bytes (stdin_stream s1)"
    using ui_fgets_ok [OF assms(1)] by blast
  show ?thesis
  proof (cases r)
    case None
    then show ?thesis using st 1 assms(2) by (simp add: read_line_def)
  next
    case (Some l)
    let ?res = "l @ NUL # drop (length l + 1) (res[0 := NUL])"
    have len: "length l < length (res[0 := NUL])" "length ?res = BUFSIZ" using Some 1(3) assms(2) by auto
    let ?str = "c_string ?res"
    let ?nl = "length (takeWhile (\<lambda>c. c \<noteq> CHR 0x0A) ?str)"
    let ?stored = "\<lambda>res s. case set_result uis (c_string res) of (r, uis) \<Rightarrow> Some (if r \<ge> 0 then 1 else 0, uis, res, s)"
    have stores: "?nl < length ?str \<Longrightarrow> aset ?res (int ?nl) NUL = Some (?res[?nl := NUL])"
      using c_string_length [of ?res] len(2) by (simp add: aset_def)
    obtain found s2 where 2: "read_till_nl s1 = Some (found, s2)" "same_console s1 s2"
      using read_till_nl_ok [of s1] 1(2) assms(1) by (auto simp: same_console_def)
    have finish: "\<exists>ok uis' res' s'. ?stored res s = Some (ok, uis', res', s') \<and> res' = res \<and> s' = s" for res s
      by (cases "set_result uis (c_string res)") simp
    have "\<exists>ok uis' res' s'. read_line set_result uis strip_nl res s = Some (ok, uis', res', s')
      \<and> length res' = BUFSIZ \<and> (s' = s1 \<or> s' = s2)"
      using st 1(1) 2(1) len stores Some
      by (simp add: read_line_def Let_def del: BUFSIZ_def split: prod.split)
    then show ?thesis using 1(2) same_console_trans [OF 1(2) 2(2)] by auto
  qed
qed

section \<open>Echo is restored\<close>

lemma SetConsoleMode_succeeds:
  assumes "set (set_results s) \<subseteq> {True}"
  shows "\<exists>s'. SetConsoleMode m s = (True, s') \<and> console s' = m \<and> set (set_results s') \<subseteq> {True}
    \<and> s' = s\<lparr>console := m, set_results := set_results s'\<rparr>"
  using assms by (cases "set_results s") (auto simp: SetConsoleMode_def)

text \<open>What an input leaves when every \<open>SetConsoleMode\<close> succeeds: the console has the mode it had
  when the session was opened, if it is a console, and was never read with echo unless wanted.\<close>

definition echo_restored :: "bool \<Rightarrow> ustate \<Rightarrow> ustate \<Rightarrow> bool" where
  "echo_restored echo s s' \<longleftrightarrow> console_mode s' = console_mode s \<and> tty_in s' = Stdin \<and> tty_out s' = Stderr
     \<and> ui_locks s' = ui_locks s \<and> console s' = console s \<and> set (set_results s') \<subseteq> {True}
     \<and> (\<not> echo \<and> is_char s \<longrightarrow>
          set (seen_modes s') \<subseteq> set (seen_modes s) \<union> {console s AND NOT ENABLE_ECHO_INPUT})"

text \<open>The state between \<open>open_console\<close> and \<open>close_console\<close>.\<close>

definition session :: "ustate \<Rightarrow> bool" where
  "session s \<longleftrightarrow> tty_in s = Stdin \<and> tty_out s = Stderr \<and> std_handle s
     \<and> (is_char s \<longrightarrow> console_mode s = console s) \<and> set (set_results s) \<subseteq> {True}"

lemma read_string_inner_ok:
  assumes "session s" "length res = BUFSIZ"
  shows "\<exists>ok uis' s'. read_string_inner set_result uis echo strip_nl res s = Some (ok, uis', replicate BUFSIZ NUL, s')
    \<and> echo_restored echo s s'"
proof (cases "\<not> echo \<and> is_char s")
  case True
  note S = assms(1) [unfolded session_def]
  let ?m = "console_mode s AND NOT ENABLE_ECHO_INPUT"
  obtain s1 where 1: "SetConsoleMode ?m s = (True, s1)" "console s1 = ?m" "set (set_results s1) \<subseteq> {True}"
    "s1 = s\<lparr>console := ?m, set_results := set_results s1\<rparr>" using SetConsoleMode_succeeds S by blast
  have f1: "tty_in s1 = Stdin" "tty_out s1 = Stderr" "std_handle s1" "is_char s1" "ui_locks s1 = ui_locks s"
    "console_mode s1 = console_mode s" "seen_modes s1 = seen_modes s"
    by (subst 1(4); use S True in simp)+
  obtain ok uis2 res2 s2 where 2: "read_line set_result uis strip_nl res s1 = Some (ok, uis2, res2, s2)"
    "length res2 = BUFSIZ" "same_console s1 s2" using read_line_ok [OF f1(1) assms(2)] by blast
  note f2 = 2(3) [unfolded same_console_def]
  let ?s3 = "s2\<lparr>printed := printed s2 @ [CHR 0x0A]\<rparr>"
  obtain s4 where 4: "SetConsoleMode (console_mode s) ?s3 = (True, s4)" "console s4 = console_mode s"
    "set (set_results s4) \<subseteq> {True}" "s4 = ?s3\<lparr>console := console_mode s, set_results := set_results s4\<rparr>"
    using SetConsoleMode_succeeds [of ?s3 "console_mode s"] f2 1(3) by auto
  have f4: "tty_in s4 = Stdin" "tty_out s4 = Stderr" "ui_locks s4 = ui_locks s" "console_mode s4 = console_mode s"
    "seen_modes s4 = seen_modes s2"
    by (subst 4(4); use f1 f2 in simp)+
  have "read_string_inner set_result uis echo strip_nl res s = Some (ok, uis2, replicate BUFSIZ NUL, s4)"
    using True S 1(1) 2 f1 f2 4(1)
    by (simp add: read_string_inner_def noecho_console_def echo_console_def fputs_def Let_def del: BUFSIZ_def)
  moreover have "echo_restored echo s s4"
    using f4 4(2,3) f2 f1 S True 1(2) by (auto simp: echo_restored_def)
  ultimately show ?thesis by blast
next
  case False
  note S = assms(1) [unfolded session_def]
  obtain ok uis2 res2 s2 where 2: "read_line set_result uis strip_nl res s = Some (ok, uis2, res2, s2)"
    "length res2 = BUFSIZ" "same_console s s2" using read_line_ok [of s] assms(2) S by blast
  note f2 = 2(3) [unfolded same_console_def]
  let ?s3 = "if echo then s2 else s2\<lparr>printed := printed s2 @ [CHR 0x0A]\<rparr>"
  have "read_string_inner set_result uis echo strip_nl res s = Some (ok, uis2, replicate BUFSIZ NUL, ?s3)"
    using False S 2 f2
    by (cases echo; simp add: read_string_inner_def noecho_console_def echo_console_def fputs_def Let_def del: BUFSIZ_def)
  moreover have "echo_restored echo s ?s3" using f2 S False by (auto simp: echo_restored_def)
  ultimately show ?thesis by blast
qed

lemma open_console_session:
  "open_console s = (True, s1) \<Longrightarrow> set (set_results s) \<subseteq> {True} \<Longrightarrow>
    session s1 \<and> console s1 = console s \<and> is_char s1 = is_char s \<and> ui_locks s1 = ui_locks s + 1
      \<and> seen_modes s1 = seen_modes s"
  by (auto simp: open_console_def session_def Let_def split: if_splits)

lemma fputs_session: "session s \<Longrightarrow> fputs str s = Some (s\<lparr>printed := printed s @ str\<rparr>)"
  by (simp add: fputs_def session_def)

lemma session_printed [simp]: "session (s\<lparr>printed := p\<rparr>) = session s"
  by (simp add: session_def)

lemma echo_restored_printed [simp]:
  "echo_restored echo (s\<lparr>printed := p\<rparr>) s' = echo_restored echo s s'"
  "echo_restored echo s (s'\<lparr>printed := p\<rparr>) = echo_restored echo s s'"
  by (simp_all add: echo_restored_def)

lemma read_string_ok:
  assumes "session s" "length res = BUFSIZ"
  shows "\<exists>ok uis' res' s'. read_string set_result uis res s = Some (ok, uis', res', s')
    \<and> echo_restored (wants_echo uis) s s'
    \<and> (ui_type uis \<in> {UIT_PROMPT, UIT_VERIFY, UIT_BOOLEAN} \<longrightarrow> res' = replicate BUFSIZ NUL)"
proof -
  define t where "t str = s\<lparr>printed := str\<rparr>" for str
  have t: "session (t str)" "echo_restored echo (t str) s' = echo_restored echo s s'" for echo str s'
    using assms(1) by (simp_all add: t_def)
  have inner: "\<exists>ok uis' s'. read_string_inner set_result uis echo strip_nl res (t str)
      = Some (ok, uis', replicate BUFSIZ NUL, s') \<and> echo_restored echo s s'" for echo strip_nl str
    using read_string_inner_ok [OF t(1) assms(2)] unfolding t(2) .
  have refl: "echo_restored echo s s" for echo
    using assms(1) by (auto simp: echo_restored_def session_def)
  show ?thesis
  proof (cases "ui_type uis")
    case UIT_BOOLEAN
    let ?str = "printed s @ out_string uis @ action_string uis"
    show ?thesis using inner [of "wants_echo uis" False ?str] assms(1) UIT_BOOLEAN
      by (auto simp: read_string_def fputs_session t_def)
  next
    case UIT_PROMPT
    let ?str = "printed s @ out_string uis"
    show ?thesis using inner [of "wants_echo uis" True ?str] assms(1) UIT_PROMPT
      by (auto simp: read_string_def fputs_session t_def)
  next
    case UIT_VERIFY
    let ?str = "printed s @ ''Verifying - '' @ out_string uis"
    obtain ok uis' s' where i: "read_string_inner set_result uis (wants_echo uis) True res (t ?str)
      = Some (ok, uis', replicate BUFSIZ NUL, s')" "echo_restored (wants_echo uis) s s'"
      using inner [of "wants_echo uis" True ?str] by blast
    have "fputs str s' = Some (s'\<lparr>printed := printed s' @ str\<rparr>)" for str
      using i(2) by (simp add: echo_restored_def fputs_def)
    then show ?thesis using i assms(1) UIT_VERIFY
      by (simp add: read_string_def fputs_session t_def)
  qed (use refl in \<open>auto simp: read_string_def\<close>)
qed

lemma mask_no_echo [simp]: "(m AND NOT ENABLE_ECHO_INPUT) AND ENABLE_ECHO_INPUT = 0"
  by (simp add: and.assoc)

text \<open>C32. A session of the console: when the console opens and its mode can be set, reading a
  string always returns, whatever the bytes of the input and however they end; after closing, the
  console has the mode it had before, the lock of the user interface is released, the array that held
  the string is zero, and the terminal was never read with echo on unless the string asked for it.\<close>

theorem ui_restores_echo:
  assumes "open_console s = (True, s1)" "set (set_results s) \<subseteq> {True}" "length res = BUFSIZ"
  shows "\<exists>ok uis' res' s2 s3. read_string set_result uis res s1 = Some (ok, uis', res', s2)
    \<and> close_console s2 = Some (True, s3) \<and> console s3 = console s \<and> ui_locks s3 = ui_locks s
    \<and> (ui_type uis \<in> {UIT_PROMPT, UIT_VERIFY, UIT_BOOLEAN} \<longrightarrow> res' = replicate BUFSIZ NUL)
    \<and> (is_char s \<and> \<not> wants_echo uis \<longrightarrow>
        (\<forall>m \<in> set (seen_modes s3) - set (seen_modes s). m AND ENABLE_ECHO_INPUT = 0))"
proof -
  note o = open_console_session [OF assms(1,2)]
  obtain ok uis' res' s2 where r: "read_string set_result uis res s1 = Some (ok, uis', res', s2)"
    "echo_restored (wants_echo uis) s1 s2"
    "ui_type uis \<in> {UIT_PROMPT, UIT_VERIFY, UIT_BOOLEAN} \<longrightarrow> res' = replicate BUFSIZ NUL"
    using read_string_ok [OF _ assms(3)] o by blast
  note e = r(2) [unfolded echo_restored_def]
  let ?s3 = "s2\<lparr>ui_locks := ui_locks s2 - 1\<rparr>"
  have "close_console s2 = Some (True, ?s3)" using e by (simp add: close_console_def)
  moreover have "is_char s \<and> \<not> wants_echo uis \<longrightarrow>
      (\<forall>m \<in> set (seen_modes ?s3) - set (seen_modes s). m AND ENABLE_ECHO_INPUT = 0)"
    using e o by auto
  ultimately show ?thesis using r e o by auto
qed

definition ui_example :: ustate where
  "ui_example = \<lparr>console_mode = 0, tty_in = No_file, tty_out = No_file, is_a_tty = False, ui_locks = 0,
     std_handle = True, is_char = True, console = 7, get_mode_ok = True, set_results = [True],
     stdin_stream = \<lparr>bytes = ''pw'' @ [CHR 0x0A] @ ''next'', broken = False, eof_flag = False, err_flag = False\<rparr>,
     printed = [], seen_modes = []\<rparr>"

definition ui_example_string :: ui_string where
  "ui_example_string = \<lparr>ui_type = UIT_PROMPT, out_string = ''Password:'', action_string = [], input_flags = 0,
     test_string = [], result_string = []\<rparr>"

theorem ui_restores_echo_witness:
  "\<exists>ok uis' res' s2 s3. read_string (\<lambda>uis r. (0, uis\<lparr>result_string := r\<rparr>)) ui_example_string (replicate BUFSIZ NUL)
      (snd (open_console ui_example)) = Some (ok, uis', res', s2)
    \<and> close_console s2 = Some (True, s3) \<and> console s3 = 7 \<and> ui_locks s3 = 0 \<and> res' = replicate BUFSIZ NUL"
proof -
  have "open_console ui_example = (True, snd (open_console ui_example))"
    by (simp add: ui_example_def open_console_def)
  from ui_restores_echo [OF this, where res = "replicate BUFSIZ NUL" and uis = ui_example_string
      and set_result = "\<lambda>uis r. (0, uis\<lparr>result_string := r\<rparr>)"]
  show ?thesis by (auto simp: ui_example_def ui_example_string_def)
qed

text \<open>A console that does not open keeps the lock of the user interface.\<close>

lemma open_console_fails_locked: "open_console s = (False, s1) \<Longrightarrow> ui_locks s1 = ui_locks s + 1"
  by (auto simp: open_console_def Let_def split: if_splits)

end
