(* ===== verification/Ui_Session.thy ===== *)
theory Ui_Session
  imports Ui_Win
begin

text \<open>
  The table of functions that \<open>UI_OpenSSL\<close> of \<open>crypto/compat/ui_openssl_win.c\<close> hands to libcrypto,
  and what a user of it gets: the line that was typed.
\<close>

section \<open>The method\<close>

text \<open>\<open>UI_METHOD\<close> of libcrypto, the members that the file sets. \<open>ui_read_string\<close> is given
  \<open>UI_set_result\<close> and the array on its stack.\<close>

record ui_method =
  ui_name :: string
  ui_open_session :: "ustate \<Rightarrow> bool \<times> ustate"
  ui_write_string :: "ui_string \<Rightarrow> ustate \<Rightarrow> (int \<times> ustate) option"
  ui_read_string :: "(ui_string \<Rightarrow> string \<Rightarrow> int \<times> ui_string) \<Rightarrow> ui_string \<Rightarrow> char list \<Rightarrow> ustate
    \<Rightarrow> (int \<times> ui_string \<times> char list \<times> ustate) option"
  ui_close_session :: "ustate \<Rightarrow> (bool \<times> ustate) option"

definition ui_openssl :: ui_method where
  "ui_openssl = \<lparr>ui_name = ''OpenSSL default user interface'',
     ui_open_session = open_console, ui_write_string = write_string,
     ui_read_string = read_string, ui_close_session = close_console\<rparr>"

definition UI_OpenSSL :: ui_method where "UI_OpenSSL = ui_openssl"

section \<open>Reading a line\<close>

text \<open>From \<open>s\<close> to \<open>s'\<close> input was read up to \<open>rest\<close>, without end of file or error.\<close>

definition reads_to :: "ustate \<Rightarrow> char list \<Rightarrow> ustate \<Rightarrow> bool" where
  "reads_to s rest s' \<longleftrightarrow> same_console s s' \<and> stdin_stream s' = (stdin_stream s)\<lparr>bytes := rest\<rparr>
     \<and> printed s' = printed s"

lemma reads_to_trans: "reads_to s as t \<Longrightarrow> reads_to t bs u \<Longrightarrow> reads_to s bs u"
  using same_console_trans unfolding reads_to_def by auto

text \<open>A line in front of \<open>rest\<close>.\<close>

definition typed :: "ustate \<Rightarrow> string \<Rightarrow> char list \<Rightarrow> bool" where
  "typed s l rest \<longleftrightarrow> tty_in s = Stdin \<and> bytes (stdin_stream s) = l @ CHR 0x0A # rest
     \<and> \<not> eof_flag (stdin_stream s) \<and> \<not> err_flag (stdin_stream s) \<and> CHR 0x0A \<notin> set l \<and> NUL \<notin> set l"

lemma typed_reads_to: "typed s l rest \<Longrightarrow> reads_to s (drop n l @ CHR 0x0A # rest) s' \<Longrightarrow> typed s' (drop n l) rest"
  by (auto simp: typed_def reads_to_def same_console_def dest: in_set_dropD)

lemma fgets_whole_line:
  assumes "typed s l rest" "length l < n - 1"
  shows "\<exists>s'. ui_fgets n s = Some (Some (l @ [CHR 0x0A]), s') \<and> reads_to s rest s'"
proof -
  have "fgets_bytes (n - 1) (l @ CHR 0x0A # rest) = l @ [CHR 0x0A]"
    using assms by (intro fgets_bytes_line) (auto simp: typed_def)
  then show ?thesis using assms
    by (auto simp: ui_fgets_def typed_def reads_to_def same_console_def Let_def)
qed

lemma fgets_part_of_line:
  assumes "typed s l rest" "n - 1 \<le> length l" "1 < n"
  shows "\<exists>s'. ui_fgets n s = Some (Some (take (n - 1) l), s') \<and> reads_to s (drop (n - 1) l @ CHR 0x0A # rest) s'"
proof -
  have "fgets_bytes (n - 1) (l @ CHR 0x0A # rest) = take (n - 1) l"
    using assms by (intro fgets_bytes_short) (auto simp: typed_def)
  then show ?thesis using assms
    by (auto simp: ui_fgets_def typed_def reads_to_def same_console_def Let_def min_def)
qed

lemma till_nl_reads_line:
  "typed s l rest \<Longrightarrow> \<exists>s'. read_till_nl s = Some (True, s') \<and> reads_to s rest s'"
proof (induction "length l" arbitrary: s l rule: less_induct)
  case less
  note nul = less.prems [unfolded typed_def]
  show ?case
  proof (cases "length l < 3")
    case True
    obtain s' where 1: "ui_fgets 4 s = Some (Some (l @ [CHR 0x0A]), s')" "reads_to s rest s'"
      using fgets_whole_line [OF less.prems, of 4] True by auto
    have "c_string ((l @ [CHR 0x0A]) @ NUL # []) = l @ [CHR 0x0A]"
      by (rule c_string_append_NUL) (use nul in auto)
    then have "strchr (c_string ((l @ [CHR 0x0A]) @ [NUL])) (CHR 0x0A) \<noteq> None"
      using nul by (auto simp: strchr_None)
    then show ?thesis using 1 by (subst read_till_nl.simps) auto
  next
    case False
    obtain s1 where 1: "ui_fgets 4 s = Some (Some (take 3 l), s1)" "reads_to s (drop 3 l @ CHR 0x0A # rest) s1"
      using fgets_part_of_line [OF less.prems, of 4] False by auto
    have "c_string (take 3 l @ NUL # []) = take 3 l"
      by (rule c_string_append_NUL) (use nul in \<open>auto dest: in_set_takeD\<close>)
    then have "strchr (c_string (take 3 l @ [NUL])) (CHR 0x0A) = None"
      using nul by (auto simp: strchr_None dest: in_set_takeD)
    then have "read_till_nl s = read_till_nl s1" using 1 by (subst read_till_nl.simps) simp
    moreover have "length (drop 3 l) < length l" using False by simp
    then obtain s2 where "read_till_nl s1 = Some (True, s2)" "reads_to s1 rest s2"
      using less.hyps [OF _ typed_reads_to [OF less.prems 1(2)]] by blast
    ultimately show ?thesis using reads_to_trans [OF 1(2)] by auto
  qed
qed

text \<open>What is handed to \<open>UI_set_result\<close>: at most 510 characters of the line, with its newline if that is
  wanted and fits.\<close>

definition line_result :: "bool \<Rightarrow> string \<Rightarrow> string" where
  "line_result strip_nl l = take 510 l @ (if strip_nl \<or> 510 \<le> length l then [] else [CHR 0x0A])"

lemma read_line_result:
  assumes t: "typed s l rest" and len: "length res = BUFSIZ"
    and set: "set_result uis (line_result strip_nl l) = (r, uis')"
  shows "\<exists>res' s'. read_line set_result uis strip_nl res s = Some (if r \<ge> 0 then 1 else 0, uis', res', s')
    \<and> length res' = BUFSIZ \<and> reads_to s rest s'"
proof -
  note nul = t [unfolded typed_def]
  have st: "aset res 0 NUL = Some (res[0 := NUL])" using len by (simp add: aset_def in_range_def)
  show ?thesis
  proof (cases "length l < 510")
    case True
    obtain s1 where 1: "ui_fgets 511 s = Some (Some (l @ [CHR 0x0A]), s1)" "reads_to s rest s1"
      using fgets_whole_line [OF t, of 511] True by auto
    define tl where "tl = drop (Suc (Suc (length l))) res"
    have c: "c_string (l @ CHR 0x0A # NUL # tl) = l @ [CHR 0x0A]"
      using c_string_append_NUL [of "l @ [CHR 0x0A]" tl] nul by auto
    have c': "c_string (l @ NUL # NUL # tl) = l" by (rule c_string_append_NUL) (use nul in auto)
    have k: "takeWhile (\<lambda>c. c \<noteq> CHR 0x0A) (l @ [CHR 0x0A]) = l"
      using nul by (auto simp: takeWhile_append)
    have ind: "\<not> eof_flag (stdin_stream s1)" "\<not> err_flag (stdin_stream s1)" using 1(2) nul by (auto simp: reads_to_def)
    have set': "set_result uis (if strip_nl then l else l @ [CHR 0x0A]) = (r, uis')"
      using set True by (simp add: line_result_def split: if_splits)
    have room: "length tl = 512 - length l - 2" using len by (simp add: tl_def)
    show ?thesis
    proof (cases strip_nl)
      case strip: True
      have "aset (l @ CHR 0x0A # NUL # tl) (int (length l)) NUL = Some (l @ NUL # NUL # tl)"
        by (simp add: aset_def in_range_def list_update_append)
      then have "read_line set_result uis strip_nl res s
          = Some (if r \<ge> 0 then 1 else 0, uis', l @ NUL # NUL # tl, s1)"
        using st 1(1) len True ind c c' k set' strip by (simp add: read_line_def Let_def tl_def[symmetric])
      then show ?thesis using 1(2) room True by auto
    next
      case keep: False
      then have "read_line set_result uis strip_nl res s
          = Some (if r \<ge> 0 then 1 else 0, uis', l @ CHR 0x0A # NUL # tl, s1)"
        using st 1(1) len True ind c k set' by (simp add: read_line_def Let_def tl_def[symmetric])
      then show ?thesis using 1(2) room True by auto
    qed
  next
    case False
    obtain s1 where 1: "ui_fgets 511 s = Some (Some (take 510 l), s1)" "reads_to s (drop 510 l @ CHR 0x0A # rest) s1"
      using fgets_part_of_line [OF t, of 511] False by auto
    obtain s2 where 2: "read_till_nl s1 = Some (True, s2)" "reads_to s1 rest s2"
      using till_nl_reads_line [OF typed_reads_to [OF t 1(2)]] by blast
    define tl where "tl = drop 511 res"
    have c: "c_string (take 510 l @ NUL # tl) = take 510 l"
      by (rule c_string_append_NUL) (use nul in \<open>auto dest: in_set_takeD\<close>)
    have "takeWhile (\<lambda>c. c \<noteq> CHR 0x0A) (take 510 l) = take 510 l"
      using nul by (auto dest: in_set_takeD)
    then have k: "length (takeWhile (\<lambda>c. c \<noteq> CHR 0x0A) (take 510 l)) = length (take 510 l)" by (simp only:)
    have ind: "\<not> eof_flag (stdin_stream s1)" "\<not> err_flag (stdin_stream s1)" using 1(2) nul by (auto simp: reads_to_def)
    have n: "min (length l) 510 = 510" using False by simp
    have "read_line set_result uis strip_nl res s
        = Some (if r \<ge> 0 then 1 else 0, uis', take 510 l @ NUL # tl, s2)"
      using st 1(1) len False ind c k set 2(1) n by (simp add: read_line_def Let_def tl_def[symmetric] line_result_def)
    moreover have "length (take 510 l @ NUL # tl) = BUFSIZ" using len False by (simp add: tl_def)
    ultimately show ?thesis using reads_to_trans [OF 1(2) 2(2)] by blast
  qed
qed

lemma SetConsoleMode_keeps:
  "SetConsoleMode m s = (ok, s') \<Longrightarrow> s' = s\<lparr>console := console s', set_results := set_results s'\<rparr>"
  by (auto simp: SetConsoleMode_def split: list.splits)

text \<open>The two functions that change the echo leave the rest of the state alone.\<close>

lemma console_keeps:
  assumes "noecho_console s = (ok, s') \<or> echo_console s = (ok, s')"
  shows "stdin_stream s' = stdin_stream s" "printed s' = printed s" "tty_in s' = tty_in s" "tty_out s' = tty_out s"
    "std_handle s' = std_handle s" "is_char s' = is_char s"
proof -
  obtain m x where "s' = s\<lparr>console := m, set_results := x\<rparr>"
  proof -
    have "s' = s \<or> (\<exists>m. SetConsoleMode m s = (ok, s'))"
      using assms by (auto simp: noecho_console_def echo_console_def split: if_splits)
    moreover have "s = s\<lparr>console := console s, set_results := set_results s\<rparr>" by simp
    ultimately show thesis using that SetConsoleMode_keeps by metis
  qed
  then show "stdin_stream s' = stdin_stream s" "printed s' = printed s" "tty_in s' = tty_in s" "tty_out s' = tty_out s"
    "std_handle s' = std_handle s" "is_char s' = is_char s" by simp_all
qed

lemma noecho_session:
  "session s \<Longrightarrow> \<exists>s'. noecho_console s = (True, s') \<and> set (set_results s') \<subseteq> {True}"
  using SetConsoleMode_succeeds [of s] by (force simp: noecho_console_def session_def)

lemma echo_succeeds:
  "std_handle s \<Longrightarrow> set (set_results s) \<subseteq> {True} \<Longrightarrow> \<exists>s'. echo_console s = (True, s')"
  using SetConsoleMode_succeeds [of s] by (force simp: echo_console_def)

lemma read_string_inner_result:
  assumes S: "session s" and len: "length res = BUFSIZ" and t: "typed s l rest"
    and set: "set_result uis (line_result strip_nl l) = (r, uis')"
  shows "\<exists>s'. read_string_inner set_result uis echo strip_nl res s
      = Some (if r \<ge> 0 then 1 else 0, uis', replicate BUFSIZ NUL, s')
    \<and> echo_restored echo s s' \<and> bytes (stdin_stream s') = rest
    \<and> printed s' = printed s @ (if echo then [] else [CHR 0x0A])"
proof -
  obtain s1 where 1: "(if \<not> echo then noecho_console s else (True, s)) = (True, s1)"
    "set (set_results s1) \<subseteq> {True}" using noecho_session [OF S] S by (cases echo) (auto simp: session_def)
  have k: "stdin_stream s1 = stdin_stream s" "printed s1 = printed s" "tty_in s1 = tty_in s" "tty_out s1 = tty_out s"
    "std_handle s1 = std_handle s"
    using 1 console_keeps [of s True s1] by (auto split: if_splits)
  have "typed s1 l rest" using t k by (simp add: typed_def)
  then obtain res2 s2 where 2: "read_line set_result uis strip_nl res s1 = Some (if r \<ge> 0 then 1 else 0, uis', res2, s2)"
    "length res2 = BUFSIZ" "reads_to s1 rest s2" using read_line_result [where set_result = set_result and uis = uis, OF _ len set] by blast
  note f2 = 2(3) [unfolded reads_to_def same_console_def]
  let ?s3 = "if echo then s2 else s2\<lparr>printed := printed s2 @ [CHR 0x0A]\<rparr>"
  obtain s4 where 4: "(if \<not> echo then echo_console ?s3 else (True, ?s3)) = (True, s4)"
    using echo_succeeds [of ?s3] f2 k S 1(2) by (cases echo) (auto simp: session_def)
  have k4: "stdin_stream s4 = stdin_stream s2" "printed s4 = printed ?s3"
    using 4 console_keeps [of ?s3 True s4] by (auto split: if_splits)
  have "read_string_inner set_result uis echo strip_nl res s
      = Some (if r \<ge> 0 then 1 else 0, uis', replicate BUFSIZ NUL, s4)"
  proof (cases echo)
    case True
    then show ?thesis using 1(1) 2(1,2) 4 by (simp add: read_string_inner_def del: BUFSIZ_def)
  next
    case False
    have "fputs [CHR 0x0A] s2 = Some ?s3" using f2 k S False by (simp add: fputs_def session_def)
    then show ?thesis using False 1(1) 2(1,2) 4 by (simp add: read_string_inner_def del: BUFSIZ_def)
  qed
  then show ?thesis
    using read_string_inner_ok [OF S len, of set_result uis echo strip_nl] k4 f2 k by (intro exI [of _ s4]) auto
qed

text \<open>C19. A session through the table of \<open>UI_OpenSSL\<close>: a prompt returns the line that was typed, up to 510
  characters of it, and leaves the input at the next line; a prompt to verify succeeds exactly when the
  line is the string to compare with; either prints its prompt and, without echo, ends the line.\<close>

theorem ui_reads_line:
  assumes "ui_open_session UI_OpenSSL s = (True, s1)" "set (set_results s) \<subseteq> {True}" "length res = BUFSIZ"
    and "typed s1 l rest" "ui_type uis \<in> {UIT_PROMPT, UIT_VERIFY}"
    and "set_result uis (take 510 l) = (r, uis\<lparr>result_string := take 510 l\<rparr>)" "0 \<le> r"
  shows "\<exists>s2 s3. ui_read_string UI_OpenSSL set_result uis res s1
      = Some (if ui_type uis = UIT_VERIFY \<and> take 510 l \<noteq> test_string uis then 0 else 1,
              uis\<lparr>result_string := take 510 l\<rparr>, replicate BUFSIZ NUL, s2)
    \<and> bytes (stdin_stream s2) = rest
    \<and> printed s2 = printed s @ (if ui_type uis = UIT_VERIFY then ''Verifying - '' else []) @ out_string uis
        @ (if wants_echo uis then [] else [CHR 0x0A])
        @ (if ui_type uis = UIT_VERIFY \<and> take 510 l \<noteq> test_string uis then ''Verify failure'' @ [CHR 0x0A] else [])
    \<and> ui_close_session UI_OpenSSL s2 = Some (True, s3) \<and> console s3 = console s \<and> ui_locks s3 = ui_locks s"
proof -
  have o: "open_console s = (True, s1)" using assms(1) by (simp add: UI_OpenSSL_def ui_openssl_def)
  note S = open_console_session [OF o assms(2)]
  have p: "printed s1 = printed s" using o by (auto simp: open_console_def Let_def split: if_splits)
  define t where "t = s1\<lparr>printed := printed s1 @ (if ui_type uis = UIT_VERIFY then ''Verifying - '' else []) @ out_string uis\<rparr>"
  have "session t" "typed t l rest" using S assms(4) by (simp_all add: t_def typed_def)
  from read_string_inner_result [OF this(1) assms(3) this(2), of set_result uis True r _ "wants_echo uis"]
  obtain s2 where 2: "read_string_inner set_result uis (wants_echo uis) True res t
      = Some (1, uis\<lparr>result_string := take 510 l\<rparr>, replicate BUFSIZ NUL, s2)"
    "echo_restored (wants_echo uis) t s2" "bytes (stdin_stream s2) = rest"
    "printed s2 = printed t @ (if wants_echo uis then [] else [CHR 0x0A])"
    using assms(6,7) by (auto simp: line_result_def)
  have close: "\<exists>s3. close_console (s2\<lparr>printed := x\<rparr>) = Some (True, s3) \<and> console s3 = console s \<and> ui_locks s3 = ui_locks s" for x
    using 2(2) S by (simp add: close_console_def echo_restored_def t_def)
  have fp: "fputs x s2 = Some (s2\<lparr>printed := printed s2 @ x\<rparr>)" for x
    using 2(2) by (simp add: fputs_def echo_restored_def)
  show ?thesis
  proof (cases "ui_type uis = UIT_VERIFY \<and> take 510 l \<noteq> test_string uis")
    case True
    then show ?thesis using 2 S fp close p
      by (simp add: UI_OpenSSL_def ui_openssl_def read_string_def fputs_session t_def)
  next
    case False
    have "\<exists>s3. close_console s2 = Some (True, s3) \<and> console s3 = console s \<and> ui_locks s3 = ui_locks s"
      using close [of "printed s2"] by simp
    then show ?thesis using False assms(5) 2 S p
      by (auto simp: UI_OpenSSL_def ui_openssl_def read_string_def fputs_session t_def)
  qed
qed

theorem ui_reads_line_witness:
  "\<exists>s2. ui_read_string UI_OpenSSL (\<lambda>uis r. (0, uis\<lparr>result_string := r\<rparr>)) ui_example_string (replicate BUFSIZ NUL)
      (snd (open_console ui_example)) = Some (1, ui_example_string\<lparr>result_string := ''pw''\<rparr>, replicate BUFSIZ NUL, s2)
    \<and> bytes (stdin_stream s2) = ''next'' \<and> printed s2 = ''Password:'' @ [CHR 0x0A]"
proof -
  have o: "ui_open_session UI_OpenSSL ui_example = (True, snd (open_console ui_example))"
    by (simp add: ui_example_def open_console_def UI_OpenSSL_def ui_openssl_def)
  have t: "typed (snd (open_console ui_example)) ''pw'' ''next''"
    by (simp add: typed_def ui_example_def open_console_def)
  from ui_reads_line [OF o _ _ t, where res = "replicate BUFSIZ NUL" and uis = ui_example_string and r = 0
      and set_result = "\<lambda>uis r. (0, uis\<lparr>result_string := r\<rparr>)"]
  show ?thesis by (auto simp: ui_example_def ui_example_string_def wants_echo_def)
qed

end
