(* ===== verification/Messages.thy ===== *)
theory Messages
  imports Asprintf Posix_Win
begin

text \<open>
  Messages and small strings of the C library that a system may lack: \<open>err\<close> and its relatives
  (\<open>include/compat/err.h\<close>), \<open>syslog_r\<close> (\<open>crypto/compat/syslog_r.c\<close>), \<open>strerror\<close> for Windows
  (\<open>include/compat/string.h\<close>), \<open>snprintf\<close> for old Visual C (\<open>include/compat/stdio.h\<close>) and
  \<open>getprogname\<close> for Windows (\<open>crypto/compat/getprogname_windows.c\<close>).

  A format with its arguments is given by what it formats to; a null format is \<open>None\<close>. Every
  operation on \<open>stderr\<close> may leave anything in \<open>errno\<close>: \<open>clobber\<close> lists what the next ones leave.
\<close>

section \<open>\<open>err.h\<close>\<close>

record err_state =
  err_errno :: int
  err_stderr :: string
  clobber :: "int list"
  err_exit :: "int option"

definition stderr_write :: "string \<Rightarrow> err_state \<Rightarrow> err_state" where
  "stderr_write str s =
     s\<lparr>err_stderr := err_stderr s @ str,
       err_errno := (case clobber s of [] \<Rightarrow> err_errno s | e # _ \<Rightarrow> e),
       clobber := tl (clobber s)\<rparr>"

text \<open>\<open>strerror\<close> of \<open>string.h\<close>: Windows has no text for \<open>ECONNREFUSED\<close>.\<close>

definition posix_strerror :: "(int \<Rightarrow> string) \<Rightarrow> int \<Rightarrow> int \<Rightarrow> string" where
  "posix_strerror strerror econnrefused errnum =
     (if errnum = econnrefused then ''Connection refused'' else strerror errnum)"

definition err :: "(int \<Rightarrow> string) \<Rightarrow> int \<Rightarrow> string option \<Rightarrow> err_state \<Rightarrow> err_state" where
  "err strerror eval fmt s =
     (let sverrno = err_errno s;
          s = (case fmt of
                 Some str \<Rightarrow> stderr_write '': '' (stderr_write str s)
               | None \<Rightarrow> s);
          s = stderr_write (strerror sverrno @ [CHR 0x0A]) s
      in s\<lparr>err_exit := Some eval\<rparr>)"

definition errx :: "int \<Rightarrow> string option \<Rightarrow> err_state \<Rightarrow> err_state" where
  "errx eval fmt s =
     (let s = (case fmt of Some str \<Rightarrow> stderr_write str s | None \<Rightarrow> s);
          s = stderr_write [CHR 0x0A] s
      in s\<lparr>err_exit := Some eval\<rparr>)"

definition warn :: "(int \<Rightarrow> string) \<Rightarrow> string option \<Rightarrow> err_state \<Rightarrow> err_state" where
  "warn strerror fmt s =
     (let sverrno = err_errno s;
          s = (case fmt of
                 Some str \<Rightarrow> stderr_write '': '' (stderr_write str s)
               | None \<Rightarrow> s)
      in stderr_write (strerror sverrno @ [CHR 0x0A]) s)"

definition vwarnx :: "string option \<Rightarrow> err_state \<Rightarrow> err_state" where
  "vwarnx fmt s =
     (let s = (case fmt of Some str \<Rightarrow> stderr_write str s | None \<Rightarrow> s)
      in stderr_write [CHR 0x0A] s)"

definition err_warnx :: "string option \<Rightarrow> err_state \<Rightarrow> err_state" where
  "err_warnx fmt s = vwarnx fmt s"

text \<open>\<open>posix_perror\<close> of \<open>crypto/compat/posix_win.c\<close>.\<close>

definition posix_perror :: "(int \<Rightarrow> string) \<Rightarrow> string \<Rightarrow> err_state \<Rightarrow> err_state" where
  "posix_perror strerror str s = stderr_write (str @ '': '' @ strerror (err_errno s) @ [CHR 0x0A]) s"

text \<open>The line a message makes, with the text of an error or without.\<close>

definition message_line :: "string option \<Rightarrow> string option \<Rightarrow> string" where
  "message_line fmt reason =
     (case fmt of Some str \<Rightarrow> str @ (if reason = None then [] else '': '') | None \<Rightarrow> [])
     @ (case reason of Some r \<Rightarrow> r | None \<Rightarrow> []) @ [CHR 0x0A]"

lemma err_messages:
  "err_stderr (err strerror eval fmt s) = err_stderr s @ message_line fmt (Some (strerror (err_errno s)))
    \<and> err_exit (err strerror eval fmt s) = Some eval"
  "err_stderr (warn strerror fmt s) = err_stderr s @ message_line fmt (Some (strerror (err_errno s)))
    \<and> err_exit (warn strerror fmt s) = err_exit s"
  "err_stderr (errx eval fmt s) = err_stderr s @ message_line fmt None \<and> err_exit (errx eval fmt s) = Some eval"
  "err_stderr (err_warnx fmt s) = err_stderr s @ message_line fmt None \<and> err_exit (err_warnx fmt s) = err_exit s"
  by (cases fmt; simp add: err_def warn_def errx_def err_warnx_def vwarnx_def message_line_def stderr_write_def Let_def)+

section \<open>\<open>syslog_r\<close>\<close>

text \<open>What the C library has: neither \<open>syslog\<close> nor \<open>vsyslog\<close>, only \<open>syslog\<close>, or both.\<close>

datatype syslog_config = No_syslog | Only_syslog | Has_vsyslog

text \<open>\<open>vsn\<close> is \<open>vsnprintf\<close> on the format and its arguments as in \<open>vasprintf\<close>, \<open>text\<close> what \<open>vsyslog\<close>
  logs for them. The log is the list of the priorities and messages.\<close>

definition vsyslog_r ::
    "syslog_config \<Rightarrow> (nat \<Rightarrow> int \<times> char list) \<Rightarrow> string \<Rightarrow> int \<Rightarrow> crt \<times> (int \<times> string) list
      \<Rightarrow> (crt \<times> (int \<times> string) list) option" where
  "vsyslog_r config vsn text pri = (\<lambda>(s, log).
     case config of
       No_syslog \<Rightarrow> Some (s, log)
     | Has_vsyslog \<Rightarrow> Some (s, log @ [(pri, text)])
     | Only_syslog \<Rightarrow> do {
         (ret, msg, s) \<leftarrow> vasprintf vsn s;
         if ret = -1 then Some (s, log)
         else do {
           bs \<leftarrow> bytes_of msg s;
           let log = log @ [(pri, c_string bs)];
           s \<leftarrow> free msg s;
           Some (s, log)
         }
       })"

definition syslog_r ::
    "syslog_config \<Rightarrow> (nat \<Rightarrow> int \<times> char list) \<Rightarrow> string \<Rightarrow> int \<Rightarrow> crt \<times> (int \<times> string) list
      \<Rightarrow> (crt \<times> (int \<times> string) list) option" where
  "syslog_r config vsn text pri sl = vsyslog_r config vsn text pri sl"

section \<open>\<open>snprintf\<close> for old Visual C\<close>

text \<open>\<open>msn n\<close> is \<open>_vsnprintf\<close> on \<open>n\<close> bytes: its result and the bytes it stores. \<open>str\<close> is the buffer.\<close>

definition libressl_snprintf :: "(nat \<Rightarrow> int \<times> char list) \<Rightarrow> nat \<Rightarrow> char list \<Rightarrow> (int \<times> char list) option" where
  "libressl_snprintf msn n str =
     (case msn n of (ret, out) \<Rightarrow>
        if length str < length out then None
        else do {
          let str = out @ drop (length out) str;
          str \<leftarrow> (if n \<noteq> 0 then aset str (int n - 1) NUL else Some str);
          Some (ret, str)
        })"

text \<open>The documentation of \<open>_vsnprintf\<close>: an output that fits is stored, with a NUL when there is room
  for one, and its length returned; of a longer one \<open>n\<close> characters are stored and -1 returned.\<close>

definition msn_formats :: "(nat \<Rightarrow> int \<times> char list) \<Rightarrow> char list \<Rightarrow> bool" where
  "msn_formats msn out \<longleftrightarrow>
     (\<forall>n. msn n = (if length out \<le> n then int (length out) else -1, take n (out @ [NUL])))"

lemma libressl_snprintf_terminates:
  assumes "msn_formats msn out" "NUL \<notin> set out" "0 < n" "n \<le> length str"
  shows "\<exists>str'. libressl_snprintf msn n str = Some (if length out \<le> n then int (length out) else -1, str')
    \<and> c_string str' = take (n - 1) out \<and> length str' = length str \<and> drop n str' = drop n str"
proof -
  let ?o = "take n (out @ [NUL])"
  let ?s = "(?o @ drop (length ?o) str)[n - 1 := NUL]"
  have r: "libressl_snprintf msn n str = Some (if length out \<le> n then int (length out) else -1, ?s)"
    using assms by (auto simp: libressl_snprintf_def msn_formats_def aset_def in_range_def nat_diff_distrib)
  have "c_string ?s = take (n - 1) out"
  proof (cases "length out < n - 1")
    case True
    then have o: "?o = out @ [NUL]" by simp
    have "?s = (out @ [NUL]) @ (drop (length ?o) str)[n - 1 - Suc (length out) := NUL]"
      using True unfolding o by (subst list_update_append) simp
    then show ?thesis using c_string_append_NUL [OF assms(2)] True by simp
  next
    case False
    define b where "b = ?o @ drop (length ?o) str"
    have b: "n - 1 < length b" "take (n - 1) b = take (n - 1) out" using False assms(3,4) by (auto simp: b_def)
    then have "?s = take (n - 1) out @ NUL # drop (Suc (n - 1)) b"
      using upd_conv_take_nth_drop [OF b(1), of NUL] unfolding b_def by simp
    moreover have "NUL \<notin> set (take (n - 1) out)" using assms(2) by (meson in_set_takeD)
    ultimately show ?thesis using c_string_append_NUL by metis
  qed
  then show ?thesis using r assms(3,4) by (intro exI [of _ ?s]) auto
qed

section \<open>\<open>getprogname\<close> for Windows\<close>

definition MAX_PATH :: nat where [simp]: "MAX_PATH = 260"

text \<open>\<open>gmf n\<close> is \<open>GetModuleFileName\<close> for the program's own module: the length and the characters it
  stores; the static array is zero when the program starts.\<close>

definition getprogname :: "(nat \<Rightarrow> nat \<times> char list) \<Rightarrow> char list \<Rightarrow> (string \<times> char list) option" where
  "getprogname gmf progname =
     (case gmf (MAX_PATH + 1 - 1) of (len, out) \<Rightarrow>
        if length progname < length out then None
        else do {
          let progname = out @ drop (length out) progname;
          if len = 0 then Some (''?'', progname)
          else do {
            progname \<leftarrow> aset progname (int len) NUL;
            Some (c_string progname, progname)
          }
        })"

lemma getprogname_defined:
  assumes "length progname = MAX_PATH + 1" "gmf MAX_PATH = (len, out)"
    "len \<le> length out" "length out \<le> MAX_PATH" "NUL \<notin> set (take len out)"
  shows "\<exists>progname'. getprogname gmf progname = Some (if len = 0 then ''?'' else take len out, progname')
    \<and> length progname' = MAX_PATH + 1"
proof (cases "len = 0")
  case False
  let ?p = "out @ drop (length out) progname"
  have l: "length ?p = MAX_PATH + 1" "len < length ?p" using assms by auto
  have "?p[len := NUL] = take len ?p @ NUL # drop (Suc len) ?p" using l(2) by (rule upd_conv_take_nth_drop)
  then have "?p[len := NUL] = take len out @ NUL # drop (Suc len) ?p" using assms(3) by simp
  then have "c_string (?p[len := NUL]) = take len out" using c_string_append_NUL [OF assms(5)] by metis
  then show ?thesis
    using assms l False by (simp add: getprogname_def aset_def in_range_def)
qed (use assms in \<open>simp add: getprogname_def\<close>)

section \<open>Properties\<close>

lemma vsyslog_r_ok:
  assumes "crt_ok s" "vsn_bounded vsn" "vsn_formats vsn out" "int (length out) < INT_MAX" "NUL \<notin> set out"
  shows "\<exists>s' log'. vsyslog_r Only_syslog vsn out pri (s, log) = Some (s', log') \<and> crt_ok s' \<and> heap s' = heap s
    \<and> (log' = log @ [(pri, out)] \<or> (\<exists>k. oom s k) \<and> log' = log)"
proof -
  obtain ret p s1 where 1: "vasprintf vsn s = Some (ret, p, s1)" "crt_ok s1"
      "ret = -1 \<and> p = Null \<and> errno s1 = Some ENOMEM \<and> heap s1 = heap s \<or> formatted_in vsn (heap s) ret p (heap s1)"
    using vasprintf_defined [OF assms(1,2)] by blast
  show ?thesis
  proof (cases "ret = -1")
    case True
    then have "heap s1 = heap s" using 1(3) formatted_in_text [OF _ assms(3)] by force
    moreover have "\<exists>k. oom s k" using vasprintf_success [OF _ assms(3,4,1) 1(1) assms(2)] True by blast
    ultimately show ?thesis using 1 True by (simp add: vsyslog_r_def)
  next
    case False
    then obtain a bs where f: "p = Ref a" "heap s a = None" "heap s1 = (heap s)(a \<mapsto> bs)"
        "take (length out + 1) bs = out @ [NUL]"
      using 1(3) formatted_in_text [OF _ assms(3)] by blast
    let ?s2 = "s1\<lparr>heap := (heap s1)(a := None), released := bs # released s1\<rparr>"
    have "bs = (out @ [NUL]) @ drop (length out + 1) bs" using append_take_drop_id f(4) by metis
    then have "bs = out @ NUL # drop (length out + 1) bs" by simp
    then have "c_string bs = out" using c_string_append_NUL [OF assms(5)] by metis
    then have "vsyslog_r Only_syslog vsn out pri (s, log) = Some (?s2, log @ [(pri, out)])"
      using 1(1) False f(1,3) by (simp add: vsyslog_r_def)
    moreover have "crt_ok ?s2" using free_ok [OF 1(2), of p ?s2] f by simp
    moreover have "heap ?s2 = heap s" using f heap_trip by simp
    ultimately show ?thesis by blast
  qed
qed

text \<open>C38. \<open>syslog_r\<close> and \<open>vsyslog_r\<close> on every system: they are defined and leak nothing; a system
  with only \<open>syslog\<close> logs the same message with the same priority as one with \<open>vsyslog\<close>, or, when an
  allocation fails, nothing.\<close>

theorem syslog_r_logs_or_drops:
  assumes "crt_ok s" "vsn_bounded vsn" "vsn_formats vsn out" "int (length out) < INT_MAX" "NUL \<notin> set out"
  shows "\<exists>s' log'. syslog_r config vsn out pri (s, log) = Some (s', log') \<and> crt_ok s' \<and> heap s' = heap s
    \<and> (config = No_syslog \<longrightarrow> log' = log)
    \<and> (config = Has_vsyslog \<longrightarrow> log' = log @ [(pri, out)])
    \<and> (config = Only_syslog \<longrightarrow> log' = log @ [(pri, out)] \<or> (\<exists>k. oom s k) \<and> log' = log)"
  using vsyslog_r_ok [OF assms] assms(1) by (cases config) (auto simp: syslog_r_def vsyslog_r_def)

theorem syslog_r_logs_or_drops_witness:
  "\<exists>s' log'. syslog_r Only_syslog (snprintf_text ''down'') ''down'' 3 (crt0, []) = Some (s', log')
    \<and> heap s' = heap crt0 \<and> log' = [(3, ''down'')]"
proof -
  have "crt_ok crt0" "\<forall>k. \<not> oom crt0 k" "int (length ''down'') < INT_MAX" "NUL \<notin> set ''down''"
    by (simp_all add: crt_ok_def crt0_def INT_MAX_def)
  with syslog_r_logs_or_drops [OF _ snprintf_text_ok, where s = crt0 and out = "''down''" and config = Only_syslog
      and pri = 3 and log = "[]"] show ?thesis by force
qed

text \<open>\<open>err\<close>, \<open>warn\<close>, \<open>errx\<close> and \<open>warnx\<close> print one line, the formatted message if there is one;
  \<open>err\<close> and \<open>warn\<close> add the text of the error that \<open>errno\<close> was when they were called, whatever the
  operations on \<open>stderr\<close> leave in it; \<open>err\<close> and \<open>errx\<close> exit with the status given.\<close>

theorem err_reports_errno:
  "err_stderr (err strerror eval fmt s) = err_stderr s @ message_line fmt (Some (strerror (err_errno s)))
    \<and> err_exit (err strerror eval fmt s) = Some eval
    \<and> err_stderr (warn strerror fmt s) = err_stderr s @ message_line fmt (Some (strerror (err_errno s)))
    \<and> err_exit (warn strerror fmt s) = err_exit s
    \<and> err_stderr (errx eval fmt s) = err_stderr s @ message_line fmt None \<and> err_exit (errx eval fmt s) = Some eval
    \<and> err_stderr (err_warnx fmt s) = err_stderr s @ message_line fmt None \<and> err_exit (err_warnx fmt s) = err_exit s"
  using err_messages by metis

end
