(* ===== verification/Descriptor_IO.thy ===== *)
theory Descriptor_IO
  imports Compat_Prelude
begin

text \<open>
  Operations on descriptors built from others: \<open>pread\<close> and \<open>pwrite\<close> for Windows
  (\<open>tls/compat/pread.c\<close>, \<open>tls/compat/pwrite.c\<close>) from \<open>lseek\<close>, \<open>read\<close> and \<open>write\<close>; and \<open>_socket\<close>
  and \<open>accept4\<close> (\<open>apps/nc/compat\<close>), which set the flags of a new descriptor with \<open>fcntl\<close>.
\<close>

unbundle bit_operations_syntax

section \<open>A file open for reading and writing\<close>

text \<open>\<open>answers\<close> scripts the calls of the system: a call fails with an error, or transfers at most so
  many bytes. When it is over, every call succeeds and transfers all it can. \<open>off_t\<close> has 32 bits.\<close>

datatype io_answer = Fails int | Transfers nat

record open_file =
  content :: "char list"
  position :: nat
  io_errno :: int
  answers :: "io_answer list"

definition OFF_MAX :: int where "OFF_MAX = 2 ^ 31 - 1"

definition next_answer :: "open_file \<Rightarrow> io_answer \<times> open_file" where
  "next_answer f = (case answers f of [] \<Rightarrow> (Transfers (nat OFF_MAX), f) | a # as \<Rightarrow> (a, f\<lparr>answers := as\<rparr>))"

text \<open>\<open>einval\<close> is the number of \<open>EINVAL\<close>: an offset that is negative or too large.\<close>

definition einval :: int where "einval = 22"

definition lseek_cur :: "open_file \<Rightarrow> int \<times> open_file" where
  "lseek_cur f =
     (case next_answer f of
        (Fails e, f) \<Rightarrow> (-1, f\<lparr>io_errno := e\<rparr>)
      | (Transfers _, f) \<Rightarrow>
          if int (position f) \<le> OFF_MAX then (int (position f), f) else (-1, f\<lparr>io_errno := einval\<rparr>))"

definition lseek_set :: "int \<Rightarrow> open_file \<Rightarrow> int \<times> open_file" where
  "lseek_set offset f =
     (case next_answer f of
        (Fails e, f) \<Rightarrow> (-1, f\<lparr>io_errno := e\<rparr>)
      | (Transfers _, f) \<Rightarrow>
          if 0 \<le> offset \<and> offset \<le> OFF_MAX then (offset, f\<lparr>position := nat offset\<rparr>)
          else (-1, f\<lparr>io_errno := einval\<rparr>))"

text \<open>\<open>read\<close> returns the number of bytes and the bytes, \<open>write\<close> fills a gap behind the end with
  zeros.\<close>

definition read_fd :: "nat \<Rightarrow> open_file \<Rightarrow> int \<times> char list \<times> open_file" where
  "read_fd nbytes f =
     (case next_answer f of
        (Fails e, f) \<Rightarrow> (-1, [], f\<lparr>io_errno := e\<rparr>)
      | (Transfers k, f) \<Rightarrow>
          let bs = take (min k nbytes) (drop (position f) (content f))
          in (int (length bs), bs, f\<lparr>position := position f + length bs\<rparr>))"

definition overwrite :: "nat \<Rightarrow> char list \<Rightarrow> char list \<Rightarrow> char list" where
  "overwrite at bs cs = take at cs @ replicate (at - length cs) NUL @ bs @ drop (at + length bs) cs"

definition write_fd :: "char list \<Rightarrow> open_file \<Rightarrow> int \<times> open_file" where
  "write_fd bs f =
     (case next_answer f of
        (Fails e, f) \<Rightarrow> (-1, f\<lparr>io_errno := e\<rparr>)
      | (Transfers k, f) \<Rightarrow>
          let bs = take k bs
          in (int (length bs),
              if bs = [] then f
              else f\<lparr>content := overwrite (position f) bs (content f), position := position f + length bs\<rparr>))"

section \<open>\<open>pread\<close> and \<open>pwrite\<close>\<close>

definition pread :: "nat \<Rightarrow> int \<Rightarrow> open_file \<Rightarrow> int \<times> char list \<times> open_file" where
  "pread nbytes offset f =
     (let (cpos, f) = lseek_cur f
      in if cpos = -1 then (-1, [], f)
      else let (r, f) = lseek_set offset f
      in if r = -1 then (-1, [], f)
      else let (n, bs, f) = read_fd nbytes f;
          save_errno = io_errno f;
          (r, f) = lseek_set cpos f
      in if r = -1 then (-1, bs, f)
      else (n, bs, f\<lparr>io_errno := save_errno\<rparr>))"

definition pwrite :: "char list \<Rightarrow> int \<Rightarrow> open_file \<Rightarrow> int \<times> open_file" where
  "pwrite bs offset f =
     (let (cpos, f) = lseek_cur f
      in if cpos = -1 then (-1, f)
      else let (r, f) = lseek_set offset f
      in if r = -1 then (-1, f)
      else let (n, f) = write_fd bs f;
          save_errno = io_errno f;
          (r, f) = lseek_set cpos f
      in if r = -1 then (-1, f)
      else (n, f\<lparr>io_errno := save_errno\<rparr>))"

text \<open>The script lets the three calls of \<open>lseek\<close> succeed.\<close>

fun seeks_succeed :: "io_answer list \<Rightarrow> bool" where
  "seeks_succeed [] \<longleftrightarrow> True"
| "seeks_succeed [a] \<longleftrightarrow> (\<exists>k. a = Transfers k)"
| "seeks_succeed [a, b] \<longleftrightarrow> (\<exists>k. a = Transfers k) \<and> (\<exists>k. b = Transfers k)"
| "seeks_succeed [a, b, c] \<longleftrightarrow> (\<exists>k. a = Transfers k) \<and> (\<exists>k. b = Transfers k)"
| "seeks_succeed (a # b # c # d # as) \<longleftrightarrow>
     (\<exists>k. a = Transfers k) \<and> (\<exists>k. b = Transfers k) \<and> (\<exists>k. d = Transfers k)"

text \<open>The answer to \<open>read\<close> or \<open>write\<close>.\<close>

definition transfer_answer :: "io_answer list \<Rightarrow> io_answer" where
  "transfer_answer as = (if 2 < length as then as ! 2 else Transfers (nat OFF_MAX))"

lemma pread_result:
  assumes "seeks_succeed (answers f)" "int (position f) \<le> OFF_MAX" "0 \<le> offset" "offset \<le> OFF_MAX"
  shows "pread nbytes offset f =
    (case transfer_answer (answers f) of
       Fails e \<Rightarrow> (-1, [], f\<lparr>io_errno := e, answers := drop 4 (answers f)\<rparr>)
     | Transfers k \<Rightarrow>
         let bs = take (min k nbytes) (drop (nat offset) (content f))
         in (int (length bs), bs, f\<lparr>answers := drop 4 (answers f)\<rparr>))"
  using assms
  by (cases f; cases "answers f" rule: seeks_succeed.cases)
    (auto simp: pread_def lseek_cur_def lseek_set_def read_fd_def next_answer_def transfer_answer_def Let_def
      split: io_answer.splits)

lemma pwrite_result:
  assumes "seeks_succeed (answers f)" "int (position f) \<le> OFF_MAX" "0 \<le> offset" "offset \<le> OFF_MAX"
  shows "pwrite bs offset f =
    (case transfer_answer (answers f) of
       Fails e \<Rightarrow> (-1, f\<lparr>io_errno := e, answers := drop 4 (answers f)\<rparr>)
     | Transfers k \<Rightarrow>
         (int (min k (length bs)),
          f\<lparr>content := (if take k bs = [] then content f else overwrite (nat offset) (take k bs) (content f)),
            answers := drop 4 (answers f)\<rparr>))"
  using assms
  by (cases f; cases "answers f" rule: seeks_succeed.cases)
    (auto simp: pwrite_def lseek_cur_def lseek_set_def write_fd_def next_answer_def transfer_answer_def Let_def
      split: io_answer.splits)

section \<open>Flags of a new descriptor\<close>

text \<open>The flags of the open descriptors and of the files they refer to; \<open>onb\<close> is the system's
  \<open>O_NONBLOCK\<close>. \<open>fcntl\<close> on a descriptor that is not open returns -1 and changes nothing.\<close>

record fd_table =
  fd_flags :: "int \<Rightarrow> 32 word option"
  fl_flags :: "int \<Rightarrow> 32 word option"

definition SOCK_CLOEXEC :: "32 word" where "SOCK_CLOEXEC = 0x8000"

definition SOCK_NONBLOCK :: "32 word" where "SOCK_NONBLOCK = 0x4000"

definition FD_CLOEXEC :: "32 word" where "FD_CLOEXEC = 1"

definition fcntl_getfd :: "int \<Rightarrow> fd_table \<Rightarrow> 32 word" where
  "fcntl_getfd fd t = (case fd_flags t fd of Some w \<Rightarrow> w | None \<Rightarrow> -1)"

definition fcntl_setfd :: "int \<Rightarrow> 32 word \<Rightarrow> fd_table \<Rightarrow> fd_table" where
  "fcntl_setfd fd w t = (if fd_flags t fd = None then t else t\<lparr>fd_flags := (fd_flags t)(fd \<mapsto> w)\<rparr>)"

definition fcntl_getfl :: "int \<Rightarrow> fd_table \<Rightarrow> 32 word" where
  "fcntl_getfl fd t = (case fl_flags t fd of Some w \<Rightarrow> w | None \<Rightarrow> -1)"

definition fcntl_setfl :: "int \<Rightarrow> 32 word \<Rightarrow> fd_table \<Rightarrow> fd_table" where
  "fcntl_setfl fd w t = (if fl_flags t fd = None then t else t\<lparr>fl_flags := (fl_flags t)(fd \<mapsto> w)\<rparr>)"

text \<open>\<open>sock\<close> is the system's \<open>socket\<close> and \<open>acc\<close> its \<open>accept\<close>.\<close>

definition nc_socket ::
    "(int \<Rightarrow> 32 word \<Rightarrow> int \<Rightarrow> fd_table \<Rightarrow> int \<times> fd_table) \<Rightarrow> 32 word \<Rightarrow> int \<Rightarrow> 32 word \<Rightarrow> int \<Rightarrow> fd_table
      \<Rightarrow> int \<times> fd_table" where
  "nc_socket sock onb domain type protocol t =
     (let (s, t) = sock domain (type AND NOT (SOCK_CLOEXEC OR SOCK_NONBLOCK)) protocol t
      in if s = -1 then (s, t)
      else let t = (if type AND SOCK_CLOEXEC \<noteq> 0
                    then fcntl_setfd s (fcntl_getfd s t OR FD_CLOEXEC) t else t);
               t = (if type AND SOCK_NONBLOCK \<noteq> 0
                    then fcntl_setfl s (fcntl_getfl s t OR onb) t else t)
      in (s, t))"

definition accept4 ::
    "(int \<Rightarrow> fd_table \<Rightarrow> int \<times> fd_table) \<Rightarrow> 32 word \<Rightarrow> int \<Rightarrow> 32 word \<Rightarrow> fd_table \<Rightarrow> int \<times> fd_table" where
  "accept4 acc onb s flags t =
     (let (rets, t) = acc s t
      in if rets = -1 then (rets, t)
      else let t = (if flags AND SOCK_CLOEXEC \<noteq> 0
                    then fcntl_setfd rets (fcntl_getfd rets t OR FD_CLOEXEC) t else t);
               t = (if flags AND SOCK_NONBLOCK \<noteq> 0
                    then fcntl_setfl rets (fcntl_getfl rets t OR onb) t else t)
      in (rets, t))"

text \<open>The table of the system with exactly the flags asked for added to the new descriptor.\<close>

definition with_flags :: "32 word \<Rightarrow> int \<Rightarrow> 32 word \<Rightarrow> fd_table \<Rightarrow> fd_table" where
  "with_flags onb fd asked t =
     t\<lparr>fd_flags := (fd_flags t)(fd := map_option (\<lambda>w. if asked AND SOCK_CLOEXEC \<noteq> 0 then w OR FD_CLOEXEC else w) (fd_flags t fd)),
       fl_flags := (fl_flags t)(fd := map_option (\<lambda>w. if asked AND SOCK_NONBLOCK \<noteq> 0 then w OR onb else w) (fl_flags t fd))\<rparr>"

lemma new_descriptor_flags:
  "sock domain (type AND NOT (SOCK_CLOEXEC OR SOCK_NONBLOCK)) protocol t = (fd, t') \<Longrightarrow>
    nc_socket sock onb domain type protocol t = (fd, if fd = -1 then t' else with_flags onb fd type t')"
  "acc s t = (fd, t') \<Longrightarrow>
    accept4 acc onb s flags t = (fd, if fd = -1 then t' else with_flags onb fd flags t')"
  by (cases "fd_flags t' fd"; cases "fl_flags t' fd";
      auto simp: nc_socket_def accept4_def with_flags_def Let_def fcntl_setfd_def fcntl_getfd_def
        fcntl_setfl_def fcntl_getfl_def fun_upd_idem)+

section \<open>Properties\<close>

lemma overwrite_read:
  assumes "bs \<noteq> []"
  shows "take (length bs) (drop at (overwrite at bs cs)) = bs"
    "i < at \<or> at + length bs \<le> i \<Longrightarrow> i < length cs \<Longrightarrow> overwrite at bs cs ! i = cs ! i"
    "length (overwrite at bs cs) = max (length cs) (at + length bs)"
  by (auto simp: overwrite_def nth_append)

text \<open>C27. \<open>pwrite\<close> and \<open>pread\<close> when the system transfers everything: what is written at an offset is
  read back from it, the other bytes of the file stay as they are, and neither moves the position of the
  descriptor nor touches \<open>errno\<close>. When the transfer fails or is short, the position is still restored,
  and \<open>errno\<close> is that of the transfer.\<close>

theorem pwrite_pread_roundtrip:
  assumes "answers f = []" "int (position f) \<le> OFF_MAX" "0 \<le> offset" "offset + int (length bs) \<le> OFF_MAX"
  shows "\<exists>f'. pwrite bs offset f = (int (length bs), f') \<and> pread (length bs) offset f' = (int (length bs), bs, f')
    \<and> position f' = position f \<and> io_errno f' = io_errno f
    \<and> (\<forall>i < length (content f). i < nat offset \<or> nat offset + length bs \<le> i \<longrightarrow> content f' ! i = content f ! i)
    \<and> (\<forall>as. seeks_succeed as \<longrightarrow>
        position (snd (pwrite bs offset (f\<lparr>answers := as\<rparr>))) = position f
        \<and> position (snd (snd (pread (length bs) offset (f\<lparr>answers := as\<rparr>)))) = position f
        \<and> (\<forall>e. transfer_answer as = Fails e \<longrightarrow> io_errno (snd (pwrite bs offset (f\<lparr>answers := as\<rparr>))) = e
            \<and> io_errno (snd (snd (pread (length bs) offset (f\<lparr>answers := as\<rparr>)))) = e))"
proof -
  let ?f = "f\<lparr>content := (if bs = [] then content f else overwrite (nat offset) bs (content f))\<rparr>"
  have fits: "offset \<le> OFF_MAX" "length bs \<le> nat OFF_MAX" using assms(3,4) by (simp_all add: OFF_MAX_def)
  have k: "transfer_answer [] = Transfers (nat OFF_MAX)" by (simp add: transfer_answer_def)
  have 1: "pwrite bs offset f = (int (length bs), ?f)"
    using pwrite_result [of f offset bs] assms fits k by (cases f) (auto simp: take_all_iff)
  have b: "take (length bs) (drop (nat offset) (content ?f)) = bs"
    using overwrite_read(1) [of bs "nat offset" "content f"] by simp
  have "pread (length bs) offset ?f
      = (let ds = take (min (nat OFF_MAX) (length bs)) (drop (nat offset) (content ?f)) in
          (int (length ds), ds, ?f\<lparr>answers := drop 4 (answers ?f)\<rparr>))"
    using pread_result [of ?f offset "length bs"] assms fits k by simp
  also have "... = (int (length bs), bs, ?f)"
    unfolding min_absorb2 [OF fits(2)] b using assms(1) by (simp add: Let_def)
  finally have 2: "pread (length bs) offset ?f = (int (length bs), bs, ?f)" .
  have 3: "content ?f ! i = content f ! i"
    if "i < length (content f)" "i < nat offset \<or> nat offset + length bs \<le> i" for i
    using overwrite_read(2) [of bs i "nat offset" "content f"] that by auto
  have 4: "position (snd (pwrite bs offset (f\<lparr>answers := as\<rparr>))) = position f
      \<and> position (snd (snd (pread (length bs) offset (f\<lparr>answers := as\<rparr>)))) = position f
      \<and> (\<forall>e. transfer_answer as = Fails e \<longrightarrow> io_errno (snd (pwrite bs offset (f\<lparr>answers := as\<rparr>))) = e
          \<and> io_errno (snd (snd (pread (length bs) offset (f\<lparr>answers := as\<rparr>)))) = e)"
    if "seeks_succeed as" for as
    using pwrite_result [of "f\<lparr>answers := as\<rparr>" offset bs] pread_result [of "f\<lparr>answers := as\<rparr>" offset "length bs"]
      that assms(2,3) fits(1) by (auto simp: Let_def split: io_answer.splits)
  show ?thesis using 1 2 3 4 by (intro exI [of _ ?f]) simp
qed

theorem pwrite_pread_roundtrip_witness:
  "\<exists>f'. pwrite ''xy'' 1 \<lparr>content = ''abcd'', position = 3, io_errno = 0, answers = []\<rparr> = (2, f')
    \<and> pread 2 1 f' = (2, ''xy'', f') \<and> position f' = 3 \<and> content f' ! 3 = CHR ''d''"
proof -
  let ?f = "\<lparr>content = ''abcd'', position = 3, io_errno = 0, answers = []\<rparr> :: open_file"
  have "answers ?f = []" "int (position ?f) \<le> OFF_MAX" "(0 :: int) \<le> 1" "1 + int (length ''xy'') \<le> OFF_MAX"
    by (simp_all add: OFF_MAX_def)
  then obtain f' where f': "pwrite ''xy'' 1 ?f = (int (length ''xy''), f')"
    "pread (length ''xy'') 1 f' = (int (length ''xy''), ''xy'', f')" "position f' = position ?f"
    "\<forall>i < length (content ?f). i < nat 1 \<or> nat 1 + length ''xy'' \<le> i \<longrightarrow> content f' ! i = content ?f ! i"
    using pwrite_pread_roundtrip [of ?f 1 "''xy''"] by blast
  have "content f' ! 3 = CHR ''d''" using f'(4) [rule_format, of 3] by simp
  moreover have "pread 2 1 f' = (2, ''xy'', f')" using f'(2) by (simp add: numeral_2_eq_2)
  ultimately show ?thesis using f'(1,3) by (intro exI [of _ f']) simp
qed

end
