(* ===== verification/Clock_Mac.thy ===== *)
theory Clock_Mac
  imports Complex_Main Sys_Shims
begin

text \<open>
  \<open>clock_gettime\<close> for old versions of macOS (\<open>apps/openssl/compat/clock_gettime_osx.c\<close>): the ticks of
  \<open>mach_absolute_time\<close> since the first call, converted to seconds and nanoseconds in double precision.

  A \<open>double\<close> is a real number; \<open>rnd\<close>, a parameter, rounds the exact result of every conversion and
  operation to one. What the C standard leaves undefined is \<open>None\<close>: a conversion to an integer that
  does not fit, and here also a division by zero.
\<close>

section \<open>The clock\<close>

text \<open>The static variables, and how often the counter has been read.\<close>

record mac_clock =
  orwl_timebase :: real
  orwl_timestart :: "64 word"
  mach_reads :: nat

text \<open>The double closest to \<open>1.0E-9\<close>.\<close>

definition ORWL_NANO :: real where "ORWL_NANO = 4835703278458517 / 2 ^ 82"

definition ORWL_GIGA :: "64 word" where "ORWL_GIGA = 1000000000"

text \<open>Conversion to a signed integer of 64 bits discards the fraction.\<close>

definition to_int64 :: "real \<Rightarrow> int option" where
  "to_int64 x = fits 64 (if 0 \<le> x then \<lfloor>x\<rfloor> else \<lceil>x\<rceil>)"

definition mach_absolute_time :: "(nat \<Rightarrow> 64 word) \<Rightarrow> mac_clock \<Rightarrow> 64 word \<times> mac_clock" where
  "mach_absolute_time mach s = (mach (mach_reads s), s\<lparr>mach_reads := Suc (mach_reads s)\<rparr>)"

definition clock_gettime ::
    "(real \<Rightarrow> real) \<Rightarrow> 32 word \<times> 32 word \<Rightarrow> (nat \<Rightarrow> 64 word) \<Rightarrow> mac_clock \<Rightarrow> (int \<times> time_pair \<times> mac_clock) option" where
  "clock_gettime rnd tb mach s = do {
     s \<leftarrow> (if orwl_timestart s = 0
           then if snd tb = 0 then None
             else do {
               let s = s\<lparr>orwl_timebase := rnd (real (unat (fst tb)))\<rparr>;
               let s = s\<lparr>orwl_timebase := rnd (orwl_timebase s / rnd (real (unat (snd tb))))\<rparr>;
               let (start, s) = mach_absolute_time mach s;
               Some (s\<lparr>orwl_timestart := start\<rparr>)
             }
           else Some s);
     let (now, s) = mach_absolute_time mach s;
     let diff = rnd (rnd (real (unat (now - orwl_timestart s))) * orwl_timebase s);
     sec \<leftarrow> to_int64 (rnd (diff * ORWL_NANO));
     nsec \<leftarrow> to_int64 (rnd (diff - rnd (real (unat (word_of_int sec * ORWL_GIGA)))));
     Some (0, \<lparr>tv_sec = sec, tv_sub = nsec\<rparr>, s)
   }"

section \<open>The conversion\<close>

text \<open>What IEEE 754 says of rounding to double precision: it is monotone, leaves integers of up to
  53 bits alone, and is off by at most one part in \<open>2 ^ 53\<close>.\<close>

definition rounds_to_double :: "(real \<Rightarrow> real) \<Rightarrow> bool" where
  "rounds_to_double rnd \<longleftrightarrow> mono rnd
     \<and> (\<forall>k :: int. \<bar>k\<bar> \<le> 2 ^ 53 \<longrightarrow> rnd (real_of_int k) = real_of_int k)
     \<and> (\<forall>x. 1 / 2 ^ 60 \<le> x \<and> x \<le> 2 ^ 64 \<longrightarrow> \<bar>rnd x - x\<bar> \<le> x / 2 ^ 53)"

lemma rnd_nat: "rounds_to_double rnd \<Longrightarrow> n \<le> 2 ^ 53 \<Longrightarrow> rnd (real n) = real n"
  by (auto simp: rounds_to_double_def dest: spec[of _ "int n"])

lemma seconds_exact:
  assumes r: "rounds_to_double rnd" and d: "d < 4 * 10 ^ 15"
  shows "\<lfloor>rnd (real d * ORWL_NANO)\<rfloor> = int (d div 10 ^ 9)" "0 \<le> rnd (real d * ORWL_NANO)"
proof -
  define k where "k = d div 10 ^ 9"
  have k: "1000000000 * k \<le> d" "d < 1000000000 * (k + 1)" "k < 4000000"
    using d by (auto simp: k_def)
  have kr: "1000000000 * real k \<le> real d" "real d \<le> 1000000000 * (real k + 1) - 1" "real k + 1 \<le> 4000000"
    using k(1) of_nat_mono[OF Suc_leI[OF k(2)], where 'a=real] of_nat_mono[OF Suc_leI[OF k(3)], where 'a=real]
    by simp_all
  have low: "real k \<le> real d * ORWL_NANO" using kr(1) by (simp add: ORWL_NANO_def)
  have "rnd (real k) = real k" by (rule rnd_nat[OF r]) (use k in simp)
  then have lower: "real k \<le> rnd (real d * ORWL_NANO)"
    using r low by (auto simp: rounds_to_double_def dest: monoD)
  have upper: "rnd (real d * ORWL_NANO) < real k + 1"
  proof (cases "d = 0")
    case True
    then show ?thesis using rnd_nat[OF r, of 0] by simp
  next
    case False
    then have "1 / 2 ^ 60 \<le> real d * ORWL_NANO" by (simp add: ORWL_NANO_def)
    moreover have "real d * ORWL_NANO \<le> 2 ^ 64" using d by (simp add: ORWL_NANO_def)
    ultimately have "\<bar>rnd (real d * ORWL_NANO) - real d * ORWL_NANO\<bar> \<le> real d * ORWL_NANO / 2 ^ 53"
      using r by (auto simp: rounds_to_double_def)
    then have "rnd (real d * ORWL_NANO) \<le> real d * ORWL_NANO + real d * ORWL_NANO / 2 ^ 53" by linarith
    also have "... < real k + 1" using kr by (simp add: ORWL_NANO_def)
    finally show ?thesis .
  qed
  show "\<lfloor>rnd (real d * ORWL_NANO)\<rfloor> = int (d div 10 ^ 9)" using lower upper unfolding k_def[symmetric] by linarith
  show "0 \<le> rnd (real d * ORWL_NANO)" using lower by linarith
qed

text \<open>The state between two calls when a tick is a nanosecond: the clock has not been started, or it
  runs since \<open>start\<close>.\<close>

definition clock_ready :: "64 word \<Rightarrow> (nat \<Rightarrow> 64 word) \<Rightarrow> mac_clock \<Rightarrow> bool" where
  "clock_ready start mach s \<longleftrightarrow> start \<noteq> 0
     \<and> (if orwl_timestart s = 0 then mach (mach_reads s) = start
        else orwl_timestart s = start \<and> orwl_timebase s = 1)"

text \<open>The ticks at the reading that a call reports.\<close>

definition reported :: "(nat \<Rightarrow> 64 word) \<Rightarrow> mac_clock \<Rightarrow> 64 word" where
  "reported mach s = mach (if orwl_timestart s = 0 then Suc (mach_reads s) else mach_reads s)"

lemma nanoseconds_exact:
  assumes r: "rounds_to_double rnd" and d: "d < 4 * 10 ^ 15"
  shows "to_int64 (rnd (rnd (rnd (real d) * 1) * ORWL_NANO)) = Some (int (d div 10 ^ 9))"
    "to_int64 (rnd (rnd (rnd (real d) * 1) - rnd (real (unat (word_of_int (int (d div 10 ^ 9)) * ORWL_GIGA)))))
      = Some (int (d mod 10 ^ 9))"
proof -
  have e: "rnd (real n) = real n" if "n < 4 * 10 ^ 15" for n
    using rnd_nat[OF r, of n] that by (simp add: order_trans)
  have ee: "rnd (rnd (real d) * 1) = real d" using e d by simp
  have q: "d div 10 ^ 9 < 4 * 10 ^ 6" using d by auto
  have p: "d div 10 ^ 9 * 10 ^ 9 \<le> d" by simp
  show "to_int64 (rnd (rnd (rnd (real d) * 1) * ORWL_NANO)) = Some (int (d div 10 ^ 9))"
    using seconds_exact[OF r d] q unfolding ee by (simp add: to_int64_def fits_def)
  have w: "word_of_int (int (d div 10 ^ 9)) * ORWL_GIGA = (of_nat (d div 10 ^ 9 * 10 ^ 9) :: 64 word)"
    by (simp add: ORWL_GIGA_def)
  have "d div 10 ^ 9 * 10 ^ 9 < 2 ^ LENGTH(64)" using p d by simp
  then have u: "unat (word_of_int (int (d div 10 ^ 9)) * ORWL_GIGA) = d div 10 ^ 9 * 10 ^ 9"
    unfolding w by (simp only: unat_of_nat take_bit_nat_eq_self mod_less)
  have "real d - real (d div 10 ^ 9 * 10 ^ 9) = real (d mod 10 ^ 9)"
    using p by (simp only: of_nat_diff[symmetric] minus_div_mult_eq_mod)
  moreover have "d mod 10 ^ 9 < 10 ^ 9" by simp
  ultimately show "to_int64 (rnd (rnd (rnd (real d) * 1) - rnd (real (unat (word_of_int (int (d div 10 ^ 9)) * ORWL_GIGA)))))
      = Some (int (d mod 10 ^ 9))"
    unfolding u ee e[OF le_less_trans[OF p d]] using e[of "d mod 10 ^ 9"] by (simp add: to_int64_def fits_def)
qed

section \<open>Properties\<close>

text \<open>C37. \<open>clock_gettime\<close> where a tick is a nanosecond, for up to 46 days after the first call: in spite
  of the arithmetic in double precision the seconds and nanoseconds are exactly those since the first
  call, with less than a second of nanoseconds, and the next call is in the same situation.\<close>

theorem mac_clock_exact:
  assumes "rounds_to_double rnd" "unit \<noteq> 0" "clock_ready start mach s"
    "unat (reported mach s - start) < 4 * 10 ^ 15"
  shows "\<exists>s'. clock_gettime rnd (unit, unit) mach s =
      Some (0, \<lparr>tv_sec = int (unat (reported mach s - start) div 10 ^ 9),
                tv_sub = int (unat (reported mach s - start) mod 10 ^ 9)\<rparr>, s')
    \<and> clock_ready start mach s' \<and> mach_reads s < mach_reads s'"
proof -
  note n = nanoseconds_exact[OF assms(1,4)]
  have "unat unit < 2 ^ LENGTH(32)" by (rule unsigned_less)
  then have u: "unat unit \<le> 2 ^ 53" by simp
  have t: "rnd (rnd (real (unat unit)) / rnd (real (unat unit))) = 1"
  proof -
    have "real (unat unit) \<noteq> 0" using assms(2) by (simp add: unat_eq_0 del: of_nat_unat)
    then show ?thesis using rnd_nat[OF assms(1) u] rnd_nat[OF assms(1), of 1] by (simp del: of_nat_unat)
  qed
  show ?thesis
  proof (cases "orwl_timestart s = 0")
    case True
    then show ?thesis using assms(2,3) n t
      by (simp add: clock_gettime_def mach_absolute_time_def clock_ready_def reported_def)
  next
    case False
    then show ?thesis using assms(2,3) n
      by (simp add: clock_gettime_def mach_absolute_time_def clock_ready_def reported_def)
  qed
qed

theorem mac_clock_exact_witness:
  "\<exists>s'. clock_gettime id (1, 1) (\<lambda>i. 100 + 1500000000 * of_nat i) \<lparr>orwl_timebase = 0, orwl_timestart = 0, mach_reads = 0\<rparr>
      = Some (0, \<lparr>tv_sec = 1, tv_sub = 500000000\<rparr>, s')"
proof -
  let ?m = "\<lambda>i. 100 + 1500000000 * of_nat i :: 64 word" and ?s = "\<lparr>orwl_timebase = 0, orwl_timestart = 0, mach_reads = 0\<rparr>"
  have "rounds_to_double id" by (simp add: rounds_to_double_def mono_def)
  moreover have "clock_ready 100 ?m ?s" by (simp add: clock_ready_def)
  moreover have "unat (reported ?m ?s - 100) = 1500000000" by (simp add: reported_def)
  ultimately show ?thesis using mac_clock_exact[of id 1 100 ?m ?s] by auto
qed

end
