(* ===== verification/Apps_Win.thy ===== *)
theory Apps_Win
  imports Complex_Main Compat_Prelude
begin

text \<open>
  The platform code of the \<open>openssl\<close> application for Windows (\<open>apps/openssl/apps_win.c\<close>): its
  timers, the console set-up, and the alarm of the \<open>speed\<close> command, a thread that sleeps and then
  calls the handler. The two threads interleave: each step of \<open>alarm_step\<close> is one access to the
  static variables or one call of the system.

  Time is counted in milliseconds by \<open>clock_ms\<close>, which advances at any moment. The results of the
  system calls are free choices of the steps. Left out is only what the messages of the failures say.
\<close>

unbundle bit_operations_syntax

section \<open>Timers\<close>

text \<open>\<open>__int64\<close> and \<open>unsigned __int64\<close> at their width. A \<open>double\<close> is a real number; \<open>rnd\<close> rounds the
  exact result of a conversion or a division to one. \<open>None\<close> is the overflow of a signed subtraction.\<close>

record app_timers =
  real_start :: "64 word"
  tmstart :: "64 word"

definition app_timer_real :: "(real \<Rightarrow> real) \<Rightarrow> 64 word \<Rightarrow> bool \<Rightarrow> app_timers \<Rightarrow> (real \<times> app_timers) option" where
  "app_timer_real rnd tick get s =
     (if get
      then let d = sint tick - sint (real_start s) in
        if - (2 ^ 63) \<le> d \<and> d < 2 ^ 63 then Some (rnd (rnd (real_of_int d) / 1000), s) else None
      else Some (0, s\<lparr>real_start := tick\<rparr>))"

text \<open>\<open>ut\<close> and \<open>kt\<close> are the times spent in the user's code and in the kernel, in units of 100
  nanoseconds, as \<open>GetProcessTimes\<close> stores them.\<close>

definition app_timer_user :: "(real \<Rightarrow> real) \<Rightarrow> 64 word \<Rightarrow> 64 word \<Rightarrow> bool \<Rightarrow> app_timers \<Rightarrow> real \<times> app_timers" where
  "app_timer_user rnd ut kt stop s =
     (if stop then (rnd (rnd (real (unat (ut + kt - tmstart s))) / 10000000), s)
      else (0, s\<lparr>tmstart := ut + kt\<rparr>))"

text \<open>Two calls of a timer measure the time between them, across the wrap-around of the counter of
  the user's timer.\<close>

lemma app_timer_real_measures:
  assumes "t0 + d < 2 ^ 63"
  shows "\<exists>s'. app_timer_real rnd (of_nat t0) False s = Some (0, s')
    \<and> app_timer_real rnd (of_nat (t0 + d)) True s' = Some (rnd (rnd (real d) / 1000), s')"
proof -
  have "sint (of_nat n :: 64 word) = int n" if "n < 2 ^ 63" for n
    using that by (simp add: signed_of_nat signed_take_bit_int_eq_self)
  moreover have "t0 < 2 ^ 63" using assms by linarith
  ultimately have e: "sint (of_nat (t0 + d) :: 64 word) - sint (of_nat t0 :: 64 word) = int d"
    using assms by (simp del: of_nat_add)
  show ?thesis using assms by (simp add: app_timer_real_def Let_def e del: of_nat_add)
qed

lemma app_timer_user_measures:
  assumes "d < 2 ^ 64"
  shows "\<exists>s'. app_timer_user rnd u0 k0 False s = (0, s')
    \<and> (u1 + k1 = u0 + k0 + of_nat d \<longrightarrow> app_timer_user rnd u1 k1 True s' = (rnd (rnd (real d) / 10000000), s'))"
  using assms by (auto simp: app_timer_user_def unsigned_of_nat take_bit_nat_eq_self)

section \<open>The console\<close>

text \<open>The calls of libcrypto and of the C runtime that \<open>setup_ui\<close> and \<open>destroy_ui\<close> make;
  \<open>meth\<close> is what \<open>UI_create_method\<close> returned.\<close>

datatype ui_call =
  UI_create_method | UI_method_set_opener ptr | UI_method_set_reader ptr | UI_method_set_writer ptr
| UI_method_set_closer ptr | Setmode_binary nat | UI_destroy_method ptr

record app_ui =
  ui_method :: ptr
  ui_calls :: "ui_call list"

definition setup_ui :: "ptr \<Rightarrow> app_ui \<Rightarrow> int \<times> app_ui" where
  "setup_ui meth s =
     (0, s\<lparr>ui_method := meth,
       ui_calls := ui_calls s @
         [UI_create_method, UI_method_set_opener meth, UI_method_set_reader meth,
          UI_method_set_writer meth, UI_method_set_closer meth,
          Setmode_binary 0, Setmode_binary 1, Setmode_binary 2]\<rparr>)"

definition destroy_ui :: "app_ui \<Rightarrow> app_ui" where
  "destroy_ui s =
     (if ui_method s \<noteq> Null
      then s\<lparr>ui_calls := ui_calls s @ [UI_destroy_method (ui_method s)], ui_method := Null\<rparr>
      else s)"

text \<open>The method is destroyed once, however often \<open>destroy_ui\<close> is called.\<close>

lemma destroy_ui_once: "destroy_ui (destroy_ui s) = destroy_ui s"
  by (simp add: destroy_ui_def)

section \<open>The alarm of the speed command\<close>

text \<open>Where the two threads are. The thread that calls: outside, or at a statement of \<open>speed_alarm\<close>
  with its argument or of \<open>speed_alarm_free\<close>. The timer thread: at a statement of \<open>speed_timer\<close>,
  sleeping until a time, or over.\<close>

datatype main_point =
  Outside
| Set_lapse "32 word"
| Clear_lock "32 word"
| Create "32 word"
| Spin "32 word"
| Terminate
| Close
| Reset

datatype timer_point =
  No_timer | Take_lock | Read_lapse | Sleeping nat | Call_handler | Return_timer | Ended | Terminated

text \<open>\<open>armed\<close>, \<open>rings\<close> are not in the program: the time and the argument of the last alarm, and the
  calls of the handler it made, each with its time. The handler is a number for a function, null
  before \<open>speed_signal\<close>.\<close>

record alarm_state =
  speed_alarm_handler :: ptr
  speed_thread :: bool
  speed_lapse :: "32 word"
  speed_schlock :: "32 word"
  main_at :: main_point
  timer_at :: timer_point
  clock_ms :: nat
  exit_code :: "32 word option"
  crashed :: bool
  armed :: "(nat \<times> 32 word) option"
  rings :: "(nat \<times> nat) list"

definition speed_signal :: "nat \<Rightarrow> alarm_state \<Rightarrow> alarm_state" where
  "speed_signal func s = s\<lparr>speed_alarm_handler := Ref func\<rparr>"

text \<open>One step of \<open>speed_timer\<close>; \<open>None\<close> when it cannot move. \<open>Sleep\<close> returns at or after its time, never
  before. There is one \<open>timer_at\<close>: the thread of an earlier alarm that has called its handler only has to
  return, which changes nothing that is shared, and is forgotten when the next thread is created.\<close>

definition speed_timer :: "alarm_state \<Rightarrow> alarm_state option" where
  "speed_timer s =
     (case timer_at s of
        Take_lock \<Rightarrow> Some (s\<lparr>speed_schlock := 1, timer_at := Read_lapse\<rparr>)
      | Read_lapse \<Rightarrow> Some (s\<lparr>timer_at := Sleeping (clock_ms s + unat (speed_lapse s))\<rparr>)
      | Sleeping t \<Rightarrow> if t \<le> clock_ms s then Some (s\<lparr>timer_at := Call_handler\<rparr>) else None
      | Call_handler \<Rightarrow>
          (case speed_alarm_handler s of
             Null \<Rightarrow> Some (s\<lparr>crashed := True\<rparr>)
           | Ref f \<Rightarrow> Some (s\<lparr>rings := rings s @ [(f, clock_ms s)], timer_at := Return_timer\<rparr>))
      | Return_timer \<Rightarrow> Some (s\<lparr>timer_at := Ended\<rparr>)
      | _ \<Rightarrow> None)"

text \<open>One step of \<open>speed_alarm\<close>; \<open>failed\<close> is the error when \<open>CreateThread\<close> fails.\<close>

definition speed_alarm :: "32 word option \<Rightarrow> alarm_state \<Rightarrow> alarm_state option" where
  "speed_alarm failed s =
     (case main_at s of
        Set_lapse n \<Rightarrow> Some (s\<lparr>speed_lapse := n * 1000, main_at := Clear_lock n\<rparr>)
      | Clear_lock n \<Rightarrow> Some (s\<lparr>speed_schlock := 0, main_at := Create n\<rparr>)
      | Create n \<Rightarrow>
          (case failed of
             Some err \<Rightarrow> Some (s\<lparr>speed_thread := False, exit_code := Some err\<rparr>)
           | None \<Rightarrow> Some (s\<lparr>speed_thread := True, timer_at := Take_lock, main_at := Spin n,
               armed := Some (clock_ms s, n), rings := []\<rparr>))
      | Spin n \<Rightarrow> Some (if speed_schlock s = 0 then s else s\<lparr>main_at := Outside\<rparr>)
      | _ \<Rightarrow> None)"

text \<open>One step of \<open>speed_alarm_free\<close>; \<open>failed\<close> is the error of the call it makes.\<close>

definition speed_alarm_free :: "32 word option \<Rightarrow> alarm_state \<Rightarrow> alarm_state option" where
  "speed_alarm_free failed s =
     (case main_at s of
        Terminate \<Rightarrow>
          (case failed of
             Some err \<Rightarrow> Some (s\<lparr>exit_code := Some err\<rparr>)
           | None \<Rightarrow> Some (s\<lparr>timer_at := (if timer_at s = Ended then Ended else Terminated), main_at := Close\<rparr>))
      | Close \<Rightarrow>
          (case failed of
             Some err \<Rightarrow> Some (s\<lparr>exit_code := Some err\<rparr>)
           | None \<Rightarrow> Some (s\<lparr>main_at := Reset\<rparr>))
      | Reset \<Rightarrow> Some (s\<lparr>speed_thread := False, speed_lapse := 0, speed_schlock := 0, main_at := Outside\<rparr>)
      | _ \<Rightarrow> None)"

text \<open>The program: time passes, the timer thread runs, or the calling thread does. Outside, it sets the
  handler, sets an alarm when it has none, or frees the one it has. It says that the alarm is running
  unless the handler has been called, which is what the handler tells it. Nothing runs after
  \<open>ExitProcess\<close> or a crash.\<close>

definition running :: "alarm_state \<Rightarrow> bool" where
  "running s \<longleftrightarrow> exit_code s = None \<and> \<not> crashed s"

inductive alarm_step :: "alarm_state \<Rightarrow> alarm_state \<Rightarrow> bool" where
  tick: "running s \<Longrightarrow> alarm_step s (s\<lparr>clock_ms := clock_ms s + 1\<rparr>)"
| timer: "running s \<Longrightarrow> speed_timer s = Some s' \<Longrightarrow> alarm_step s s'"
| signal: "running s \<Longrightarrow> main_at s = Outside \<Longrightarrow> alarm_step s (speed_signal f s)"
| alarm: "running s \<Longrightarrow> main_at s = Outside \<Longrightarrow> \<not> speed_thread s \<Longrightarrow> speed_alarm_handler s \<noteq> Null
    \<Longrightarrow> alarm_step s (s\<lparr>main_at := Set_lapse n\<rparr>)"
| in_alarm: "running s \<Longrightarrow> speed_alarm failed s = Some s' \<Longrightarrow> alarm_step s s'"
| free: "running s \<Longrightarrow> main_at s = Outside \<Longrightarrow> speed_thread s \<Longrightarrow> run \<or> rings s \<noteq> []
    \<Longrightarrow> alarm_step s (s\<lparr>main_at := (if run then Terminate else Close)\<rparr>)"
| in_free: "running s \<Longrightarrow> speed_alarm_free failed s = Some s' \<Longrightarrow> alarm_step s s'"

definition alarm_initial :: alarm_state where
  "alarm_initial = \<lparr>speed_alarm_handler = Null, speed_thread = False, speed_lapse = 0, speed_schlock = 0,
     main_at = Outside, timer_at = No_timer, clock_ms = 0, exit_code = None, crashed = False,
     armed = None, rings = []\<rparr>"

inductive alarm_reachable :: "alarm_state \<Rightarrow> bool" where
  start: "alarm_reachable alarm_initial"
| step: "alarm_reachable s \<Longrightarrow> alarm_step s s' \<Longrightarrow> alarm_reachable s'"

section \<open>The invariant\<close>

text \<open>The timer thread is past the call of the handler, or has none to make.\<close>

definition timer_past :: "timer_point \<Rightarrow> bool" where
  "timer_past t \<longleftrightarrow> t \<in> {No_timer, Return_timer, Ended, Terminated}"

lemma timer_past_simps [simp]:
  "\<not> timer_past Take_lock" "\<not> timer_past Read_lapse" "\<not> timer_past (Sleeping t)" "\<not> timer_past Call_handler"
  "timer_past No_timer" "timer_past Return_timer" "timer_past Ended" "timer_past Terminated"
  by (simp_all add: timer_past_def)

text \<open>What the alarm that was set last has done and is going to do.\<close>

definition ring_inv :: "(nat \<times> 32 word) option \<Rightarrow> (nat \<times> nat) list \<Rightarrow> timer_point \<Rightarrow> bool \<Rightarrow> 32 word \<Rightarrow> nat \<Rightarrow> bool" where
  "ring_inv arm rang timer opened lapse now \<longleftrightarrow>
     (timer_past timer \<or> opened \<and> rang = [])
     \<and> (case arm of
          None \<Rightarrow> timer = No_timer \<and> rang = [] \<and> \<not> opened
        | Some (t0, n) \<Rightarrow>
            length rang \<le> 1 \<and> (\<forall>(f, t) \<in> set rang. t0 + unat (n * 1000) \<le> t)
            \<and> (case timer of
                 Take_lock \<Rightarrow> lapse = n * 1000 \<and> t0 \<le> now
               | Read_lapse \<Rightarrow> lapse = n * 1000 \<and> t0 \<le> now
               | Sleeping t \<Rightarrow> t0 + unat (n * 1000) \<le> t
               | Call_handler \<Rightarrow> t0 + unat (n * 1000) \<le> now
               | _ \<Rightarrow> True))"

text \<open>What holds at each statement of the calling thread.\<close>

definition main_inv :: "main_point \<Rightarrow> timer_point \<Rightarrow> bool \<Rightarrow> 32 word \<Rightarrow> 32 word \<Rightarrow> bool" where
  "main_inv m timer opened lapse lock \<longleftrightarrow>
     (case m of
        Outside \<Rightarrow> timer \<noteq> Take_lock
      | Set_lapse n \<Rightarrow> \<not> opened
      | Clear_lock n \<Rightarrow> \<not> opened \<and> lapse = n * 1000
      | Create n \<Rightarrow> \<not> opened \<and> lapse = n * 1000 \<and> lock = 0
      | Spin n \<Rightarrow> opened \<and> lock = (if timer = Take_lock then 0 else 1)
      | Terminate \<Rightarrow> opened \<and> timer \<noteq> Take_lock
      | _ \<Rightarrow> opened \<and> timer_past timer)"

definition alarm_inv :: "alarm_state \<Rightarrow> bool" where
  "alarm_inv s \<longleftrightarrow>
     \<not> crashed s
     \<and> (speed_alarm_handler s = Null \<longrightarrow> main_at s = Outside \<and> timer_at s = No_timer \<and> \<not> speed_thread s)
     \<and> main_inv (main_at s) (timer_at s) (speed_thread s) (speed_lapse s) (speed_schlock s)
     \<and> ring_inv (armed s) (rings s) (timer_at s) (speed_thread s) (speed_lapse s) (clock_ms s)"

lemma main_inv_started: "main_inv m Take_lock True lapse lock \<Longrightarrow> main_inv m Read_lapse True lapse 1"
  by (cases m) (auto simp: main_inv_def timer_past_def)

lemma main_inv_moves:
  "main_inv m t opened lapse lock \<Longrightarrow> t \<noteq> Take_lock \<Longrightarrow> t' \<noteq> Take_lock \<Longrightarrow> timer_past t \<longrightarrow> timer_past t' \<Longrightarrow>
    main_inv m t' opened lapse lock"
  by (cases m) (auto simp: main_inv_def)

lemma alarm_inv_timer:
  assumes "alarm_inv s" "speed_timer s = Some s'"
  shows "alarm_inv s'"
proof -
  have op: "timer_past (timer_at s) \<or> speed_thread s" using assms(1) by (auto simp: alarm_inv_def ring_inv_def)
  show ?thesis
  proof (cases "timer_at s")
    case Take_lock
    then show ?thesis using assms op
      by (auto simp: alarm_inv_def speed_timer_def timer_past_def main_inv_started) (auto simp: ring_inv_def timer_past_def split: option.splits)
  next
    case Read_lapse
    then show ?thesis using assms
      by (auto simp: alarm_inv_def speed_timer_def timer_past_def intro: main_inv_moves)
        (auto simp: ring_inv_def timer_past_def split: option.splits)
  next
    case (Sleeping t)
    then show ?thesis using assms
      by (auto simp: alarm_inv_def speed_timer_def timer_past_def intro: main_inv_moves split: if_splits)
        (auto simp: ring_inv_def timer_past_def split: option.splits)
  next
    case Call_handler
    then obtain f where "speed_alarm_handler s = Ref f"
      using assms(1) by (cases "speed_alarm_handler s") (auto simp: alarm_inv_def)
    then show ?thesis using assms Call_handler
      by (auto simp: alarm_inv_def speed_timer_def timer_past_def intro: main_inv_moves)
        (auto simp: ring_inv_def timer_past_def split: option.splits)
  next
    case Return_timer
    then show ?thesis using assms
      by (auto simp: alarm_inv_def speed_timer_def timer_past_def intro: main_inv_moves)
        (auto simp: ring_inv_def timer_past_def split: option.splits)
  qed (use assms in \<open>simp_all add: speed_timer_def\<close>)
qed

lemma ring_inv_stop:
  "ring_inv arm rang t True lapse now \<Longrightarrow> timer_past t' \<Longrightarrow> ring_inv arm rang t' opened' lapse' now"
  by (cases arm) (auto simp: ring_inv_def timer_past_def)

lemma ring_inv_lapse: "ring_inv arm rang t False lapse now \<Longrightarrow> ring_inv arm rang t False lapse' now"
  by (cases arm) (auto simp: ring_inv_def timer_past_def)

lemma ring_inv_new: "ring_inv (Some (now, n)) [] Take_lock True (n * 1000) now"
  by (simp add: ring_inv_def)

lemma alarm_inv_alarm:
  assumes "alarm_inv s" "speed_alarm failed s = Some s'"
  shows "alarm_inv s'"
  using assms
  by (cases "main_at s"; cases failed)
    (auto simp: alarm_inv_def speed_alarm_def main_inv_def ring_inv_new split: if_splits intro: ring_inv_lapse)

lemma alarm_inv_free:
  assumes "alarm_inv s" "speed_alarm_free failed s = Some s'"
  shows "alarm_inv s'"
proof -
  have stop: "timer_past (if timer_at s = Ended then Ended else Terminated)" by (simp add: timer_past_def)
  show ?thesis using assms stop
    by (cases "main_at s"; cases failed)
      (auto simp: alarm_inv_def speed_alarm_free_def main_inv_def intro: ring_inv_stop)
qed

lemma ring_inv_tick: "ring_inv arm rang timer opened lapse now \<Longrightarrow> ring_inv arm rang timer opened lapse (Suc now)"
  by (cases arm; cases timer) (auto simp: ring_inv_def)

lemma alarm_inv_tick: "alarm_inv s \<Longrightarrow> alarm_inv (s\<lparr>clock_ms := clock_ms s + 1\<rparr>)"
  by (cases "main_at s") (auto simp: alarm_inv_def ring_inv_tick)

lemma alarm_inv_signal: "alarm_inv s \<Longrightarrow> alarm_inv (speed_signal f s)"
  by (cases "main_at s") (auto simp: alarm_inv_def speed_signal_def)

lemma alarm_inv_call:
  "alarm_inv s \<Longrightarrow> main_at s = Outside \<Longrightarrow> \<not> speed_thread s \<Longrightarrow> speed_alarm_handler s \<noteq> Null \<Longrightarrow>
    alarm_inv (s\<lparr>main_at := Set_lapse n\<rparr>)"
  by (simp add: alarm_inv_def main_inv_def)

lemma alarm_inv_call_free:
  "alarm_inv s \<Longrightarrow> main_at s = Outside \<Longrightarrow> speed_thread s \<Longrightarrow> run \<or> rings s \<noteq> [] \<Longrightarrow>
    alarm_inv (s\<lparr>main_at := (if run then Terminate else Close)\<rparr>)"
  by (cases run) (auto simp: alarm_inv_def main_inv_def, simp_all add: ring_inv_def)

lemma alarm_inv_step: "alarm_step s s' \<Longrightarrow> alarm_inv s \<Longrightarrow> alarm_inv s'"
proof (induction rule: alarm_step.induct)
  case (tick s)
  then show ?case by (intro alarm_inv_tick)
next
  case (timer s s')
  then show ?case by (blast intro: alarm_inv_timer)
next
  case (signal s f)
  then show ?case by (intro alarm_inv_signal)
next
  case (alarm s n)
  then show ?case by (intro alarm_inv_call)
next
  case (in_alarm s failed s')
  then show ?case by (blast intro: alarm_inv_alarm)
next
  case (free s run)
  then show ?case by (intro alarm_inv_call_free)
next
  case (in_free s failed s')
  then show ?case by (blast intro: alarm_inv_free)
qed

lemma alarm_inv_reachable: "alarm_reachable s \<Longrightarrow> alarm_inv s"
proof (induction rule: alarm_reachable.induct)
  case start
  show ?case by (simp add: alarm_inv_def main_inv_def ring_inv_def alarm_initial_def timer_past_def)
next
  case (step s s')
  then show ?case using alarm_inv_step by blast
qed

section \<open>The alarm rings\<close>

text \<open>The timer thread alone, while time passes.\<close>

lemma alarm_wait: "running s \<Longrightarrow> alarm_step\<^sup>*\<^sup>* s (s\<lparr>clock_ms := clock_ms s + n\<rparr>)"
proof (induction n)
  case (Suc n)
  have "alarm_step (s\<lparr>clock_ms := clock_ms s + n\<rparr>) (s\<lparr>clock_ms := clock_ms s + n\<rparr>\<lparr>clock_ms := clock_ms s + n + 1\<rparr>)"
    using alarm_step.tick [of "s\<lparr>clock_ms := clock_ms s + n\<rparr>"] Suc.prems by (simp add: running_def)
  then show ?case using Suc by (auto intro: rtranclp.rtrancl_into_rtrancl)
qed simp

lemma alarm_timer_step: "running s \<Longrightarrow> speed_timer s = Some s' \<Longrightarrow> alarm_step\<^sup>*\<^sup>* s' u \<Longrightarrow> alarm_step\<^sup>*\<^sup>* s u"
  by (blast intro: alarm_step.timer converse_rtranclp_into_rtranclp)

text \<open>The states on the way to the call of the handler \<open>f\<close>; \<open>ring_later\<close> is what it leads to.\<close>

definition ring_later :: "nat \<Rightarrow> alarm_state \<Rightarrow> bool" where
  "ring_later f s \<longleftrightarrow> (\<exists>s' t. alarm_step\<^sup>*\<^sup>* s s' \<and> main_at s' = main_at s \<and> rings s' = rings s @ [(f, t)])"

lemma ring_call:
  assumes "running s" "speed_alarm_handler s = Ref f" "timer_at s = Call_handler"
  shows "ring_later f s"
proof -
  let ?s = "s\<lparr>rings := rings s @ [(f, clock_ms s)], timer_at := Return_timer\<rparr>"
  have "alarm_step\<^sup>*\<^sup>* s ?s"
    by (rule alarm_timer_step [OF assms(1) _ rtranclp.rtrancl_refl]) (use assms in \<open>simp add: speed_timer_def\<close>)
  then show ?thesis unfolding ring_later_def by (intro exI [of _ ?s] exI [of _ "clock_ms s"]) simp
qed

lemma ring_later_step:
  assumes "alarm_step\<^sup>*\<^sup>* s s'" "ring_later f s'" "main_at s' = main_at s" "rings s' = rings s"
  shows "ring_later f s"
  using assms unfolding ring_later_def by (metis rtranclp_trans)

lemma ring_sleeping:
  assumes "running s" "speed_alarm_handler s = Ref f" "timer_at s = Sleeping t"
  shows "ring_later f s"
proof -
  let ?w = "s\<lparr>clock_ms := clock_ms s + (t - clock_ms s)\<rparr>"
  let ?c = "?w\<lparr>timer_at := Call_handler\<rparr>"
  have w: "running ?w" "timer_at ?w = Sleeping t" "t \<le> clock_ms ?w" using assms by (simp_all add: running_def)
  have "alarm_step\<^sup>*\<^sup>* ?w ?c"
    by (rule alarm_timer_step [OF w(1) _ rtranclp.rtrancl_refl]) (use w in \<open>simp add: speed_timer_def\<close>)
  then have "alarm_step\<^sup>*\<^sup>* s ?c" using alarm_wait [OF assms(1)] by (meson rtranclp_trans)
  moreover have "ring_later f ?c" by (rule ring_call) (use assms in \<open>simp_all add: running_def\<close>)
  ultimately show ?thesis by (rule ring_later_step) simp_all
qed

lemma ring_read:
  assumes "running s" "speed_alarm_handler s = Ref f" "timer_at s = Read_lapse"
  shows "ring_later f s"
proof -
  let ?s = "s\<lparr>timer_at := Sleeping (clock_ms s + unat (speed_lapse s))\<rparr>"
  have "alarm_step\<^sup>*\<^sup>* s ?s"
    by (rule alarm_timer_step [OF assms(1) _ rtranclp.rtrancl_refl]) (use assms in \<open>simp add: speed_timer_def\<close>)
  moreover have "ring_later f ?s" by (rule ring_sleeping) (use assms in \<open>simp_all add: running_def\<close>)
  ultimately show ?thesis by (rule ring_later_step) simp_all
qed

lemma ring_start:
  assumes "running s" "speed_alarm_handler s = Ref f" "timer_at s = Take_lock"
  shows "ring_later f s"
proof -
  let ?s = "s\<lparr>speed_schlock := 1, timer_at := Read_lapse\<rparr>"
  have "alarm_step\<^sup>*\<^sup>* s ?s"
    by (rule alarm_timer_step [OF assms(1) _ rtranclp.rtrancl_refl]) (use assms in \<open>simp add: speed_timer_def\<close>)
  moreover have "ring_later f ?s" by (rule ring_read) (use assms in \<open>simp_all add: running_def\<close>)
  ultimately show ?thesis by (rule ring_later_step) simp_all
qed

lemma ring_ok:
  assumes "alarm_reachable s" "running s" "\<not> timer_past (timer_at s)"
  shows "\<exists>f. ring_later f s"
proof -
  have "speed_alarm_handler s \<noteq> Null"
    using alarm_inv_reachable [OF assms(1)] assms(3) by (auto simp: alarm_inv_def timer_past_def)
  then obtain f where "speed_alarm_handler s = Ref f" by (cases "speed_alarm_handler s") auto
  then show ?thesis
    using assms(2,3) ring_start [of s f] ring_read [of s f] ring_sleeping [of s f] ring_call [of s f]
    by (cases "timer_at s") (auto simp: timer_past_def)
qed

lemma spin_ok:
  assumes "alarm_reachable s" "running s" "main_at s = Spin n"
  shows "\<exists>s'. alarm_step\<^sup>*\<^sup>* s s' \<and> main_at s' = Outside"
proof -
  have inv: "alarm_inv s" using alarm_inv_reachable assms(1) .
  obtain s1 where s1: "alarm_step\<^sup>*\<^sup>* s s1" "running s1" "main_at s1 = Spin n" "speed_schlock s1 = 1"
  proof (cases "timer_at s = Take_lock")
    case True
    show ?thesis
    proof (rule that [of "s\<lparr>speed_schlock := 1, timer_at := Read_lapse\<rparr>"])
      show "alarm_step\<^sup>*\<^sup>* s (s\<lparr>speed_schlock := 1, timer_at := Read_lapse\<rparr>)"
        by (rule alarm_timer_step [OF assms(2) _ rtranclp.rtrancl_refl]) (use True in \<open>simp add: speed_timer_def\<close>)
    qed (use assms in \<open>simp_all add: running_def\<close>)
  next
    case False
    then show ?thesis using that [of s] inv assms by (auto simp: alarm_inv_def main_inv_def)
  qed
  have "speed_alarm None s1 = Some (s1\<lparr>main_at := Outside\<rparr>)" using s1 by (simp add: speed_alarm_def)
  then have "alarm_step s1 (s1\<lparr>main_at := Outside\<rparr>)" using alarm_step.in_alarm [OF s1(2)] by blast
  then show ?thesis using s1(1) by (intro exI [of _ "s1\<lparr>main_at := Outside\<rparr>"]) (auto intro: rtranclp.rtrancl_into_rtrancl)
qed

section \<open>Properties\<close>

text \<open>A run for the witnesses: an alarm of one second, set at time 0, that has rung.\<close>

definition alarm_demo :: "main_point \<Rightarrow> timer_point \<Rightarrow> 32 word \<Rightarrow> nat \<Rightarrow> (nat \<times> nat) list \<Rightarrow> alarm_state" where
  "alarm_demo m t lock now rang =
     \<lparr>speed_alarm_handler = Ref 7, speed_thread = True, speed_lapse = 1000, speed_schlock = lock, main_at = m,
       timer_at = t, clock_ms = now, exit_code = None, crashed = False, armed = Some (0, 1), rings = rang\<rparr>"

lemma alarm_demo_set: "alarm_reachable (alarm_demo (Spin 1) Take_lock 0 0 [])"
proof -
  note n = running_def alarm_initial_def speed_signal_def speed_alarm_def
  let ?s1 = "speed_signal 7 alarm_initial"
  let ?s2 = "?s1\<lparr>main_at := Set_lapse 1\<rparr>"
  let ?s3 = "?s2\<lparr>speed_lapse := 1000, main_at := Clear_lock 1\<rparr>"
  let ?s4 = "?s3\<lparr>speed_schlock := 0, main_at := Create 1\<rparr>"
  have 1: "alarm_reachable ?s1"
    by (rule alarm_reachable.step [OF alarm_reachable.start alarm_step.signal]) (simp_all add: n)
  have 2: "alarm_reachable ?s2" by (rule alarm_reachable.step [OF 1 alarm_step.alarm]) (simp_all add: n)
  have 3: "alarm_reachable ?s3"
    by (rule alarm_reachable.step [OF 2 alarm_step.in_alarm [of _ None]]) (simp_all add: n)
  have 4: "alarm_reachable ?s4"
    by (rule alarm_reachable.step [OF 3 alarm_step.in_alarm [of _ None]]) (simp_all add: n)
  show ?thesis
    by (rule alarm_reachable.step [OF 4 alarm_step.in_alarm [of _ None]]) (simp_all add: n alarm_demo_def)
qed

lemma alarm_reachable_steps: "alarm_step\<^sup>*\<^sup>* s s' \<Longrightarrow> alarm_reachable s \<Longrightarrow> alarm_reachable s'"
  by (induction rule: rtranclp_induct) (auto intro: alarm_reachable.step)

lemma alarm_demo_rung: "alarm_reachable (alarm_demo Outside Return_timer 1 1000 [(7, 1000)])"
proof -
  note n = running_def speed_timer_def speed_alarm_def alarm_demo_def
  have 1: "alarm_reachable (alarm_demo (Spin 1) Read_lapse 1 0 [])"
    by (rule alarm_reachable.step [OF alarm_demo_set alarm_step.timer]) (simp_all add: n)
  have 2: "alarm_reachable (alarm_demo Outside Read_lapse 1 0 [])"
    by (rule alarm_reachable.step [OF 1 alarm_step.in_alarm [of _ None]]) (simp_all add: n)
  have 3: "alarm_reachable (alarm_demo Outside (Sleeping 1000) 1 0 [])"
    by (rule alarm_reachable.step [OF 2 alarm_step.timer]) (simp_all add: n)
  have "alarm_demo Outside (Sleeping 1000) 1 1000 []
      = (alarm_demo Outside (Sleeping 1000) 1 0 [])\<lparr>clock_ms := clock_ms (alarm_demo Outside (Sleeping 1000) 1 0 []) + 1000\<rparr>"
    by (simp add: alarm_demo_def)
  then have 4: "alarm_reachable (alarm_demo Outside (Sleeping 1000) 1 1000 [])"
    using alarm_reachable_steps [OF alarm_wait 3, of 1000] by (simp add: running_def alarm_demo_def)
  have 5: "alarm_reachable (alarm_demo Outside Call_handler 1 1000 [])"
    by (rule alarm_reachable.step [OF 4 alarm_step.timer]) (simp_all add: n)
  show ?thesis
    by (rule alarm_reachable.step [OF 5 alarm_step.timer]) (simp_all add: n)
qed

text \<open>C18. The alarm of the speed command, in every interleaving of the two threads, whatever system
  call fails: the handler is never a null pointer, it is called at most once for an alarm and not before
  the alarm's seconds, as 32-bit milliseconds, have passed; \<open>speed_alarm\<close> returns only when its thread
  has started, and after \<open>speed_alarm_free\<close> no handler is going to be called.\<close>

theorem alarm_rings_once_in_time:
  assumes "alarm_reachable s"
  shows "\<not> crashed s
    \<and> (armed s = None \<longrightarrow> rings s = [])
    \<and> (\<forall>t0 n. armed s = Some (t0, n) \<longrightarrow>
        length (rings s) \<le> 1 \<and> (\<forall>(f, t) \<in> set (rings s). t0 + unat (n * 1000) \<le> t))
    \<and> (main_at s = Outside \<longrightarrow> timer_at s \<noteq> Take_lock)
    \<and> (main_at s = Outside \<and> \<not> speed_thread s \<longrightarrow> timer_past (timer_at s))"
  using alarm_inv_reachable [OF assms] by (auto simp: alarm_inv_def ring_inv_def main_inv_def split: option.splits)

theorem alarm_rings_once_in_time_witness:
  "armed (alarm_demo Outside Return_timer 1 1000 [(7, 1000)]) = Some (0, 1)
    \<and> length (rings (alarm_demo Outside Return_timer 1 1000 [(7, 1000)])) \<le> 1
    \<and> list_all (\<lambda>(f, t). 0 + unat ((1 :: 32 word) * 1000) \<le> t) (rings (alarm_demo Outside Return_timer 1 1000 [(7, 1000)]))"
  using alarm_rings_once_in_time [OF alarm_demo_rung] by (simp add: alarm_demo_def)

text \<open>Neither thread is stuck: while \<open>speed_alarm\<close> waits for its thread, it can return; and the
  handler of an alarm that is set and left alone is called.\<close>

theorem alarm_progress:
  assumes "alarm_reachable s" "exit_code s = None"
  shows "(\<forall>n. main_at s = Spin n \<longrightarrow> (\<exists>s'. alarm_step\<^sup>*\<^sup>* s s' \<and> main_at s' = Outside))
    \<and> (\<not> timer_past (timer_at s) \<longrightarrow>
        (\<exists>s' f t. alarm_step\<^sup>*\<^sup>* s s' \<and> main_at s' = main_at s \<and> rings s' = rings s @ [(f, t)]))"
proof -
  have "running s" using assms alarm_inv_reachable [OF assms(1)] by (simp add: running_def alarm_inv_def)
  then show ?thesis using spin_ok [OF assms(1)] ring_ok [OF assms(1)] unfolding ring_later_def by blast
qed

theorem alarm_progress_witness:
  "(\<exists>s'. alarm_step\<^sup>*\<^sup>* (alarm_demo (Spin 1) Take_lock 0 0 []) s' \<and> main_at s' = Outside)
    \<and> (\<exists>s' f t. alarm_step\<^sup>*\<^sup>* (alarm_demo (Spin 1) Take_lock 0 0 []) s' \<and> rings s' = [(f, t)])"
  using alarm_progress [OF alarm_demo_set] by (auto simp: alarm_demo_def timer_past_def)

end
