(* ===== verification/Socket_Pair.thy ===== *)
theory Socket_Pair
  imports Compat_Prelude Descriptor_IO
begin

text \<open>
  The emulation of \<open>socketpair\<close> for Windows (\<open>tests/compat/socketpair.c\<close>; \<open>pipe2.c\<close>): two sockets joined over a
  listener on the loopback address, the check that the connection accepted is the one made, the
  cleaning up behind every call that can fail, and the descriptors it reserves so that no file gets
  the number of a socket. Then \<open>bsd_socketpair\<close>, and \<open>pipe\<close> and \<open>bsd_pipe2\<close>, which set flags on both;
  they are over \<open>socketpair\<close> without the descriptors, which \<open>socketpair_reserving\<close> adds.

  Winsock is the state \<open>wsock_state\<close>, the results of its calls the record \<open>pair_calls\<close>, one
  field for each call in the order of the code: \<open>Inl\<close> an error, or \<open>Inr\<close> what the system chose.
\<close>

unbundle bit_operations_syntax

section \<open>Winsock\<close>

record sockaddr_in =
  sin_family :: int
  sin_addr :: "32 word"
  sin_port :: "16 word"

record wsock =
  local_addr :: sockaddr_in
  peer_addr :: sockaddr_in
  listening :: bool
  blocking :: bool
  inherited :: bool

record wsock_state =
  socks :: "int \<Rightarrow> wsock option"
  last_error :: int

record pair_calls =
  c_socket :: "int + int"
  c_exclusive :: "int option"
  c_bind :: "int + 16 word"
  c_getsockname :: "int option"
  c_listen :: "int option"
  c_wsasocket :: "int + int"
  c_connect :: "int + 16 word"
  c_accept :: "int + int \<times> sockaddr_in"
  c_self :: "int option"
  c_peer :: "int option"

definition AF_UNIX :: int where "AF_UNIX = 1"

definition AF_INET :: int where "AF_INET = 2"

definition PF_UNSPEC :: int where "PF_UNSPEC = 0"

definition SOCK_STREAM :: "32 word" where "SOCK_STREAM = 1"

definition WSAECONNREFUSED :: int where "WSAECONNREFUSED = 10061"

definition WSAENOTSOCK :: int where "WSAENOTSOCK = 10038"

text \<open>The loopback address in network order, and an address of no host.\<close>

definition INADDR_LOOPBACK :: "32 word" where "INADDR_LOOPBACK = 0x0100007F"

definition no_addr :: sockaddr_in where
  "no_addr = \<lparr>sin_family = 0, sin_addr = 0, sin_port = 0\<rparr>"

definition blank_sock :: wsock where
  "blank_sock = \<lparr>local_addr = no_addr, peer_addr = no_addr, listening = False,
     blocking = True, inherited = True\<rparr>"

definition set_error :: "int \<Rightarrow> wsock_state \<Rightarrow> wsock_state" where
  "set_error e s = s\<lparr>last_error := e\<rparr>"

text \<open>Closing what is not an open socket fails and sets the error.\<close>

definition closesocket :: "int \<Rightarrow> wsock_state \<Rightarrow> wsock_state" where
  "closesocket h s =
     (if socks s h = None then set_error WSAENOTSOCK s else s\<lparr>socks := (socks s)(h := None)\<rparr>)"

definition change_sock :: "(wsock \<Rightarrow> wsock) \<Rightarrow> int \<Rightarrow> wsock_state \<Rightarrow> wsock_state" where
  "change_sock f h s = s\<lparr>socks := (socks s)(h := map_option f (socks s h))\<rparr>"

definition new_sock :: "int + int \<Rightarrow> wsock_state \<Rightarrow> int \<times> wsock_state" where
  "new_sock r s =
     (case r of
        Inl e \<Rightarrow> (-1, set_error e s)
      | Inr h \<Rightarrow> (h, s\<lparr>socks := (socks s)(h \<mapsto> blank_sock)\<rparr>))"

text \<open>A call that only fails or succeeds.\<close>

definition simple_call :: "int option \<Rightarrow> wsock_state \<Rightarrow> bool \<times> wsock_state" where
  "simple_call r s = (case r of Some e \<Rightarrow> (False, set_error e s) | None \<Rightarrow> (True, s))"

definition bind :: "int + 16 word \<Rightarrow> int \<Rightarrow> sockaddr_in \<Rightarrow> wsock_state \<Rightarrow> bool \<times> wsock_state" where
  "bind r h addr s =
     (case r of
        Inl e \<Rightarrow> (False, set_error e s)
      | Inr port \<Rightarrow>
          (True, change_sock (\<lambda>k. k\<lparr>local_addr := addr\<lparr>sin_port := (if sin_port addr = 0 then port else sin_port addr)\<rparr>\<rparr>) h s))"

definition listen :: "int option \<Rightarrow> int \<Rightarrow> wsock_state \<Rightarrow> bool \<times> wsock_state" where
  "listen r h s =
     (case r of Some e \<Rightarrow> (False, set_error e s) | None \<Rightarrow> (True, change_sock (\<lambda>k. k\<lparr>listening := True\<rparr>) h s))"

text \<open>A connecting socket gets the loopback address and a port of the system's choice.\<close>

definition connect :: "int + 16 word \<Rightarrow> int \<Rightarrow> sockaddr_in \<Rightarrow> wsock_state \<Rightarrow> bool \<times> wsock_state" where
  "connect r h addr s =
     (case r of
        Inl e \<Rightarrow> (False, set_error e s)
      | Inr port \<Rightarrow>
          (True, change_sock (\<lambda>k. k\<lparr>peer_addr := addr,
             local_addr := \<lparr>sin_family = AF_INET, sin_addr = INADDR_LOOPBACK, sin_port = port\<rparr>\<rparr>) h s))"

text \<open>The connection accepted is from any address: another process can be faster.\<close>

definition accept :: "int + int \<times> sockaddr_in \<Rightarrow> int \<Rightarrow> wsock_state \<Rightarrow> int \<times> wsock_state" where
  "accept r listener s =
     (case r of
        Inl e \<Rightarrow> (-1, set_error e s)
      | Inr (h, from) \<Rightarrow>
          (h, s\<lparr>socks := (socks s)(h \<mapsto> blank_sock\<lparr>peer_addr := from,
                 local_addr := (case socks s listener of Some k \<Rightarrow> local_addr k | None \<Rightarrow> no_addr)\<rparr>)\<rparr>))"

definition getsockname :: "int option \<Rightarrow> int \<Rightarrow> wsock_state \<Rightarrow> sockaddr_in option \<times> wsock_state" where
  "getsockname r h s =
     (case r of
        Some e \<Rightarrow> (None, set_error e s)
      | None \<Rightarrow> (map_option local_addr (socks s h), s))"

definition getpeername :: "int option \<Rightarrow> int \<Rightarrow> wsock_state \<Rightarrow> sockaddr_in option \<times> wsock_state" where
  "getpeername r h s =
     (case r of
        Some e \<Rightarrow> (None, set_error e s)
      | None \<Rightarrow> (map_option peer_addr (socks s h), s))"

section \<open>Descriptors that are in the way\<close>

text \<open>The descriptors of the C runtime that are in use, at most \<open>limit\<close>; \<open>_open\<close> takes the least free
  one. \<open>conin\<close>: whether \<open>CONIN$\<close> can be opened.\<close>

definition crt_open :: "nat \<Rightarrow> bool \<Rightarrow> nat list \<Rightarrow> int \<times> nat list" where
  "crt_open limit conin fds =
     (case find (\<lambda>i. i \<notin> set fds) [0..<limit] of
        Some fd \<Rightarrow> if conin then (int fd, fd # fds) else (-1, fds)
      | None \<Rightarrow> (-1, fds))"

definition crt_close :: "int \<Rightarrow> nat list \<Rightarrow> nat list" where
  "crt_close fd fds = removeAll (nat fd) fds"

partial_function (option) create_issue_1069_sentinels ::
    "nat \<Rightarrow> bool \<Rightarrow> int \<Rightarrow> int \<Rightarrow> nat list \<Rightarrow> nat list option" where
  "create_issue_1069_sentinels limit conin sv0 sv1 fds = (
     let (fd, fds) = crt_open limit conin fds
     in if fd = -1 \<or> (fd > sv0 \<and> fd > sv1) then Some fds
        else do {
          fds \<leftarrow> create_issue_1069_sentinels limit conin sv0 sv1 fds;
          Some (if fd \<noteq> sv0 \<and> fd \<noteq> sv1 then crt_close fd fds else fds)
        })"

section \<open>\<open>socketpair\<close>\<close>

text \<open>The label \<open>err\<close>: the result, the vector and the state.\<close>

definition pair_err :: "int \<Rightarrow> int \<Rightarrow> int \<Rightarrow> wsock_state \<Rightarrow> int \<times> (int \<times> int) \<times> wsock_state" where
  "pair_err listener sv0 sv1 s =
     (let e = last_error s;
          s = closesocket listener s;
          s = closesocket sv0 s;
          s = closesocket sv1 s
      in (-1, (-1, -1), set_error e s))"

text \<open>Behind the connection: are the two halves each other's peer?\<close>

definition pair_check :: "pair_calls \<Rightarrow> int \<Rightarrow> int \<Rightarrow> int \<Rightarrow> wsock_state \<Rightarrow> int \<times> (int \<times> int) \<times> wsock_state" where
  "pair_check r listener sv0 sv1 s =
     (let (self, s) = getsockname (c_self r) sv0 s
      in case self of
        None \<Rightarrow> pair_err listener sv0 sv1 s
      | Some self \<Rightarrow>
          let (peer, s) = getpeername (c_peer r) sv1 s
          in case peer of
            None \<Rightarrow> pair_err listener sv0 sv1 s
          | Some peer \<Rightarrow>
              if sin_family self \<noteq> sin_family peer \<or> sin_addr self \<noteq> sin_addr peer \<or> sin_port self \<noteq> sin_port peer
              then pair_err listener sv0 sv1 (set_error WSAECONNREFUSED s)
              else (0, (sv0, sv1), closesocket listener s))"

text \<open>From the listening socket to the connection accepted; \<open>port\<close> is that of the listener.\<close>

definition pair_join :: "pair_calls \<Rightarrow> int \<Rightarrow> 16 word \<Rightarrow> wsock_state \<Rightarrow> int \<times> (int \<times> int) \<times> wsock_state" where
  "pair_join r listener port s =
     (let addr = \<lparr>sin_family = AF_INET, sin_addr = INADDR_LOOPBACK, sin_port = port\<rparr>;
          (ok, s) = listen (c_listen r) listener s
      in if \<not> ok then pair_err listener (-1) (-1) s
      else let (sv0, s) = new_sock (c_wsasocket r) s
      in if sv0 = -1 then pair_err listener sv0 (-1) s
      else let (ok, s) = connect (c_connect r) sv0 addr s
      in if \<not> ok then pair_err listener sv0 (-1) s
      else let (sv1, s) = accept (c_accept r) listener s
      in if sv1 = -1 then pair_err listener sv0 sv1 s
      else pair_check r listener sv0 sv1 s)"

text \<open>The vector is \<open>None\<close> while it is not assigned. \<open>socketpair\<close> is the function up to the call of
  \<open>create_issue_1069_sentinels\<close>, which ends it after success; \<open>socketpair_reserving\<close> is the whole.\<close>

definition socketpair ::
    "pair_calls \<Rightarrow> int \<Rightarrow> 32 word \<Rightarrow> int \<Rightarrow> wsock_state \<Rightarrow> int \<times> (int \<times> int) option \<times> wsock_state" where
  "socketpair r domain type protocol s =
     (if domain \<noteq> AF_UNIX \<or> type AND SOCK_STREAM = 0 \<or> protocol \<noteq> PF_UNSPEC then (-1, None, s)
      else let (listener, s) = new_sock (c_socket r) s
      in if listener = -1 then (-1, Some (-1, -1), s)
      else let (rc, sv, s) =
          (let (ok, s) = simple_call (c_exclusive r) s
           in if \<not> ok then pair_err listener (-1) (-1) s
           else let (ok, s) = bind (c_bind r) listener
                      \<lparr>sin_family = AF_INET, sin_addr = INADDR_LOOPBACK, sin_port = 0\<rparr> s
           in if \<not> ok then pair_err listener (-1) (-1) s
           else let (addr, s) = getsockname (c_getsockname r) listener s
           in case addr of
             None \<Rightarrow> pair_err listener (-1) (-1) s
           | Some addr \<Rightarrow> pair_join r listener (sin_port addr) s)
      in (rc, Some sv, s))"

definition socketpair_reserving ::
    "nat \<Rightarrow> bool \<Rightarrow> pair_calls \<Rightarrow> int \<Rightarrow> 32 word \<Rightarrow> int \<Rightarrow> wsock_state \<times> nat list
      \<Rightarrow> (int \<times> (int \<times> int) option \<times> wsock_state \<times> nat list) option" where
  "socketpair_reserving limit conin r domain type protocol = (\<lambda>(s, fds).
     case socketpair r domain type protocol s of
       (rc, sv, s) \<Rightarrow>
         (case sv of
            Some (sv0, sv1) \<Rightarrow>
              if rc = 0 then do {
                fds \<leftarrow> create_issue_1069_sentinels limit conin sv0 sv1 fds;
                Some (rc, sv, s, fds)
              }
              else Some (rc, sv, s, fds)
          | None \<Rightarrow> Some (rc, sv, s, fds)))"

section \<open>\<open>bsd_socketpair\<close>\<close>

text \<open>The flags that \<open>bsd_socketpair\<close> takes in the type beside its low four bits. \<open>O_NONBLOCK\<close> and
  \<open>FD_CLOEXEC\<close> are two distinct bits of \<open>fcntl\<close>; each call sets one flag of one socket or fails
  with an error (\<open>ioctlsocket\<close> that of Winsock).\<close>

definition O_NONBLOCK :: "32 word" where "O_NONBLOCK = 0x100000"

definition O_CLOEXEC :: "32 word" where "O_CLOEXEC = 0x200000"

definition ERRNO_NOTSOCK :: int where "ERRNO_NOTSOCK = 128"

definition setfd :: "bool \<Rightarrow> int \<Rightarrow> 32 word \<Rightarrow> wsock_state \<Rightarrow> int \<times> wsock_state" where
  "setfd ok fd flag s =
     (if flag AND FD_CLOEXEC \<noteq> 0
      then if ok then (0, change_sock (\<lambda>k. k\<lparr>inherited := False\<rparr>) fd s) else (-1, s)
      else (-1, s))"

definition setfl :: "int option \<Rightarrow> int \<Rightarrow> 32 word \<Rightarrow> wsock_state \<Rightarrow> int \<times> wsock_state" where
  "setfl r fd flag s =
     (if flag AND O_NONBLOCK \<noteq> 0
      then (case r of
          None \<Rightarrow> (0, change_sock (\<lambda>k. k\<lparr>blocking := False\<rparr>) fd s)
        | Some e \<Rightarrow> (-1, set_error e s))
      else (-1, s))"

text \<open>\<open>close\<close> is \<open>posix_close\<close> here: it closes a socket, and a failure sets \<open>errno\<close>.\<close>

definition close_half :: "int \<Rightarrow> wsock_state \<times> int \<Rightarrow> wsock_state \<times> int" where
  "close_half h = (\<lambda>(s, en). (closesocket h s, if socks s h = None then ERRNO_NOTSOCK else en))"

text \<open>The results of the four calls that set flags, then the socket pair; \<open>en\<close> is \<open>errno\<close>.\<close>

definition set_pair_flags ::
    "int option \<times> int option \<Rightarrow> bool \<times> bool \<Rightarrow> bool \<Rightarrow> bool \<Rightarrow> int \<Rightarrow> int \<Rightarrow> wsock_state \<Rightarrow> int
      \<Rightarrow> int \<times> wsock_state \<times> int" where
  "set_pair_flags nb ce nonblock cloexec sv0 sv1 s en =
     (let (rc, s) =
            (if nonblock then
               (let (x, s) = setfl (fst nb) sv0 O_NONBLOCK s; rc = 0 OR x;
                    (x, s) = setfl (snd nb) sv1 O_NONBLOCK s
                in (rc OR x, s))
             else (0, s));
          (rc, s) =
            (if cloexec then
               (let (x, s) = setfd (fst ce) sv0 FD_CLOEXEC s; rc = rc OR x;
                    (x, s) = setfd (snd ce) sv1 FD_CLOEXEC s
                in (rc OR x, s))
             else (rc, s))
      in if rc \<noteq> 0
         then let e = en;
                  (s, en) = close_half sv0 (s, en);
                  (s, en) = close_half sv1 (s, en)
              in (rc, s, e)
         else (rc, s, en))"

definition bsd_socketpair ::
    "int option \<times> int option \<Rightarrow> bool \<times> bool \<Rightarrow> pair_calls \<Rightarrow> int \<Rightarrow> 32 word \<Rightarrow> int \<Rightarrow> wsock_state \<Rightarrow> int
      \<Rightarrow> int \<times> (int \<times> int) option \<times> wsock_state \<times> int" where
  "bsd_socketpair nb ce r domain type protocol s en =
     (let flags = type AND NOT 0xf;
          type = type AND 0xf;
          (rc, sv, s) = socketpair r domain type protocol s
      in case sv of
           None \<Rightarrow> (rc, sv, s, en)
         | Some (sv0, sv1) \<Rightarrow>
             if rc \<noteq> 0 then (rc, sv, s, en)
             else case set_pair_flags nb ce (flags AND SOCK_NONBLOCK \<noteq> 0) (flags AND SOCK_CLOEXEC \<noteq> 0)
                    sv0 sv1 s en of
               (rc, s, en) \<Rightarrow> (rc, sv, s, en))"

text \<open>\<open>pipe\<close> and \<open>bsd_pipe2\<close> of \<open>pipe2.c\<close>.\<close>

definition pipe :: "pair_calls \<Rightarrow> wsock_state \<Rightarrow> int \<times> (int \<times> int) option \<times> wsock_state" where
  "pipe r s = socketpair r AF_UNIX (SOCK_STREAM OR SOCK_NONBLOCK) PF_UNSPEC s"

definition bsd_pipe2 ::
    "int option \<times> int option \<Rightarrow> bool \<times> bool \<Rightarrow> pair_calls \<Rightarrow> 32 word \<Rightarrow> wsock_state \<Rightarrow> int
      \<Rightarrow> int \<times> (int \<times> int) option \<times> wsock_state \<times> int" where
  "bsd_pipe2 nb ce r flags s en =
     (let (rc, sv, s) = pipe r s
      in case sv of
           None \<Rightarrow> (rc, sv, s, en)
         | Some (sv0, sv1) \<Rightarrow>
             if rc \<noteq> 0 then (rc, sv, s, en)
             else case set_pair_flags nb ce (flags AND O_NONBLOCK \<noteq> 0) (flags AND O_CLOEXEC \<noteq> 0)
                    sv0 sv1 s en of
               (rc, s, en) \<Rightarrow> (rc, sv, s, en))"

section \<open>The sockets\<close>

text \<open>The system chooses handles that are not in use.\<close>

definition fresh_handles :: "pair_calls \<Rightarrow> wsock_state \<Rightarrow> bool" where
  "fresh_handles r s \<longleftrightarrow>
     socks s (-1) = None
     \<and> (\<forall>l. c_socket r = Inr l \<longrightarrow> l \<noteq> -1 \<and> socks s l = None)
     \<and> (\<forall>a. c_wsasocket r = Inr a \<longrightarrow> a \<noteq> -1 \<and> socks s a = None \<and> c_socket r \<noteq> Inr a)
     \<and> (\<forall>b from. c_accept r = Inr (b, from) \<longrightarrow>
          b \<noteq> -1 \<and> socks s b = None \<and> c_socket r \<noteq> Inr b \<and> c_wsasocket r \<noteq> Inr b)"

text \<open>The error that the calls lead to: that of the first one to fail, or the refusal of a connection
  that is not from the port of the socket that was connected.\<close>

definition check_failure :: "pair_calls \<Rightarrow> sockaddr_in \<Rightarrow> sockaddr_in \<Rightarrow> int option" where
  "check_failure r self peer =
     (case c_self r of Some e \<Rightarrow> Some e | None \<Rightarrow>
      case c_peer r of Some e \<Rightarrow> Some e | None \<Rightarrow>
      if self = peer then None else Some WSAECONNREFUSED)"

definition join_failure :: "pair_calls \<Rightarrow> int option" where
  "join_failure r =
     (case c_listen r of Some e \<Rightarrow> Some e | None \<Rightarrow>
      case c_wsasocket r of Inl e \<Rightarrow> Some e | Inr a \<Rightarrow>
      case c_connect r of Inl e \<Rightarrow> Some e | Inr port \<Rightarrow>
      case c_accept r of Inl e \<Rightarrow> Some e | Inr (b, from) \<Rightarrow>
      check_failure r \<lparr>sin_family = AF_INET, sin_addr = INADDR_LOOPBACK, sin_port = port\<rparr> from)"

definition pair_failure :: "pair_calls \<Rightarrow> int option" where
  "pair_failure r =
     (case c_socket r of Inl e \<Rightarrow> Some e | Inr l \<Rightarrow>
      case c_exclusive r of Some e \<Rightarrow> Some e | None \<Rightarrow>
      case c_bind r of Inl e \<Rightarrow> Some e | Inr port \<Rightarrow>
      case c_getsockname r of Some e \<Rightarrow> Some e | None \<Rightarrow>
      join_failure r)"

lemma closesocket_eq: "socks (closesocket h s) = (socks s)(h := None)"
  by (auto simp: closesocket_def set_error_def)

lemma pair_err_eq:
  "pair_err l a b s = (-1, (-1, -1), s\<lparr>socks := (socks s)(l := None, a := None, b := None)\<rparr>)"
proof -
  have "(set_error (last_error s) (closesocket b (closesocket a (closesocket l s)))) =
      s\<lparr>socks := (socks s)(l := None, a := None, b := None)\<rparr>"
    by (cases s) (auto simp: set_error_def closesocket_def fun_upd_idem)
  then show ?thesis by (simp add: pair_err_def Let_def)
qed

lemma loopback_eq:
  "ad = \<lparr>sin_family = f, sin_addr = a, sin_port = p\<rparr> \<longleftrightarrow> sin_family ad = f \<and> sin_addr ad = a \<and> sin_port ad = p"
  by (cases ad) auto

lemma restore_socks:
  "m l = None \<Longrightarrow> m(l \<mapsto> x, l := None) = m" "m (l :: 'a) = None \<Longrightarrow> m(l := None) = m"
  by auto

lemma sockaddr_eq: "(x :: sockaddr_in) = y \<longleftrightarrow> sin_family x = sin_family y \<and> sin_addr x = sin_addr y \<and> sin_port x = sin_port y"
  by (cases x; cases y) auto

lemma pair_check_eq:
  assumes "socks s a = Some ka" "socks s b = Some kb"
  shows "pair_check r l a b s =
    (case check_failure r (local_addr ka) (peer_addr kb) of
       Some e \<Rightarrow> pair_err l a b (set_error e s)
     | None \<Rightarrow> (0, (a, b), closesocket l s))"
  using assms
  by (simp add: pair_check_def check_failure_def getsockname_def getpeername_def sockaddr_eq set_error_def
      split: option.split)

text \<open>With the listener \<open>l\<close> open on \<open>port\<close>.\<close>

definition joined :: "wsock_state \<Rightarrow> int \<times> (int \<times> int) \<times> wsock_state \<Rightarrow> bool" where
  "joined s out \<longleftrightarrow> (\<exists>a b ka kb. out = (0, (a, b), s\<lparr>socks := (socks s)(a \<mapsto> ka, b \<mapsto> kb)\<rparr>)
     \<and> a \<noteq> b \<and> socks s a = None \<and> socks s b = None
     \<and> peer_addr kb = local_addr ka \<and> peer_addr ka = local_addr kb \<and> \<not> listening ka \<and> \<not> listening kb
     \<and> blocking ka \<and> blocking kb \<and> inherited ka \<and> inherited kb)"

definition closed_with :: "int \<Rightarrow> wsock_state \<Rightarrow> int \<times> (int \<times> int) \<times> wsock_state \<Rightarrow> bool" where
  "closed_with e s out \<longleftrightarrow> out = (-1, (-1, -1), s\<lparr>last_error := e\<rparr>)"

lemma pair_err_closed:
  assumes "\<And>h. h \<notin> {l, a, b} \<Longrightarrow> socks s' h = socks s h" "\<forall>h\<in>{l, a, b}. socks s h = None"
  shows "closed_with (last_error s') s (pair_err l a b s')"
proof -
  have "(socks s')(l := None, a := None, b := None) = socks s"
    using assms by (auto simp: fun_eq_iff)
  then show ?thesis by (simp add: closed_with_def pair_err_eq)
qed

lemma pair_join_result:
  assumes f: "fresh_handles r s" and l: "c_socket r = Inr l"
    and s1: "s1 = s\<lparr>socks := (socks s)(l \<mapsto> kl)\<rparr>"
    and kl: "local_addr kl = \<lparr>sin_family = AF_INET, sin_addr = INADDR_LOOPBACK, sin_port = port\<rparr>"
  shows "case join_failure r of
      Some e \<Rightarrow> closed_with e s (pair_join r l port s1)
    | None \<Rightarrow> joined s (pair_join r l port s1)"
proof -
  have n: "socks s (-1) = None" "l \<noteq> -1" "socks s l = None" using f l by (auto simp: fresh_handles_def)
  show ?thesis
  proof (cases "c_listen r")
    case (Some e)
    have "closed_with (last_error (set_error e s1)) s (pair_err l (-1) (-1) (set_error e s1))"
      by (rule pair_err_closed) (use n in \<open>auto simp: s1 set_error_def\<close>)
    then show ?thesis using Some by (simp add: join_failure_def pair_join_def listen_def set_error_def)
  next
    case li: None
    define s2 where "s2 = change_sock (\<lambda>k. k\<lparr>listening := True\<rparr>) l s1"
    have s2: "s2 = s\<lparr>socks := (socks s)(l \<mapsto> kl\<lparr>listening := True\<rparr>)\<rparr>"
      by (simp add: s2_def change_sock_def s1)
    show ?thesis
    proof (cases "c_wsasocket r")
      case (Inl e)
      have "closed_with (last_error (set_error e s2)) s (pair_err l (-1) (-1) (set_error e s2))"
        by (rule pair_err_closed) (use n in \<open>auto simp: s2 set_error_def\<close>)
      then show ?thesis using Inl li
        by (simp add: join_failure_def pair_join_def listen_def new_sock_def set_error_def s2_def)
    next
      case a: (Inr a)
      have na: "a \<noteq> -1" "socks s a = None" "a \<noteq> l" using f l a by (auto simp: fresh_handles_def)
      define s3 where "s3 = s2\<lparr>socks := (socks s2)(a \<mapsto> blank_sock)\<rparr>"
      show ?thesis
      proof (cases "c_connect r")
        case (Inl e)
        have "closed_with (last_error (set_error e s3)) s (pair_err l a (-1) (set_error e s3))"
          by (rule pair_err_closed) (use n na in \<open>auto simp: s3_def s2 set_error_def\<close>)
        then show ?thesis using Inl li a na
          by (simp add: join_failure_def pair_join_def listen_def new_sock_def connect_def set_error_def
              s2_def s3_def)
      next
        case p: (Inr ph)
        define ka where "ka = blank_sock\<lparr>peer_addr := local_addr kl,
           local_addr := \<lparr>sin_family = AF_INET, sin_addr = INADDR_LOOPBACK, sin_port = ph\<rparr>\<rparr>"
        define s4 where "s4 = change_sock (\<lambda>k. k\<lparr>peer_addr := local_addr kl,
           local_addr := \<lparr>sin_family = AF_INET, sin_addr = INADDR_LOOPBACK, sin_port = ph\<rparr>\<rparr>) a s3"
        have s4: "s4 = s\<lparr>socks := (socks s)(l \<mapsto> kl\<lparr>listening := True\<rparr>, a \<mapsto> ka)\<rparr>"
          by (simp add: s4_def change_sock_def s3_def s2 ka_def)
        show ?thesis
        proof (cases "c_accept r")
          case (Inl e)
          have "closed_with (last_error (set_error e s4)) s (pair_err l a (-1) (set_error e s4))"
            by (rule pair_err_closed) (use n na in \<open>auto simp: s4 set_error_def\<close>)
          then show ?thesis using Inl li a na p
            by (simp add: join_failure_def pair_join_def listen_def new_sock_def connect_def accept_def set_error_def
                s2_def s3_def s4_def kl)
        next
          case acc: (Inr bf)
          obtain b "from" where bf: "bf = (b, from)" by (cases bf) auto
          have nb: "b \<noteq> -1" "socks s b = None" "b \<noteq> l" "b \<noteq> a"
            using f l a acc bf by (auto simp: fresh_handles_def)
          define kb where "kb = blank_sock\<lparr>peer_addr := from, local_addr := local_addr kl\<rparr>"
          define s5 where "s5 = s4\<lparr>socks := (socks s4)(b \<mapsto> kb)\<rparr>"
          have s5: "s5 = s\<lparr>socks := (socks s)(l \<mapsto> kl\<lparr>listening := True\<rparr>, a \<mapsto> ka, b \<mapsto> kb)\<rparr>"
            by (simp add: s5_def s4)
          have j: "pair_join r l port s1 = pair_check r l a b s5"
            using li a na p acc bf nb
            by (simp add: pair_join_def listen_def new_sock_def connect_def accept_def s2_def[symmetric]
                s3_def[symmetric] s4_def[symmetric] kl[symmetric])
              (simp add: s5_def kb_def s4 na na(3)[symmetric])
          have jf: "join_failure r = check_failure r (local_addr ka) (peer_addr kb)"
            using li a p acc bf by (simp add: join_failure_def ka_def kb_def)
          have ck: "pair_check r l a b s5 =
              (case check_failure r (local_addr ka) (peer_addr kb) of
                 Some e \<Rightarrow> pair_err l a b (set_error e s5)
               | None \<Rightarrow> (0, (a, b), closesocket l s5))"
            by (rule pair_check_eq) (use nb in \<open>auto simp: s5\<close>)
          show ?thesis
          proof (cases "check_failure r (local_addr ka) (peer_addr kb)")
            case (Some e)
            have "closed_with (last_error (set_error e s5)) s (pair_err l a b (set_error e s5))"
              by (rule pair_err_closed) (use n na nb in \<open>auto simp: s5 set_error_def\<close>)
            then show ?thesis using Some by (simp add: j jf ck set_error_def)
          next
            case None
            then have pe: "peer_addr kb = local_addr ka"
              by (auto simp: check_failure_def split: option.splits if_splits)
            have "closesocket l s5 = s\<lparr>socks := (socks s)(a \<mapsto> ka, b \<mapsto> kb)\<rparr>"
              using n na nb by (auto simp: closesocket_def s5 fun_eq_iff)
            then have "joined s (0, (a, b), closesocket l s5)"
              unfolding joined_def
              by (intro exI[of _ a] exI[of _ b] exI[of _ ka] exI[of _ kb])
                (use na nb pe in \<open>simp add: ka_def kb_def blank_sock_def\<close>)
            then show ?thesis using None by (simp add: j jf ck)
          qed
        qed
      qed
    qed
  qed
qed

text \<open>Before there is a second socket every failure closes the listener.\<close>

lemma listener_closed:
  assumes "fresh_handles r s" "c_socket r = Inr l" "s' = s\<lparr>socks := (socks s)(l \<mapsto> k)\<rparr>"
  shows "pair_err l (-1) (-1) (s'\<lparr>last_error := e\<rparr>) = (-1, (-1, -1), s\<lparr>last_error := e\<rparr>)"
  using pair_err_closed[of l "-1" "-1" "s'\<lparr>last_error := e\<rparr>" s] assms
  by (auto simp: closed_with_def fresh_handles_def)

lemma bound_result:
  assumes "fresh_handles r s" "type AND SOCK_STREAM \<noteq> 0"
    and l: "c_socket r = Inr l" "c_exclusive r = None" "c_bind r = Inr port"
  shows "case pair_failure r of
      Some e \<Rightarrow> socketpair r AF_UNIX type PF_UNSPEC s = (-1, Some (-1, -1), s\<lparr>last_error := e\<rparr>)
    | None \<Rightarrow> \<exists>out. socketpair r AF_UNIX type PF_UNSPEC s = (case out of (rc, sv, s) \<Rightarrow> (rc, Some sv, s))
        \<and> joined s out"
proof -
  have n: "l \<noteq> -1" using assms(1) l by (auto simp: fresh_handles_def)
  define s1 where "s1 = s\<lparr>socks := (socks s)(l \<mapsto> blank_sock)\<rparr>"
  define kl where "kl = blank_sock\<lparr>local_addr :=
     \<lparr>sin_family = AF_INET, sin_addr = INADDR_LOOPBACK, sin_port = port\<rparr>\<rparr>"
  define s2 where "s2 = change_sock (\<lambda>k. k\<lparr>local_addr :=
     \<lparr>sin_family = AF_INET, sin_addr = INADDR_LOOPBACK, sin_port = port\<rparr>\<rparr>) l s1"
  have s2: "s2 = s\<lparr>socks := (socks s)(l \<mapsto> kl)\<rparr>" by (simp add: s2_def change_sock_def s1_def kl_def)
  note b = assms(2) l n socketpair_def new_sock_def AF_UNIX_def PF_UNSPEC_def simple_call_def
    s1_def[symmetric] set_error_def bind_def s2_def[symmetric] getsockname_def
  show ?thesis
  proof (cases "c_getsockname r")
    case (Some e)
    then show ?thesis by (simp add: b pair_failure_def listener_closed[OF assms(1) l(1) s2])
  next
    case None
    then have "socketpair r AF_UNIX type PF_UNSPEC s =
        (case pair_join r l port s2 of (rc, sv, s) \<Rightarrow> (rc, Some sv, s))"
      by (simp add: b) (simp add: s2 kl_def change_sock_def s1_def)
    moreover have "pair_failure r = join_failure r" using None by (simp add: pair_failure_def l)
    moreover note pair_join_result[OF assms(1) l(1) s2, of port]
    ultimately show ?thesis
      by (cases "join_failure r"; cases "pair_join r l port s2") (auto simp: kl_def closed_with_def)
  qed
qed

lemma socketpair_outcome:
  assumes "fresh_handles r s" "type AND SOCK_STREAM \<noteq> 0"
  shows "case pair_failure r of
      Some e \<Rightarrow> socketpair r AF_UNIX type PF_UNSPEC s = (-1, Some (-1, -1), s\<lparr>last_error := e\<rparr>)
    | None \<Rightarrow> \<exists>out. socketpair r AF_UNIX type PF_UNSPEC s = (case out of (rc, sv, s) \<Rightarrow> (rc, Some sv, s))
        \<and> joined s out"
proof (cases "\<exists>l port. c_socket r = Inr l \<and> c_exclusive r = None \<and> c_bind r = Inr port")
  case True
  then show ?thesis using bound_result[OF assms] by blast
next
  case False
  note d = assms(2) pair_failure_def socketpair_def new_sock_def set_error_def AF_UNIX_def PF_UNSPEC_def
    simple_call_def bind_def
  show ?thesis
  proof (cases "c_socket r")
    case (Inr l)
    have "l \<noteq> -1" using assms(1) Inr by (auto simp: fresh_handles_def)
    then show ?thesis using False Inr listener_closed[OF assms(1) Inr refl]
      by (cases "c_exclusive r"; cases "c_bind r") (simp_all add: d)
  qed (simp add: d)
qed

text \<open>C26. On every path \<open>socketpair\<close> either fails with the vector set to -1, no socket left open and
  the error that of the first call to fail (a connection that does not come from the socket just
  connected is refused), or it leaves exactly two new sockets, each the other's peer, and neither
  is the listener.\<close>

theorem socketpair_joined_or_closed:
  assumes "fresh_handles r s" "type AND SOCK_STREAM \<noteq> 0"
  shows "case pair_failure r of
      Some e \<Rightarrow> socketpair r AF_UNIX type PF_UNSPEC s = (-1, Some (-1, -1), s\<lparr>last_error := e\<rparr>)
    | None \<Rightarrow> (\<exists>a b ka kb.
        socketpair r AF_UNIX type PF_UNSPEC s = (0, Some (a, b), s\<lparr>socks := (socks s)(a \<mapsto> ka, b \<mapsto> kb)\<rparr>)
        \<and> a \<noteq> b \<and> socks s a = None \<and> socks s b = None
        \<and> peer_addr kb = local_addr ka \<and> peer_addr ka = local_addr kb \<and> \<not> listening ka \<and> \<not> listening kb)"
proof (cases "pair_failure r")
  case None
  then obtain a b ka kb where j:
    "socketpair r AF_UNIX type PF_UNSPEC s = (0, Some (a, b), s\<lparr>socks := (socks s)(a \<mapsto> ka, b \<mapsto> kb)\<rparr>)"
    "a \<noteq> b" "socks s a = None" "socks s b = None"
    "peer_addr kb = local_addr ka" "peer_addr ka = local_addr kb" "\<not> listening ka" "\<not> listening kb"
    using socketpair_outcome[OF assms] by (auto simp: joined_def)
  show ?thesis unfolding None option.case(1) by (intro exI) (use j in blast)
qed (use socketpair_outcome[OF assms] in simp)

section \<open>The flags\<close>

text \<open>What the flags asked for make of a socket.\<close>

definition with_pair_flags :: "bool \<Rightarrow> bool \<Rightarrow> wsock \<Rightarrow> wsock" where
  "with_pair_flags nonblock cloexec k =
     k\<lparr>blocking := blocking k \<and> \<not> nonblock, inherited := inherited k \<and> \<not> cloexec\<rparr>"

lemma type_flags:
  "((type :: 32 word) AND 0xf) AND SOCK_STREAM = type AND SOCK_STREAM"
  "(type AND - 16) AND SOCK_NONBLOCK = type AND SOCK_NONBLOCK"
  "(type AND - 16) AND SOCK_CLOEXEC = type AND SOCK_CLOEXEC"
  by (simp_all add: and.assoc SOCK_STREAM_def SOCK_NONBLOCK_def SOCK_CLOEXEC_def)

lemma set_flag_calls:
  "setfl r fd O_NONBLOCK s =
     (case r of None \<Rightarrow> (0, change_sock (\<lambda>k. k\<lparr>blocking := False\<rparr>) fd s) | Some e \<Rightarrow> (-1, set_error e s))"
  "setfd ok fd FD_CLOEXEC s =
     (if ok then (0, change_sock (\<lambda>k. k\<lparr>inherited := False\<rparr>) fd s) else (-1, s))"
  by (simp_all add: setfl_def setfd_def O_NONBLOCK_def FD_CLOEXEC_def)

lemma kept_flags:
  "blocking k \<Longrightarrow> k\<lparr>blocking := True\<rparr> = k" "inherited k \<Longrightarrow> k\<lparr>inherited := True\<rparr> = k"
  "blocking k \<Longrightarrow> inherited k \<Longrightarrow> k\<lparr>blocking := True, inherited := True\<rparr> = k"
  "blocking k \<Longrightarrow> k\<lparr>blocking := True, inherited := False\<rparr> = k\<lparr>inherited := False\<rparr>"
  "inherited k \<Longrightarrow> k\<lparr>blocking := False, inherited := True\<rparr> = k\<lparr>blocking := False\<rparr>"
  by (cases k; simp)+

text \<open>Whether every call that sets a flag asked for succeeds, and the error left if not.\<close>

definition flags_set :: "int option \<times> int option \<Rightarrow> bool \<times> bool \<Rightarrow> bool \<Rightarrow> bool \<Rightarrow> bool" where
  "flags_set nb ce nonblock cloexec \<longleftrightarrow>
     (nonblock \<longrightarrow> nb = (None, None)) \<and> (cloexec \<longrightarrow> ce = (True, True))"

definition last_flag_error :: "int option \<times> int option \<Rightarrow> bool \<Rightarrow> int \<Rightarrow> int" where
  "last_flag_error nb nonblock e =
     (if \<not> nonblock then e
      else case snd nb of Some e \<Rightarrow> e | None \<Rightarrow> (case fst nb of Some e \<Rightarrow> e | None \<Rightarrow> e))"

text \<open>Both sockets with the flags asked for, or the state without them and the error.\<close>

definition flagged_pair ::
    "int option \<times> int option \<Rightarrow> bool \<times> bool \<Rightarrow> bool \<Rightarrow> bool \<Rightarrow> int \<Rightarrow> wsock \<Rightarrow> int \<Rightarrow> wsock \<Rightarrow> wsock_state \<Rightarrow> int
      \<Rightarrow> int \<times> wsock_state \<times> int" where
  "flagged_pair nb ce f g a ka b kb s en =
    (if flags_set nb ce f g
     then (0, s\<lparr>socks := (socks s)(a \<mapsto> with_pair_flags f g ka, b \<mapsto> with_pair_flags f g kb)\<rparr>, en)
     else (-1, s\<lparr>last_error := last_flag_error nb f (last_error s)\<rparr>, en))"

lemma set_pair_flags_result:
  assumes "a \<noteq> b" "socks s a = None" "socks s b = None"
    "blocking ka" "blocking kb" "inherited ka" "inherited kb"
  shows "set_pair_flags nb ce nonblock cloexec a b (s\<lparr>socks := (socks s)(a \<mapsto> ka, b \<mapsto> kb)\<rparr>) en =
       flagged_pair nb ce nonblock cloexec a ka b kb s en"
proof -
  have i: "(socks s)(a \<mapsto> x, b := None, a := None) = socks s"
    "(socks s)(a := None, b := None) = socks s" for x
    using assms by (auto simp: fun_eq_iff)
  show ?thesis using assms
    by (cases nb; cases "fst nb"; cases "snd nb"; cases ce; cases "fst ce"; cases "snd ce";
        cases nonblock; cases cloexec)
      (simp_all add: set_pair_flags_def flagged_pair_def set_flag_calls flags_set_def last_flag_error_def
        with_pair_flags_def change_sock_def set_error_def close_half_def closesocket_def Let_def kept_flags i)
qed

lemma joined_flags:
  assumes "fresh_handles r s" "type AND SOCK_STREAM \<noteq> 0" "pair_failure r = None"
  obtains a b ka kb where
    "a \<noteq> b" "socks s a = None" "socks s b = None"
    "peer_addr kb = local_addr ka" "peer_addr ka = local_addr kb"
    "socketpair r AF_UNIX type PF_UNSPEC s = (0, Some (a, b), s\<lparr>socks := (socks s)(a \<mapsto> ka, b \<mapsto> kb)\<rparr>)"
    "\<And>nb ce nonblock cloexec en. set_pair_flags nb ce nonblock cloexec a b (s\<lparr>socks := (socks s)(a \<mapsto> ka, b \<mapsto> kb)\<rparr>) en =
       flagged_pair nb ce nonblock cloexec a ka b kb s en"
proof -
  from socketpair_outcome[OF assms(1,2)] assms(3) obtain a b ka kb where e:
    "socketpair r AF_UNIX type PF_UNSPEC s = (0, Some (a, b), s\<lparr>socks := (socks s)(a \<mapsto> ka, b \<mapsto> kb)\<rparr>)"
    and n: "a \<noteq> b" "socks s a = None" "socks s b = None"
    and k: "peer_addr kb = local_addr ka" "peer_addr ka = local_addr kb"
    and o: "blocking ka" "blocking kb" "inherited ka" "inherited kb"
    by (auto simp: joined_def)
  show ?thesis by (rule that[OF n k e]) (rule set_pair_flags_result[OF n o])
qed

text \<open>When the sockets are joined, \<open>bsd_socketpair\<close> gives both exactly the flags of the type, or, if a
  call that sets one fails, fails with both sockets closed and \<open>errno\<close> as it was; the vector keeps
  the numbers of the sockets it closed then. \<open>bsd_pipe2\<close> does the same with its flags, and the flag
  that \<open>pipe\<close> adds to the type has no effect.\<close>

lemma bsd_socketpair_sets_flags:
  assumes "fresh_handles r s" "type AND SOCK_STREAM \<noteq> 0" "pair_failure r = None"
  obtains a b ka kb where
    "a \<noteq> b" "socks s a = None" "socks s b = None"
    "peer_addr kb = local_addr ka" "peer_addr ka = local_addr kb"
    "bsd_socketpair nb ce r AF_UNIX type PF_UNSPEC s en =
       (let f = type AND SOCK_NONBLOCK \<noteq> 0; g = type AND SOCK_CLOEXEC \<noteq> 0
        in case flagged_pair nb ce f g a ka b kb s en of (rc, s, en) \<Rightarrow> (rc, Some (a, b), s, en))"
proof -
  have t: "(type AND 0xf) AND SOCK_STREAM \<noteq> 0" using assms(2) by (simp add: type_flags)
  show ?thesis
    by (rule joined_flags[OF assms(1) t assms(3)], rule that, assumption+)
      (simp add: bsd_socketpair_def type_flags case_prod_unfold Let_def)
qed

lemma bsd_pipe2_sets_flags:
  assumes "fresh_handles r s" "pair_failure r = None"
  obtains a b ka kb where
    "a \<noteq> b" "socks s a = None" "socks s b = None"
    "peer_addr kb = local_addr ka" "peer_addr ka = local_addr kb"
    "bsd_pipe2 nb ce r flags s en =
       (let f = flags AND O_NONBLOCK \<noteq> 0; g = flags AND O_CLOEXEC \<noteq> 0
        in case flagged_pair nb ce f g a ka b kb s en of (rc, s, en) \<Rightarrow> (rc, Some (a, b), s, en))"
proof -
  have t: "(SOCK_STREAM OR SOCK_NONBLOCK) AND SOCK_STREAM \<noteq> 0" by (simp add: SOCK_STREAM_def SOCK_NONBLOCK_def)
  show ?thesis
    by (rule joined_flags[OF assms(1) t assms(2)], rule that, assumption+)
      (simp add: bsd_pipe2_def pipe_def case_prod_unfold Let_def)
qed

definition pair_calls_witness :: pair_calls where
  "pair_calls_witness = \<lparr>c_socket = Inr 3, c_exclusive = None, c_bind = Inr 9, c_getsockname = None,
     c_listen = None, c_wsasocket = Inr 4, c_connect = Inr 10,
     c_accept = Inr (5, \<lparr>sin_family = AF_INET, sin_addr = INADDR_LOOPBACK, sin_port = 11\<rparr>),
     c_self = None, c_peer = None\<rparr>"

text \<open>Another process, on port 11, connects to the listener first.\<close>

theorem socketpair_joined_or_closed_witness:
  "socketpair pair_calls_witness AF_UNIX SOCK_STREAM PF_UNSPEC \<lparr>socks = Map.empty, last_error = 0\<rparr>
     = (-1, Some (-1, -1), \<lparr>socks = Map.empty, last_error = WSAECONNREFUSED\<rparr>)"
proof -
  let ?s = "\<lparr>socks = Map.empty, last_error = 0\<rparr>"
  have f: "fresh_handles pair_calls_witness ?s"
    by (simp add: fresh_handles_def pair_calls_witness_def)
  have "pair_failure pair_calls_witness = Some WSAECONNREFUSED"
    by (simp add: pair_failure_def join_failure_def check_failure_def pair_calls_witness_def)
  then show ?thesis
    using socketpair_joined_or_closed[OF f, of SOCK_STREAM] by (simp add: SOCK_STREAM_def)
qed

section \<open>The reserved descriptors\<close>

text \<open>The least descriptor that is free and beyond both sockets.\<close>

definition beyond_fds :: "nat \<Rightarrow> int \<Rightarrow> int \<Rightarrow> nat list \<Rightarrow> nat set" where
  "beyond_fds limit sv0 sv1 fds =
     set_option (find (\<lambda>i. i \<notin> set fds \<and> sv0 < int i \<and> sv1 < int i) [0..<limit])"

lemma find_upt:
  "find P [0..<n] = Some i \<longleftrightarrow> i < n \<and> P i \<and> (\<forall>j<i. \<not> P j)"
  "find P [0..<n] = None \<longleftrightarrow> (\<forall>j<n. \<not> P j)"
  by (auto simp: find_Some_iff find_None_iff)

lemma sentinels_open:
  "create_issue_1069_sentinels limit True sv0 sv1 fds =
     (case find (\<lambda>i. i \<notin> set fds) [0..<limit] of
        None \<Rightarrow> Some fds
      | Some i \<Rightarrow>
          if sv0 < int i \<and> sv1 < int i then Some (i # fds)
          else map_option (\<lambda>fds. if int i \<noteq> sv0 \<and> int i \<noteq> sv1 then removeAll i fds else fds)
             (create_issue_1069_sentinels limit True sv0 sv1 (i # fds)))"
  by (subst create_issue_1069_sentinels.simps)
    (auto simp: crt_open_def crt_close_def map_option_case split: option.split)

lemma sentinels_exact:
  "\<exists>fds'. create_issue_1069_sentinels limit True sv0 sv1 fds = Some fds'
     \<and> set fds' = set fds \<union> {i. i < limit \<and> (int i = sv0 \<or> int i = sv1)} \<union> beyond_fds limit sv0 sv1 fds"
proof (induction "card ({..<limit} - set fds)" arbitrary: fds rule: less_induct)
  case less
  show ?case
  proof (cases "find (\<lambda>i. i \<notin> set fds) [0..<limit]")
    case None
    then have "\<forall>j<limit. j \<in> set fds" by (simp add: find_upt)
    moreover from this have "beyond_fds limit sv0 sv1 fds = {}"
      by (auto simp: beyond_fds_def find_upt)
    ultimately show ?thesis using None by (auto simp: sentinels_open)
  next
    case (Some i)
    then have i: "i < limit" "i \<notin> set fds" "\<And>j. j < i \<Longrightarrow> j \<in> set fds" by (auto simp: find_upt)
    show ?thesis
    proof (cases "sv0 < int i \<and> sv1 < int i")
      case True
      then have "find (\<lambda>i. i \<notin> set fds \<and> sv0 < int i \<and> sv1 < int i) [0..<limit] = Some i"
        using i by (simp add: find_upt)
      then show ?thesis using True Some i by (auto simp: sentinels_open beyond_fds_def)
    next
      case False
      have "{..<limit} - set (i # fds) = ({..<limit} - set fds) - {i}" by auto
      moreover have "i \<in> {..<limit} - set fds" using i by simp
      ultimately have "card ({..<limit} - set (i # fds)) < card ({..<limit} - set fds)"
        by (metis card_Diff1_less finite_Diff finite_lessThan)
      from less[OF this] obtain fds' where
        f: "create_issue_1069_sentinels limit True sv0 sv1 (i # fds) = Some fds'" and
        s: "set fds' = set (i # fds) \<union> {i. i < limit \<and> (int i = sv0 \<or> int i = sv1)}
          \<union> beyond_fds limit sv0 sv1 (i # fds)" by auto
      have "(\<lambda>j. j \<notin> set (i # fds) \<and> sv0 < int j \<and> sv1 < int j) =
          (\<lambda>j. j \<notin> set fds \<and> sv0 < int j \<and> sv1 < int j)" using False by auto
      then have b: "beyond_fds limit sv0 sv1 (i # fds) = beyond_fds limit sv0 sv1 fds"
        by (simp only: beyond_fds_def)
      have "i \<notin> beyond_fds limit sv0 sv1 fds" using False by (auto simp: beyond_fds_def find_upt)
      then show ?thesis using Some False f s i by (auto simp: sentinels_open b)
    qed
  qed
qed

text \<open>After \<open>create_issue_1069_sentinels\<close> no file can get the number of either socket: both are in
  use as descriptors. Every other descriptor it opened is closed again, except one, the least free
  one beyond both sockets. If \<open>CONIN$\<close> cannot be opened nothing changes.\<close>

theorem sentinels_reserve_numbers:
  "map_option set (create_issue_1069_sentinels limit conin sv0 sv1 fds) =
     Some (if conin
       then set fds \<union> {i. i < limit \<and> (int i = sv0 \<or> int i = sv1)} \<union> beyond_fds limit sv0 sv1 fds
       else set fds)"
proof (cases conin)
  case True
  then show ?thesis using sentinels_exact[of limit sv0 sv1 fds] by auto
next
  case False
  have "crt_open limit False fds = (-1, fds)" by (simp add: crt_open_def split: option.split)
  then show ?thesis using False by (subst create_issue_1069_sentinels.simps) simp
qed

end
