(* ===== verification/Endian.thy ===== *)
theory Endian
  imports Compat_Prelude
begin

text \<open>
  The byte-order conversions of \<open>include/compat/endian.h\<close> that the header computes itself: those
  for Windows, built on \<open>ntohl\<close>, and those for AIX. On the other systems the header only renames the
  system's own macros, see \<open>Byte_Order\<close>.

  The layout of an integer in memory is the list of its bytes from the lowest address;
  \<open>big\<close> tells whether the machine is big endian.
\<close>

unbundle bit_operations_syntax

section \<open>Bytes and integers\<close>

definition byte :: "nat \<Rightarrow> 'a::len word \<Rightarrow> 8 word" where
  "byte i x = ucast (drop_bit (8 * i) x)"

text \<open>The bytes of an integer of \<open>n\<close> bytes, least significant first, and the integer of such
  bytes.\<close>

definition le_bytes :: "nat \<Rightarrow> 'a::len word \<Rightarrow> 8 word list" where
  "le_bytes n x = map (\<lambda>i. byte i x) [0..<n]"

primrec le_word :: "8 word list \<Rightarrow> 'a::len word" where
  "le_word [] = 0"
| "le_word (b # bs) = ucast b OR push_bit 8 (le_word bs)"

definition in_memory :: "bool \<Rightarrow> nat \<Rightarrow> 'a::len word \<Rightarrow> 8 word list" where
  "in_memory big n x = (if big then rev (le_bytes n x) else le_bytes n x)"

definition from_memory :: "bool \<Rightarrow> 8 word list \<Rightarrow> 'a::len word" where
  "from_memory big bs = le_word (if big then rev bs else bs)"

lemma bit_byte: "bit (byte i x) j \<longleftrightarrow> j < 8 \<and> bit x (8 * i + j)"
  by (simp add: byte_def bit_simps)

lemma bit_le_word: "bit (le_word bs :: 'a::len word) n \<longleftrightarrow>
    n < LENGTH('a) \<and> n div 8 < length bs \<and> bit (bs ! (n div 8)) (n mod 8)"
proof (induction bs arbitrary: n)
  case (Cons b bs)
  show ?case
  proof (cases "n < 8")
    case True
    then show ?thesis by (simp add: bit_simps)
  next
    case False
    then obtain m where m: "n = m + 8" by (metis add.commute le_add_diff_inverse not_less)
    have "\<not> bit b (m + 8)" using bit_imp_le_length [of b "m + 8"] by auto
    moreover have "(m + 8) div 8 = Suc (m div 8)" by simp
    ultimately show ?thesis by (auto simp: m bit_simps Cons.IH)
  qed
qed simp

lemma length_le_bytes [simp]: "length (le_bytes n x) = n"
  by (simp add: le_bytes_def)

lemma length_in_memory [simp]: "length (in_memory big n x) = n"
  by (simp add: in_memory_def)

lemma le_word_le_bytes: "LENGTH('a) = 8 * n \<Longrightarrow> le_word (le_bytes n x) = (x :: 'a::len word)"
  by (rule bit_eqI) (auto simp: bit_le_word le_bytes_def bit_byte)

lemma le_bytes_le_word:
  "LENGTH('a) = 8 * n \<Longrightarrow> length bs = n \<Longrightarrow> le_bytes n (le_word bs :: 'a::len word) = bs"
proof (rule nth_equalityI)
  fix i assume "LENGTH('a) = 8 * n" "length bs = n" "i < length (le_bytes n (le_word bs :: 'a word))"
  then have "byte i (le_word bs :: 'a word) = bs ! i"
    by (intro bit_eqI) (auto simp: bit_byte bit_le_word dest: bit_imp_le_length)
  then show "le_bytes n (le_word bs :: 'a word) ! i = bs ! i"
    using \<open>i < _\<close> by (simp add: le_bytes_def)
qed simp

lemma from_memory_in_memory: "LENGTH('a) = 8 * n \<Longrightarrow> from_memory big (in_memory big n x) = (x :: 'a::len word)"
  by (simp add: from_memory_def in_memory_def le_word_le_bytes)

lemma in_memory_from_memory:
  "LENGTH('a) = 8 * n \<Longrightarrow> length bs = n \<Longrightarrow> in_memory big n (from_memory big bs :: 'a::len word) = bs"
  by (simp add: from_memory_def in_memory_def le_bytes_le_word)

text \<open>An integer whose layout is known is read back from it.\<close>

lemma in_memory_eq: "LENGTH('a) = 8 * n \<Longrightarrow> in_memory big n x = bs \<Longrightarrow> (x :: 'a::len word) = from_memory big bs"
  using from_memory_in_memory by metis

section \<open>AIX\<close>

text \<open>The preprocessor's \<open>__BYTE_ORDER__\<close>: undefined, or little or big endian.\<close>

datatype byte_order = Undefined_order | Little_order | Big_order

definition aix_swap64 :: "64 word \<Rightarrow> 64 word" where
  "aix_swap64 x =
     push_bit 56 x OR
     push_bit 40 (x AND 0xFF00) OR
     push_bit 24 (x AND 0xFF0000) OR
     push_bit 8 (x AND 0xFF000000) OR
     drop_bit 8 (x AND 0xFF00000000) OR
     drop_bit 24 (x AND 0xFF0000000000) OR
     drop_bit 40 (x AND 0xFF000000000000) OR
     drop_bit 56 x"

text \<open>The union of the fallback is the integer read from the bytes stored.\<close>

definition aix_fallback64 :: "bool \<Rightarrow> 64 word \<Rightarrow> 64 word" where
  "aix_fallback64 big x =
     from_memory big
       [ucast x, ucast (drop_bit 8 x), ucast (drop_bit 16 x), ucast (drop_bit 24 x),
        ucast (drop_bit 32 x), ucast (drop_bit 40 x), ucast (drop_bit 48 x), ucast (drop_bit 56 x)]"

definition aix_htole64 :: "byte_order \<Rightarrow> bool \<Rightarrow> 64 word \<Rightarrow> 64 word" where
  "aix_htole64 order big x =
     (case order of
        Little_order \<Rightarrow> x
      | Big_order \<Rightarrow> aix_swap64 x
      | Undefined_order \<Rightarrow> aix_fallback64 big x)"

definition aix_le32toh :: "32 word \<Rightarrow> 32 word" where
  "aix_le32toh x =
     push_bit 24 (x AND 0xff) OR
     push_bit 8 (x AND 0xff00) OR
     drop_bit 8 (x AND 0xff0000) OR
     drop_bit 24 (x AND 0xff000000)"

definition aix_le64toh :: "64 word \<Rightarrow> 64 word" where
  "aix_le64toh x =
     push_bit 56 (x AND 0x00000000000000ff) OR
     push_bit 40 (x AND 0x000000000000ff00) OR
     push_bit 24 (x AND 0x0000000000ff0000) OR
     push_bit 8 (x AND 0x00000000ff000000) OR
     drop_bit 8 (x AND 0x000000ff00000000) OR
     drop_bit 24 (x AND 0x0000ff0000000000) OR
     drop_bit 40 (x AND 0x00ff000000000000) OR
     drop_bit 56 (x AND 0xff00000000000000)"

definition aix_be64toh :: "64 word \<Rightarrow> 64 word" where "aix_be64toh x = x"

definition aix_be32toh :: "32 word \<Rightarrow> 32 word" where "aix_be32toh x = x"

definition aix_be16toh :: "16 word \<Rightarrow> 16 word" where "aix_be16toh x = x"

text \<open>Four of the names are only given when the system has none of its own.\<close>

definition unless_defined :: "'a option \<Rightarrow> 'a \<Rightarrow> 'a" where
  "unless_defined have_it x = (case have_it of Some y \<Rightarrow> y | None \<Rightarrow> x)"

record aix_own =
  own_htobe64 :: "(64 word \<Rightarrow> 64 word) option"
  own_htobe32 :: "(32 word \<Rightarrow> 32 word) option"
  own_htobe16 :: "(16 word \<Rightarrow> 16 word) option"
  own_htole32 :: "(32 word \<Rightarrow> 32 word) option"

definition aix_htobe64 :: "aix_own \<Rightarrow> 64 word \<Rightarrow> 64 word" where
  "aix_htobe64 own = unless_defined (own_htobe64 own) aix_be64toh"

definition aix_htobe32 :: "aix_own \<Rightarrow> 32 word \<Rightarrow> 32 word" where
  "aix_htobe32 own = unless_defined (own_htobe32 own) aix_be32toh"

definition aix_htobe16 :: "aix_own \<Rightarrow> 16 word \<Rightarrow> 16 word" where
  "aix_htobe16 own = unless_defined (own_htobe16 own) aix_be16toh"

definition aix_htole32 :: "aix_own \<Rightarrow> 32 word \<Rightarrow> 32 word" where
  "aix_htole32 own = unless_defined (own_htole32 own) aix_le32toh"

text \<open>A system with none of them.\<close>

definition no_own :: aix_own where
  "no_own = \<lparr>own_htobe64 = None, own_htobe32 = None, own_htobe16 = None, own_htole32 = None\<rparr>"

lemma no_own_simps [simp]:
  "aix_htobe64 no_own x = x" "aix_htobe32 no_own y = y" "aix_htobe16 no_own z = z" "aix_htole32 no_own y = aix_le32toh y"
  by (simp_all add: no_own_def aix_htobe64_def aix_htobe32_def aix_htobe16_def aix_htole32_def unless_defined_def
      aix_be64toh_def aix_be32toh_def aix_be16toh_def)

section \<open>Windows\<close>

text \<open>Network order is big endian: \<open>ntohl\<close> reads an integer whose bytes in memory are in that order,
  \<open>htonl\<close> is the same permutation of the bytes; \<open>ntohs\<close> and \<open>htons\<close> are those of 16 bits.\<close>

definition ntohl :: "bool \<Rightarrow> 32 word \<Rightarrow> 32 word" where
  "ntohl big x = from_memory big (rev (le_bytes 4 x))"

definition htonl :: "bool \<Rightarrow> 32 word \<Rightarrow> 32 word" where
  "htonl big x = ntohl big x"

definition ntohs :: "bool \<Rightarrow> 16 word \<Rightarrow> 16 word" where
  "ntohs big x = from_memory big (rev (le_bytes 2 x))"

definition htons :: "bool \<Rightarrow> 16 word \<Rightarrow> 16 word" where
  "htons big x = ntohs big x"

definition win_ntohll :: "bool \<Rightarrow> 64 word \<Rightarrow> 64 word" where
  "win_ntohll big x =
     (if 1 = htonl big 1 then x
      else push_bit 32 (ucast (ntohl big (ucast (x AND 0xFFFFFFFF)))) OR ucast (ntohl big (ucast (drop_bit 32 x))))"

definition win_htonll :: "bool \<Rightarrow> 64 word \<Rightarrow> 64 word" where
  "win_htonll big x =
     (if 1 = ntohl big 1 then x
      else push_bit 32 (ucast (htonl big (ucast (x AND 0xFFFFFFFF)))) OR ucast (htonl big (ucast (drop_bit 32 x))))"

definition win_be16toh :: "bool \<Rightarrow> 16 word \<Rightarrow> 16 word" where "win_be16toh big x = ntohs big x"

definition win_htobe16 :: "bool \<Rightarrow> 16 word \<Rightarrow> 16 word" where "win_htobe16 big x = htons big x"

definition win_le32toh :: "32 word \<Rightarrow> 32 word" where "win_le32toh x = x"

definition win_be32toh :: "bool \<Rightarrow> 32 word \<Rightarrow> 32 word" where "win_be32toh big x = ntohl big x"

definition win_htole32 :: "32 word \<Rightarrow> 32 word" where "win_htole32 x = x"

definition win_htobe32 :: "bool \<Rightarrow> 32 word \<Rightarrow> 32 word" where "win_htobe32 big x = ntohl big x"

definition win_be64toh :: "bool \<Rightarrow> 64 word \<Rightarrow> 64 word" where "win_be64toh big x = win_ntohll big x"

definition win_htobe64 :: "bool \<Rightarrow> 64 word \<Rightarrow> 64 word" where "win_htobe64 big x = win_ntohll big x"

definition win_htole64 :: "64 word \<Rightarrow> 64 word" where "win_htole64 x = x"

definition win_le64toh :: "64 word \<Rightarrow> 64 word" where "win_le64toh x = x"

section \<open>Their layouts\<close>

lemma masks:
  "(0xFF :: 'a::len word) = mask 8" "(0xFF00 :: 'a word) = push_bit 8 (mask 8)"
  "(0xFF0000 :: 'a word) = push_bit 16 (mask 8)" "(0xFF000000 :: 'a word) = push_bit 24 (mask 8)"
  "(0xFF00000000 :: 'a word) = push_bit 32 (mask 8)" "(0xFF0000000000 :: 'a word) = push_bit 40 (mask 8)"
  "(0xFF000000000000 :: 'a word) = push_bit 48 (mask 8)" "(0xFF00000000000000 :: 'a word) = push_bit 56 (mask 8)"
  by (simp_all add: mask_eq_exp_minus_1 push_bit_eq_mult)

lemma upt_bytes: "[0..<4] = [0, 1, 2, 3 :: nat]" "[0..<8] = [0, 1, 2, 3, 4, 5, 6, 7 :: nat]"
  by (simp_all add: upt_rec)

lemma swap64_layout: "le_bytes 8 (aix_swap64 x) = rev (le_bytes 8 x)"
  unfolding le_bytes_def upt_bytes
  by (simp; intro conjI bit_eqI; auto simp: bit_byte aix_swap64_def masks bit_simps dest: bit_imp_le_length)

lemma le64toh_layout: "le_bytes 8 (aix_le64toh x) = rev (le_bytes 8 x)"
  unfolding le_bytes_def upt_bytes
  by (simp; intro conjI bit_eqI; auto simp: bit_byte aix_le64toh_def masks bit_simps dest: bit_imp_le_length)

lemma le32toh_layout: "le_bytes 4 (aix_le32toh x) = rev (le_bytes 4 x)"
  unfolding le_bytes_def upt_bytes
  by (simp; intro conjI bit_eqI; auto simp: bit_byte aix_le32toh_def masks bit_simps dest: bit_imp_le_length)

lemma ntohl_little: "le_bytes 4 (ntohl False x) = rev (le_bytes 4 x)"
  by (simp add: ntohl_def from_memory_def le_bytes_le_word)

lemma ntohl_big [simp]: "ntohl True x = x"
  by (simp add: ntohl_def from_memory_def le_word_le_bytes)

lemma ntohs_layout: "in_memory big 2 (ntohs big x) = rev (le_bytes 2 x)"
  by (simp add: ntohs_def in_memory_from_memory)

lemma ntohl_layout: "in_memory big 4 (ntohl big x) = rev (le_bytes 4 x)"
  by (simp add: ntohl_def in_memory_from_memory)

lemma ntohl_one: "(1 = ntohl big 1) = big"
proof -
  have "ntohl False 1 \<noteq> 1" by (simp add: ntohl_def from_memory_def le_bytes_def upt_bytes byte_def)
  then show ?thesis by (cases big) auto
qed

lemma le_bytes_join:
  "le_bytes 8 (push_bit 32 (ucast h) OR ucast l :: 64 word) = le_bytes 4 (l :: 32 word) @ le_bytes 4 (h :: 32 word)"
  unfolding le_bytes_def upt_bytes
  by (simp; intro conjI bit_eqI; auto simp: bit_byte bit_simps dest: bit_imp_le_length)

lemma le_bytes_halves:
  "le_bytes 8 (x :: 64 word) = le_bytes 4 (ucast (x AND 0xFFFFFFFF) :: 32 word) @ le_bytes 4 (ucast (drop_bit 32 x) :: 32 word)"
proof -
  have m: "(0xFFFFFFFF :: 64 word) = mask 32" by (simp add: mask_eq_exp_minus_1)
  show ?thesis
    unfolding le_bytes_def upt_bytes m
    by (simp; intro conjI bit_eqI; auto simp: bit_byte bit_simps dest: bit_imp_le_length)
qed

lemma ntohll_layout: "in_memory big 8 (win_ntohll big x) = rev (le_bytes 8 x)"
proof (cases big)
  case False
  have "le_bytes 8 (win_ntohll False x) = rev (le_bytes 8 x)"
    unfolding win_ntohll_def htonl_def ntohl_one if_False le_bytes_join ntohl_little
    by (subst le_bytes_halves [of x]) simp
  then show ?thesis using False by (simp add: in_memory_def)
qed (simp add: win_ntohll_def htonl_def in_memory_def)

lemma htonll_ntohll: "win_htonll big x = win_ntohll big x"
  by (simp add: win_htonll_def win_ntohll_def htonl_def)

lemma fallback_layout: "in_memory big 8 (aix_fallback64 big x) = le_bytes 8 x"
proof -
  have "aix_fallback64 big x = from_memory big (le_bytes 8 x)"
    by (simp add: aix_fallback64_def le_bytes_def upt_bytes byte_def)
  then show ?thesis by (simp add: in_memory_from_memory)
qed

lemma same_layout: "LENGTH('a) = 8 * n \<Longrightarrow> le_bytes n x = le_bytes n y \<Longrightarrow> x = (y :: 'a::len word)"
  using le_word_le_bytes by metis

text \<open>The conversions for AIX, a big-endian system: \<open>htole64\<close> lays an integer out with its least
  significant byte first, whether or not the preprocessor knows the byte order, \<open>htole32\<close> does, the
  conversions of big-endian integers lay them out with the most significant byte first, and
  \<open>le64toh\<close> and \<open>le32toh\<close> undo \<open>htole64\<close> and \<open>htole32\<close>.\<close>

theorem aix_byte_order:
  assumes "order \<noteq> Little_order"
  shows "in_memory True 8 (aix_htole64 order True x) = le_bytes 8 x
    \<and> in_memory True 4 (aix_htole32 no_own y) = le_bytes 4 y
    \<and> in_memory True 8 (aix_htobe64 no_own x) = rev (le_bytes 8 x)
    \<and> in_memory True 4 (aix_htobe32 no_own y) = rev (le_bytes 4 y)
    \<and> aix_le64toh (aix_htole64 order True x) = x \<and> aix_le32toh (aix_htole32 no_own y) = y"
proof -
  have l: "in_memory True 8 (aix_htole64 order True x) = le_bytes 8 x"
    using assms fallback_layout [of True x]
    by (cases order) (simp_all add: aix_htole64_def in_memory_def swap64_layout)
  have "aix_le64toh (aix_htole64 order True x) = x"
    by (rule same_layout [where n = 8]) (use l in \<open>simp_all add: in_memory_def le64toh_layout\<close>)
  moreover have "aix_le32toh (aix_htole32 no_own y) = y"
    by (rule same_layout [where n = 4]) (simp_all add: le32toh_layout)
  ultimately show ?thesis using l
    by (simp add: in_memory_def le32toh_layout)
qed

theorem aix_byte_order_witness:
  "in_memory True 8 (aix_htole64 Undefined_order True 0x0102030405060708) = [8, 7, 6, 5, 4, 3, 2, 1]
    \<and> aix_le64toh (aix_htole64 Undefined_order True 0x0102030405060708) = 0x0102030405060708"
  using aix_byte_order [of Undefined_order "0x0102030405060708"]
  by (simp add: le_bytes_def upt_bytes byte_def)

text \<open>The conversions for Windows on a machine of either byte order: those of big-endian
  integers of 16, 32 and 64 bits lay them out with the most significant byte first and undo
  themselves, so \<open>ntohll\<close>, joined from two \<open>ntohl\<close>, is the conversion of all eight bytes, and
  \<open>htonll\<close> is the same; those of little-endian integers are right on a little-endian machine.\<close>

theorem win_byte_order:
  "in_memory big 8 (win_htobe64 big x) = rev (le_bytes 8 x)
    \<and> in_memory big 4 (win_htobe32 big y) = rev (le_bytes 4 y)
    \<and> in_memory big 2 (win_htobe16 big z) = rev (le_bytes 2 z)
    \<and> win_be64toh big (win_htobe64 big x) = x \<and> win_be32toh big (win_htobe32 big y) = y
    \<and> win_be16toh big (win_htobe16 big z) = z \<and> win_htonll big x = win_ntohll big x
    \<and> in_memory False 8 (win_htole64 x) = le_bytes 8 x \<and> win_le64toh (win_htole64 x) = x
    \<and> in_memory False 4 (win_htole32 y) = le_bytes 4 y \<and> win_le32toh (win_htole32 y) = y"
proof -
  have b64: "win_ntohll big (win_ntohll big x) = x"
    using ntohll_layout [of big x] ntohll_layout [of big "win_ntohll big x"]
    by (intro same_layout [where n = 8]) (auto simp: in_memory_def split: if_splits)
  have b32: "ntohl big (ntohl big y) = y"
    using ntohl_layout [of big y] ntohl_layout [of big "ntohl big y"]
    by (intro same_layout [where n = 4]) (auto simp: in_memory_def split: if_splits)
  have b16: "ntohs big (ntohs big z) = z"
    using ntohs_layout [of big z] ntohs_layout [of big "ntohs big z"]
    by (intro same_layout [where n = 2]) (auto simp: in_memory_def split: if_splits)
  show ?thesis
    using b64 b32 b16
    by (simp add: win_htobe64_def win_be64toh_def win_htobe32_def win_be32toh_def win_htobe16_def htons_def
        win_be16toh_def win_htole64_def win_le64toh_def win_htole32_def win_le32toh_def htonll_ntohll
        ntohll_layout ntohl_layout ntohs_layout in_memory_def [of False])
qed

end
