(* ===== verification/Byte_Order.thy ===== *)
theory Byte_Order
  imports Endian
begin

text \<open>
  The rest of \<open>include/compat/endian.h\<close>: the detection of the byte order and of strict alignment by
  the preprocessor, the macros each system gets, and that an integer written with the macros of one
  system is read with those of any other. macOS and Solaris bring their own conversions
  (\<open>libkern/OSByteOrder.h\<close>, \<open>sys/byteorder.h\<close>), which are parameters here; those computed by the
  header are in \<open>Endian\<close>.
\<close>

section \<open>What the preprocessor finds out\<close>

definition LITTLE_ENDIAN :: int where "LITTLE_ENDIAN = 1234"

definition BIG_ENDIAN :: int where "BIG_ENDIAN = 4321"

definition PDP_ENDIAN :: int where "PDP_ENDIAN = 3412"

text \<open>\<open>order\<close> is the value of \<open>__BYTE_ORDER__\<close>, if the compiler defines it, \<open>little\<close> that of
  \<open>__ORDER_LITTLE_ENDIAN__\<close>, \<open>already\<close> the value of \<open>BYTE_ORDER\<close> before, the last two are the
  macros of the build system. \<open>None\<close> is the \<open>#error\<close>.\<close>

definition detect_compiler :: "int option \<Rightarrow> int \<Rightarrow> int option \<Rightarrow> int option" where
  "detect_compiler order little already =
     (case order of
        Some v \<Rightarrow> Some (if v = little then LITTLE_ENDIAN else BIG_ENDIAN)
      | None \<Rightarrow> already)"

definition detect_order :: "int option \<Rightarrow> int \<Rightarrow> int option \<Rightarrow> bool \<Rightarrow> bool \<Rightarrow> int option" where
  "detect_order order little already have_little have_big =
     (case detect_compiler order little already of
        Some b \<Rightarrow> Some b
      | None \<Rightarrow>
          if have_little then Some LITTLE_ENDIAN
          else if have_big then Some BIG_ENDIAN
          else None)"

text \<open>The macros that are defined are a list of names, \<open>arm_arch\<close> is the value of \<open>__ARM_ARCH\<close>.\<close>

definition strict_alignment :: "string list \<Rightarrow> nat \<Rightarrow> bool" where
  "strict_alignment macros arm_arch \<longleftrightarrow>
     ''__STRICT_ALIGNMENT'' \<in> set macros
     \<or> \<not> (list_ex (\<lambda>m. m \<in> set macros)
            [''__i386'', ''__i386__'', ''__x86_64'', ''__x86_64__'', ''__s390__'', ''__s390x__'', ''__aarch64__'']
          \<or> (''__arm__'' \<in> set macros \<or> ''__arm'' \<in> set macros) \<and> 6 \<le> arm_arch)"

section \<open>The macros of each system\<close>

record order_macros =
  be16toh :: "16 word \<Rightarrow> 16 word"
  htobe16 :: "16 word \<Rightarrow> 16 word"
  le32toh :: "32 word \<Rightarrow> 32 word"
  be32toh :: "32 word \<Rightarrow> 32 word"
  htole32 :: "32 word \<Rightarrow> 32 word"
  htobe32 :: "32 word \<Rightarrow> 32 word"
  htole64 :: "64 word \<Rightarrow> 64 word"
  htobe64 :: "64 word \<Rightarrow> 64 word"
  le64toh :: "64 word \<Rightarrow> 64 word"
  be64toh :: "64 word \<Rightarrow> 64 word"

record os_byte_order =
  OSSwapBigToHostInt16 :: "16 word \<Rightarrow> 16 word"
  OSSwapHostToBigInt16 :: "16 word \<Rightarrow> 16 word"
  OSSwapLittleToHostInt32 :: "32 word \<Rightarrow> 32 word"
  OSSwapBigToHostInt32 :: "32 word \<Rightarrow> 32 word"
  OSSwapHostToLittleInt32 :: "32 word \<Rightarrow> 32 word"
  OSSwapHostToBigInt32 :: "32 word \<Rightarrow> 32 word"
  OSSwapHostToLittleInt64 :: "64 word \<Rightarrow> 64 word"
  OSSwapHostToBigInt64 :: "64 word \<Rightarrow> 64 word"
  OSSwapLittleToHostInt64 :: "64 word \<Rightarrow> 64 word"
  OSSwapBigToHostInt64 :: "64 word \<Rightarrow> 64 word"

record sun_byte_order =
  BE_16 :: "16 word \<Rightarrow> 16 word"
  BE_32 :: "32 word \<Rightarrow> 32 word"
  LE_32 :: "32 word \<Rightarrow> 32 word"
  BE_64 :: "64 word \<Rightarrow> 64 word"
  LE_64 :: "64 word \<Rightarrow> 64 word"

definition apple_macros :: "os_byte_order \<Rightarrow> order_macros" where
  "apple_macros os = \<lparr>
     be16toh = OSSwapBigToHostInt16 os,
     htobe16 = OSSwapHostToBigInt16 os,
     le32toh = OSSwapLittleToHostInt32 os,
     be32toh = OSSwapBigToHostInt32 os,
     htole32 = OSSwapHostToLittleInt32 os,
     htobe32 = OSSwapHostToBigInt32 os,
     htole64 = OSSwapHostToLittleInt64 os,
     htobe64 = OSSwapHostToBigInt64 os,
     le64toh = OSSwapLittleToHostInt64 os,
     be64toh = OSSwapBigToHostInt64 os\<rparr>"

definition sun_macros :: "sun_byte_order \<Rightarrow> order_macros" where
  "sun_macros sun = \<lparr>
     be16toh = BE_16 sun,
     htobe16 = BE_16 sun,
     le32toh = LE_32 sun,
     be32toh = BE_32 sun,
     htole32 = LE_32 sun,
     htobe32 = BE_32 sun,
     htole64 = LE_64 sun,
     htobe64 = BE_64 sun,
     le64toh = LE_64 sun,
     be64toh = BE_64 sun\<rparr>"

definition win_macros :: "bool \<Rightarrow> order_macros" where
  "win_macros big = \<lparr>
     be16toh = win_be16toh big, htobe16 = win_htobe16 big,
     le32toh = win_le32toh, be32toh = win_be32toh big, htole32 = win_htole32, htobe32 = win_htobe32 big,
     htole64 = win_htole64, htobe64 = win_htobe64 big, le64toh = win_le64toh, be64toh = win_be64toh big\<rparr>"

definition aix_macros :: "byte_order \<Rightarrow> aix_own \<Rightarrow> order_macros" where
  "aix_macros order own = \<lparr>
     be16toh = aix_be16toh, htobe16 = aix_htobe16 own,
     le32toh = aix_le32toh, be32toh = aix_be32toh, htole32 = aix_htole32 own, htobe32 = aix_htobe32 own,
     htole64 = aix_htole64 order True, htobe64 = aix_htobe64 own, le64toh = aix_le64toh, be64toh = aix_be64toh\<rparr>"

text \<open>On Linux, FreeBSD and NetBSD the header adds the names of OpenBSD, unless the system has
  them (\<open>have\<close>).\<close>

record betoh_macros =
  betoh16 :: "16 word \<Rightarrow> 16 word"
  betoh32 :: "32 word \<Rightarrow> 32 word"
  betoh64 :: "64 word \<Rightarrow> 64 word"

definition linux_betoh ::
    "(16 word \<Rightarrow> 16 word) option \<times> (32 word \<Rightarrow> 32 word) option \<times> (64 word \<Rightarrow> 64 word) option \<Rightarrow> order_macros \<Rightarrow> betoh_macros" where
  "linux_betoh = (\<lambda>(h16, h32, h64) m.
     \<lparr>betoh16 = unless_defined h16 (be16toh m), betoh32 = unless_defined h32 (be32toh m),
      betoh64 = unless_defined h64 (be64toh m)\<rparr>)"

definition freebsd_betoh ::
    "(16 word \<Rightarrow> 16 word) option \<times> (32 word \<Rightarrow> 32 word) option \<times> (64 word \<Rightarrow> 64 word) option \<Rightarrow> order_macros \<Rightarrow> betoh_macros" where
  "freebsd_betoh = (\<lambda>(h16, h32, h64) m.
     \<lparr>betoh16 = unless_defined h16 (be16toh m), betoh32 = unless_defined h32 (be32toh m),
      betoh64 = unless_defined h64 (be64toh m)\<rparr>)"

definition netbsd_betoh ::
    "(16 word \<Rightarrow> 16 word) option \<times> (32 word \<Rightarrow> 32 word) option \<times> (64 word \<Rightarrow> 64 word) option \<Rightarrow> order_macros \<Rightarrow> betoh_macros" where
  "netbsd_betoh = (\<lambda>(h16, h32, h64) m.
     \<lparr>betoh16 = unless_defined h16 (be16toh m), betoh32 = unless_defined h32 (be32toh m),
      betoh64 = unless_defined h64 (be64toh m)\<rparr>)"

section \<open>Well-ordered macros\<close>

text \<open>A conversion to a byte order lays the integer out in it, one from it reads such a layout; the
  integers have \<open>n\<close> bytes.\<close>

definition to_big :: "bool \<Rightarrow> nat \<Rightarrow> ('a::len word \<Rightarrow> 'a word) \<Rightarrow> bool" where
  "to_big big n f \<longleftrightarrow> (\<forall>x. in_memory big n (f x) = rev (le_bytes n x))"

definition to_little :: "bool \<Rightarrow> nat \<Rightarrow> ('a::len word \<Rightarrow> 'a word) \<Rightarrow> bool" where
  "to_little big n f \<longleftrightarrow> (\<forall>x. in_memory big n (f x) = le_bytes n x)"

definition from_big :: "bool \<Rightarrow> nat \<Rightarrow> ('a::len word \<Rightarrow> 'a word) \<Rightarrow> bool" where
  "from_big big n f \<longleftrightarrow> (\<forall>x. in_memory big n x = rev (le_bytes n (f x)))"

definition from_little :: "bool \<Rightarrow> nat \<Rightarrow> ('a::len word \<Rightarrow> 'a word) \<Rightarrow> bool" where
  "from_little big n f \<longleftrightarrow> (\<forall>x. in_memory big n x = le_bytes n (f x))"

definition well_ordered :: "bool \<Rightarrow> order_macros \<Rightarrow> bool" where
  "well_ordered big m \<longleftrightarrow>
     from_big big 2 (be16toh m) \<and> to_big big 2 (htobe16 m)
     \<and> from_little big 4 (le32toh m) \<and> from_big big 4 (be32toh m)
     \<and> to_little big 4 (htole32 m) \<and> to_big big 4 (htobe32 m)
     \<and> to_little big 8 (htole64 m) \<and> to_big big 8 (htobe64 m)
     \<and> from_little big 8 (le64toh m) \<and> from_big big 8 (be64toh m)"

text \<open>What macOS and Solaris document of their conversions.\<close>

definition apple_documented :: "bool \<Rightarrow> os_byte_order \<Rightarrow> bool" where
  "apple_documented big os \<longleftrightarrow>
     from_big big 2 (OSSwapBigToHostInt16 os) \<and> to_big big 2 (OSSwapHostToBigInt16 os)
     \<and> from_little big 4 (OSSwapLittleToHostInt32 os) \<and> from_big big 4 (OSSwapBigToHostInt32 os)
     \<and> to_little big 4 (OSSwapHostToLittleInt32 os) \<and> to_big big 4 (OSSwapHostToBigInt32 os)
     \<and> to_little big 8 (OSSwapHostToLittleInt64 os) \<and> to_big big 8 (OSSwapHostToBigInt64 os)
     \<and> from_little big 8 (OSSwapLittleToHostInt64 os) \<and> from_big big 8 (OSSwapBigToHostInt64 os)"

definition sun_documented :: "bool \<Rightarrow> sun_byte_order \<Rightarrow> bool" where
  "sun_documented big sun \<longleftrightarrow>
     to_big big 2 (BE_16 sun) \<and> to_big big 4 (BE_32 sun) \<and> to_little big 4 (LE_32 sun)
     \<and> to_big big 8 (BE_64 sun) \<and> to_little big 8 (LE_64 sun)"

text \<open>What AIX documents of the conversions it may have itself: as on every big-endian system.\<close>

definition aix_documented :: "aix_own \<Rightarrow> bool" where
  "aix_documented own \<longleftrightarrow>
     list_all (to_big True 8) (case own_htobe64 own of Some f \<Rightarrow> [f] | None \<Rightarrow> [])
     \<and> list_all (to_big True 4) (case own_htobe32 own of Some f \<Rightarrow> [f] | None \<Rightarrow> [])
     \<and> list_all (to_big True 2) (case own_htobe16 own of Some f \<Rightarrow> [f] | None \<Rightarrow> [])
     \<and> list_all (to_little True 4) (case own_htole32 own of Some f \<Rightarrow> [f] | None \<Rightarrow> [])"

text \<open>Laying out is its own inverse: the layouts of an order are either those of the machine or all
  reversed.\<close>

lemma to_from_big: "LENGTH('a) = 8 * n \<Longrightarrow> to_big big n (f :: 'a::len word \<Rightarrow> 'a word) \<Longrightarrow> from_big big n f"
  by (cases big) (auto simp: to_big_def from_big_def in_memory_def)

lemma to_from_little: "LENGTH('a) = 8 * n \<Longrightarrow> to_little big n (f :: 'a::len word \<Rightarrow> 'a word) \<Longrightarrow> from_little big n f"
  by (cases big) (simp_all add: to_little_def from_little_def in_memory_def, metis rev_rev_ident)

text \<open>The systems: AIX is big endian, whether or not its compiler tells; Windows runs on little-endian
  machines; macOS and Solaris on either.\<close>

datatype host = AIX byte_order aix_own | Windows | Apple bool os_byte_order | Sun bool sun_byte_order

fun host_big :: "host \<Rightarrow> bool" where
  "host_big (AIX order own) = True"
| "host_big Windows = False"
| "host_big (Apple big os) = big"
| "host_big (Sun big sun) = big"

fun host_macros :: "host \<Rightarrow> order_macros" where
  "host_macros (AIX order own) = aix_macros order own"
| "host_macros Windows = win_macros False"
| "host_macros (Apple big os) = apple_macros os"
| "host_macros (Sun big sun) = sun_macros sun"

fun documented :: "host \<Rightarrow> bool" where
  "documented (AIX order own) = (order \<noteq> Little_order \<and> aix_documented own)"
| "documented Windows = True"
| "documented (Apple big os) = apple_documented big os"
| "documented (Sun big sun) = sun_documented big sun"

lemma aix_well_ordered:
  assumes "order \<noteq> Little_order" "aix_documented own"
  shows "well_ordered True (aix_macros order own)"
proof -
  have "to_big True 8 (aix_htobe64 own)" "to_big True 4 (aix_htobe32 own)" "to_big True 2 (aix_htobe16 own)"
    "to_little True 4 (aix_htole32 own)"
    using assms(2) unfolding aix_documented_def aix_htobe64_def aix_htobe32_def aix_htobe16_def aix_htole32_def
    by (auto simp: unless_defined_def to_big_def to_little_def in_memory_def le32toh_layout
        aix_be16toh_def aix_be32toh_def aix_be64toh_def split: option.splits)
  moreover have "to_little True 8 (aix_htole64 order True)"
    using assms(1) fallback_layout [of True]
    by (cases order) (simp_all add: to_little_def in_memory_def aix_htole64_def swap64_layout)
  ultimately show ?thesis
    by (simp add: well_ordered_def aix_macros_def from_big_def from_little_def in_memory_def aix_be16toh_def
        aix_be32toh_def aix_be64toh_def le32toh_layout le64toh_layout)
qed

lemma win_well_ordered: "well_ordered False (win_macros False)"
  using ntohll_layout [of False] ntohl_layout [of False] ntohs_layout [of False]
  by (simp add: well_ordered_def win_macros_def to_big_def to_little_def from_big_def from_little_def
      in_memory_def win_be16toh_def win_htobe16_def htons_def win_be32toh_def win_htobe32_def win_htole32_def
      win_le32toh_def win_be64toh_def win_htobe64_def win_htole64_def win_le64toh_def)

lemma host_well_ordered:
  assumes "documented h"
  shows "well_ordered (host_big h) (host_macros h)"
proof (cases h)
  case (Apple big os)
  then show ?thesis using assms by (simp add: well_ordered_def apple_documented_def apple_macros_def)
next
  case (Sun big sun)
  then show ?thesis using assms
    by (simp add: well_ordered_def sun_documented_def sun_macros_def to_from_big to_from_little)
qed (use assms in \<open>auto intro: aix_well_ordered win_well_ordered\<close>)

lemma exchange_big:
  assumes "LENGTH('a) = 8 * n" "to_big big1 n f" "from_big big2 n g"
  shows "g (from_memory big2 (in_memory big1 n (f x))) = (x :: 'a::len word)"
proof (rule same_layout [OF assms(1)])
  have "in_memory big2 n (from_memory big2 (in_memory big1 n (f x)) :: 'a word) = in_memory big1 n (f x)"
    by (rule in_memory_from_memory [OF assms(1)]) simp
  then show "le_bytes n (g (from_memory big2 (in_memory big1 n (f x)))) = le_bytes n x"
    using assms(2,3) by (auto simp: to_big_def from_big_def)
qed

lemma exchange_little:
  assumes "LENGTH('a) = 8 * n" "to_little big1 n f" "from_little big2 n g"
  shows "g (from_memory big2 (in_memory big1 n (f x))) = (x :: 'a::len word)"
proof (rule same_layout [OF assms(1)])
  have "in_memory big2 n (from_memory big2 (in_memory big1 n (f x)) :: 'a word) = in_memory big1 n (f x)"
    by (rule in_memory_from_memory [OF assms(1)]) simp
  then show "le_bytes n (g (from_memory big2 (in_memory big1 n (f x)))) = le_bytes n x"
    using assms(2,3) by (auto simp: to_little_def from_little_def)
qed

text \<open>C39. The bytes that one system writes with the macros of this header every other reads back as
  the same integer, in both orders and all widths, whatever the byte orders of the two machines; and
  they are the bytes from the most or the least significant one on.\<close>

theorem byte_order_exchange:
  assumes "documented h1" "documented h2"
  defines "m1 \<equiv> host_macros h1" and "m2 \<equiv> host_macros h2" and "b1 \<equiv> host_big h1" and "b2 \<equiv> host_big h2"
  shows "be16toh m2 (from_memory b2 (in_memory b1 2 (htobe16 m1 x))) = x
    \<and> be32toh m2 (from_memory b2 (in_memory b1 4 (htobe32 m1 y))) = y
    \<and> le32toh m2 (from_memory b2 (in_memory b1 4 (htole32 m1 y))) = y
    \<and> be64toh m2 (from_memory b2 (in_memory b1 8 (htobe64 m1 z))) = z
    \<and> le64toh m2 (from_memory b2 (in_memory b1 8 (htole64 m1 z))) = z
    \<and> in_memory b1 8 (htobe64 m1 z) = rev (le_bytes 8 z) \<and> in_memory b1 8 (htole64 m1 z) = le_bytes 8 z"
proof -
  have "well_ordered b1 m1" "well_ordered b2 m2"
    unfolding assms(3-6) by (rule host_well_ordered; fact)+
  then show ?thesis
    by (simp add: well_ordered_def exchange_big exchange_little) (simp add: to_big_def to_little_def)
qed

text \<open>AIX, whose compiler does not tell the byte order and which has no conversions of its own, writes; a little-endian Solaris reads.\<close>

definition little_sun :: sun_byte_order where
  "little_sun = \<lparr>BE_16 = \<lambda>x. from_memory False (rev (le_bytes 2 x)), BE_32 = \<lambda>x. from_memory False (rev (le_bytes 4 x)),
     LE_32 = \<lambda>x. x, BE_64 = \<lambda>x. from_memory False (rev (le_bytes 8 x)), LE_64 = \<lambda>x. x\<rparr>"

lemma little_sun_documented: "sun_documented False little_sun"
  by (simp add: sun_documented_def little_sun_def to_big_def to_little_def in_memory_from_memory)
    (simp add: in_memory_def)

lemma no_own_documented: "aix_documented no_own"
  by (simp add: aix_documented_def no_own_def)

theorem byte_order_exchange_witness:
  "BE_64 little_sun (from_memory False (in_memory True 8 (aix_htobe64 no_own 0x0102030405060708))) = 0x0102030405060708
    \<and> LE_64 little_sun (from_memory False (in_memory True 8 (aix_htole64 Undefined_order True 0x0102030405060708)))
      = 0x0102030405060708"
  using byte_order_exchange [of "AIX Undefined_order no_own" "Sun False little_sun" 0 0 "0x0102030405060708"]
  unfolding documented.simps host_macros.simps host_big.simps aix_macros_def sun_macros_def order_macros.select_convs
  using little_sun_documented no_own_documented by blast

text \<open>What the preprocessor finds out is one of the two orders it has code for, and every system that
  is known as lenient is.\<close>

lemma detected_order:
  assumes "already \<in> {None, Some LITTLE_ENDIAN, Some BIG_ENDIAN}"
    and "detect_order order little already have_little have_big = Some b"
  shows "b = LITTLE_ENDIAN \<or> b = BIG_ENDIAN"
  using assms by (auto simp: detect_order_def detect_compiler_def split: option.splits if_splits)

lemma detect_fails_iff:
  "detect_order order little already have_little have_big = None \<longleftrightarrow>
     order = None \<and> already = None \<and> \<not> have_little \<and> \<not> have_big"
  by (auto simp: detect_order_def detect_compiler_def split: option.splits)

end
