(* ===== verification/Libc_Calls.thy ===== *)
theory Libc_Calls
  imports Compat_Prelude
begin

text \<open>
  Functions of the layer that are little more than a call of the system: \<open>getpagesize\<close>, the versions
  of \<open>getprogname\<close> other than that for Windows, \<open>certhash_main\<close>, the macros of
  \<open>include/compat/unistd.h\<close>, \<open>pthread_self\<close>; and \<open>mkstemp\<close> of \<open>tests/compat/mkstemp.c\<close>, which repeats such
  calls. The system is the arguments.
\<close>

section \<open>Single calls\<close>

text \<open>\<open>dwPageSize\<close> is an unsigned and \<open>sysconf\<close> gives a signed integer of the machine's width;
  both become an \<open>int\<close>.\<close>

definition getpagesize :: "(unit \<Rightarrow> 32 word) + (unit \<Rightarrow> 'w::len word) \<Rightarrow> 32 word" where
  "getpagesize sys =
     (case sys of
        Inl dwPageSize \<Rightarrow> dwPageSize ()
      | Inr sysconf \<Rightarrow> ucast (sysconf ()))"

lemma getpagesize_exact:
  "unat (f ()) < 2 ^ 31 \<Longrightarrow> sint (getpagesize (Inl f)) = int (unat (f ()))"
  "0 \<le> sint (g ()) \<Longrightarrow> sint (g ()) < 2 ^ 31 \<Longrightarrow> LENGTH('w) \<in> {32, 64} \<Longrightarrow>
     sint (getpagesize (Inr (g :: unit \<Rightarrow> 'w::len word))) = sint (g ())"
proof -
  show "sint (getpagesize (Inl f)) = int (unat (f ()))" if "unat (f ()) < 2 ^ 31"
  proof -
    have "int (unat (f ())) < int (2 ^ 31)" using that by (simp only: of_nat_less_iff)
    then have "uint (f ()) < 2 ^ 31" by simp
    then have "signed_take_bit 31 (uint (f ())) = uint (f ())"
      by (intro signed_take_bit_int_eq_self order_trans [OF _ uint_ge_0]) simp_all
    then show ?thesis by (simp add: getpagesize_def sint_uint)
  qed
  assume a: "0 \<le> sint (g ())" "sint (g ()) < 2 ^ 31" "LENGTH('w) \<in> {32, 64}"
  have "sint (g ()) < 2 ^ LENGTH('w)" using a(2,3) by auto
  then have "uint (g ()) = sint (g ())" using a(1) by (simp add: uint_sint take_bit_int_eq_self)
  then have "uint (ucast (g ()) :: 32 word) = sint (g ())"
    using a by (simp add: unsigned_ucast_eq take_bit_int_eq_self)
  moreover have "signed_take_bit 31 (sint (g ())) = sint (g ())"
    using a by (intro signed_take_bit_int_eq_self order_trans [OF _ a(1)]) simp_all
  ultimately show "sint (getpagesize (Inr g)) = sint (g ())"
    by (simp add: getpagesize_def sint_uint)
qed

text \<open>\<open>api\<close> is the level of Android's interface, if it is Android.\<close>

definition getprogname_linux :: "nat option \<Rightarrow> string \<Rightarrow> string \<Rightarrow> string" where
  "getprogname_linux api progname program_invocation_short_name =
     (case api of
        Some level \<Rightarrow> if level < 21 then progname else program_invocation_short_name
      | None \<Rightarrow> program_invocation_short_name)"

definition getprogname_unimpl :: string where
  "getprogname_unimpl = ''?''"

text \<open>The result and what is written to the standard error.\<close>

definition certhash_main :: "int \<Rightarrow> string list \<Rightarrow> int \<times> string" where
  "certhash_main argc argv = (1, ''certhash is not enabled on this platform'' @ [CHR 0x0A])"

definition pledge :: "'a \<Rightarrow> 'b \<Rightarrow> int" where "pledge request paths = 0"

definition unveil :: "'a \<Rightarrow> 'b \<Rightarrow> int" where "unveil path permissions = 0"

definition pthread_self :: "('w \<Rightarrow> 32 word) \<Rightarrow> 'w \<Rightarrow> 32 word" where
  "pthread_self getCurrentThreadId w = getCurrentThreadId w"

section \<open>\<open>mkstemp\<close>\<close>

text \<open>\<open>mktemp\<close> fills in the template and says whether it succeeded, \<open>opn\<close> opens a file that must not
  exist: a descriptor, or -1 and whether the file exists already. \<open>None\<close> is a \<open>strcpy\<close> in front of the
  template, or no end.\<close>

record 'w tempapi =
  mktemp :: "string \<Rightarrow> 'w \<Rightarrow> bool \<times> string \<times> 'w"
  opn :: "string \<Rightarrow> 'w \<Rightarrow> int \<times> bool \<times> 'w"

partial_function (option) mkstemp :: "'w tempapi \<Rightarrow> string \<Rightarrow> 'w \<Rightarrow> (int \<times> string \<times> 'w) option" where
  "mkstemp api template w =
     (case mktemp api template w of (ok, template, w) \<Rightarrow>
        if \<not> ok then Some (-1, template, w)
        else case opn api template w of (fd, eexist, w) \<Rightarrow>
          if 0 \<le> fd then Some (fd, template, w)
          else if eexist then
            if length template < 6 then None
            else mkstemp api (take (length template - 6) template @ ''XXXXXX'') w
          else Some (-1, template, w))"

text \<open>What \<open>_mktemp\<close> documents: it replaces the six letters X at the end, and for one template only so
  many times, which \<open>left\<close> counts.\<close>

definition mktemp_ok :: "'w tempapi \<Rightarrow> ('w \<Rightarrow> nat) \<Rightarrow> string \<Rightarrow> bool" where
  "mktemp_ok api left base \<longleftrightarrow>
     (\<forall>w. case mktemp api (base @ ''XXXXXX'') w of (ok, t, w') \<Rightarrow>
        (ok \<longrightarrow> left w' < left w \<and> (\<exists>x. length x = 6 \<and> t = base @ x)))
     \<and> (\<forall>t w. left (snd (snd (opn api t w))) \<le> left w)"

text \<open>\<open>mkstemp\<close> always ends, stays in the template and returns -1 or a descriptor; a descriptor is that of
  a file which it created under the name it leaves in the template.\<close>

lemma mkstemp_creates:
  assumes "mktemp_ok api left base"
  shows "\<exists>fd t w'. mkstemp api (base @ ''XXXXXX'') w = Some (fd, t, w')
    \<and> (fd = -1 \<or> 0 \<le> fd \<and> (\<exists>x w0 b. length x = 6 \<and> t = base @ x \<and> opn api t w0 = (fd, b, w')))"
proof (induction "left w" arbitrary: w rule: less_induct)
  case less
  obtain ok t w1 where m: "mktemp api (base @ ''XXXXXX'') w = (ok, t, w1)" by (metis prod_cases3)
  obtain fd b w2 where o: "opn api t w1 = (fd, b, w2)" by (metis prod_cases3)
  show ?case
  proof (cases ok)
    case True
    then obtain x where x: "left w1 < left w" "length x = 6" "t = base @ x"
      using assms m unfolding mktemp_ok_def by (fastforce split: prod.splits)
    have "left w2 \<le> left w1" using assms o unfolding mktemp_ok_def by (metis snd_conv)
    then have l: "left w2 < left w" using x(1) by simp
    show ?thesis
    proof (cases "0 \<le> fd \<or> \<not> b")
      case True
      then show ?thesis using m o x \<open>ok\<close> by (subst mkstemp.simps) auto
    next
      case False
      then have "mkstemp api (base @ ''XXXXXX'') w = mkstemp api (base @ ''XXXXXX'') w2"
        using m o x \<open>ok\<close> by (subst mkstemp.simps) simp
      then show ?thesis using less [OF l] by simp
    qed
  next
    case False
    then show ?thesis using m by (subst mkstemp.simps) simp
  qed
qed

end
