(* ===== verification/Spec2Isabelle.thy ===== *)
theory Spec2Isabelle
  imports Getopt_Reference Rb_Search Rbt_Generic Splay_Ops Queue_Debug Queue_Props Xor_Queue Poll_Ready File_Modes Win_Locks
    Readpassphrase Ui_Session Messages Descriptor_IO Sys_Shims Clock_Mac Apps_Win Socket_Pair Byte_Order Libc_Calls
begin

text \<open>
  A model of the compatibility layer of LibreSSL-portable.

  \<^bold>\<open>The program.\<close> LibreSSL-portable builds OpenBSD's libcrypto, libssl, libtls and the programs
  \<open>openssl\<close> and \<open>nc\<close> on other systems. Their sources are imported when it is built and are not in the
  repository; what it holds itself is the layer that gives those sources an OpenBSD-like C library:
  headers under \<open>src/include/compat\<close> that wrap those of the system, functions the system lacks under
  \<open>src/crypto/compat\<close>, \<open>src/tls/compat\<close>, \<open>src/apps/nc/compat\<close> and \<open>src/apps/openssl\<close>, and the probing of
  the processor under \<open>src/crypto/arch\<close>. The parts are mostly independent of one another and are used by
  the imported sources. Where one calls another, the model composes the same way: \<open>getline\<close> calls
  \<open>getdelim\<close>; \<open>posix_fopen\<close> and \<open>vsyslog_r\<close> call \<open>vasprintf\<close>; \<open>opendir\<close> and its companions wrap the
  wide-character functions; the \<open>RBT_*\<close> macros call a tree library with the contract of the \<open>RB_*\<close> macros;
  the methods of \<open>UI_OpenSSL\<close> are one session; a socket pair reserves descriptors of the C runtime.

  \<^bold>\<open>Theories and sources.\<close> The files are named relative to \<open>src/\<close>.

  \<^item> \<open>Compat_Prelude\<close>: pointers (\<open>Null\<close> or \<open>Ref n\<close>), characters and C strings, arrays indexed by \<open>int\<close>,
    \<open>strchr\<close>, and the lemmas on them that all theories use. \<open>C_Runtime\<close>: \<open>errno\<close> and the allocator
    (\<open>crt\<close>: the blocks, which allocations fail, what fresh memory holds, what blocks held when they were
    released), with \<open>freezero\<close> (\<open>crypto/compat/freezero.c\<close>) and \<open>explicit_bzero\<close>
    (\<open>explicit_bzero_win.c\<close>).
  \<^item> \<open>Permute_Args\<close>, \<open>Getopt\<close>, \<open>Getopt_Run\<close>, \<open>Getopt_Reference\<close>: \<open>crypto/compat/getopt_long.c\<close>. The state \<open>getopt_state\<close>
    has the global and static variables and the argument vector; \<open>permute_args\<close>,
    \<open>parse_long_options\<close>, \<open>getopt_internal\<close> and the entry points are the functions of the file;
    \<open>Getopt_Run\<close> has the loop of a caller, \<open>Getopt_Reference\<close> a parser of a list that it is compared with.
  \<^item> \<open>Queue_Heap\<close>, \<open>Queue_Spec\<close>, \<open>Queue_Lists\<close>, \<open>Queue_Props\<close>: the macros \<open>SLIST_*\<close>, \<open>LIST_*\<close>,
    \<open>SIMPLEQ_*\<close>, \<open>TAILQ_*\<close> of \<open>include/compat/sys/queue.h\<close> on a heap of cells, so that the address of a
    pointer is a value; the interfaces; the representation of sequences. \<open>Queue_Debug\<close>: the macros that
    overwrite pointers in debugging builds. \<open>Xor_Queue\<close>: \<open>XSIMPLEQ_*\<close>, on 64-bit addresses masked with a cookie.
  \<^item> \<open>Rb_Tree\<close>: the macros \<open>RB_*\<close> of \<open>include/compat/sys/tree.h\<close> on a heap of entries; \<open>Rb_Repr\<close>: the tree
    that a heap represents, with zippers; \<open>Rb_Insert\<close>, \<open>Rb_Remove\<close>, \<open>Rb_Delete\<close>: the operations on it;
    \<open>Rb_Balance\<close>: colours and heights; \<open>Rb_Search\<close>: search, traversal and the properties. \<open>Tree_Order\<close>:
    the order and the contract \<open>ordered_tree\<close> that all trees share. \<open>Rbt_Generic\<close>: \<open>RBT_*\<close> over a library of
    functions.
  \<^item> \<open>Splay_Tree\<close>, \<open>Splay_Repr\<close>, \<open>Splay_Ops\<close>: the macros \<open>SPLAY_*\<close>, with the dummy node on the stack as an
    extra node of the heap.
  \<^item> \<open>Getdelim\<close>: \<open>crypto/compat/getdelim.c\<close>, \<open>getline.c\<close>. \<open>Asprintf\<close>: \<open>bsd-asprintf.c\<close>. \<open>Messages\<close>:
    \<open>include/compat/err.h\<close>, \<open>crypto/compat/syslog_r.c\<close>, \<open>getprogname_windows.c\<close>, and the functions in
    \<open>include/compat/string.h\<close> and \<open>stdio.h\<close>.
  \<^item> \<open>Posix_Win\<close>: \<open>crypto/compat/posix_win.c\<close>: descriptors, files, sockets and \<open>gettimeofday\<close> over Windows,
    given as a record of functions on its state. \<open>Poll_Win\<close>: \<open>apps/openssl/compat/poll_win.c\<close> and
    \<open>include/compat/poll.h\<close>; \<open>Poll_Ready\<close>: what it reports and when it wakes up. \<open>Descriptor_IO\<close>: \<open>tls/compat/pread.c\<close>, \<open>pwrite.c\<close>,
    \<open>apps/nc/compat/socket.c\<close>, \<open>accept4.c\<close>. \<open>Socket_Pair\<close>: \<open>socketpair.c\<close> and
    \<open>pipe2.c\<close> of \<open>tests/compat\<close>.
  \<^item> \<open>Dirent_Win\<close>: \<open>include/compat/dirent_msvc.h\<close>, over the search functions of Win32;
    \<open>File_Modes\<close>: the types of its entries as modes of \<open>sys/stat.h\<close>, and the permissions.
  \<^item> \<open>Win_Locks\<close>: \<open>include/compat/pthread.h\<close> and \<open>crypto/compat/crypto_lock_win.c\<close>: one step relation for
    the threads, a step for each access to shared memory.
  \<^item> \<open>Readpassphrase\<close>: \<open>apps/nc/compat/readpassphrase.c\<close>: terminal, signals, descriptors and buffer;
    \<open>Ui_Win\<close>, \<open>Ui_Session\<close>: \<open>crypto/compat/ui_openssl_win.c\<close>.
  \<^item> \<open>Apps_Win\<close>: \<open>apps/openssl/apps_win.c\<close>, the alarm as a step relation of two threads. \<open>Clock_Mac\<close>:
    \<open>apps/openssl/compat/clock_gettime_osx.c\<close>. \<open>Sys_Shims\<close>: \<open>include/compat/sys/time.h\<close>, \<open>time.h\<close>,
    \<open>sys/stat.h\<close>, \<open>unistd.h\<close>, \<open>crypto/arch/aarch64\<close>, \<open>crypto/compat/b_win.c\<close>. \<open>Endian\<close>,
    \<open>Byte_Order\<close>: \<open>include/compat/endian.h\<close>, the conversions it computes and the macros of each system.
    \<open>Libc_Calls\<close>: \<open>getpagesize.c\<close>, \<open>getprogname_linux.c\<close>, \<open>getprogname_unimpl.c\<close>, \<open>certhash_win.c\<close> and
    \<open>tests/compat/mkstemp.c\<close>.

  \<^bold>\<open>How C is read.\<close> An operation that can be undefined (a null pointer, an access outside of an array, a
  division by zero, a conversion or signed operation that does not fit) or that need not end returns an
  \<open>option\<close>, and \<open>None\<close> is undefined or does not end. A property that an operation is \<open>Some\<close> therefore says
  that it is free of undefined behaviour and that it terminates. Errors of the program are its own result
  values. Pointers into structures are numbers of elements or cells, and the heaps are total functions, so
  that aliasing is equality of numbers. Integers whose wrap-around the code can meet are words; a signed
  \<open>int\<close> that stays in range by an invariant is an \<open>int\<close>.

  \<^bold>\<open>Loops.\<close> Loops over structures in memory are \<open>partial_function (option)\<close>: no fuel is used, and their
  termination is part of the theorems (\<open>Some\<close>). Counted loops are structural recursions (\<open>permute_cycle\<close>
  and \<open>permute_cycles\<close> of \<open>Permute_Args\<close>) or \<open>function\<close>s with a measure. A wait that
  may be endless, such as \<open>poll\<close> with a negative timeout, is \<open>None\<close> when nothing ever happens;
  \<open>poll_wakes_up\<close> shows when it ends.

  \<^bold>\<open>Code outside of the repository.\<close> Windows, Winsock, the C library and libcrypto are parameters: records
  of functions (\<open>winapi\<close>, \<open>pollapi\<close>, \<open>rbt_api\<close>), functions (\<open>vsnprintf\<close>, \<open>UI_set_result\<close>), or scripts in
  the state that list the results of calls (failing allocations, signals, \<open>answers\<close> of system calls,
  \<open>pair_calls\<close>). What the code relies on is stated as a named hypothesis on them (\<open>vsn_formats\<close>,
  \<open>rounds_to_double\<close>, \<open>fresh_handles\<close>, the locale \<open>rbt_library\<close>), and every property that has one is
  applied to a concrete instance.

  \<^bold>\<open>What the lemmas show.\<close>
  \<^item> \<open>getopt_long\<close>: exchanging the blocks by cycles equals swapping them; every call keeps the state well
    formed and the vector a permutation; abbreviations resolve as documented; a caller's loop ends, is told what
    one pass over the original words yields, and the vector it leaves and \<open>optind\<close> are those \<open>ref_words\<close> names: the
    options and arguments of that pass, the non-options it skipped, the words it did not reach.
  \<^item> Queues: each macro does to the sequence of elements what its name says, for any sequence of
    operations; traversals yield the sequence; the safe ones survive that the element they are at is
    removed and its memory reused (\<open>freed\<close>). \<open>linked_sequence\<close> is
    interpreted on \<open>SLIST\<close> and \<open>LIST\<close>, its extension \<open>fifo_queue\<close> on \<open>SIMPLEQ\<close>, \<open>TAILQ\<close> and \<open>XSIMPLEQ\<close>,
    \<open>removable_sequence\<close> on the lists that can remove any element, in both directions of \<open>TAILQ\<close>.
  \<^item> Trees: the locale \<open>ordered_tree\<close> states operations as those of a sorted list; it is interpreted on the
    red-black trees (with colours, black heights and the bound on the height after any operations, measured
    on the heap by \<open>rb_depth\<close>, whose fuel is the number of elements), on the splay trees (with
    what splaying brings to the root) and, through \<open>rbt_library\<close>, on the type-generic ones.
  \<^item> Runtime: \<open>getdelim\<close> stays in its buffer whatever allocation fails and a loop over \<open>getline\<close> yields
    the lines; \<open>vasprintf\<close> and \<open>syslog_r\<close> format or fail without leaking; \<open>err\<close> reports the \<open>errno\<close> of
    its call.
  \<^item> Windows: descriptors of files and sockets are never confused; socket errors become \<open>errno\<close>; \<open>poll\<close>
    asks for the sockets it is given, reports those the system names, returns in time, and wakes up when one
    becomes readable; directories are read completely and released, and the modes of their entries tell
    their types; locks exclude in every interleaving and no call is stuck; \<open>pwrite\<close> and \<open>pread\<close> are inverse; a socket
    pair is joined or closed; an alarm rings once.
  \<^item> Passwords: \<open>readpassphrase\<close> and the console restore terminal, signals and echo on every path, and
    return the line that was typed; its conversions are stated apart from the code (\<open>converted\<close>, \<open>c_locale_code\<close>).
  \<^item> Numbers: times subtract exactly, clocks convert without error in their range, what one
    system writes with the macros of \<open>endian.h\<close> every other reads back.

  \<^bold>\<open>Not modelled.\<close> Headers that only declare, rename or include (\<open>netdb.h\<close>, \<open>stdlib.h\<close>, \<open>win32netcompat.h\<close>
  and others); feature macros for MIPS and LoongArch; the functions \<open>_rb_*\<close> of OpenBSD's libc behind
  \<open>RBT_*\<close>, which are not in the repository; the test programs under \<open>tests\<close>, which call libraries that are
  not in the repository either (the functions of \<open>tests/compat\<close> are modelled), and the build system. The
  memory model has no weak ordering: steps of threads interleave.
\<close>

end
